(* ===== verification/Prelude.thy ===== *)
theory Prelude
  imports Main "HOL-Library.Word" "HOL-Library.Monad_Syntax"
begin

unbundle bit_operations_syntax

text \<open>
  Shared vocabulary of the development: the machine integer types of the C sources, byte
  strings, pointers, and the generic facts on lists, options and words that the component
  theories use.

  Conventions.  A C \<open>uintN_t\<close> is an \<open>N word\<close>; a \<open>size_t\<close> or a count that the code never
  lets wrap is a \<open>nat\<close>; a C pointer is an \<open>addr\<close>, with \<open>0\<close> for \<open>NULL\<close>.  A failed
  \<open>assert\<close>, a call of \<open>abort\<close> and a dereference of \<open>NULL\<close> are the value \<open>None\<close> of an option
  result, so that a theorem which states \<open>Some\<close> also states that none of them happens.
\<close>

type_synonym u8 = "8 word"
type_synonym u16 = "16 word"
type_synonym u32 = "32 word"
type_synonym u64 = "64 word"
type_synonym addr = nat
type_synonym bytes = "u8 list"

abbreviation (input) NULL :: addr where "NULL \<equiv> 0"

text \<open>Collections of rewrite rules, one per kind of fact that several components share.\<close>

named_theorems word_eval \<open>rules that evaluate word operations on numerals\<close>
named_theorems state_simps \<open>frame facts: what an operation leaves unchanged\<close>

subsection \<open>Assertions\<close>

text \<open>\<open>assert (c)\<close> of \<open>assert.h\<close>: the program stops unless \<open>c\<close> holds.\<close>

definition c_assert :: "bool \<Rightarrow> unit option" where
  "c_assert b = (if b then Some () else None)"

lemma c_assert_simps [simp]:
  "c_assert True = Some ()"
  "c_assert False = None"
  by (simp_all add: c_assert_def)

lemma c_assert_eq_Some [simp]: "c_assert b = Some u \<longleftrightarrow> b"
  by (simp add: c_assert_def)

lemma c_assert_bind_Some [simp]: "c_assert b \<bind> f = Some x \<longleftrightarrow> b \<and> f () = Some x"
  by (simp add: c_assert_def)

lemma c_assert_true: "b \<Longrightarrow> c_assert b = Some ()"
  by (simp add: c_assert_def)

lemma bind_eq_Some_iff: "m \<bind> f = Some y \<longleftrightarrow> (\<exists>x. m = Some x \<and> f x = Some y)"
  by (cases m) auto

subsection \<open>Lists\<close>

lemma take_Suc_upd: "i < length xs \<Longrightarrow> take (Suc i) (xs[i := v]) = take i xs @ [v]"
  by (simp add: take_Suc_conv_app_nth)

lemma list_update_app_mid: "(xs @ y # ys)[length xs := z] = xs @ z # ys"
  by simp

lemma in_set_nthE: "x \<in> set xs \<Longrightarrow> (\<And>i. i < length xs \<Longrightarrow> xs ! i = x \<Longrightarrow> P) \<Longrightarrow> P"
  by (auto simp: in_set_conv_nth)

lemma filter_neq_distinct: "distinct xs \<Longrightarrow> filter (\<lambda>y. y \<noteq> x) xs = remove1 x xs"
  by (induction xs) (auto simp: filter_id_conv)

subsection \<open>Words\<close>

lemma unat_ucast_up: "LENGTH('a) \<le> LENGTH('b) \<Longrightarrow> unat (ucast x :: 'b::len word) = unat x"
  for x :: "'a::len word"
  by transfer (simp add: min_def)

lemma ucast_up_eq_iff:
  "LENGTH('a) \<le> LENGTH('b) \<Longrightarrow> (ucast x :: 'b::len word) = ucast y \<longleftrightarrow> x = y"
  for x y :: "'a::len word"
  by (metis unat_ucast_up word_unat_eq_iff)

lemma xor_FFFFFFFF: "x XOR 0xFFFFFFFF = NOT x" for x :: u32
proof -
  have "(0xFFFFFFFF :: u32) = - 1" by simp
  then show ?thesis by (metis bit.xor_one_right)
qed

lemma xor_cancel_right: "x XOR k = y XOR k \<longleftrightarrow> x = y" for x y k :: "'a::len word"
proof
  assume "x XOR k = y XOR k"
  then have "(x XOR k) XOR k = (y XOR k) XOR k" by simp
  then show "x = y" by (simp add: xor.assoc)
qed simp

end
