(* ===== verification/Crc32.thy ===== *)
theory Crc32
  imports Prelude
begin

text \<open>
  The table-driven CRC-32 that both \<open>libvbucket/src/crc32.c\<close> and \<open>couchstore/src/crc32.c\<close>
  contain (the two tables are identical), and the two functions called \<open>hash_crc32\<close> built on
  it: libvbucket keeps 15 bits of the upper half of the checksum as the vbucket digest,
  couchstore stores the whole checksum in front of every chunk.

  The reference is the bitwise CRC with the reflected polynomial \<open>0xEDB88320\<close>.  The theory
  shows that the 256 table entries are the reference on one byte, that the table-driven loop
  is the bitwise one on every input, and what follows for the two digests.
\<close>

section \<open>The code\<close>

definition crc32tab :: "u32 list" where
  "crc32tab = [
     0x00000000, 0x77073096, 0xee0e612c, 0x990951ba,
     0x076dc419, 0x706af48f, 0xe963a535, 0x9e6495a3,
     0x0edb8832, 0x79dcb8a4, 0xe0d5e91e, 0x97d2d988,
     0x09b64c2b, 0x7eb17cbd, 0xe7b82d07, 0x90bf1d91,
     0x1db71064, 0x6ab020f2, 0xf3b97148, 0x84be41de,
     0x1adad47d, 0x6ddde4eb, 0xf4d4b551, 0x83d385c7,
     0x136c9856, 0x646ba8c0, 0xfd62f97a, 0x8a65c9ec,
     0x14015c4f, 0x63066cd9, 0xfa0f3d63, 0x8d080df5,
     0x3b6e20c8, 0x4c69105e, 0xd56041e4, 0xa2677172,
     0x3c03e4d1, 0x4b04d447, 0xd20d85fd, 0xa50ab56b,
     0x35b5a8fa, 0x42b2986c, 0xdbbbc9d6, 0xacbcf940,
     0x32d86ce3, 0x45df5c75, 0xdcd60dcf, 0xabd13d59,
     0x26d930ac, 0x51de003a, 0xc8d75180, 0xbfd06116,
     0x21b4f4b5, 0x56b3c423, 0xcfba9599, 0xb8bda50f,
     0x2802b89e, 0x5f058808, 0xc60cd9b2, 0xb10be924,
     0x2f6f7c87, 0x58684c11, 0xc1611dab, 0xb6662d3d,
     0x76dc4190, 0x01db7106, 0x98d220bc, 0xefd5102a,
     0x71b18589, 0x06b6b51f, 0x9fbfe4a5, 0xe8b8d433,
     0x7807c9a2, 0x0f00f934, 0x9609a88e, 0xe10e9818,
     0x7f6a0dbb, 0x086d3d2d, 0x91646c97, 0xe6635c01,
     0x6b6b51f4, 0x1c6c6162, 0x856530d8, 0xf262004e,
     0x6c0695ed, 0x1b01a57b, 0x8208f4c1, 0xf50fc457,
     0x65b0d9c6, 0x12b7e950, 0x8bbeb8ea, 0xfcb9887c,
     0x62dd1ddf, 0x15da2d49, 0x8cd37cf3, 0xfbd44c65,
     0x4db26158, 0x3ab551ce, 0xa3bc0074, 0xd4bb30e2,
     0x4adfa541, 0x3dd895d7, 0xa4d1c46d, 0xd3d6f4fb,
     0x4369e96a, 0x346ed9fc, 0xad678846, 0xda60b8d0,
     0x44042d73, 0x33031de5, 0xaa0a4c5f, 0xdd0d7cc9,
     0x5005713c, 0x270241aa, 0xbe0b1010, 0xc90c2086,
     0x5768b525, 0x206f85b3, 0xb966d409, 0xce61e49f,
     0x5edef90e, 0x29d9c998, 0xb0d09822, 0xc7d7a8b4,
     0x59b33d17, 0x2eb40d81, 0xb7bd5c3b, 0xc0ba6cad,
     0xedb88320, 0x9abfb3b6, 0x03b6e20c, 0x74b1d29a,
     0xead54739, 0x9dd277af, 0x04db2615, 0x73dc1683,
     0xe3630b12, 0x94643b84, 0x0d6d6a3e, 0x7a6a5aa8,
     0xe40ecf0b, 0x9309ff9d, 0x0a00ae27, 0x7d079eb1,
     0xf00f9344, 0x8708a3d2, 0x1e01f268, 0x6906c2fe,
     0xf762575d, 0x806567cb, 0x196c3671, 0x6e6b06e7,
     0xfed41b76, 0x89d32be0, 0x10da7a5a, 0x67dd4acc,
     0xf9b9df6f, 0x8ebeeff9, 0x17b7be43, 0x60b08ed5,
     0xd6d6a3e8, 0xa1d1937e, 0x38d8c2c4, 0x4fdff252,
     0xd1bb67f1, 0xa6bc5767, 0x3fb506dd, 0x48b2364b,
     0xd80d2bda, 0xaf0a1b4c, 0x36034af6, 0x41047a60,
     0xdf60efc3, 0xa867df55, 0x316e8eef, 0x4669be79,
     0xcb61b38c, 0xbc66831a, 0x256fd2a0, 0x5268e236,
     0xcc0c7795, 0xbb0b4703, 0x220216b9, 0x5505262f,
     0xc5ba3bbe, 0xb2bd0b28, 0x2bb45a92, 0x5cb36a04,
     0xc2d7ffa7, 0xb5d0cf31, 0x2cd99e8b, 0x5bdeae1d,
     0x9b64c2b0, 0xec63f226, 0x756aa39c, 0x026d930a,
     0x9c0906a9, 0xeb0e363f, 0x72076785, 0x05005713,
     0x95bf4a82, 0xe2b87a14, 0x7bb12bae, 0x0cb61b38,
     0x92d28e9b, 0xe5d5be0d, 0x7cdcefb7, 0x0bdbdf21,
     0x86d3d2d4, 0xf1d4e242, 0x68ddb3f8, 0x1fda836e,
     0x81be16cd, 0xf6b9265b, 0x6fb077e1, 0x18b74777,
     0x88085ae6, 0xff0f6a70, 0x66063bca, 0x11010b5c,
     0x8f659eff, 0xf862ae69, 0x616bffd3, 0x166ccf45,
     0xa00ae278, 0xd70dd2ee, 0x4e048354, 0x3903b3c2,
     0xa7672661, 0xd06016f7, 0x4969474d, 0x3e6e77db,
     0xaed16a4a, 0xd9d65adc, 0x40df0b66, 0x37d83bf0,
     0xa9bcae53, 0xdebb9ec5, 0x47b2cf7f, 0x30b5ffe9,
     0xbdbdf21c, 0xcabac28a, 0x53b39330, 0x24b4a3a6,
     0xbad03605, 0xcdd70693, 0x54de5729, 0x23d967bf,
     0xb3667a2e, 0xc4614ab8, 0x5d681b02, 0x2a6f2b94,
     0xb40bbe37, 0xc30c8ea1, 0x5a05df1b, 0x2d02ef8d]"

text \<open>
  One iteration of the loop of \<open>hash_crc32\<close>.  The C text indexes with
  \<open>(crc ^ (uint64_t)key[x]) & 0xff\<close>; \<open>key[x]\<close> is a \<open>char\<close>, so the conversion may sign-extend
  it, and the mask removes what the extension added.
\<close>

definition crc32_step :: "u8 \<Rightarrow> u32 \<Rightarrow> u32" where
  "crc32_step b crc =
     drop_bit 8 crc XOR crc32tab ! unat ((ucast crc XOR (scast b :: u64)) AND 0xff)"

fun crc32_loop :: "bytes \<Rightarrow> u32 \<Rightarrow> u32" where
  "crc32_loop [] crc = crc"
| "crc32_loop (b # bs) crc = crc32_loop bs (crc32_step b crc)"

definition hash_crc32 :: "bytes \<Rightarrow> u32" where
  "hash_crc32 key = drop_bit 16 (NOT (crc32_loop key 0xffffffff)) AND 0x7fff"

definition couch_hash_crc32 :: "bytes \<Rightarrow> u32" where
  "couch_hash_crc32 key = crc32_loop key 0xffffffff XOR 0xFFFFFFFF"

section \<open>The bitwise reference\<close>

definition crc_bit :: "u32 \<Rightarrow> u32" where
  "crc_bit c = drop_bit 1 c XOR (if bit c 0 then 0xEDB88320 else 0)"

definition crc_byte :: "u32 \<Rightarrow> u32" where
  "crc_byte c = crc_bit (crc_bit (crc_bit (crc_bit (crc_bit (crc_bit (crc_bit (crc_bit c)))))))"

fun crc32_ref :: "bytes \<Rightarrow> u32 \<Rightarrow> u32" where
  "crc32_ref [] c = c"
| "crc32_ref (b # bs) c = crc32_ref bs (crc_byte (c XOR ucast b))"


section \<open>The table is the reference on one byte\<close>

lemma crc_bit_xor: "crc_bit (x XOR y) = crc_bit x XOR crc_bit y"
  by (rule bit_word_eqI) (auto simp: crc_bit_def bit_simps)

lemma crc_byte_xor: "crc_byte (x XOR y) = crc_byte x XOR crc_byte y"
  by (simp add: crc_byte_def crc_bit_xor)

lemma crc_bit_even: "\<not> bit c 0 \<Longrightarrow> crc_bit c = drop_bit 1 c"
  by (simp add: crc_bit_def)

lemma crc_byte_high: "(\<And>i. i < 8 \<Longrightarrow> \<not> bit c i) \<Longrightarrow> crc_byte c = drop_bit 8 c"
  by (simp add: crc_byte_def crc_bit_even bit_simps numeral_eq_Suc)

lemma crc_byte_table: "map (\<lambda>n. crc_byte (of_nat n)) [0..<256] = crc32tab"
proof -
  have "map (\<lambda>n. crc_byte (of_nat n)) [0..<256] = map crc_byte (map of_nat [0..<256])"
    by simp
  also have "map of_nat [0..<256] = ([
      0, 1, 2, 3, 4, 5, 6, 7, 8, 9, 10, 11, 12, 13, 14, 15,
      16, 17, 18, 19, 20, 21, 22, 23, 24, 25, 26, 27, 28, 29, 30, 31,
      32, 33, 34, 35, 36, 37, 38, 39, 40, 41, 42, 43, 44, 45, 46, 47,
      48, 49, 50, 51, 52, 53, 54, 55, 56, 57, 58, 59, 60, 61, 62, 63,
      64, 65, 66, 67, 68, 69, 70, 71, 72, 73, 74, 75, 76, 77, 78, 79,
      80, 81, 82, 83, 84, 85, 86, 87, 88, 89, 90, 91, 92, 93, 94, 95,
      96, 97, 98, 99, 100, 101, 102, 103, 104, 105, 106, 107, 108, 109, 110, 111,
      112, 113, 114, 115, 116, 117, 118, 119, 120, 121, 122, 123, 124, 125, 126, 127,
      128, 129, 130, 131, 132, 133, 134, 135, 136, 137, 138, 139, 140, 141, 142, 143,
      144, 145, 146, 147, 148, 149, 150, 151, 152, 153, 154, 155, 156, 157, 158, 159,
      160, 161, 162, 163, 164, 165, 166, 167, 168, 169, 170, 171, 172, 173, 174, 175,
      176, 177, 178, 179, 180, 181, 182, 183, 184, 185, 186, 187, 188, 189, 190, 191,
      192, 193, 194, 195, 196, 197, 198, 199, 200, 201, 202, 203, 204, 205, 206, 207,
      208, 209, 210, 211, 212, 213, 214, 215, 216, 217, 218, 219, 220, 221, 222, 223,
      224, 225, 226, 227, 228, 229, 230, 231, 232, 233, 234, 235, 236, 237, 238, 239,
      240, 241, 242, 243, 244, 245, 246, 247, 248, 249, 250, 251, 252, 253, 254, 255] :: u32 list)"
    by (simp add: upt_conv_Cons)
  also have "map crc_byte \<dots> = crc32tab"
    by (simp add: crc32tab_def crc_byte_def crc_bit_def)
  finally show ?thesis .
qed

lemma crc32tab_nth: "n < 256 \<Longrightarrow> crc32tab ! n = crc_byte (of_nat n)"
  by (simp flip: crc_byte_table)

lemma length_crc32tab [simp]: "length crc32tab = 256"
  by (simp flip: crc_byte_table)

section \<open>The loop is the reference\<close>

lemma ff_mask: "(0xff :: 'a::len word) = mask 8"
  by (simp add: mask_numeral)

lemma crc32_index:
  "unat ((ucast c XOR (scast b :: u64)) AND 0xff) = unat ((c XOR ucast b) AND 0xff)"
  for c :: u32 and b :: u8
proof -
  have "(ucast c XOR (scast b :: u64)) AND 0xff = ucast ((c XOR ucast b) AND 0xff)"
    unfolding ff_mask
  proof (rule bit_word_eqI)
    fix n assume "n < LENGTH(64)"
    have "bit b (min 7 n) = bit b n" if "n < 8" using that by (cases "n = 7") (simp_all add: min_def)
    then show "bit ((ucast c XOR (scast b :: u64)) AND mask 8) n
        = bit (ucast ((c XOR ucast b) AND mask 8) :: u64) n"
      by (cases "n < 8") (simp_all add: bit_simps)
  qed
  then show ?thesis by (simp add: unat_ucast_up)
qed

lemma crc32_step_ref: "crc32_step b c = crc_byte (c XOR ucast b)"
proof -
  define x where "x = c XOR ucast b"
  have x: "x = (x AND NOT 0xff) XOR (x AND 0xff)"
    by (rule bit_word_eqI) (auto simp: bit_simps)
  have lt: "unat (x AND 0xff) < 256"
    using word_and_le1 [of x 255] by (simp add: word_le_nat_alt)
  have hi: "crc_byte (x AND NOT 0xff) = drop_bit 8 c"
  proof -
    have "crc_byte (x AND NOT 0xff) = drop_bit 8 (x AND NOT 0xff)"
      unfolding ff_mask by (rule crc_byte_high) (simp add: bit_simps)
    also have "\<dots> = drop_bit 8 c"
      unfolding ff_mask x_def
    proof (rule bit_word_eqI)
      fix n
      have "\<not> bit b (8 + n)" using bit_imp_le_length [of b "8 + n"] by auto
      moreover have "bit c (8 + n) \<Longrightarrow> n < 24" using bit_imp_le_length [of c "8 + n"] by simp
      ultimately show "bit (drop_bit 8 ((c XOR ucast b) AND NOT (mask 8))) n = bit (drop_bit 8 c) n"
        by (auto simp: bit_simps)
    qed
    finally show ?thesis .
  qed
  have "crc_byte x = crc_byte (x AND NOT 0xff) XOR crc_byte (x AND 0xff)"
    by (subst x) (rule crc_byte_xor)
  with hi lt show ?thesis
    by (simp add: crc32_step_def crc32_index crc32tab_nth x_def)
qed

lemma crc32_loop_ref: "crc32_loop key c = crc32_ref key c"
  by (induction key c rule: crc32_loop.induct) (simp_all add: crc32_step_ref)

lemma crc32_loop_append: "crc32_loop (xs @ ys) c = crc32_loop ys (crc32_loop xs c)"
  by (induction xs arbitrary: c) simp_all

lemma hash_crc32_bound: "hash_crc32 key < 0x8000"
proof -
  have "hash_crc32 key \<le> 0x7fff" unfolding hash_crc32_def by (rule word_and_le1)
  then show ?thesis by (simp add: word_le_nat_alt word_less_nat_alt)
qed

lemma hash_crc32_couch:
  "hash_crc32 key = drop_bit 16 (couch_hash_crc32 key) AND 0x7fff"
  by (simp add: hash_crc32_def couch_hash_crc32_def xor_FFFFFFFF)

lemma bit_crc_bit_31: "bit (crc_bit c) 31 = bit c 0"
proof -
  have "\<not> bit c 32" by (auto dest: bit_imp_le_length)
  then show ?thesis by (simp add: crc_bit_def bit_simps)
qed

lemma crc_bit_inj: "crc_bit x = crc_bit y \<Longrightarrow> x = y"
proof -
  assume eq: "crc_bit x = crc_bit y"
  then have b0: "bit x 0 = bit y 0" using bit_crc_bit_31 [of x] bit_crc_bit_31 [of y] by simp
  have "drop_bit 1 x = crc_bit x XOR (if bit x 0 then 0xEDB88320 else 0)"
    by (simp add: crc_bit_def xor.assoc)
  also have "\<dots> = crc_bit y XOR (if bit y 0 then 0xEDB88320 else 0)"
    by (simp only: eq b0)
  also have "\<dots> = drop_bit 1 y"
    by (simp add: crc_bit_def xor.assoc)
  finally have d: "drop_bit 1 x = drop_bit 1 y" .
  show "x = y"
  proof (rule bit_word_eqI)
    fix n
    have "bit (drop_bit 1 x) (n - 1) = bit (drop_bit 1 y) (n - 1)" using d by simp
    with b0 show "bit x n = bit y n" by (cases n) (simp_all add: bit_drop_bit_eq)
  qed
qed

lemma crc_bit_eq_iff: "crc_bit x = crc_bit y \<longleftrightarrow> x = y"
  using crc_bit_inj by blast

lemma crc_byte_inj: "crc_byte x = crc_byte y \<longleftrightarrow> x = y"
  by (simp only: crc_byte_def crc_bit_eq_iff)

lemma crc32_ref_inj: "crc32_ref key x = crc32_ref key y \<longleftrightarrow> x = y"
  by (induction key arbitrary: x y) (simp_all add: crc_byte_inj xor_cancel_right)

lemma crc32_loop_inj: "crc32_loop key x = crc32_loop key y \<longleftrightarrow> x = y"
  by (simp add: crc32_loop_ref crc32_ref_inj)

lemma crc32_step_inj_byte: "crc32_step a c = crc32_step b c \<longleftrightarrow> a = b"
  by (simp add: crc32_step_ref crc_byte_inj xor.commute [of c] xor_cancel_right ucast_up_eq_iff)

text \<open>
  C22.  The table-driven loop of both \<open>hash_crc32\<close> functions computes the bitwise CRC-32 with
  polynomial \<open>0xEDB88320\<close> on every byte string: couchstore returns its complement, libvbucket
  the low 15 bits of the complement's upper half.
\<close>

theorem hash_crc32_reference:
  "couch_hash_crc32 key = NOT (crc32_ref key 0xffffffff) \<and>
   hash_crc32 key = drop_bit 16 (NOT (crc32_ref key 0xffffffff)) AND 0x7fff"
  by (simp add: couch_hash_crc32_def hash_crc32_def crc32_loop_ref xor_FFFFFFFF)

text \<open>
  The chunk checksum of couchstore detects every corruption that is confined to one
  byte: two chunks that agree outside one position have equal checksums only if they agree
  there too.
\<close>

theorem couch_crc_detects_byte:
  "couch_hash_crc32 (xs @ a # ys) = couch_hash_crc32 (xs @ b # ys) \<longleftrightarrow> a = b"
  by (simp add: couch_hash_crc32_def xor_cancel_right crc32_loop_append crc32_loop_inj
      crc32_step_inj_byte)

end
