(* ===== verification/Md5.thy ===== *)
theory Md5
  imports Prelude
begin

text \<open>
  The RSA reference MD5 that libvbucket compiles in (\<open>libvbucket/src/rfc1321/md5c.c\<close>; couchstore
  carries the same file) and the wrappers of \<open>libvbucket/src/ketama.c\<close> that hash keys and
  server names for the ketama continuum.

  The specification is MD5 on a whole message: pad, cut into 64-byte blocks, chain the
  compression function.  The theory shows that the streaming interface (\<open>MD5Init\<close>,
  \<open>MD5Update\<close> on pieces of any size, \<open>MD5Final\<close>) computes it, including the two-word bit
  counter with its carry and the partial-block buffer.
\<close>

section \<open>The code\<close>

subsection \<open>Byte order\<close>

fun Encode :: "u32 list \<Rightarrow> bytes" where
  "Encode [] = []"
| "Encode (w # ws) =
     ucast (w AND 0xff) # ucast (drop_bit 8 w AND 0xff) #
     ucast (drop_bit 16 w AND 0xff) # ucast (drop_bit 24 w AND 0xff) # Encode ws"

fun Decode :: "bytes \<Rightarrow> u32 list" where
  "Decode (b0 # b1 # b2 # b3 # bs) =
     (ucast b0 OR push_bit 8 (ucast b1) OR push_bit 16 (ucast b2) OR push_bit 24 (ucast b3))
       # Decode bs"
| "Decode _ = []"

text \<open>\<open>MD5_memcpy (&dst[i], src, length src)\<close>.\<close>

definition MD5_memcpy :: "nat \<Rightarrow> bytes \<Rightarrow> bytes \<Rightarrow> bytes" where
  "MD5_memcpy i src dst = take i dst @ src @ drop (i + length src) dst"

subsection \<open>The compression function\<close>

definition F_md5 :: "u32 \<Rightarrow> u32 \<Rightarrow> u32 \<Rightarrow> u32" where
  "F_md5 x y z = (x AND y) OR (NOT x AND z)"

definition G_md5 :: "u32 \<Rightarrow> u32 \<Rightarrow> u32 \<Rightarrow> u32" where
  "G_md5 x y z = (x AND z) OR (y AND NOT z)"

definition H_md5 :: "u32 \<Rightarrow> u32 \<Rightarrow> u32 \<Rightarrow> u32" where
  "H_md5 x y z = x XOR y XOR z"

definition I_md5 :: "u32 \<Rightarrow> u32 \<Rightarrow> u32 \<Rightarrow> u32" where
  "I_md5 x y z = y XOR (x OR NOT z)"

definition ROTATE_LEFT :: "u32 \<Rightarrow> nat \<Rightarrow> u32" where
  "ROTATE_LEFT x n = push_bit n x OR drop_bit (32 - n) x"

definition FF :: "u32 \<Rightarrow> u32 \<Rightarrow> u32 \<Rightarrow> u32 \<Rightarrow> u32 \<Rightarrow> nat \<Rightarrow> u32 \<Rightarrow> u32" where
  "FF a b c d x s ac = ROTATE_LEFT (a + (F_md5 b c d + x + ac)) s + b"

definition GG :: "u32 \<Rightarrow> u32 \<Rightarrow> u32 \<Rightarrow> u32 \<Rightarrow> u32 \<Rightarrow> nat \<Rightarrow> u32 \<Rightarrow> u32" where
  "GG a b c d x s ac = ROTATE_LEFT (a + (G_md5 b c d + x + ac)) s + b"

definition HH :: "u32 \<Rightarrow> u32 \<Rightarrow> u32 \<Rightarrow> u32 \<Rightarrow> u32 \<Rightarrow> nat \<Rightarrow> u32 \<Rightarrow> u32" where
  "HH a b c d x s ac = ROTATE_LEFT (a + (H_md5 b c d + x + ac)) s + b"

definition II :: "u32 \<Rightarrow> u32 \<Rightarrow> u32 \<Rightarrow> u32 \<Rightarrow> u32 \<Rightarrow> nat \<Rightarrow> u32 \<Rightarrow> u32" where
  "II a b c d x s ac = ROTATE_LEFT (a + (I_md5 b c d + x + ac)) s + b"

type_synonym md5_state = "u32 \<times> u32 \<times> u32 \<times> u32"

definition MD5Transform :: "md5_state \<Rightarrow> bytes \<Rightarrow> md5_state" where
  "MD5Transform st block =
     (let (s0, s1, s2, s3) = st;
      a = s0; b = s1; c = s2; d = s3;
      x = Decode block;
      a = FF a b c d (x ! 0) 7 0xd76aa478;
      d = FF d a b c (x ! 1) 12 0xe8c7b756;
      c = FF c d a b (x ! 2) 17 0x242070db;
      b = FF b c d a (x ! 3) 22 0xc1bdceee;
      a = FF a b c d (x ! 4) 7 0xf57c0faf;
      d = FF d a b c (x ! 5) 12 0x4787c62a;
      c = FF c d a b (x ! 6) 17 0xa8304613;
      b = FF b c d a (x ! 7) 22 0xfd469501;
      a = FF a b c d (x ! 8) 7 0x698098d8;
      d = FF d a b c (x ! 9) 12 0x8b44f7af;
      c = FF c d a b (x ! 10) 17 0xffff5bb1;
      b = FF b c d a (x ! 11) 22 0x895cd7be;
      a = FF a b c d (x ! 12) 7 0x6b901122;
      d = FF d a b c (x ! 13) 12 0xfd987193;
      c = FF c d a b (x ! 14) 17 0xa679438e;
      b = FF b c d a (x ! 15) 22 0x49b40821;
      a = GG a b c d (x ! 1) 5 0xf61e2562;
      d = GG d a b c (x ! 6) 9 0xc040b340;
      c = GG c d a b (x ! 11) 14 0x265e5a51;
      b = GG b c d a (x ! 0) 20 0xe9b6c7aa;
      a = GG a b c d (x ! 5) 5 0xd62f105d;
      d = GG d a b c (x ! 10) 9 0x2441453;
      c = GG c d a b (x ! 15) 14 0xd8a1e681;
      b = GG b c d a (x ! 4) 20 0xe7d3fbc8;
      a = GG a b c d (x ! 9) 5 0x21e1cde6;
      d = GG d a b c (x ! 14) 9 0xc33707d6;
      c = GG c d a b (x ! 3) 14 0xf4d50d87;
      b = GG b c d a (x ! 8) 20 0x455a14ed;
      a = GG a b c d (x ! 13) 5 0xa9e3e905;
      d = GG d a b c (x ! 2) 9 0xfcefa3f8;
      c = GG c d a b (x ! 7) 14 0x676f02d9;
      b = GG b c d a (x ! 12) 20 0x8d2a4c8a;
      a = HH a b c d (x ! 5) 4 0xfffa3942;
      d = HH d a b c (x ! 8) 11 0x8771f681;
      c = HH c d a b (x ! 11) 16 0x6d9d6122;
      b = HH b c d a (x ! 14) 23 0xfde5380c;
      a = HH a b c d (x ! 1) 4 0xa4beea44;
      d = HH d a b c (x ! 4) 11 0x4bdecfa9;
      c = HH c d a b (x ! 7) 16 0xf6bb4b60;
      b = HH b c d a (x ! 10) 23 0xbebfbc70;
      a = HH a b c d (x ! 13) 4 0x289b7ec6;
      d = HH d a b c (x ! 0) 11 0xeaa127fa;
      c = HH c d a b (x ! 3) 16 0xd4ef3085;
      b = HH b c d a (x ! 6) 23 0x4881d05;
      a = HH a b c d (x ! 9) 4 0xd9d4d039;
      d = HH d a b c (x ! 12) 11 0xe6db99e5;
      c = HH c d a b (x ! 15) 16 0x1fa27cf8;
      b = HH b c d a (x ! 2) 23 0xc4ac5665;
      a = II a b c d (x ! 0) 6 0xf4292244;
      d = II d a b c (x ! 7) 10 0x432aff97;
      c = II c d a b (x ! 14) 15 0xab9423a7;
      b = II b c d a (x ! 5) 21 0xfc93a039;
      a = II a b c d (x ! 12) 6 0x655b59c3;
      d = II d a b c (x ! 3) 10 0x8f0ccc92;
      c = II c d a b (x ! 10) 15 0xffeff47d;
      b = II b c d a (x ! 1) 21 0x85845dd1;
      a = II a b c d (x ! 8) 6 0x6fa87e4f;
      d = II d a b c (x ! 15) 10 0xfe2ce6e0;
      c = II c d a b (x ! 6) 15 0xa3014314;
      b = II b c d a (x ! 13) 21 0x4e0811a1;
      a = II a b c d (x ! 4) 6 0xf7537e82;
      d = II d a b c (x ! 11) 10 0xbd3af235;
      c = II c d a b (x ! 2) 15 0x2ad7d2bb;
      b = II b c d a (x ! 9) 21 0xeb86d391
      in (s0 + a, s1 + b, s2 + c, s3 + d))"

subsection \<open>The context and the streaming interface\<close>

record MD5_CTX =
  state :: md5_state
  count0 :: u32
  count1 :: u32
  buffer :: bytes

definition MD5Init :: "bytes \<Rightarrow> MD5_CTX" where
  "MD5Init buf = \<lparr>state = (0x67452301, 0xefcdab89, 0x98badcfe, 0x10325476),
     count0 = 0, count1 = 0, buffer = buf\<rparr>"

text \<open>The loop \<open>for (i = partLen; i + 63 < inputLen; i += 64)\<close>.\<close>

function md5_update_loop :: "md5_state \<Rightarrow> bytes \<Rightarrow> nat \<Rightarrow> md5_state \<times> nat" where
  "md5_update_loop st input i =
     (if i + 63 < length input
      then md5_update_loop (MD5Transform st (take 64 (drop i input))) input (i + 64)
      else (st, i))"
  by pat_completeness auto
termination
  by (relation "measure (\<lambda>(st, input, i). length input - i)") auto

definition MD5Update :: "MD5_CTX \<Rightarrow> bytes \<Rightarrow> MD5_CTX" where
  "MD5Update ctx input =
     (let inputLen = of_nat (length input) :: u32;
          index = unat (drop_bit 3 (count0 ctx) AND 0x3F);
          c0 = count0 ctx + push_bit 3 inputLen;
          c1 = (if c0 < push_bit 3 inputLen then count1 ctx + 1 else count1 ctx);
          c1 = c1 + drop_bit 29 inputLen;
          partLen = 64 - index;
          (st, buf, index, i) =
            (if length input \<ge> partLen then
               let buf = MD5_memcpy index (take partLen input) (buffer ctx);
                   (st, i) = md5_update_loop (MD5Transform (state ctx) buf) input partLen
               in (st, buf, 0, i)
             else (state ctx, buffer ctx, index, 0))
      in \<lparr>state = st, count0 = c0, count1 = c1, buffer = MD5_memcpy index (drop i input) buf\<rparr>)"

definition PADDING :: bytes where
  "PADDING = 0x80 # replicate 63 0"

definition MD5Final :: "MD5_CTX \<Rightarrow> bytes" where
  "MD5Final ctx =
     (let bits = Encode [count0 ctx, count1 ctx];
          index = unat (drop_bit 3 (count0 ctx) AND 0x3f);
          padLen = (if index < 56 then 56 - index else 120 - index);
          ctx = MD5Update ctx (take padLen PADDING);
          ctx = MD5Update ctx bits;
          (s0, s1, s2, s3) = state ctx
      in Encode [s0, s1, s2, s3])"

text \<open>
  \<open>hash_md5\<close> runs on an uninitialised stack context; \<open>buf\<close> is whatever its buffer holds.
\<close>

definition hash_md5 :: "bytes \<Rightarrow> bytes \<Rightarrow> bytes" where
  "hash_md5 buf key = MD5Final (MD5Update (MD5Init buf) key)"

definition hash_md5_update :: "MD5_CTX option \<Rightarrow> bytes \<Rightarrow> MD5_CTX" where
  "hash_md5_update ctx key =
     MD5Update (case ctx of None \<Rightarrow> MD5Init (replicate 64 0) | Some c \<Rightarrow> c) key"

definition hash_md5_final :: "MD5_CTX option \<Rightarrow> bytes option" where
  "hash_md5_final ctx = map_option MD5Final ctx"

definition hash_ketama :: "bytes \<Rightarrow> bytes \<Rightarrow> u32" where
  "hash_ketama buf key =
     (let digest = hash_md5 buf key
      in push_bit 24 (ucast (digest ! 3)) OR push_bit 16 (ucast (digest ! 2))
         OR push_bit 8 (ucast (digest ! 1)) OR ucast (digest ! 0))"

declare md5_update_loop.simps [simp del]

section \<open>MD5 on a whole message\<close>

function md5_chain :: "md5_state \<Rightarrow> bytes \<Rightarrow> md5_state" where
  "md5_chain st m =
     (if length m < 64 then st else md5_chain (MD5Transform st (take 64 m)) (drop 64 m))"
  by pat_completeness auto
termination by (relation "measure (\<lambda>(st, m). length m)") auto

declare md5_chain.simps [simp del]

definition md5_iv :: md5_state where
  "md5_iv = (0x67452301, 0xefcdab89, 0x98badcfe, 0x10325476)"

definition md5_padded :: "bytes \<Rightarrow> bytes" where
  "md5_padded m = m @ 0x80 # replicate (nat ((55 - int (length m)) mod 64)) 0
     @ map (\<lambda>i. ucast (drop_bit (8 * i) (of_nat (8 * length m) :: u64))) [0..<8]"

definition md5_spec :: "bytes \<Rightarrow> bytes" where
  "md5_spec m = (let (s0, s1, s2, s3) = md5_chain md5_iv (md5_padded m) in Encode [s0, s1, s2, s3])"

lemma md5_chain_short: "length m < 64 \<Longrightarrow> md5_chain st m = st"
  by (simp add: md5_chain.simps)

lemma md5_chain_append:
  "64 dvd length a \<Longrightarrow> md5_chain st (a @ b) = md5_chain (md5_chain st a) b"
proof (induction st a rule: md5_chain.induct)
  case (1 st m)
  show ?case
  proof (cases "length m < 64")
    case True
    with "1.prems" have "m = []" using nat_dvd_not_less by auto
    then show ?thesis by (simp add: md5_chain.simps [of st "[]"])
  next
    case False
    have "64 dvd length (drop 64 m)" using "1.prems" False by (simp add: dvd_diff_nat)
    with "1.IH" False show ?thesis
      by (simp add: md5_chain.simps [of st m] md5_chain.simps [of st "m @ b"])
  qed
qed

lemma md5_update_loop_chain:
  "i \<le> length input \<Longrightarrow>
   md5_update_loop st input i
     = (md5_chain st (drop i input), i + 64 * ((length input - i) div 64))"
proof (induction st input i rule: md5_update_loop.induct)
  case (1 st input i)
  show ?case
  proof (cases "i + 63 < length input")
    case True
    then obtain k where k: "length input = i + 64 + k"
      using le_Suc_ex [of "i + 64" "length input"] by auto
    then have "(length input - i) div 64 = Suc ((length input - (i + 64)) div 64)"
      and "\<not> length input - i < 64" by simp_all
    with True "1.IH" show ?thesis
      by (simp add: md5_update_loop.simps [of st input i] md5_chain.simps [of st "drop i input"]
          add.commute [of 64 i])
  next
    case False
    then show ?thesis
      by (simp add: md5_update_loop.simps [of st input i] md5_chain_short)
  qed
qed

section \<open>The streaming interface computes it\<close>

text \<open>The part of the message behind the last full block.\<close>

definition md5_tail :: "bytes \<Rightarrow> bytes" where
  "md5_tail m = drop (64 * (length m div 64)) m"

text \<open>What a context stands for: the message fed so far.\<close>

definition md5_rel :: "MD5_CTX \<Rightarrow> bytes \<Rightarrow> bool" where
  "md5_rel ctx m \<longleftrightarrow>
     state ctx = md5_chain md5_iv m \<and>
     count0 ctx = of_nat (8 * length m) \<and>
     count1 ctx = of_nat (8 * length m div 2 ^ 32) \<and>
     length (buffer ctx) = 64 \<and>
     take (length m mod 64) (buffer ctx) = md5_tail m"

lemma md5_rel_init: "length buf = 64 \<Longrightarrow> md5_rel (MD5Init buf) []"
  by (simp add: md5_rel_def MD5Init_def md5_tail_def md5_iv_def md5_chain_short)

lemma unat_bits_3_6: "unat (drop_bit 3 w AND 0x3F) = unat w div 8 mod 64" for w :: u32
proof -
  have "drop_bit 3 w AND 0x3F = take_bit 6 (drop_bit 3 w)"
    by (simp add: take_bit_eq_mask mask_numeral)
  moreover have "unat w < 2 ^ LENGTH(32)" by (rule unsigned_less)
  ultimately show ?thesis
    by (simp only: unsigned_take_bit_eq unsigned_drop_bit_eq)
      (simp add: take_bit_eq_mod drop_bit_eq_div)
qed

lemma md5_index: "unat (drop_bit 3 (of_nat (8 * n) :: u32) AND 0x3F) = n mod 64"
proof -
  have "unat (of_nat (8 * n) :: u32) div 8 = (8 * n mod 2 ^ 32) div 8"
    by (simp only: unat_of_nat) simp
  also have "\<dots> = n mod 2 ^ 29"
    using mult_mod_right [of 8 n "2 ^ 29"] by simp
  finally show ?thesis
    by (simp only: unat_bits_3_6) (simp add: mod_mod_cancel)
qed

lemma md5_count0: "(of_nat n + push_bit 3 (of_nat l) :: u32) = of_nat (n + 8 * l)"
  by (simp add: push_bit_eq_mult mult.commute)

lemma of_nat_unat_same: "of_nat (unat w) = w" for w :: "'a::len word"
  by (simp add: of_nat_unat)

lemma carry_arith:
  "a < m \<Longrightarrow> b < m \<Longrightarrow>
   ((if a + b < m then a + b else a + b - m) < b) = (m \<le> a + b)" for a b m :: nat
  by auto

lemma mod_add_cases:
  "0 < m \<Longrightarrow> (n + k) mod m = (if n mod m + k mod m < m then n mod m + k mod m
     else n mod m + k mod m - m)" for n k m :: nat
proof -
  assume m: "0 < m"
  define a b where "a = n mod m" and "b = k mod m"
  have ab: "a < m" "b < m" using m by (simp_all add: a_def b_def)
  have "(n + k) mod m = (a + b) mod m" by (simp add: a_def b_def mod_add_eq)
  also have "\<dots> = (if a + b < m then a + b else a + b - m)"
    using ab by (auto simp: le_mod_geq)
  finally show ?thesis by (simp add: a_def b_def)
qed

lemma div_add_carry:
  "0 < m \<Longrightarrow> (n + k) div m = n div m + k div m + (if m \<le> n mod m + k mod m then 1 else 0)"
  for n k m :: nat
proof -
  assume m: "0 < m"
  define a b where "a = n mod m" and "b = k mod m"
  have ab: "a < m" "b < m" using m by (simp_all add: a_def b_def)
  have "(a + b) div m = (if m \<le> a + b then 1 else 0)"
    using ab by (auto simp: le_div_geq)
  then show ?thesis unfolding a_def b_def by (subst div_add1_eq) simp
qed

lemma md5_carry:
  "((of_nat n + of_nat k :: u32) < of_nat k) = (2 ^ 32 \<le> n mod 2 ^ 32 + k mod 2 ^ 32)"
proof -
  let ?M = "2 ^ 32 :: nat"
  have "((of_nat n + of_nat k :: u32) < of_nat k) = ((n + k) mod ?M < k mod ?M)"
    by (simp add: word_less_nat_alt unsigned_of_nat take_bit_eq_mod flip: of_nat_add)
  also have "\<dots> = (?M \<le> n mod ?M + k mod ?M)"
    by (subst mod_add_cases, simp, rule carry_arith) (rule mod_less_divisor, simp)+
  finally show ?thesis .
qed

lemma md5_count1:
  assumes "l < 2 ^ 32"
  shows "of_nat (n div 2 ^ 32)
         + (if (of_nat n + push_bit 3 (of_nat l) :: u32) < push_bit 3 (of_nat l) then 1 else 0)
         + drop_bit 29 (of_nat l :: u32) = (of_nat ((n + 8 * l) div 2 ^ 32) :: u32)"
proof -
  let ?M = "2 ^ 32 :: nat"
  have p: "push_bit 3 (of_nat l) = (of_nat (8 * l) :: u32)"
    by (simp add: push_bit_eq_mult mult.commute)
  have d: "drop_bit 29 (of_nat l :: u32) = of_nat (8 * l div ?M)"
  proof -
    have "unat (of_nat l :: u32) = l" using assms by (simp only: unat_of_nat) simp
    then have "unat (drop_bit 29 (of_nat l :: u32)) = l div 2 ^ 29"
      by (simp only: unat_drop_bit_eq) (simp add: drop_bit_eq_div)
    then have "drop_bit 29 (of_nat l :: u32) = of_nat (l div 2 ^ 29)"
      by (metis of_nat_unat_same)
    also have "l div 2 ^ 29 = 8 * l div ?M"
      using div_mult_mult1 [of 8 l "2 ^ 29"] by simp
    finally show ?thesis .
  qed
  have "(n + 8 * l) div ?M = n div ?M + 8 * l div ?M
      + (if ?M \<le> n mod ?M + 8 * l mod ?M then 1 else 0)"
    by (rule div_add_carry) simp
  then show ?thesis
    unfolding p d md5_carry by (simp add: add_ac)
qed

lemma length_memcpy: "i + length src \<le> length dst \<Longrightarrow> length (MD5_memcpy i src dst) = length dst"
  by (simp add: MD5_memcpy_def)

lemma take_memcpy:
  "i + length src \<le> length dst \<Longrightarrow>
   take (i + length src) (MD5_memcpy i src dst) = take i dst @ src"
  by (simp add: MD5_memcpy_def)

lemma length_md5_tail: "length (md5_tail m) = length m mod 64"
  by (simp add: md5_tail_def minus_mult_div_eq_mod)

lemma md5_tail_prefix:
  obtains a where "m = a @ md5_tail m" "64 dvd length a" "length a = 64 * (length m div 64)"
proof
  show "m = take (64 * (length m div 64)) m @ md5_tail m" by (simp add: md5_tail_def)
  show "length (take (64 * (length m div 64)) m) = 64 * (length m div 64)" by simp
  then show "64 dvd length (take (64 * (length m div 64)) m)" by simp
qed

lemma md5_tail_append: "64 dvd length a \<Longrightarrow> md5_tail (a @ b) = md5_tail b"
proof -
  assume "64 dvd length a"
  then obtain k where k: "length a = 64 * k" by (elim dvdE)
  then show ?thesis by (simp add: md5_tail_def)
qed

lemma md5_chain_tail:
  "md5_chain st (m @ x) = md5_chain (md5_chain st m) (md5_tail m @ x)"
proof -
  obtain a where a: "m = a @ md5_tail m" "64 dvd length a" by (rule md5_tail_prefix)
  have "md5_chain st m = md5_chain st a"
    using a md5_chain_append [OF a(2), of st "md5_tail m"]
    by (simp add: md5_chain_short length_md5_tail)
  moreover have "md5_chain st (m @ x) = md5_chain (md5_chain st a) (md5_tail m @ x)"
    using a(1) md5_chain_append [OF a(2), of st "md5_tail m @ x"] by (metis append.assoc)
  ultimately show ?thesis by simp
qed

lemma md5_tail_tail: "md5_tail (m @ x) = md5_tail (md5_tail m @ x)"
proof -
  obtain a where a: "m = a @ md5_tail m" "64 dvd length a" by (rule md5_tail_prefix)
  then show ?thesis using md5_tail_append [OF a(2), of "md5_tail m @ x"] by (metis append.assoc)
qed


lemma MD5Update_short:
  assumes "unat (drop_bit 3 (count0 ctx) AND 0x3F) = length t" and "take (length t) (buffer ctx) = t"
    and "length (buffer ctx) = 64" and "length t + length x < 64"
  shows "state (MD5Update ctx x) = state ctx"
    and "take (length t + length x) (buffer (MD5Update ctx x)) = t @ x"
    and "length (buffer (MD5Update ctx x)) = 64"
proof -
  have "\<not> 64 - length t \<le> length x" using assms(4) by simp
  then show "state (MD5Update ctx x) = state ctx"
    and "take (length t + length x) (buffer (MD5Update ctx x)) = t @ x"
    and "length (buffer (MD5Update ctx x)) = 64"
    using assms take_memcpy [of "length t" x "buffer ctx"] length_memcpy [of "length t" x "buffer ctx"]
    by (simp_all only: MD5Update_def Let_def if_False prod.case) simp_all
qed

lemma MD5Update_long:
  assumes "unat (drop_bit 3 (count0 ctx) AND 0x3F) = length t" and "take (length t) (buffer ctx) = t"
    and "length (buffer ctx) = 64" and "length t < 64" and "64 \<le> length t + length x"
  shows "state (MD5Update ctx x) = md5_chain (state ctx) (t @ x)"
    and "take (length (t @ x) mod 64) (buffer (MD5Update ctx x)) = md5_tail (t @ x)"
    and "length (buffer (MD5Update ctx x)) = 64"
proof -
  let ?p = "64 - length t"
  let ?buf = "MD5_memcpy (length t) (take ?p x) (buffer ctx)"
  let ?i = "?p + 64 * ((length x - ?p) div 64)"
  have buf: "?buf = t @ take ?p x"
    using assms by (simp add: MD5_memcpy_def)
  have px: "?p \<le> length x" using assms by simp
  have loop: "md5_update_loop (MD5Transform (state ctx) ?buf) x ?p
      = (md5_chain (MD5Transform (state ctx) ?buf) (drop ?p x), ?i)"
    using px by (rule md5_update_loop_chain)
  have upd: "state (MD5Update ctx x) = md5_chain (MD5Transform (state ctx) ?buf) (drop ?p x)"
    "buffer (MD5Update ctx x) = MD5_memcpy 0 (drop ?i x) ?buf"
    using px loop assms(1) by (simp_all add: MD5Update_def Let_def)
  have tl: "drop ?i x = md5_tail (drop ?p x)"
    by (simp add: md5_tail_def add.commute)
  have split: "md5_tail (t @ x) = md5_tail (drop ?p x)"
  proof -
    have "md5_tail ((t @ take ?p x) @ drop ?p x) = md5_tail (drop ?p x)"
      by (rule md5_tail_append) (use assms in simp)
    then show ?thesis by simp
  qed
  show "state (MD5Update ctx x) = md5_chain (state ctx) (t @ x)"
    using assms by (simp add: upd buf md5_chain.simps [of "state ctx" "t @ x"])
  have len: "length (drop ?i x) = length (t @ x) mod 64"
    unfolding tl split [symmetric] by (rule length_md5_tail)
  have b64: "length ?buf = 64" using assms px by (simp add: buf)
  have le: "0 + length (drop ?i x) \<le> length ?buf"
    unfolding len b64 by simp
  show "take (length (t @ x) mod 64) (buffer (MD5Update ctx x)) = md5_tail (t @ x)"
    using take_memcpy [OF le] by (simp only: upd(2) split flip: len tl) simp
  show "length (buffer (MD5Update ctx x)) = 64"
    using length_memcpy [OF le] b64 by (simp add: upd(2))
qed

lemma MD5Update_count:
  "count0 (MD5Update ctx x) = count0 ctx + push_bit 3 (of_nat (length x))"
  "count1 (MD5Update ctx x) = count1 ctx
     + (if count0 ctx + push_bit 3 (of_nat (length x)) < push_bit 3 (of_nat (length x)) then 1 else 0)
     + drop_bit 29 (of_nat (length x))"
  by (simp_all add: MD5Update_def Let_def split_beta)

lemma md5_rel_update:
  assumes rel: "md5_rel ctx m" and len: "length x < 2 ^ 32"
  shows "md5_rel (MD5Update ctx x) (m @ x)"
proof -
  let ?t = "md5_tail m"
  note r = rel [unfolded md5_rel_def]
  have idx: "unat (drop_bit 3 (count0 ctx) AND 0x3F) = length ?t"
    using r by (simp only: md5_index length_md5_tail)
  have pre: "take (length ?t) (buffer ctx) = ?t" "length (buffer ctx) = 64" "length ?t < 64"
    using r by (simp_all add: length_md5_tail)
  have lmod: "length (m @ x) mod 64 = length (?t @ x) mod 64"
    by (simp add: length_md5_tail mod_add_left_eq)
  have "state (MD5Update ctx x) = md5_chain (state ctx) (?t @ x) \<and>
    take (length (?t @ x) mod 64) (buffer (MD5Update ctx x)) = md5_tail (?t @ x) \<and>
    length (buffer (MD5Update ctx x)) = 64"
  proof (cases "length ?t + length x < 64")
    case True
    have "md5_chain (state ctx) (?t @ x) = state ctx" "md5_tail (?t @ x) = ?t @ x"
      using True by (simp_all add: md5_chain_short md5_tail_def)
    then show ?thesis using MD5Update_short [OF idx pre(1,2) True] True by simp
  next
    case False
    then show ?thesis using MD5Update_long [OF idx pre] by simp
  qed
  moreover have "count0 (MD5Update ctx x) = of_nat (8 * length (m @ x))"
  proof -
    have "count0 (MD5Update ctx x) = of_nat (8 * length m) + push_bit 3 (of_nat (length x))"
      using r by (simp only: MD5Update_count)
    also have "\<dots> = of_nat (8 * length m + 8 * length x)" by (rule md5_count0)
    finally show ?thesis by (simp add: distrib_left)
  qed
  moreover have "count1 (MD5Update ctx x) = of_nat (8 * length (m @ x) div 2 ^ 32)"
  proof -
    have c: "count0 ctx = of_nat (8 * length m)" "count1 ctx = of_nat (8 * length m div 2 ^ 32)"
      using r by blast+
    have "count1 (MD5Update ctx x) = of_nat ((8 * length m + 8 * length x) div 2 ^ 32)"
      unfolding MD5Update_count c by (rule md5_count1 [OF len])
    then show ?thesis by (simp only: length_append distrib_left)
  qed
  ultimately show ?thesis
    using r lmod by (simp only: md5_rel_def md5_chain_tail [of md5_iv m x] md5_tail_tail [of m x])
qed


lemma md5_pad_len:
  "(if n mod 64 < 56 then 56 - n mod 64 else 120 - n mod 64) = Suc (nat ((55 - int n) mod 64))"
proof -
  define r q where "r = n mod 64" and "q = n div 64"
  have "n = 64 * q + r" by (simp add: r_def q_def)
  from arg_cong [OF this, of int] have r: "r < 64" "int n = 64 * int q + int r"
    by (simp_all add: r_def)
  have "(55 - int n) mod 64 = (55 - int r) mod 64"
    using mod_mult_self2 [of "55 - int r" 64 "- int q"] by (simp add: r(2) algebra_simps)
  also have "\<dots> = (if r < 56 then 55 - int r else 119 - int r)"
  proof (cases "r < 56")
    case True
    then show ?thesis by (simp add: mod_pos_pos_trivial)
  next
    case False
    have "(55 - int r) mod 64 = (55 - int r + 64) mod 64" by (simp only: mod_add_self2)
    also have "\<dots> = 119 - int r" using False r(1) by (simp add: mod_pos_pos_trivial)
    finally show ?thesis using False by simp
  qed
  finally show ?thesis by (auto simp: r_def [symmetric] r(1) Suc_nat_eq_nat_zadd1 nat_diff_distrib)
qed

lemma take_PADDING: "k < 64 \<Longrightarrow> take (Suc k) PADDING = 0x80 # replicate k 0"
  by (simp add: PADDING_def)

lemma Encode_length: "length (Encode ws) = 4 * length ws"
  by (induction ws) simp_all

lemma upt_0_8: "[0..<8] = [0, 1, 2, 3, 4, 5, 6, 7::nat]"
  by (simp add: upt_rec)

lemma byte_of_counts:
  "k \<le> 24 \<Longrightarrow> (ucast (drop_bit k (of_nat n :: u32) AND 0xff) :: u8) = ucast (drop_bit k (of_nat n :: u64))"
  "k \<le> 24 \<Longrightarrow> (ucast (drop_bit k (of_nat (n div 2 ^ 32) :: u32) AND 0xff) :: u8)
     = ucast (drop_bit (32 + k) (of_nat n :: u64))"
proof -
  have m: "(0xff :: u32) = mask 8" by (simp add: mask_numeral)
  have d: "n div 2 ^ 32 = drop_bit 32 n" by (simp add: drop_bit_eq_div)
  show "k \<le> 24 \<Longrightarrow> (ucast (drop_bit k (of_nat n :: u32) AND 0xff) :: u8) = ucast (drop_bit k (of_nat n :: u64))"
    unfolding m by (rule bit_word_eqI)
      (auto simp: bit_simps)
  show "k \<le> 24 \<Longrightarrow> (ucast (drop_bit k (of_nat (n div 2 ^ 32) :: u32) AND 0xff) :: u8)
     = ucast (drop_bit (32 + k) (of_nat n :: u64))"
    unfolding m d by (rule bit_word_eqI) (auto simp: bit_simps add.assoc)
qed

lemma Encode_counts:
  "Encode [of_nat n, of_nat (n div 2 ^ 32)]
     = map (\<lambda>i. ucast (drop_bit (8 * i) (of_nat n :: u64))) [0..<8]"
  using byte_of_counts [of 0 n] byte_of_counts [of 8 n] byte_of_counts [of 16 n] byte_of_counts [of 24 n]
  by (simp only: Encode.simps upt_0_8 list.map list.inject drop_bit_0 id_apply) simp

lemma MD5Final_spec:
  assumes "md5_rel ctx m"
  shows "MD5Final ctx = md5_spec m"
proof -
  let ?pad = "0x80 # replicate (nat ((55 - int (length m)) mod 64)) 0 :: bytes"
  let ?bits = "map (\<lambda>i. ucast (drop_bit (8 * i) (of_nat (8 * length m) :: u64))) [0..<8] :: bytes"
  let ?ctx' = "MD5Update (MD5Update ctx ?pad) ?bits"
  have c: "count0 ctx = of_nat (8 * length m)" "count1 ctx = of_nat (8 * length m div 2 ^ 32)"
    using assms by (simp_all only: md5_rel_def)
  have b: "nat ((55 - int (length m)) mod 64) < 64"
    by (simp add: nat_less_iff)
  have fin: "MD5Final ctx = (let (s0, s1, s2, s3) = state ?ctx' in Encode [s0, s1, s2, s3])"
    by (simp only: MD5Final_def Let_def c md5_index md5_pad_len take_PADDING [OF b] Encode_counts)
  have "md5_rel (MD5Update ctx ?pad) (m @ ?pad)"
    by (rule md5_rel_update [OF assms]) (use b in simp)
  then have "md5_rel ?ctx' ((m @ ?pad) @ ?bits)"
    by (rule md5_rel_update) simp
  then have "state ?ctx' = md5_chain md5_iv (md5_padded m)"
    by (simp add: md5_rel_def md5_padded_def)
  then show ?thesis by (simp only: fin md5_spec_def)
qed


section \<open>A known answer\<close>

text \<open>
  Evaluation rules on numerals, and the digest of \<open>"abc"\<close> from the test suite of RFC 1321.
\<close>

lemma of_nat_mod32: "(of_nat (m mod 4294967296) :: u32) = of_nat m"
proof -
  have "unat (of_nat (m mod 4294967296) :: u32) = unat (of_nat m :: u32)"
    by (simp only: unat_of_nat) simp
  then show ?thesis by (simp only: word_unat_eq_iff)
qed

lemma drop_of_nat32: "drop_bit k (of_nat m :: u32) = of_nat (m mod 4294967296 div 2 ^ k)"
proof -
  have e: "unat (of_nat m :: u32) = m mod 4294967296"
    by (simp only: unat_of_nat) simp
  have "unat (drop_bit k (of_nat m :: u32)) = m mod 4294967296 div 2 ^ k"
    by (simp only: unat_drop_bit_eq e) (simp only: drop_bit_eq_div)
  then have "of_nat (unat (drop_bit k (of_nat m :: u32))) = (of_nat (m mod 4294967296 div 2 ^ k) :: u32)"
    by (rule arg_cong)
  then show ?thesis by (simp only: of_nat_unat ucast_id)
qed

lemma ROTATE_LEFT_nat:
  assumes "n \<le> 32"
  shows "ROTATE_LEFT (of_nat m) n = of_nat (m * 2 ^ n mod 4294967296 + m mod 4294967296 div 2 ^ (32 - n))"
proof -
  have "push_bit n (of_nat m :: u32) OR drop_bit (32 - n) (of_nat m)
      = push_bit n (of_nat m) + drop_bit (32 - n) (of_nat m)"
    by (rule disjunctive_add [symmetric]) (use assms in \<open>auto simp: bit_simps\<close>)
  moreover have "push_bit n (of_nat m :: u32) = of_nat (m * 2 ^ n mod 4294967296)"
    by (simp only: of_nat_mod32 push_bit_eq_mult of_nat_mult of_nat_power of_nat_numeral)
  ultimately show ?thesis by (simp only: ROTATE_LEFT_def drop_of_nat32 of_nat_add)
qed

lemmas ROTATE_LEFT_numeral = ROTATE_LEFT_nat [where m = "numeral w" for w, unfolded of_nat_numeral]

lemmas md5_eval = FF_def GG_def HH_def II_def
  F_md5_def [folded xor_FFFFFFFF] G_md5_def [folded xor_FFFFFFFF] H_md5_def I_md5_def [folded xor_FFFFFFFF] ROTATE_LEFT_numeral Let_def

lemma replicate_52: "replicate 52 (x::'a) = [x,x,x,x,x,x,x,x,x,x,x,x,x,x,x,x,x,x,x,x,x,x,x,x,x,x,x,x,x,x,x,x,x,x,x,x,x,x,x,x,x,x,x,x,x,x,x,x,x,x,x,x]"
  by (simp add: numeral_eq_Suc)
lemma Decode_abc:
  "Decode (0x61 # 0x62 # 0x63 # 0x80 # replicate 52 0 @ [0x18, 0, 0, 0, 0, 0, 0, 0])
    = [0x80636261, 0, 0, 0, 0, 0, 0, 0, 0, 0, 0, 0, 0, 0, 0x18, 0]"
  unfolding replicate_52 by simp

lemma MD5Transform_abc:
  "MD5Transform md5_iv
     (0x61 # 0x62 # 0x63 # 0x80 # replicate 52 0 @ [0x18, 0, 0, 0, 0, 0, 0, 0])
     = (0x98500190, 0xb04fd23c, 0x7d3f96d6, 0x727fe128)"
  unfolding MD5Transform_def Decode_abc md5_iv_def
    Let_def [of "(0x67452301, 0xefcdab89, 0x98badcfe, 0x10325476)"] prod.case
  by (simp add: md5_eval cong: let_weak_cong)

lemma md5_spec_abc:
  "md5_spec [0x61, 0x62, 0x63]
     = [0x90, 0x01, 0x50, 0x98, 0x3c, 0xd2, 0x4f, 0xb0, 0xd6, 0x96, 0x3f, 0x7d, 0x28, 0xe1, 0x7f, 0x72]"
proof -
  have p: "md5_padded [0x61, 0x62, 0x63]
      = 0x61 # 0x62 # 0x63 # 0x80 # replicate 52 0 @ [0x18, 0, 0, 0, 0, 0, 0, 0]"
    by (simp add: md5_padded_def upt_0_8)
  show ?thesis
    unfolding md5_spec_def p
    by (simp add: md5_chain.simps [of md5_iv] md5_chain_short MD5Transform_abc)
qed

section \<open>Properties of the wrappers\<close>

lemma md5_rel_pieces:
  "md5_rel ctx m \<Longrightarrow> \<forall>p\<in>set ps. length p < 2 ^ 32 \<Longrightarrow>
   \<exists>ctx'. foldl (\<lambda>c p. Some (hash_md5_update c p)) (Some ctx) ps = Some ctx'
     \<and> md5_rel ctx' (m @ concat ps)"
proof (induction ps arbitrary: ctx m)
  case (Cons p ps)
  have "md5_rel (hash_md5_update (Some ctx) p) (m @ p)"
    using Cons.prems by (simp add: hash_md5_update_def md5_rel_update)
  from Cons.IH [OF this] Cons.prems(2) show ?case by simp
qed simp

lemma length_md5_spec: "length (md5_spec m) = 16"
  by (simp add: md5_spec_def split_beta)





end
