(* ===== verification/Cjson.thy ===== *)
theory Cjson
  imports Prelude
begin

text \<open>
  The JSON values of \<open>libvbucket/src/cJSON.c\<close> and the accessors that \<open>vbucket.c\<close> calls.  A
  parsed item is a tree: the \<open>child\<close>/\<open>next\<close> chain of a C item is the list of its children, and
  \<open>string\<close>, the member name, is present exactly on the children of an object.  Of a number only
  \<open>valueint\<close> is kept, the one field of it that \<open>vbucket.c\<close> reads.

  The lemmas say when the case-insensitive member lookup finds a member and that it always
  returns the first one.
\<close>

section \<open>Items\<close>

datatype cJSON =
    cJSON_False
  | cJSON_True
  | cJSON_NULL
  | cJSON_Number (valueint: int)
  | cJSON_String (valuestring: string)
  | cJSON_Array "cJSON list"
  | cJSON_Object "(string \<times> cJSON) list"

text \<open>The chain behind \<open>item->child\<close>, each item with its \<open>string\<close> field.\<close>

fun child :: "cJSON \<Rightarrow> (string option \<times> cJSON) list" where
  "child (cJSON_Array xs) = map (\<lambda>x. (None, x)) xs"
| "child (cJSON_Object ms) = map (\<lambda>(n, x). (Some n, x)) ms"
| "child _ = []"

fun is_Number :: "cJSON \<Rightarrow> bool" where
  "is_Number (cJSON_Number _) = True"
| "is_Number _ = False"

fun is_String :: "cJSON \<Rightarrow> bool" where
  "is_String (cJSON_String _) = True"
| "is_String _ = False"

fun is_Array :: "cJSON \<Rightarrow> bool" where
  "is_Array (cJSON_Array _) = True"
| "is_Array _ = False"

fun is_Object :: "cJSON \<Rightarrow> bool" where
  "is_Object (cJSON_Object _) = True"
| "is_Object _ = False"

section \<open>Accessors\<close>

text \<open>\<open>tolower\<close> of \<open>ctype.h\<close> in the C locale.\<close>

definition tolower :: "char \<Rightarrow> char" where
  "tolower c = (if 65 \<le> (of_char c :: nat) \<and> (of_char c :: nat) \<le> 90
     then char_of ((of_char c :: nat) + 32) else c)"

text \<open>The comparison loop, on the strings without their terminators.\<close>

fun strcasecmp_loop :: "string \<Rightarrow> string \<Rightarrow> int" where
  "strcasecmp_loop [] [] = 0"
| "strcasecmp_loop [] (c # s2) = - int (of_char (tolower c))"
| "strcasecmp_loop (c # s1) [] = int (of_char (tolower c))"
| "strcasecmp_loop (c # s1) (d # s2) =
     (if tolower c = tolower d then strcasecmp_loop s1 s2
      else int (of_char (tolower c)) - int (of_char (tolower d)))"

definition cJSON_strcasecmp :: "string option \<Rightarrow> string option \<Rightarrow> int" where
  "cJSON_strcasecmp s1 s2 =
     (case s1 of
        None \<Rightarrow> (if s2 = None then 0 else 1)
      | Some a \<Rightarrow> (case s2 of None \<Rightarrow> 1 | Some b \<Rightarrow> strcasecmp_loop a b))"

definition cJSON_GetArraySize :: "cJSON \<Rightarrow> nat" where
  "cJSON_GetArraySize array = length (child array)"

definition cJSON_GetArrayItem :: "cJSON \<Rightarrow> nat \<Rightarrow> cJSON option" where
  "cJSON_GetArrayItem array item =
     (if item < length (child array) then Some (snd (child array ! item)) else None)"

fun find_member :: "(string option \<times> cJSON) list \<Rightarrow> string \<Rightarrow> cJSON option" where
  "find_member [] s = None"
| "find_member ((n, x) # cs) s =
     (if cJSON_strcasecmp n (Some s) \<noteq> 0 then find_member cs s else Some x)"

definition cJSON_GetObjectItem :: "cJSON \<Rightarrow> string \<Rightarrow> cJSON option" where
  "cJSON_GetObjectItem object s = find_member (child object) s"

section \<open>What the accessors find\<close>

lemma of_char_inj_nat: "(of_char c :: nat) = of_char d \<longleftrightarrow> c = d"
  by (metis char_of_char)

lemma tolower_0: "tolower c = CHR 0x00 \<longleftrightarrow> c = CHR 0x00"
proof -
  have "(of_char (char_of ((of_char c :: nat) + 32)) :: nat) = of_char c + 32"
    if "(of_char c :: nat) \<le> 90"
    using that by (simp add: of_char_of)
  moreover have "(of_char (CHR 0x00) :: nat) = 0" by simp
  ultimately have "char_of ((of_char c :: nat) + 32) \<noteq> CHR 0x00" if "(of_char c :: nat) \<le> 90"
    using that by (metis add_is_0 zero_neq_numeral)
  then show ?thesis by (auto simp: tolower_def)
qed

lemma of_char_tolower_0: "(of_char (tolower c) :: nat) = 0 \<longleftrightarrow> c = CHR 0x00"
  using of_char_inj_nat [of "tolower c" "CHR 0x00"] by (simp add: tolower_0)

text \<open>On terminator-free strings the comparison is equality up to letter case.\<close>

lemma strcasecmp_loop_0:
  "CHR 0x00 \<notin> set a \<Longrightarrow> CHR 0x00 \<notin> set b \<Longrightarrow>
   strcasecmp_loop a b = 0 \<longleftrightarrow> map tolower a = map tolower b"
  by (induction a b rule: strcasecmp_loop.induct)
    (auto simp: of_char_tolower_0 of_char_inj_nat)

text \<open>
  The member lookup returns the first member whose name equals the key up to letter case, and
  nothing on items that are not objects.
\<close>

lemma GetObjectItem_Object:
  assumes "CHR 0x00 \<notin> set s" and "\<And>n x. (n, x) \<in> set ms \<Longrightarrow> CHR 0x00 \<notin> set n"
  shows "cJSON_GetObjectItem (cJSON_Object ms) s
    = map_option snd (find (\<lambda>(n, x). map tolower n = map tolower s) ms)"
  using assms(2) unfolding cJSON_GetObjectItem_def
proof (induction ms)
  case (Cons m ms)
  obtain n x where m: "m = (n, x)" by force
  then have n: "CHR 0x00 \<notin> set n" using Cons.prems by auto
  have "find_member (child (cJSON_Object ms)) s
      = map_option snd (find (\<lambda>(n, x). map tolower n = map tolower s) ms)"
    using Cons.prems by (intro Cons.IH) auto
  with m n assms(1) show ?case by (simp add: cJSON_strcasecmp_def strcasecmp_loop_0)
qed simp

lemma GetObjectItem_not_Object: "\<not> is_Object j \<Longrightarrow> cJSON_GetObjectItem j s = None"
proof -
  have *: "find_member (map (Pair None) xs) s = None" for xs
    by (induction xs) (simp_all add: cJSON_strcasecmp_def)
  assume "\<not> is_Object j"
  then show ?thesis by (cases j) (simp_all add: cJSON_GetObjectItem_def *)
qed

lemma find_member_in: "find_member cs s = Some x \<Longrightarrow> \<exists>n. (n, x) \<in> set cs"
  by (induction cs s rule: find_member.induct) (auto split: if_splits)

lemma GetArrayItem_Some: "i < cJSON_GetArraySize a \<Longrightarrow> \<exists>x. cJSON_GetArrayItem a i = Some x"
  by (simp add: cJSON_GetArraySize_def cJSON_GetArrayItem_def)

end
