(* ===== verification/Vbucket.thy ===== *)
theory Vbucket
  imports Cjson Crc32 Md5 "HOL-Library.Multiset" "HOL-Library.Signed_Division"
begin

text \<open>
  \<open>libvbucket/src/vbucket.c\<close>: the cluster map.  A configuration is parsed from JSON; keys are
  routed to servers either through the vbucket map (CRC-32 of the key, masked) or through the
  ketama continuum (MD5 points on a ring, searched by bisection); clients repair the map when a
  server refuses a key, and compare two maps.

  Modelling.  A C pointer field that may be \<open>NULL\<close> is an option.  The outcome of a fallible
  function is \<open>Inr\<close> or \<open>Inl\<close>: \<open>ErrStr\<close> is the error return that sets \<open>errstr\<close>, the other errors
  are what C leaves undefined (a dereference of \<open>NULL\<close>, an access behind an array, freeing
  twice).  The C library is a parameter: which allocations succeed, how \<open>qsort\<close> orders
  elements that compare equal, and what the stack holds before it is written.
\<close>

section \<open>Errors\<close>

datatype vb_error =
    ErrStr string
  | NullDeref
  | OutOfBounds
  | DoubleFree
  | DivByZero
  | AssertFailed

type_synonym 'a vb_result = "vb_error + 'a"

definition vbind :: "'a vb_result \<Rightarrow> ('a \<Rightarrow> 'b vb_result) \<Rightarrow> 'b vb_result" where
  "vbind m f = (case m of Inl e \<Rightarrow> Inl e | Inr x \<Rightarrow> f x)"

lemma vbind_simps [simp]:
  "vbind (Inl e) f = Inl e"
  "vbind (Inr x) f = f x"
  by (simp_all add: vbind_def)

lemma vbind_Inr: "vbind m f = Inr y \<longleftrightarrow> (\<exists>x. m = Inr x \<and> f x = Inr y)"
  by (cases m) auto

lemma vbind_Inl: "vbind m f = Inl e \<longleftrightarrow> m = Inl e \<or> (\<exists>x. m = Inr x \<and> f x = Inl e)"
  by (cases m) auto

text \<open>Array access and access through a pointer, with their undefined cases.\<close>

definition at :: "'a list \<Rightarrow> nat \<Rightarrow> 'a vb_result" where
  "at xs i = (if i < length xs then Inr (xs ! i) else Inl OutOfBounds)"

definition deref :: "'a option \<Rightarrow> 'a vb_result" where
  "deref p = (case p of None \<Rightarrow> Inl NullDeref | Some x \<Rightarrow> Inr x)"

lemma at_simps: "i < length xs \<Longrightarrow> at xs i = Inr (xs ! i)"
  by (simp add: at_def)

lemma at_Inr: "at xs i = Inr x \<longleftrightarrow> i < length xs \<and> xs ! i = x"
  by (simp add: at_def)

lemma deref_simps [simp]: "deref (Some x) = Inr x" "deref None = Inl NullDeref"
  by (simp_all add: deref_def)

section \<open>Data\<close>

datatype VBUCKET_DISTRIBUTION_TYPE = VBUCKET_DISTRIBUTION_VBUCKET | VBUCKET_DISTRIBUTION_KETAMA

definition MAX_BUCKETS :: nat where "MAX_BUCKETS = 65536"
definition MAX_REPLICAS :: int where "MAX_REPLICAS = 4"
definition MAX_AUTORITY_SIZE :: nat where "MAX_AUTORITY_SIZE = 100"

record server_st =
  authority :: "string option"
  couchdb_api_base :: "string option"

text \<open>\<open>struct vbucket_st\<close>: the array \<open>servers[MAX_REPLICAS + 1]\<close>.\<close>

type_synonym vbucket_st = "int list"

record continuum_item_st =
  index :: u32
  point :: u32

record vbucket_config_st =
  distribution :: VBUCKET_DISTRIBUTION_TYPE
  num_vbuckets :: nat
  mask_vb :: nat
  num_servers :: nat
  num_replicas :: int
  user :: "string option"
  password :: "string option"
  num_continuum :: nat
  continuum :: "continuum_item_st list option"
  servers :: "server_st list option"
  fvbuckets :: "vbucket_st list option"
  vbuckets :: "vbucket_st list option"

text \<open>
  The allocations of one parse, each named by its call and, inside a loop, by the loop index.
\<close>

datatype alloc_site =
    A_config | A_user | A_password | A_servers | A_server nat
  | A_lookup nat | A_api_base nat | A_buckets | A_fbuckets
  | A_authority nat | A_continuum
  | A_diff | A_added | A_removed | A_added_name nat | A_removed_name nat

record libc =
  alloc :: "alloc_site \<Rightarrow> bool"
  qsort :: "continuum_item_st list \<Rightarrow> continuum_item_st list"
  stack :: bytes

text \<open>\<open>calloc (1, sizeof (struct vbucket_config_st))\<close>.\<close>

definition empty_config :: vbucket_config_st where
  "empty_config = \<lparr>distribution = VBUCKET_DISTRIBUTION_VBUCKET, num_vbuckets = 0, mask_vb = 0,
     num_servers = 0, num_replicas = 0, user = None, password = None, num_continuum = 0,
     continuum = None, servers = None, fvbuckets = None, vbuckets = None\<rparr>"

definition null_server :: server_st where
  "null_server = \<lparr>authority = None, couchdb_api_base = None\<rparr>"

definition strdup :: "bool \<Rightarrow> string \<Rightarrow> string option" where
  "strdup ok s = (if ok then Some s else None)"

section \<open>The ketama continuum\<close>

fun dec_nat :: "nat \<Rightarrow> string" where
  "dec_nat n = (if n < 10 then [char_of (48 + n)] else dec_nat (n div 10) @ [char_of (48 + n mod 10)])"

declare dec_nat.simps [simp del]

definition dec_int :: "int \<Rightarrow> string" where
  "dec_int i = (if i < 0 then CHR 0x2D # dec_nat (nat (- i)) else dec_nat (nat i))"

definition to_bytes :: "string \<Rightarrow> bytes" where
  "to_bytes s = map of_char s"

definition continuum_item_cmp :: "continuum_item_st \<Rightarrow> continuum_item_st \<Rightarrow> int" where
  "continuum_item_cmp ct1 ct2 =
     (if point ct1 = point ct2 then 0 else if point ct1 > point ct2 then 1 else - 1)"

text \<open>The four points taken from one digest.\<close>

definition digest_point :: "bytes \<Rightarrow> nat \<Rightarrow> u32" where
  "digest_point digest nn =
     push_bit 24 (ucast (digest ! (3 + nn * 4)) AND 0xFF)
     OR push_bit 16 (ucast (digest ! (2 + nn * 4)) AND 0xFF)
     OR push_bit 8 (ucast (digest ! (1 + nn * 4)) AND 0xFF)
     OR (ucast (digest ! (0 + nn * 4)) AND 0xFF)"

text \<open>
  \<open>snprintf (host, MAX_AUTORITY_SIZE + 10, "%s-%u", authority, hh)\<close> returns the untruncated length,
  and that many bytes of the buffer are hashed.
\<close>

definition host_digest :: "libc \<Rightarrow> string \<Rightarrow> nat \<Rightarrow> bytes vb_result" where
  "host_digest lc auth hh =
     (let full = auth @ CHR 0x2D # dec_nat hh;
          host = take (MAX_AUTORITY_SIZE + 9) full @ [CHR 0x00];
          nhost = length full
      in if nhost \<le> length host then Inr (hash_md5 (stack lc) (to_bytes (take nhost host)))
         else Inl OutOfBounds)"

fun server_points :: "libc \<Rightarrow> string \<Rightarrow> nat \<Rightarrow> nat list \<Rightarrow> continuum_item_st list vb_result" where
  "server_points lc auth ss [] = Inr []"
| "server_points lc auth ss (hh # hs) =
     vbind (host_digest lc auth hh) (\<lambda>digest.
     vbind (server_points lc auth ss hs) (\<lambda>rest.
       Inr (map (\<lambda>nn. \<lparr>index = of_nat ss, point = digest_point digest nn\<rparr>) [0..<4] @ rest)))"

fun continuum_points :: "libc \<Rightarrow> nat \<Rightarrow> server_st list \<Rightarrow> continuum_item_st list vb_result" where
  "continuum_points lc ss [] = Inr []"
| "continuum_points lc ss (sv # svs) =
     vbind (deref (authority sv)) (\<lambda>auth.
     vbind (server_points lc auth ss [0..<40]) (\<lambda>ps.
     vbind (continuum_points lc (ss + 1) svs) (\<lambda>rest. Inr (ps @ rest))))"

definition update_ketama_continuum :: "libc \<Rightarrow> vbucket_config_st \<Rightarrow> vbucket_config_st vb_result" where
  "update_ketama_continuum lc vb =
     vbind (deref (servers vb)) (\<lambda>svs.
     if \<not> alloc lc A_continuum then Inl NullDeref
     else vbind (continuum_points lc 0 (take (num_servers vb) svs)) (\<lambda>new_continuum.
       Inr (vb\<lparr>continuum := Some (qsort lc new_continuum),
               num_continuum := length new_continuum\<rparr>)))"

section \<open>Parsing\<close>

text \<open>
  The loop of \<open>populate_servers\<close>.  It returns \<open>-1\<close> from the middle and leaves the servers
  parsed so far; every caller then destroys the configuration, so only the error is kept.
\<close>

fun populate_servers_loop ::
  "libc \<Rightarrow> cJSON \<Rightarrow> server_st list \<Rightarrow> nat list \<Rightarrow> server_st list vb_result" where
  "populate_servers_loop lc c svs [] = Inr svs"
| "populate_servers_loop lc c svs (i # is) =
     (case cJSON_GetArrayItem c i of
        Some (cJSON_String str) \<Rightarrow>
          (case strdup (alloc lc (A_server i)) str of
             None \<Rightarrow> Inl (ErrStr ''Failed to allocate storage for server string'')
           | Some server \<Rightarrow>
               populate_servers_loop lc c (svs[i := (svs ! i)\<lparr>authority := Some server\<rparr>]) is)
      | _ \<Rightarrow> Inl (ErrStr ''Expected array of strings for serverList''))"

text \<open>
  \<open>vbucket_config_destroy\<close> walks \<open>num_servers\<close> entries of the server array before it frees
  anything, also when the array was never allocated.
\<close>

definition vbucket_config_destroy :: "vbucket_config_st \<Rightarrow> unit vb_result" where
  "vbucket_config_destroy vb =
     (if num_servers vb > 0 \<and> servers vb = None then Inl NullDeref else Inr ())"

text \<open>
  When the first allocation fails \<open>populate_servers\<close> destroys the configuration, and its caller
  destroys it again on the error return.
\<close>

definition populate_servers :: "libc \<Rightarrow> vbucket_config_st \<Rightarrow> cJSON \<Rightarrow> vbucket_config_st vb_result" where
  "populate_servers lc vb c =
     (if \<not> alloc lc A_servers
      then vbind (vbucket_config_destroy (vb\<lparr>servers := None\<rparr>)) (\<lambda>_. Inl DoubleFree)
      else vbind (populate_servers_loop lc c (replicate (num_servers vb) null_server) [0..<num_servers vb])
        (\<lambda>svs. Inr (vb\<lparr>servers := Some svs\<rparr>)))"

text \<open>
  \<open>get_node_authority\<close> with a zeroed buffer of \<open>nbuf\<close> bytes: the host name cut at
  \<open>nbuf - 8\<close> characters and at its first colon, then the port, cut at six characters.
\<close>

definition authority_buf :: "nat \<Rightarrow> string \<Rightarrow> int \<Rightarrow> string" where
  "authority_buf nbuf hostname port =
     takeWhile (\<lambda>c. c \<noteq> CHR 0x3A) (take (nbuf - 8) hostname) @ take 6 (CHR 0x3A # dec_int port)"

definition get_node_authority :: "cJSON \<Rightarrow> nat \<Rightarrow> string vb_result" where
  "get_node_authority node nbuf =
     (case cJSON_GetObjectItem node ''hostname'' of
        Some (cJSON_String hostname) \<Rightarrow>
          (case cJSON_GetObjectItem node ''ports'' of
             Some (cJSON_Object ms) \<Rightarrow>
               (case cJSON_GetObjectItem (cJSON_Object ms) ''direct'' of
                  Some (cJSON_Number port) \<Rightarrow> Inr (authority_buf nbuf hostname port)
                | _ \<Rightarrow> Inl (ErrStr ''Expected number for node's direct port''))
           | _ \<Rightarrow> Inl (ErrStr ''Expected json object for node's ports''))
      | _ \<Rightarrow> Inl (ErrStr ''Expected string for node's hostname''))"

text \<open>The first server whose authority is the given one.\<close>

fun find_authority :: "server_st list \<Rightarrow> string \<Rightarrow> nat \<Rightarrow> nat option vb_result" where
  "find_authority [] auth ii = Inr None"
| "find_authority (sv # svs) auth ii =
     vbind (deref (authority sv)) (\<lambda>a.
       if a = auth then Inr (Some ii) else find_authority svs auth (ii + 1))"

text \<open>
  \<open>lookup_server_struct\<close>: \<open>None\<close> stands for the result \<open>-1\<close>, which the caller skips.  The
  function also returns \<open>-1\<close> when it cannot allocate or when the node has no authority.
\<close>

definition lookup_server_struct ::
  "libc \<Rightarrow> vbucket_config_st \<Rightarrow> nat \<Rightarrow> cJSON \<Rightarrow> nat option vb_result" where
  "lookup_server_struct lc vb ii c =
     (if \<not> alloc lc (A_lookup ii) then Inr None
      else case get_node_authority c MAX_AUTORITY_SIZE of
             Inl _ \<Rightarrow> Inr None
           | Inr auth \<Rightarrow>
               vbind (deref (servers vb)) (\<lambda>svs.
                 find_authority (take (num_servers vb) svs) auth 0))"

text \<open>\<open>strdup (json->valuestring)\<close>: the field is \<open>NULL\<close> unless the item is a string.\<close>

fun strdup_item :: "bool \<Rightarrow> cJSON \<Rightarrow> string option vb_result" where
  "strdup_item ok (cJSON_String str) = Inr (strdup ok str)"
| "strdup_item ok _ = Inl NullDeref"

definition set_api_base :: "vbucket_config_st \<Rightarrow> nat \<Rightarrow> string \<Rightarrow> vbucket_config_st" where
  "set_api_base vb k v =
     vb\<lparr>servers := map_option (\<lambda>svs. svs[k := (svs ! k)\<lparr>couchdb_api_base := Some v\<rparr>]) (servers vb)\<rparr>"

text \<open>The body of the loop for one node.\<close>

definition update_server_node ::
  "libc \<Rightarrow> vbucket_config_st \<Rightarrow> nat \<Rightarrow> cJSON \<Rightarrow> vbucket_config_st vb_result" where
  "update_server_node lc vb ii node =
     (if \<not> is_Object node then Inl (ErrStr ''Expected json object for nodes array item'')
      else
        vbind (lookup_server_struct lc vb ii node) (\<lambda>idx.
        case idx of
          None \<Rightarrow> Inr vb
        | Some k \<Rightarrow>
            (case cJSON_GetObjectItem node ''couchApiBase'' of
               None \<Rightarrow> Inr vb
             | Some json \<Rightarrow>
                 vbind (strdup_item (alloc lc (A_api_base ii)) json) (\<lambda>r.
                 case r of
                   None \<Rightarrow> Inl (ErrStr ''Failed to allocate storage for couchApiBase string'')
                 | Some v \<Rightarrow> Inr (set_api_base vb k v)))))"

fun update_server_info_loop ::
  "libc \<Rightarrow> vbucket_config_st \<Rightarrow> cJSON \<Rightarrow> nat list \<Rightarrow> vbucket_config_st vb_result" where
  "update_server_info_loop lc vb config [] = Inr vb"
| "update_server_info_loop lc vb config (ii # is) =
     (case cJSON_GetArrayItem config ii of
        None \<Rightarrow> update_server_info_loop lc vb config is
      | Some node \<Rightarrow>
          vbind (update_server_node lc vb ii node) (\<lambda>vb. update_server_info_loop lc vb config is))"

definition update_server_info :: "libc \<Rightarrow> vbucket_config_st \<Rightarrow> cJSON \<Rightarrow> vbucket_config_st vb_result" where
  "update_server_info lc vb config =
     update_server_info_loop lc vb config [0..<cJSON_GetArraySize config]"

text \<open>One row of the map: \<open>num_replicas + 1\<close> server numbers written over a zeroed row.\<close>

fun populate_row :: "nat \<Rightarrow> cJSON \<Rightarrow> vbucket_st \<Rightarrow> nat list \<Rightarrow> vbucket_st vb_result" where
  "populate_row ns jBucket row [] = Inr row"
| "populate_row ns jBucket row (j # js) =
     (case cJSON_GetArrayItem jBucket j of
        Some (cJSON_Number v) \<Rightarrow>
          if v < - 1 \<or> v \<ge> int ns then Inl (ErrStr ''Server ID must be >= -1 and < num_servers'')
          else if j < length row then populate_row ns jBucket (row[j := v]) js
          else Inl OutOfBounds
      | _ \<Rightarrow> Inl (ErrStr ''Server ID must be >= -1 and < num_servers''))"

definition zero_row :: vbucket_st where
  "zero_row = replicate (nat MAX_REPLICAS + 1) 0"

fun populate_rows :: "vbucket_config_st \<Rightarrow> cJSON \<Rightarrow> nat list \<Rightarrow> vbucket_st list vb_result" where
  "populate_rows vb c [] = Inr []"
| "populate_rows vb c (i # is) =
     (case cJSON_GetArrayItem c i of
        Some (cJSON_Array xs) \<Rightarrow>
          if int (cJSON_GetArraySize (cJSON_Array xs)) \<noteq> num_replicas vb + 1
          then Inl (ErrStr ''Expected array of arrays each with numReplicas + 1 ints for vBucketMap'')
          else vbind (populate_row (num_servers vb) (cJSON_Array xs) zero_row
                        [0..<nat (num_replicas vb + 1)]) (\<lambda>row.
               vbind (populate_rows vb c is) (\<lambda>rows. Inr (row # rows)))
      | _ \<Rightarrow> Inl (ErrStr ''Expected array of arrays each with numReplicas + 1 ints for vBucketMap''))"

definition populate_buckets ::
  "libc \<Rightarrow> vbucket_config_st \<Rightarrow> cJSON \<Rightarrow> bool \<Rightarrow> vbucket_config_st vb_result" where
  "populate_buckets lc vb c is_forward =
     (if is_forward then
        if \<not> alloc lc A_fbuckets
        then Inl (ErrStr ''Failed to allocate storage for forward vbucket map'')
        else vbind (populate_rows vb c [0..<num_vbuckets vb]) (\<lambda>m. Inr (vb\<lparr>fvbuckets := Some m\<rparr>))
      else
        if \<not> alloc lc A_buckets
        then Inl (ErrStr ''Failed to allocate storage for vbucket map'')
        else vbind (populate_rows vb c [0..<num_vbuckets vb]) (\<lambda>m. Inr (vb\<lparr>vbuckets := Some m\<rparr>)))"

text \<open>
  \<open>parse_vbucket_config\<close>, cut at the two optional members so that each part reads like the code
  between them.
\<close>

definition config_body :: "cJSON \<Rightarrow> cJSON" where
  "config_body c = (case cJSON_GetObjectItem c ''vBucketServerMap'' of
      Some (cJSON_Object ms) \<Rightarrow> cJSON_Object ms
    | _ \<Rightarrow> c)"

definition parse_replicas :: "vbucket_config_st \<Rightarrow> cJSON \<Rightarrow> vbucket_config_st vb_result" where
  "parse_replicas vb config =
     (case cJSON_GetObjectItem config ''numReplicas'' of
        Some (cJSON_Number v) \<Rightarrow>
          if v > MAX_REPLICAS then Inl (ErrStr ''Expected number <= 4 for numReplicas'')
          else Inr (vb\<lparr>num_replicas := v\<rparr>)
      | _ \<Rightarrow> Inl (ErrStr ''Expected number <= 4 for numReplicas''))"

definition parse_server_list :: "libc \<Rightarrow> vbucket_config_st \<Rightarrow> cJSON \<Rightarrow> vbucket_config_st vb_result" where
  "parse_server_list lc vb config =
     (case cJSON_GetObjectItem config ''serverList'' of
        Some (cJSON_Array xs) \<Rightarrow>
          let n = cJSON_GetArraySize (cJSON_Array xs)
          in if n = 0 then Inl (ErrStr ''Empty serverList'')
             else populate_servers lc (vb\<lparr>num_servers := n\<rparr>) (cJSON_Array xs)
      | _ \<Rightarrow> Inl (ErrStr ''Expected array for serverList''))"

definition parse_nodes :: "libc \<Rightarrow> vbucket_config_st \<Rightarrow> cJSON \<Rightarrow> vbucket_config_st vb_result" where
  "parse_nodes lc vb c =
     (case cJSON_GetObjectItem c ''nodes'' of
        None \<Rightarrow> Inr vb
      | Some (cJSON_Array xs) \<Rightarrow> update_server_info lc vb (cJSON_Array xs)
      | Some _ \<Rightarrow> Inl (ErrStr ''Expected array for nodes''))"

definition parse_map :: "libc \<Rightarrow> vbucket_config_st \<Rightarrow> cJSON \<Rightarrow> vbucket_config_st vb_result" where
  "parse_map lc vb config =
     (case cJSON_GetObjectItem config ''vBucketMap'' of
        Some (cJSON_Array xs) \<Rightarrow>
          let n = cJSON_GetArraySize (cJSON_Array xs)
          in if n = 0 \<or> n AND (n - 1) \<noteq> 0
             then Inl (ErrStr ''Number of buckets must be a power of two > 0 and <= 65536'')
             else populate_buckets lc (vb\<lparr>num_vbuckets := n, mask_vb := n - 1\<rparr>) (cJSON_Array xs) False
      | _ \<Rightarrow> Inl (ErrStr ''Expected array for vBucketMap''))"

definition parse_map_forward :: "libc \<Rightarrow> vbucket_config_st \<Rightarrow> cJSON \<Rightarrow> vbucket_config_st vb_result" where
  "parse_map_forward lc vb config =
     (case cJSON_GetObjectItem config ''vBucketMapForward'' of
        None \<Rightarrow> Inr vb
      | Some (cJSON_Array xs) \<Rightarrow> populate_buckets lc vb (cJSON_Array xs) True
      | Some _ \<Rightarrow> Inl (ErrStr ''Expected array for vBucketMapForward''))"

definition parse_vbucket_config :: "libc \<Rightarrow> vbucket_config_st \<Rightarrow> cJSON \<Rightarrow> vbucket_config_st vb_result" where
  "parse_vbucket_config lc vb c =
     (let config = config_body c in
      vbind (parse_replicas vb config) (\<lambda>vb.
      vbind (parse_server_list lc vb config) (\<lambda>vb.
      vbind (parse_nodes lc vb c) (\<lambda>vb.
      vbind (parse_map lc vb config) (\<lambda>vb.
        parse_map_forward lc vb config)))))"

fun ketama_servers_loop :: "libc \<Rightarrow> cJSON \<Rightarrow> server_st list \<Rightarrow> nat list \<Rightarrow> server_st list vb_result" where
  "ketama_servers_loop lc json svs [] = Inr svs"
| "ketama_servers_loop lc json svs (ii # is) =
     (case cJSON_GetArrayItem json ii of
        Some (cJSON_Object ms) \<Rightarrow>
          if \<not> alloc lc (A_authority ii)
          then Inl (ErrStr ''Failed to allocate storage for node authority'')
          else vbind (get_node_authority (cJSON_Object ms) MAX_AUTORITY_SIZE) (\<lambda>buf.
            if \<not> alloc lc A_servers then Inl NullDeref
            else ketama_servers_loop lc json (svs[ii := (svs ! ii)\<lparr>authority := Some buf\<rparr>]) is)
      | _ \<Rightarrow> Inl (ErrStr ''Expected object for nodes array item''))"

text \<open>
  The error return of the loop reaches \<open>vbucket_config_destroy\<close> in \<open>parse_cjson\<close> with the number
  of servers already set; the allocation of the server array is not checked.
\<close>

definition parse_ketama_config :: "libc \<Rightarrow> vbucket_config_st \<Rightarrow> cJSON \<Rightarrow> vbucket_config_st vb_result" where
  "parse_ketama_config lc vb config =
     (case cJSON_GetObjectItem config ''nodes'' of
        Some (cJSON_Array xs) \<Rightarrow>
          let n = cJSON_GetArraySize (cJSON_Array xs)
          in if n = 0 then Inl (ErrStr ''Empty serverList'')
             else let svs0 = (if alloc lc A_servers then Some (replicate n null_server) else None)
             in case ketama_servers_loop lc (cJSON_Array xs) (replicate n null_server) [0..<n] of
                  Inl e \<Rightarrow>
                    vbind (vbucket_config_destroy (vb\<lparr>num_servers := n, servers := svs0\<rparr>)) (\<lambda>_. Inl e)
                | Inr svs \<Rightarrow> update_ketama_continuum lc (vb\<lparr>num_servers := n, servers := Some svs\<rparr>)
      | _ \<Rightarrow> Inl (ErrStr ''Expected array for nodes''))"

definition parse_credentials :: "libc \<Rightarrow> cJSON \<Rightarrow> vbucket_config_st \<Rightarrow> vbucket_config_st" where
  "parse_credentials lc config vb =
     (let vb = (case cJSON_GetObjectItem config ''name'' of
                  Some (cJSON_String nm) \<Rightarrow>
                    if nm \<noteq> ''default'' then vb\<lparr>user := strdup (alloc lc A_user) nm\<rparr> else vb
                | _ \<Rightarrow> vb)
      in case cJSON_GetObjectItem config ''saslPassword'' of
           Some (cJSON_String pw) \<Rightarrow> vb\<lparr>password := strdup (alloc lc A_password) pw\<rparr>
         | _ \<Rightarrow> vb)"

definition parse_cjson :: "libc \<Rightarrow> cJSON \<Rightarrow> vbucket_config_st vb_result" where
  "parse_cjson lc config =
     (if \<not> alloc lc A_config then Inl (ErrStr ''Failed to allocate vbucket config struct'')
      else
        let vb = (parse_credentials lc config empty_config)
                   \<lparr>distribution := VBUCKET_DISTRIBUTION_VBUCKET\<rparr>
        in case cJSON_GetObjectItem config ''nodeLocator'' of
             None \<Rightarrow> parse_vbucket_config lc vb config
           | Some (cJSON_String str) \<Rightarrow>
               if str = ''vbucket'' then
                 parse_vbucket_config lc (vb\<lparr>distribution := VBUCKET_DISTRIBUTION_VBUCKET\<rparr>) config
               else if str = ''ketama'' then
                 parse_ketama_config lc (vb\<lparr>distribution := VBUCKET_DISTRIBUTION_KETAMA\<rparr>) config
               else Inr vb
           | Some _ \<Rightarrow> Inl (ErrStr ''Expected string for nodeLocator''))"

section \<open>Routing\<close>

definition vbucket_get_vbucket_by_key :: "vbucket_config_st \<Rightarrow> bytes \<Rightarrow> nat" where
  "vbucket_get_vbucket_by_key vb key =
     (let digest = hash_crc32 key in unat (digest AND of_nat (mask_vb vb)))"

definition vbucket_get_master :: "vbucket_config_st \<Rightarrow> nat \<Rightarrow> int vb_result" where
  "vbucket_get_master vb vbucket =
     vbind (deref (vbuckets vb)) (\<lambda>m. vbind (at m vbucket) (\<lambda>row. at row 0))"

definition vbucket_get_replica :: "vbucket_config_st \<Rightarrow> nat \<Rightarrow> nat \<Rightarrow> int vb_result" where
  "vbucket_get_replica vb vbucket i =
     vbind (deref (vbuckets vb)) (\<lambda>m. vbind (at m vbucket) (\<lambda>row. at row (i + 1)))"

text \<open>
  The bisection of \<open>vbucket_map\<close>: \<open>lowp\<close> and \<open>highp\<close> as offsets from \<open>beginp\<close>.  \<open>highp\<close> can
  come to stand in front of the array.
\<close>

function ketama_search :: "continuum_item_st list \<Rightarrow> nat \<Rightarrow> u32 \<Rightarrow> int \<Rightarrow> int \<Rightarrow> u32 vb_result" where
  "ketama_search cs n digest low high =
     (let midp = low + (high - low) div 2 in
      if midp = int n then vbind (at cs 0) (\<lambda>b. Inr (index b))
      else if midp < 0 then Inl OutOfBounds
      else
        vbind (at cs (nat midp)) (\<lambda>mi.
        vbind (if midp = 0 then Inr 0 else vbind (at cs (nat (midp - 1))) (\<lambda>p. Inr (point p))) (\<lambda>prev.
          if digest \<le> point mi \<and> digest > prev then Inr (index mi)
          else
            let (low, high) = (if point mi < digest then (midp + 1, high) else (low, midp - 1))
            in if low > high then vbind (at cs 0) (\<lambda>b. Inr (index b))
               else ketama_search cs n digest low high)))"
  by pat_completeness auto
termination
proof (relation "measure (\<lambda>(cs, n, digest, low, high). nat (high - low + 1))", goal_cases)
  case 1 show ?case by simp
next
  case 2 then show ?case by (auto split: if_splits)
qed

text \<open>
  \<open>want_vb\<close> says whether the caller passes a \<open>vbucket_id\<close> pointer.  Only the ketama branch
  tests it.
\<close>

definition vbucket_map ::
  "libc \<Rightarrow> vbucket_config_st \<Rightarrow> bytes \<Rightarrow> bool \<Rightarrow> (nat option \<times> int) vb_result" where
  "vbucket_map lc vb key want_vb =
     (if distribution vb = VBUCKET_DISTRIBUTION_KETAMA then
        case continuum vb of
          None \<Rightarrow> Inl AssertFailed
        | Some cs \<Rightarrow>
            let digest = hash_ketama (stack lc) key
            in vbind (ketama_search cs (num_continuum vb) digest 0 (int (num_continuum vb))) (\<lambda>ix.
                 Inr (if want_vb then Some 0 else None, sint ix))
      else if \<not> want_vb then Inl NullDeref
      else
        let vbucket_id = vbucket_get_vbucket_by_key vb key
        in vbind (vbucket_get_master vb vbucket_id) (\<lambda>m. Inr (Some vbucket_id, m)))"

definition vbucket_config_get_num_replicas :: "vbucket_config_st \<Rightarrow> int" where
  "vbucket_config_get_num_replicas vb = num_replicas vb"

definition vbucket_config_get_num_vbuckets :: "vbucket_config_st \<Rightarrow> nat" where
  "vbucket_config_get_num_vbuckets vb = num_vbuckets vb"

definition vbucket_config_get_num_servers :: "vbucket_config_st \<Rightarrow> nat" where
  "vbucket_config_get_num_servers vb = num_servers vb"

definition vbucket_config_get_couch_api_base :: "vbucket_config_st \<Rightarrow> nat \<Rightarrow> string option vb_result" where
  "vbucket_config_get_couch_api_base vb i =
     vbind (deref (servers vb)) (\<lambda>svs. vbind (at svs i) (\<lambda>sv. Inr (couchdb_api_base sv)))"

definition vbucket_config_get_distribution_type :: "vbucket_config_st \<Rightarrow> VBUCKET_DISTRIBUTION_TYPE" where
  "vbucket_config_get_distribution_type vb = distribution vb"

definition vbucket_config_get_server :: "vbucket_config_st \<Rightarrow> nat \<Rightarrow> string option vb_result" where
  "vbucket_config_get_server vb i =
     vbind (deref (servers vb)) (\<lambda>svs. vbind (at svs i) (\<lambda>sv. Inr (authority sv)))"

definition vbucket_config_get_user :: "vbucket_config_st \<Rightarrow> string option" where
  "vbucket_config_get_user vb = user vb"

definition vbucket_config_get_password :: "vbucket_config_st \<Rightarrow> string option" where
  "vbucket_config_get_password vb = password vb"

section \<open>Repairing and comparing maps\<close>

text \<open>The copy loop over the replicas of the forward row.\<close>

fun copy_row :: "vbucket_st \<Rightarrow> vbucket_st \<Rightarrow> nat list \<Rightarrow> vbucket_st vb_result" where
  "copy_row row frow [] = Inr row"
| "copy_row row frow (i # is) =
     vbind (at frow (i + 1)) (\<lambda>v.
       if i + 1 < length row then copy_row (row[i + 1 := v]) frow is else Inl OutOfBounds)"

definition vbucket_found_incorrect_master ::
  "vbucket_config_st \<Rightarrow> nat \<Rightarrow> int \<Rightarrow> (vbucket_config_st \<times> int) vb_result" where
  "vbucket_found_incorrect_master vb vbucket wrongserver =
     vbind (deref (vbuckets vb)) (\<lambda>m.
     vbind (at m vbucket) (\<lambda>row.
     vbind (at row 0) (\<lambda>mappedServer.
       case fvbuckets vb of
         Some fm \<Rightarrow>
           vbind (at fm vbucket) (\<lambda>frow.
           vbind (at frow 0) (\<lambda>rv.
           vbind (copy_row (row[0 := rv]) frow [0..<nat (num_replicas vb)]) (\<lambda>row'.
             Inr (vb\<lparr>vbuckets := Some (m[vbucket := row'])\<rparr>, rv))))
       | None \<Rightarrow>
           if mappedServer = wrongserver then
             if num_servers vb = 0 then Inl DivByZero
             else let rv = (mappedServer + 1) smod int (num_servers vb)
             in Inr (vb\<lparr>vbuckets := Some (m[vbucket := row[0 := rv]])\<rparr>, rv)
           else Inr (vb, mappedServer))))"

record VBUCKET_CONFIG_DIFF =
  servers_added :: "string list option"
  servers_removed :: "string list option"
  n_vb_changes :: int
  sequence_changed :: bool

text \<open>The inner loop: is the name among the first servers of the other map?\<close>

fun server_known :: "server_st list \<Rightarrow> string \<Rightarrow> bool vb_result" where
  "server_known [] sn = Inr False"
| "server_known (sv # svs) sn =
     vbind (deref (authority sv)) (\<lambda>sn2. if sn2 = sn then Inr True else server_known svs sn)"

text \<open>
  \<open>compute_vb_list_diff\<close>: \<open>out_ok\<close> says whether the output array was allocated, \<open>name_ok i\<close>
  whether the copy of the \<open>i\<close>-th name is.  \<open>sn\<close> is compared before it is copied, so a missing
  authority is dereferenced unless the other map is empty; copying it dereferences it then.
\<close>

fun compute_vb_list_diff ::
  "bool \<Rightarrow> (nat \<Rightarrow> bool) \<Rightarrow> server_st list \<Rightarrow> nat \<Rightarrow> server_st list \<Rightarrow> string list vb_result" where
  "compute_vb_list_diff out_ok name_ok from i [] = Inr []"
| "compute_vb_list_diff out_ok name_ok from i (sv # to) =
     vbind (deref (authority sv)) (\<lambda>sn.
     vbind (server_known from sn) (\<lambda>found.
       if found then compute_vb_list_diff out_ok name_ok from (i + 1) to
       else if \<not> out_ok then Inl NullDeref
       else if \<not> name_ok i then Inl AssertFailed
       else vbind (compute_vb_list_diff out_ok name_ok from (i + 1) to) (\<lambda>out. Inr (sn # out))))"

definition config_servers :: "vbucket_config_st \<Rightarrow> server_st list vb_result" where
  "config_servers vb =
     (if num_servers vb = 0 then Inr []
      else vbind (deref (servers vb)) (\<lambda>svs.
        if num_servers vb \<le> length svs then Inr (take (num_servers vb) svs) else Inl OutOfBounds))"

text \<open>The comparison of the two server lists position by position.\<close>

fun authorities_differ :: "server_st list \<Rightarrow> server_st list \<Rightarrow> bool vb_result" where
  "authorities_differ (a # as) (b # bs) =
     vbind (deref (authority a)) (\<lambda>x.
     vbind (deref (authority b)) (\<lambda>y.
     vbind (authorities_differ as bs) (\<lambda>r. Inr (x \<noteq> y \<or> r))))"
| "authorities_differ _ _ = Inr False"

text \<open>A credential changed: both present and different, or exactly one present.\<close>

definition credential_changed :: "string option \<Rightarrow> string option \<Rightarrow> bool" where
  "credential_changed a b =
     (case (a, b) of
        (Some x, Some y) \<Rightarrow> x \<noteq> y
      | _ \<Rightarrow> (a \<noteq> None) \<noteq> (b \<noteq> None))"

fun count_vb_changes :: "vbucket_config_st \<Rightarrow> vbucket_config_st \<Rightarrow> nat list \<Rightarrow> int vb_result" where
  "count_vb_changes from to [] = Inr 0"
| "count_vb_changes from to (i # is) =
     vbind (vbucket_get_master from i) (\<lambda>a.
     vbind (vbucket_get_master to i) (\<lambda>b.
     vbind (count_vb_changes from to is) (\<lambda>n. Inr ((if a = b then 0 else 1) + n))))"

definition vbucket_compare ::
  "libc \<Rightarrow> vbucket_config_st \<Rightarrow> vbucket_config_st \<Rightarrow> VBUCKET_CONFIG_DIFF vb_result" where
  "vbucket_compare lc from to =
     (if \<not> alloc lc A_diff then Inl AssertFailed
      else
        vbind (config_servers from) (\<lambda>fs.
        vbind (config_servers to) (\<lambda>ts.
        vbind (compute_vb_list_diff (alloc lc A_added) (alloc lc \<circ> A_added_name) fs 0 ts) (\<lambda>added.
        vbind (compute_vb_list_diff (alloc lc A_removed) (alloc lc \<circ> A_removed_name) ts 0 fs) (\<lambda>removed.
        vbind (if num_servers to = num_servers from then authorities_differ fs ts else Inr True) (\<lambda>sq.
        vbind (if num_vbuckets to = num_vbuckets from
               then count_vb_changes from to [0..<num_vbuckets to] else Inr (- 1)) (\<lambda>n.
          Inr \<lparr>servers_added = (if alloc lc A_added then Some added else None),
               servers_removed = (if alloc lc A_removed then Some removed else None),
               n_vb_changes = n,
               sequence_changed = (sq \<or> credential_changed (user from) (user to)
                                      \<or> credential_changed (password from) (password to))\<rparr>)))))))"

end
