(* ===== verification/VbucketParse.thy ===== *)
theory VbucketParse
  imports Vbucket
begin

text \<open>
  What a successful parse guarantees.  \<open>wf_config\<close> is the well-formedness of a configuration:
  the invariant on which routing, repair and comparison rely.  The main lemma is
  \<open>parse_cjson_wf_aux\<close>; the second group shows that parsing never runs into undefined behaviour
  when memory is available and the \<open>couchApiBase\<close> members are strings.
\<close>

section \<open>Well-formed configurations\<close>

definition wf_row :: "nat \<Rightarrow> vbucket_st \<Rightarrow> bool" where
  "wf_row ns row \<longleftrightarrow> length row = 5 \<and> list_all (\<lambda>v. - 1 \<le> v \<and> v < int ns) row"

definition wf_rows :: "vbucket_config_st \<Rightarrow> vbucket_st list \<Rightarrow> bool" where
  "wf_rows vb m \<longleftrightarrow> length m = num_vbuckets vb \<and> list_all (wf_row (num_servers vb)) m"

definition wf_servers :: "vbucket_config_st \<Rightarrow> bool" where
  "wf_servers vb \<longleftrightarrow> 0 < num_servers vb \<and>
     (case servers vb of
        None \<Rightarrow> False
      | Some svs \<Rightarrow> length svs = num_servers vb \<and> list_all (\<lambda>sv. authority sv \<noteq> None) svs)"

definition wf_map :: "vbucket_config_st \<Rightarrow> bool" where
  "wf_map vb \<longleftrightarrow>
     0 < num_vbuckets vb \<and> num_vbuckets vb AND (num_vbuckets vb - 1) = 0 \<and>
     mask_vb vb = num_vbuckets vb - 1 \<and> - 1 \<le> num_replicas vb \<and> num_replicas vb \<le> MAX_REPLICAS \<and>
     (case vbuckets vb of None \<Rightarrow> False | Some m \<Rightarrow> wf_rows vb m) \<and>
     (case fvbuckets vb of None \<Rightarrow> True | Some m \<Rightarrow> wf_rows vb m)"

definition wf_ring :: "vbucket_config_st \<Rightarrow> bool" where
  "wf_ring vb \<longleftrightarrow>
     (case continuum vb of
        None \<Rightarrow> False
      | Some cs \<Rightarrow> length cs = num_continuum vb \<and> num_continuum vb = 160 * num_servers vb \<and>
          sorted (map point cs) \<and> list_all (\<lambda>c. unat (index c) < num_servers vb) cs)"

definition wf_config :: "vbucket_config_st \<Rightarrow> bool" where
  "wf_config vb \<longleftrightarrow> wf_servers vb \<and>
     (case distribution vb of
        VBUCKET_DISTRIBUTION_VBUCKET \<Rightarrow> wf_map vb
      | VBUCKET_DISTRIBUTION_KETAMA \<Rightarrow> wf_ring vb)"

text \<open>The contract of \<open>qsort\<close>: a permutation that is ordered by the comparison function.\<close>

definition qsort_ok :: "libc \<Rightarrow> bool" where
  "qsort_ok lc \<longleftrightarrow> (\<forall>xs. mset (qsort lc xs) = mset xs \<and>
     sorted_wrt (\<lambda>a b. continuum_item_cmp a b \<le> 0) (qsort lc xs))"

lemma cmp_le_0: "continuum_item_cmp a b \<le> 0 \<longleftrightarrow> point a \<le> point b"
  by (auto simp: continuum_item_cmp_def)

lemma qsort_sorted: "qsort_ok lc \<Longrightarrow> sorted (map point (qsort lc xs))"
  by (simp add: qsort_ok_def cmp_le_0 sorted_map)

lemma qsort_set: "qsort_ok lc \<Longrightarrow> set (qsort lc xs) = set xs \<and> length (qsort lc xs) = length xs"
  unfolding qsort_ok_def by (metis set_mset_mset size_mset)

section \<open>The loops of the parser\<close>

lemma replicate_null: "i < n \<Longrightarrow> authority (replicate n null_server ! i) = None"
  by (simp add: null_server_def)

text \<open>Both loops over the servers write one authority per step.\<close>

definition set_authority :: "server_st list \<Rightarrow> nat \<Rightarrow> string \<Rightarrow> server_st list" where
  "set_authority svs i str = svs[i := (svs ! i)\<lparr>authority := Some str\<rparr>]"

lemma set_authority_nth [simp]:
  "k < length svs \<Longrightarrow> authority (set_authority svs i str ! k)
     = (if k = i then Some str else authority (svs ! k))"
  "length (set_authority svs i str) = length svs"
  by (simp_all add: set_authority_def nth_list_update)

lemma populate_servers_loop_Inr:
  "populate_servers_loop lc c svs (i # is) = Inr svs' \<longleftrightarrow>
   (\<exists>str. cJSON_GetArrayItem c i = Some (cJSON_String str) \<and> alloc lc (A_server i) \<and>
      populate_servers_loop lc c (set_authority svs i str) is = Inr svs')"
  by (auto simp: strdup_def set_authority_def split: option.splits cJSON.splits)

lemma populate_servers_loop_ok:
  "populate_servers_loop lc c svs is = Inr svs' \<Longrightarrow>
   length svs' = length svs \<and>
   (\<forall>i<length svs. i \<in> set is \<or> authority (svs ! i) \<noteq> None \<longrightarrow> authority (svs' ! i) \<noteq> None)"
proof (induction "is" arbitrary: svs)
  case (Cons i "is")
  then obtain str where "populate_servers_loop lc c (set_authority svs i str) is = Inr svs'"
    by (auto simp only: populate_servers_loop_Inr)
  from Cons.IH [OF this] show ?case by auto
qed simp

lemma ketama_servers_loop_Inr:
  "ketama_servers_loop lc c svs (i # is) = Inr svs' \<longleftrightarrow>
   (\<exists>ms buf. cJSON_GetArrayItem c i = Some (cJSON_Object ms) \<and> alloc lc (A_authority i) \<and>
      alloc lc A_servers \<and> get_node_authority (cJSON_Object ms) MAX_AUTORITY_SIZE = Inr buf \<and>
      ketama_servers_loop lc c (set_authority svs i buf) is = Inr svs')"
  by (auto simp: vbind_Inr set_authority_def split: option.splits cJSON.splits)

text \<open>The authority buffer is never overrun: 92 characters of host name, 6 of port.\<close>

lemma authority_buf_length: "8 \<le> nbuf \<Longrightarrow> length (authority_buf nbuf h p) + 2 \<le> nbuf"
proof -
  have "length (takeWhile (\<lambda>c. c \<noteq> CHR 0x3A) (take (nbuf - 8) h)) \<le> nbuf - 8"
    by (metis length_take length_takeWhile_le min.coboundedI2 order.trans min.cobounded2)
  then show "8 \<le> nbuf \<Longrightarrow> ?thesis" by (simp add: authority_buf_def)
qed

lemma get_node_authority_length:
  "get_node_authority node MAX_AUTORITY_SIZE = Inr buf \<Longrightarrow> length buf \<le> 98"
  using authority_buf_length [of MAX_AUTORITY_SIZE]
  by (auto simp: get_node_authority_def MAX_AUTORITY_SIZE_def
      split: option.splits cJSON.splits)

lemma ketama_servers_loop_ok:
  "ketama_servers_loop lc c svs is = Inr svs' \<Longrightarrow>
   length svs' = length svs \<and>
   (\<forall>i<length svs. i \<in> set is \<or> (\<exists>a. authority (svs ! i) = Some a \<and> length a \<le> 98)
      \<longrightarrow> (\<exists>a. authority (svs' ! i) = Some a \<and> length a \<le> 98))"
proof (induction "is" arbitrary: svs)
  case (Cons i "is")
  then obtain ms buf where "ketama_servers_loop lc c (set_authority svs i buf) is = Inr svs'"
    and "length buf \<le> 98"
    by (auto simp only: ketama_servers_loop_Inr dest: get_node_authority_length)
  with Cons.IH show ?case by fastforce
qed simp

lemma populate_row_ok:
  "populate_row ns j row is = Inr row' \<Longrightarrow> wf_row ns row \<Longrightarrow> wf_row ns row'"
proof (induction ns j row "is" rule: populate_row.induct)
  case (2 ns j row i "is")
  from "2.prems"(1) obtain v where v: "cJSON_GetArrayItem j i = Some (cJSON_Number v)"
    "\<not> (v < - 1 \<or> v \<ge> int ns)" "i < length row" "populate_row ns j (row[i := v]) is = Inr row'"
    by (auto split: option.splits cJSON.splits if_splits)
  have "wf_row ns (row[i := v])"
    using "2.prems"(2) v(2) by (auto simp: wf_row_def list_all_iff dest: set_update_subset_insert [THEN subsetD])
  then show ?case by (rule "2.IH" [OF v(1) refl v(2,3,4)])
qed simp

lemma wf_zero_row: "0 < ns \<Longrightarrow> wf_row ns zero_row"
  by (simp add: wf_row_def zero_row_def MAX_REPLICAS_def list_all_iff)

lemma populate_rows_ok:
  "populate_rows vb c is = Inr m \<Longrightarrow> 0 < num_servers vb \<Longrightarrow>
   length m = length is \<and> list_all (wf_row (num_servers vb)) m \<and>
   (is \<noteq> [] \<longrightarrow> - 1 \<le> num_replicas vb)"
proof (induction "is" arbitrary: m)
  case (Cons i "is")
  then obtain xs row rows where
    "cJSON_GetArrayItem c i = Some (cJSON_Array xs)"
    and n: "int (cJSON_GetArraySize (cJSON_Array xs)) = num_replicas vb + 1"
    and row: "populate_row (num_servers vb) (cJSON_Array xs) zero_row [0..<nat (num_replicas vb + 1)] = Inr row"
    and rows: "populate_rows vb c is = Inr rows" "m = row # rows"
    by (auto simp: vbind_Inr split: option.splits cJSON.splits if_splits)
  from n have "- 1 \<le> num_replicas vb" by linarith
  with Cons.IH [OF rows(1)] Cons.prems(2) rows(2) populate_row_ok [OF row wf_zero_row] show ?case
    by simp
qed simp

text \<open>Updating the server info changes nothing but the \<open>couchApiBase\<close> strings.\<close>

definition api_update :: "vbucket_config_st \<Rightarrow> vbucket_config_st \<Rightarrow> bool" where
  "api_update vb vb' \<longleftrightarrow> (\<exists>svs'. vb' = vb\<lparr>servers := svs'\<rparr> \<and>
     map_option (map authority) svs' = map_option (map authority) (servers vb))"

lemma api_update_refl: "api_update vb vb"
  by (auto simp: api_update_def intro: exI [of _ "servers vb"])

lemma api_update_trans: "api_update vb vb' \<Longrightarrow> api_update vb' vb'' \<Longrightarrow> api_update vb vb''"
  by (auto simp: api_update_def)

lemma map_authority_api:
  "map authority (svs[k := (svs ! k)\<lparr>couchdb_api_base := v\<rparr>]) = map authority svs"
  by (simp add: map_update list_update_same_conv) (metis list_update_beyond list_update_id map_update not_le nth_map)

lemma set_api_base_update: "api_update vb (set_api_base vb k v)"
  by (cases "servers vb") (auto simp: api_update_def set_api_base_def map_authority_api)

lemma update_server_node_ok: "update_server_node lc vb i node = Inr vb' \<Longrightarrow> api_update vb vb'"
  by (auto simp: update_server_node_def vbind_def api_update_refl set_api_base_update
      split: if_splits option.splits sum.splits)

lemma update_server_info_loop_ok: "update_server_info_loop lc vb c is = Inr vb' \<Longrightarrow> api_update vb vb'"
proof (induction "is" arbitrary: vb)
  case (Cons i "is")
  show ?case
  proof (cases "cJSON_GetArrayItem c i")
    case (Some node)
    with Cons.prems obtain v where v: "update_server_node lc vb i node = Inr v"
      "update_server_info_loop lc v c is = Inr vb'" by (auto simp: vbind_Inr)
    then show ?thesis using Cons.IH update_server_node_ok api_update_trans by blast
  qed (use Cons in simp)
qed (simp add: api_update_refl)

lemma wf_servers_update:
  assumes "wf_servers vb" and "api_update vb vb'"
  shows "wf_servers vb'"
proof -
  obtain svs where svs: "servers vb = Some svs" "length svs = num_servers vb"
    "list_all (\<lambda>sv. authority sv \<noteq> None) svs"
    using assms(1) by (auto simp: wf_servers_def split: option.splits)
  with assms(2) obtain t where t: "vb' = vb\<lparr>servers := Some t\<rparr>" "map authority t = map authority svs"
    by (auto simp: api_update_def)
  have "\<forall>a\<in>set (map authority t). a \<noteq> None"
    unfolding t(2) using svs(3) by (auto simp: list_all_iff)
  then have "list_all (\<lambda>sv. authority sv \<noteq> None) t" by (simp add: list_all_iff)
  moreover have "length t = length svs" using t(2) map_eq_imp_length_eq by blast
  ultimately show ?thesis using assms(1) svs t
    by (simp add: wf_servers_def)
qed

section \<open>The continuum\<close>

lemma server_points_ok:
  "server_points lc auth ss hs = Inr ps \<Longrightarrow>
   length ps = 4 * length hs \<and> (\<forall>p\<in>set ps. index p = of_nat ss)"
  by (induction hs arbitrary: ps) (auto simp: vbind_Inr)

lemma unat_of_nat_le: "unat (of_nat n :: 'a::len word) \<le> n"
  by (simp add: unsigned_of_nat take_bit_eq_mod)

lemma continuum_points_ok:
  "continuum_points lc ss svs = Inr ps \<Longrightarrow>
   length ps = 160 * length svs \<and> (\<forall>p\<in>set ps. unat (index p) < ss + length svs)"
proof (induction svs arbitrary: ss ps)
  case (Cons sv svs)
  then obtain auth qs rest where
    q: "server_points lc auth ss [0..<40] = Inr qs" and
    r: "continuum_points lc (ss + 1) svs = Inr rest" and ps: "ps = qs @ rest"
    by (auto simp: vbind_Inr)
  have "unat (of_nat ss :: u32) < ss + length (sv # svs)"
    using unat_of_nat_le [of ss] by (metis length_Cons less_add_Suc1 order.strict_trans1 add_Suc_right less_add_same_cancel1 zero_less_Suc)
  then show ?case using server_points_ok [OF q] Cons.IH [OF r] ps by fastforce
qed simp

lemma update_ketama_continuum_ok:
  assumes "update_ketama_continuum lc vb = Inr vb'" and "qsort_ok lc"
    and "servers vb = Some svs" "length svs = num_servers vb"
  shows "wf_ring vb' \<and> (\<exists>cs n. vb' = vb\<lparr>continuum := cs, num_continuum := n\<rparr>)"
proof -
  obtain ps where ps: "continuum_points lc 0 svs = Inr ps"
    and vb': "vb' = vb\<lparr>continuum := Some (qsort lc ps), num_continuum := length ps\<rparr>"
    using assms by (auto simp: update_ketama_continuum_def vbind_Inr split: if_splits)
  have "wf_ring vb'"
    using continuum_points_ok [OF ps] qsort_sorted [OF assms(2)] qsort_set [OF assms(2), of ps] assms(4)
    by (simp add: vb' wf_ring_def list_all_iff)
  then show ?thesis using vb' by blast
qed

section \<open>A successful parse gives a well-formed configuration\<close>

lemma populate_servers_ok:
  assumes "populate_servers lc vb c = Inr vb'" and "0 < num_servers vb"
  shows "wf_servers vb' \<and> (\<exists>svs. vb' = vb\<lparr>servers := svs\<rparr>)"
proof -
  obtain svs where svs: "vb' = vb\<lparr>servers := Some svs\<rparr>"
    and l: "populate_servers_loop lc c (replicate (num_servers vb) null_server) [0..<num_servers vb] = Inr svs"
    using assms(1) by (auto simp: populate_servers_def vbucket_config_destroy_def vbind_Inr split: if_splits)
  from populate_servers_loop_ok [OF l] have "length svs = num_servers vb"
    "list_all (\<lambda>sv. authority sv \<noteq> None) svs"
    by (auto simp: list_all_length)
  with svs assms(2) show ?thesis by (auto simp: wf_servers_def)
qed

lemma parse_server_list_ok:
  "parse_server_list lc vb c = Inr vb' \<Longrightarrow>
   wf_servers vb' \<and> (\<exists>n svs. vb' = vb\<lparr>num_servers := n, servers := svs\<rparr>)"
  by (auto simp: parse_server_list_def Let_def split: option.splits cJSON.splits if_splits
      dest!: populate_servers_ok)

lemma parse_nodes_ok: "parse_nodes lc vb c = Inr vb' \<Longrightarrow> api_update vb vb'"
  by (auto simp: parse_nodes_def update_server_info_def api_update_refl
      split: option.splits cJSON.splits dest: update_server_info_loop_ok)

lemma populate_buckets_ok:
  assumes "populate_buckets lc vb c fwd = Inr vb'" and "0 < num_servers vb" and "0 < num_vbuckets vb"
  shows "- 1 \<le> num_replicas vb \<and>
    (\<exists>m. wf_rows vb m \<and> vb' = (if fwd then vb\<lparr>fvbuckets := Some m\<rparr> else vb\<lparr>vbuckets := Some m\<rparr>))"
proof -
  obtain m where m: "populate_rows vb c [0..<num_vbuckets vb] = Inr m"
    "vb' = (if fwd then vb\<lparr>fvbuckets := Some m\<rparr> else vb\<lparr>vbuckets := Some m\<rparr>)"
    using assms(1) by (auto simp: populate_buckets_def vbind_Inr split: if_splits)
  from populate_rows_ok [OF m(1) assms(2)] assms(3) m(2) show ?thesis
    by (auto simp: wf_rows_def)
qed

lemma parse_map_ok:
  assumes "parse_map lc vb c = Inr vb'" and "0 < num_servers vb"
    and "num_replicas vb \<le> MAX_REPLICAS" and "fvbuckets vb = None"
  shows "wf_map vb' \<and> (\<exists>n k m. vb' = vb\<lparr>num_vbuckets := n, mask_vb := k, vbuckets := m\<rparr>)"
proof -
  obtain xs n where n: "0 < n" "n AND (n - 1) = 0"
    "populate_buckets lc (vb\<lparr>num_vbuckets := n, mask_vb := n - 1\<rparr>) (cJSON_Array xs) False = Inr vb'"
    using assms(1) by (auto simp: parse_map_def Let_def split: option.splits cJSON.splits if_splits)
  from populate_buckets_ok [OF n(3)] n(1,2) assms(2-) show ?thesis
    by (auto simp: wf_map_def wf_rows_def)
qed

lemma parse_map_forward_ok:
  assumes "parse_map_forward lc vb c = Inr vb'" and "wf_map vb" and "0 < num_servers vb"
  shows "wf_map vb' \<and> (\<exists>m. vb' = vb\<lparr>fvbuckets := m\<rparr>)"
proof (cases "cJSON_GetObjectItem c ''vBucketMapForward''")
  case None
  then show ?thesis using assms by (auto simp: parse_map_forward_def intro: exI [of _ "fvbuckets vb"])
next
  case (Some j)
  with assms(1) obtain xs where "populate_buckets lc vb (cJSON_Array xs) True = Inr vb'"
    by (auto simp: parse_map_forward_def split: cJSON.splits)
  from populate_buckets_ok [OF this assms(3)] assms(2) show ?thesis
    by (auto simp: wf_map_def wf_rows_def split: option.splits)
qed

lemma parse_vbucket_config_ok:
  assumes "parse_vbucket_config lc vb c = Inr vb'" and "fvbuckets vb = None"
  shows "wf_servers vb' \<and> wf_map vb' \<and> distribution vb' = distribution vb"
proof -
  obtain v1 v2 v3 v4 where
    1: "parse_replicas vb (config_body c) = Inr v1" and
    2: "parse_server_list lc v1 (config_body c) = Inr v2" and
    3: "parse_nodes lc v2 c = Inr v3" and
    4: "parse_map lc v3 (config_body c) = Inr v4" and
    5: "parse_map_forward lc v4 (config_body c) = Inr vb'"
    using assms(1) by (auto simp: parse_vbucket_config_def Let_def vbind_Inr)
  have v1: "num_replicas v1 \<le> MAX_REPLICAS" "fvbuckets v1 = None" "distribution v1 = distribution vb"
    using 1 assms(2) by (auto simp: parse_replicas_def split: option.splits cJSON.splits if_splits)
  have v2: "wf_servers v2" "num_replicas v2 \<le> MAX_REPLICAS" "fvbuckets v2 = None" "distribution v2 = distribution vb"
    using parse_server_list_ok [OF 2] v1 by auto
  have v3: "wf_servers v3" "num_replicas v3 \<le> MAX_REPLICAS" "fvbuckets v3 = None" "distribution v3 = distribution vb"
    using parse_nodes_ok [OF 3] v2 wf_servers_update [of v2 v3] by (auto simp: api_update_def)
  have ns: "0 < num_servers v3" using v3(1) by (simp add: wf_servers_def)
  note p4 = parse_map_ok [OF 4 ns v3(2,3)]
  then have v4: "wf_servers v4" "wf_map v4" "0 < num_servers v4" "distribution v4 = distribution vb"
    using v3 ns by (auto simp: wf_servers_def split: option.splits)
  from parse_map_forward_ok [OF 5 v4(2,3)] v4 show ?thesis
    by (auto simp: wf_servers_def split: option.splits)
qed

lemma parse_ketama_config_ok:
  assumes "parse_ketama_config lc vb c = Inr vb'" and "qsort_ok lc"
  shows "wf_servers vb' \<and> wf_ring vb' \<and> distribution vb' = distribution vb"
proof -
  obtain xs n svs where n: "0 < n"
    and l: "ketama_servers_loop lc (cJSON_Array xs) (replicate n null_server) [0..<n] = Inr svs"
    and u: "update_ketama_continuum lc (vb\<lparr>num_servers := n, servers := Some svs\<rparr>) = Inr vb'"
    using assms(1) by (auto simp: parse_ketama_config_def Let_def vbind_Inr
        split: option.splits cJSON.splits if_splits sum.splits)
  from ketama_servers_loop_ok [OF l] have s: "length svs = n" "list_all (\<lambda>sv. authority sv \<noteq> None) svs"
    by (auto simp: list_all_length)
  from update_ketama_continuum_ok [OF u assms(2)] s n show ?thesis
    by (auto simp: wf_servers_def)
qed

text \<open>The locators the parser knows; for any other string it parses nothing.\<close>

definition known_locator :: "cJSON \<Rightarrow> bool" where
  "known_locator j = (case cJSON_GetObjectItem j ''nodeLocator'' of
      Some (cJSON_String str) \<Rightarrow> str = ''vbucket'' \<or> str = ''ketama''
    | _ \<Rightarrow> True)"

lemma parse_credentials_fvbuckets: "fvbuckets (parse_credentials lc c vb) = fvbuckets vb"
  by (auto simp: parse_credentials_def Let_def split: option.splits cJSON.splits)

lemma parse_cjson_wf_aux:
  assumes "parse_cjson lc j = Inr vb" and "qsort_ok lc" and "known_locator j"
  shows "wf_config vb"
  using assms parse_credentials_fvbuckets [of lc j empty_config]
  by (auto simp: parse_cjson_def Let_def known_locator_def wf_config_def empty_config_def
      split: option.splits cJSON.splits if_splits
      dest!: parse_vbucket_config_ok parse_ketama_config_ok)

section \<open>Parsing does not run into undefined behaviour\<close>

text \<open>\<open>clean r\<close>: the function returns, with a result or with an error string.\<close>

definition clean :: "'a vb_result \<Rightarrow> bool" where
  "clean r \<longleftrightarrow> (case r of Inr _ \<Rightarrow> True | Inl e \<Rightarrow> (case e of ErrStr _ \<Rightarrow> True | _ \<Rightarrow> False))"

lemma clean_simps [simp]:
  "clean (Inr x)"
  "clean (Inl (ErrStr s))"
  by (simp_all add: clean_def)

lemma clean_vbind: "clean m \<Longrightarrow> (\<And>x. m = Inr x \<Longrightarrow> clean (f x)) \<Longrightarrow> clean (vbind m f)"
  by (cases m) (auto simp: clean_def)

text \<open>Every \<open>couchApiBase\<close> member of the nodes array is a string.\<close>

definition api_strings :: "cJSON \<Rightarrow> bool" where
  "api_strings j = (case cJSON_GetObjectItem j ''nodes'' of
      Some (cJSON_Array xs) \<Rightarrow>
        list_all (\<lambda>x. case cJSON_GetObjectItem x ''couchApiBase'' of None \<Rightarrow> True | Some y \<Rightarrow> is_String y) xs
    | _ \<Rightarrow> True)"

lemma clean_populate_servers_loop: "clean (populate_servers_loop lc c svs is)"
  by (induction "is" arbitrary: svs) (auto simp: strdup_def split: option.splits cJSON.splits)

lemma clean_get_node_authority: "clean (get_node_authority node n)"
  by (auto simp: get_node_authority_def split: option.splits cJSON.splits)

lemma clean_find_authority:
  "list_all (\<lambda>sv. authority sv \<noteq> None) svs \<Longrightarrow> clean (find_authority svs a ii)"
  by (induction svs arbitrary: ii) auto

lemma wf_servers_take: "wf_servers vb \<Longrightarrow>
  \<exists>svs. servers vb = Some svs \<and> take (num_servers vb) svs = svs \<and> list_all (\<lambda>sv. authority sv \<noteq> None) svs"
  by (auto simp: wf_servers_def split: option.splits)

lemma clean_lookup_server_struct: "wf_servers vb \<Longrightarrow> clean (lookup_server_struct lc vb ii c)"
  using wf_servers_take [of vb]
  by (auto simp: lookup_server_struct_def clean_find_authority split: sum.splits)

lemma clean_update_server_node:
  assumes "wf_servers vb" and "\<And>y. cJSON_GetObjectItem node ''couchApiBase'' = Some y \<Longrightarrow> is_String y"
  shows "clean (update_server_node lc vb ii node)"
proof -
  have "clean (strdup_item ok y)" if "cJSON_GetObjectItem node ''couchApiBase'' = Some y" for ok y
    using assms(2) [OF that] by (cases y) simp_all
  then show ?thesis
    unfolding update_server_node_def
    by (auto intro!: clean_vbind clean_lookup_server_struct assms split: option.splits)
qed

lemma clean_update_server_info_loop:
  assumes "\<And>i x y. cJSON_GetArrayItem c i = Some x \<Longrightarrow>
    cJSON_GetObjectItem x ''couchApiBase'' = Some y \<Longrightarrow> is_String y"
  shows "wf_servers vb \<Longrightarrow> clean (update_server_info_loop lc vb c is)"
proof (induction "is" arbitrary: vb)
  case (Cons i "is")
  then show ?case
    by (auto intro!: clean_vbind clean_update_server_node assms split: option.splits
        dest!: update_server_node_ok intro: wf_servers_update)
qed simp

lemma GetArrayItem_Array: "cJSON_GetArrayItem (cJSON_Array xs) i = Some x \<Longrightarrow> x \<in> set xs"
  by (auto simp: cJSON_GetArrayItem_def split: if_splits)

lemma clean_parse_nodes: "wf_servers vb \<Longrightarrow> api_strings c \<Longrightarrow> clean (parse_nodes lc vb c)"
  by (auto simp: parse_nodes_def update_server_info_def api_strings_def list_all_iff
      split: option.splits cJSON.splits
      intro!: clean_update_server_info_loop dest!: GetArrayItem_Array)

lemma clean_populate_row:
  "\<forall>i\<in>set is. i < length row \<Longrightarrow> clean (populate_row ns j row is)"
  by (induction "is" arbitrary: row) (auto split: option.splits cJSON.splits)

lemma clean_populate_rows:
  "num_replicas vb \<le> MAX_REPLICAS \<Longrightarrow> clean (populate_rows vb c is)"
  by (induction "is")
    (auto split: option.splits cJSON.splits intro!: clean_vbind clean_populate_row
      simp: zero_row_def MAX_REPLICAS_def)

lemma clean_populate_buckets:
  "num_replicas vb \<le> MAX_REPLICAS \<Longrightarrow> clean (populate_buckets lc vb c fwd)"
  by (auto simp: populate_buckets_def intro!: clean_vbind clean_populate_rows)

lemma clean_parse_vbucket_config:
  assumes "alloc lc A_servers" and "api_strings c" and "fvbuckets vb = None"
  shows "clean (parse_vbucket_config lc vb c)"
proof -
  have 1: "clean (parse_replicas vb (config_body c))"
    by (auto simp: parse_replicas_def split: option.splits cJSON.splits)
  have 2: "clean (parse_server_list lc v (config_body c))" for v
    using assms(1) by (auto simp: parse_server_list_def populate_servers_def Let_def
        intro!: clean_vbind clean_populate_servers_loop split: option.splits cJSON.splits)
  have 3: "clean (parse_nodes lc v2 c)" if "parse_server_list lc v1 (config_body c) = Inr v2" for v1 v2
    using parse_server_list_ok [OF that] by (auto intro: clean_parse_nodes assms(2))
  have rep: "num_replicas v1 \<le> MAX_REPLICAS" if "parse_replicas vb (config_body c) = Inr v1" for v1
    using that by (auto simp: parse_replicas_def split: option.splits cJSON.splits if_splits)
  have 4: "clean (parse_map lc v (config_body c))" "clean (parse_map_forward lc v (config_body c))"
    if "num_replicas v \<le> MAX_REPLICAS" for v
    using that by (auto simp: parse_map_def parse_map_forward_def Let_def
        intro!: clean_populate_buckets split: option.splits cJSON.splits)
  have rep4: "num_replicas v4 = num_replicas v3" if "parse_map lc v3 (config_body c) = Inr v4" for v3 v4
    using that by (auto simp: parse_map_def Let_def populate_buckets_def vbind_Inr
        split: option.splits cJSON.splits if_splits)
  have rep3: "num_replicas v3 = num_replicas v1"
    if "parse_server_list lc v1 (config_body c) = Inr v2" "parse_nodes lc v2 c = Inr v3" for v1 v2 v3
    using parse_server_list_ok [OF that(1)] parse_nodes_ok [OF that(2)] by (auto simp: api_update_def)
  show ?thesis
    unfolding parse_vbucket_config_def Let_def
    by (intro clean_vbind 1 2 3 4) (auto simp: rep3 rep4 rep)
qed

lemma clean_ketama_servers_loop: "alloc lc A_servers \<Longrightarrow> clean (ketama_servers_loop lc c svs is)"
  by (induction "is" arbitrary: svs)
    (auto intro!: clean_vbind clean_get_node_authority split: option.splits cJSON.splits)

lemma dec_nat_40: "hh < 40 \<Longrightarrow> length (dec_nat hh) \<le> 2"
  by (simp add: dec_nat.simps [of hh] dec_nat.simps [of "hh div 10"]) presburger

lemma clean_server_points:
  "length auth \<le> 98 \<Longrightarrow> \<forall>hh\<in>set hs. hh < 40 \<Longrightarrow> clean (server_points lc auth ss hs)"
proof (induction hs)
  case (Cons hh hs)
  have "length (dec_nat hh) \<le> 2" using Cons.prems(2) by (intro dec_nat_40) simp
  then have "clean (host_digest lc auth hh)"
    using Cons.prems(1) by (simp add: host_digest_def MAX_AUTORITY_SIZE_def Let_def)
  then show ?case using Cons by (auto intro!: clean_vbind)
qed simp

lemma clean_continuum_points:
  "list_all (\<lambda>sv. \<exists>a. authority sv = Some a \<and> length a \<le> 98) svs \<Longrightarrow>
   clean (continuum_points lc ss svs)"
  by (induction svs arbitrary: ss) (auto intro!: clean_vbind clean_server_points)

lemma clean_parse_ketama_config:
  assumes "\<And>s. alloc lc s"
  shows "clean (parse_ketama_config lc vb c)"
proof -
  have *: "clean (update_ketama_continuum lc (vb\<lparr>num_servers := n, servers := Some svs\<rparr>))"
    if "ketama_servers_loop lc j (replicate n null_server) [0..<n] = Inr svs" for j n svs
  proof -
    from ketama_servers_loop_ok [OF that]
    have "length svs = n" "list_all (\<lambda>sv. \<exists>a. authority sv = Some a \<and> length a \<le> 98) svs"
      by (simp_all add: list_all_length)
    then show ?thesis
      using assms by (auto simp: update_ketama_continuum_def intro!: clean_vbind clean_continuum_points)
  qed
  have "clean (Inl e :: server_st list vb_result) \<Longrightarrow> clean (Inl e :: vbucket_config_st vb_result)" for e
    by (simp add: clean_def)
  with clean_ketama_servers_loop [OF assms] have
    "clean (Inl e :: vbucket_config_st vb_result)" if "ketama_servers_loop lc j svs is = Inl e" for j svs "is" e
    using that by metis
  with * assms show ?thesis
    by (auto simp: parse_ketama_config_def vbucket_config_destroy_def Let_def
        split: option.splits cJSON.splits sum.splits)
qed

lemma clean_parse_cjson:
  assumes "\<And>s. alloc lc s" and "api_strings j"
  shows "clean (parse_cjson lc j)"
  using assms parse_credentials_fvbuckets [of lc j empty_config]
  by (auto simp: parse_cjson_def Let_def empty_config_def
      intro!: clean_parse_vbucket_config clean_parse_ketama_config
      split: option.splits cJSON.splits)

section \<open>Properties of the parser\<close>

text \<open>
  C29.  Whatever the JSON, a configuration that \<open>parse_cjson\<close> returns for a known node locator is
  well formed: its server list is not empty and fully named; a vbucket map has a power-of-two
  number of rows, a matching mask and only existing server numbers (or -1) in it and in its
  forward map; a ketama ring is sorted, holds 160 points per server and names only existing
  servers.
\<close>

theorem parse_cjson_wf:
  assumes "qsort_ok lc" and "known_locator j" and "parse_cjson lc j = Inr vb"
  shows "wf_config vb"
  using assms by (intro parse_cjson_wf_aux)

definition demo_json :: cJSON where
  "demo_json = cJSON_Object [
     (''numReplicas'', cJSON_Number 1),
     (''serverList'', cJSON_Array [cJSON_String ''a:1'', cJSON_String ''b:2'']),
     (''vBucketMap'', cJSON_Array [cJSON_Array [cJSON_Number 0, cJSON_Number 1],
        cJSON_Array [cJSON_Number 1, cJSON_Number (- 1)]])]"

definition demo_config :: vbucket_config_st where
  "demo_config = \<lparr>distribution = VBUCKET_DISTRIBUTION_VBUCKET, num_vbuckets = 2, mask_vb = 1,
     num_servers = 2, num_replicas = 1, user = None, password = None, num_continuum = 0,
     continuum = None,
     servers = Some [\<lparr>authority = Some ''a:1'', couchdb_api_base = None\<rparr>,
                     \<lparr>authority = Some ''b:2'', couchdb_api_base = None\<rparr>],
     fvbuckets = None, vbuckets = Some [[0, 1, 0, 0, 0], [1, - 1, 0, 0, 0]]\<rparr>"

definition demo_libc :: libc where
  "demo_libc = \<lparr>alloc = (\<lambda>_. True), qsort = sort_key point, stack = replicate 64 0\<rparr>"

lemma demo_qsort: "qsort_ok demo_libc"
proof -
  have "sorted_wrt (\<lambda>a b. point a \<le> point b) (sort_key point xs)" for xs :: "continuum_item_st list"
    using sorted_sort_key [of point xs] by (simp only: sorted_map)
  then show ?thesis by (simp add: qsort_ok_def demo_libc_def cmp_le_0)
qed

lemma demo_parse: "parse_cjson demo_libc demo_json = Inr demo_config" "known_locator demo_json"
  by code_simp+

theorem parse_cjson_wf_witness: "wf_config demo_config"
  using parse_cjson_wf [of demo_libc demo_json demo_config] demo_qsort demo_parse by simp



end
