(* ===== verification/VbucketRoute.thy ===== *)
theory VbucketRoute
  imports VbucketParse
begin

text \<open>
  Routing, repair and comparison on well-formed configurations: the vbucket of a key is in
  range, the bisection on the ketama ring finds what a linear scan finds, a wrong master is
  replaced without leaving the invariant, and the comparison of two maps reports exactly their
  differences.
\<close>

section \<open>The vbucket of a key\<close>

lemma power_of_two: "0 < n \<Longrightarrow> n AND (n - 1) = 0 \<Longrightarrow> \<exists>k. n = 2 ^ k" for n :: nat
proof (induction n rule: less_induct)
  case (less n)
  show ?case
  proof (cases "even n")
    case True
    then obtain m where m: "n = 2 * m" by (elim evenE)
    with less.prems have m0: "0 < m" by simp
    have "(n - 1) div 2 = m - 1" "odd (n - 1)" using m m0 by presburger+
    then have "n AND (n - 1) = 2 * (m AND (m - 1))"
      using m by (subst and_nat_rec) simp
    with less.prems less.IH [of m] m m0 obtain k where "m = 2 ^ k" by auto
    then show ?thesis using m by (intro exI [of _ "Suc k"]) simp
  next
    case False
    then obtain m where m: "n = 2 * m + 1" by (elim oddE)
    then have "n AND (n - 1) = 2 * (m AND m)"
      by (subst and_nat_rec) simp
    with less.prems m have "m = 0" by simp
    then show ?thesis using m by (intro exI [of _ 0]) simp
  qed
qed

lemma vbucket_by_key_le: "vbucket_get_vbucket_by_key vb key \<le> mask_vb vb"
proof -
  have "unat (hash_crc32 key AND of_nat (mask_vb vb)) \<le> unat (of_nat (mask_vb vb) :: u32)"
    by (simp add: word_and_le1 flip: word_le_nat_alt)
  also have "\<dots> \<le> mask_vb vb" by (rule unat_of_nat_le)
  finally show ?thesis by (simp add: vbucket_get_vbucket_by_key_def)
qed

lemma wf_map_rows:
  assumes "wf_map vb"
  obtains m where "vbuckets vb = Some m" "length m = num_vbuckets vb"
    "\<And>i. i < num_vbuckets vb \<Longrightarrow> wf_row (num_servers vb) (m ! i)"
  using assms by (auto simp: wf_map_def wf_rows_def list_all_length split: option.splits)

lemma wf_row_nth:
  "wf_row ns row \<Longrightarrow> j < 5 \<Longrightarrow> at row j = Inr (row ! j) \<and> - 1 \<le> row ! j \<and> row ! j < int ns"
  by (auto simp: wf_row_def at_def list_all_length)

lemma get_master_ok:
  assumes "wf_map vb" and "v < num_vbuckets vb"
  shows "\<exists>s. vbucket_get_master vb v = Inr s \<and> - 1 \<le> s \<and> s < int (num_servers vb)"
proof -
  obtain m where "vbuckets vb = Some m" "length m = num_vbuckets vb" "wf_row (num_servers vb) (m ! v)"
    using wf_map_rows [OF assms(1)] assms(2) by metis
  then show ?thesis
    using wf_row_nth [of "num_servers vb" "m ! v" 0] assms(2)
    by (simp add: vbucket_get_master_def at_simps)
qed

lemma get_replica_ok:
  assumes "wf_map vb" and "v < num_vbuckets vb" and "int i < num_replicas vb"
  shows "\<exists>s. vbucket_get_replica vb v i = Inr s \<and> - 1 \<le> s \<and> s < int (num_servers vb)"
proof -
  obtain m where "vbuckets vb = Some m" "length m = num_vbuckets vb" "wf_row (num_servers vb) (m ! v)"
    using wf_map_rows [OF assms(1)] assms(2) by metis
  moreover have "i + 1 < 5" using assms by (simp add: wf_map_def MAX_REPLICAS_def)
  ultimately show ?thesis
    using wf_row_nth [of "num_servers vb" "m ! v" "i + 1"] assms(2)
    by (simp add: vbucket_get_replica_def at_simps)
qed

section \<open>The bisection on the ring\<close>

text \<open>The specification: the first point not below the digest, or the first point of all.\<close>

fun ring_successor :: "continuum_item_st list \<Rightarrow> u32 \<Rightarrow> continuum_item_st option" where
  "ring_successor cs digest =
     (case find (\<lambda>c. digest \<le> point c) cs of
        Some c \<Rightarrow> Some c
      | None \<Rightarrow> (case cs of [] \<Rightarrow> None | c # _ \<Rightarrow> Some c))"

lemma find_first: "(\<forall>j<i. \<not> P (xs ! j)) \<Longrightarrow> i < length xs \<Longrightarrow> P (xs ! i) \<Longrightarrow> find P xs = Some (xs ! i)"
  by (auto simp: find_Some_iff intro: exI [of _ i])

declare ketama_search.simps [simp del]

lemma sorted_points: "sorted (map point cs) \<Longrightarrow> i \<le> j \<Longrightarrow> j < length cs \<Longrightarrow> point (cs ! i) \<le> point (cs ! j)"
  using sorted_nth_mono [of "map point cs" i j] by simp

text \<open>
  The loop invariant: everything in front of \<open>low\<close> is below the digest, and when \<open>high\<close> has left
  the end, the point at \<open>high\<close> (if there is one) is already not below it.
\<close>

definition search_inv :: "continuum_item_st list \<Rightarrow> u32 \<Rightarrow> int \<Rightarrow> int \<Rightarrow> bool" where
  "search_inv cs digest low high \<longleftrightarrow>
     0 \<le> low \<and> low \<le> high \<and> high \<le> int (length cs) \<and>
     (\<forall>j. int j < low \<longrightarrow> point (cs ! j) < digest) \<and>
     (high < int (length cs) \<longrightarrow> digest \<le> point (cs ! nat high))"

lemma successor_wrap:
  "cs \<noteq> [] \<Longrightarrow> \<forall>j<length cs. point (cs ! j) < digest \<Longrightarrow> ring_successor cs digest = Some (cs ! 0)"
proof -
  assume a: "cs \<noteq> []" "\<forall>j<length cs. point (cs ! j) < digest"
  then have "find (\<lambda>c. digest \<le> point c) cs = None"
    by (auto simp: find_None_iff in_set_conv_nth)
  then show ?thesis using a(1) by (cases cs) simp_all
qed

lemma successor_found:
  assumes "sorted (map point cs)" and "i < length cs" and "digest \<le> point (cs ! i)"
    and "0 < i \<Longrightarrow> point (cs ! (i - 1)) < digest"
  shows "ring_successor cs digest = Some (cs ! i)"
proof -
  have "point (cs ! j) < digest" if "j < i" for j
    using sorted_points [OF assms(1), of j "i - 1"] that assms(2,4) by fastforce
  then have "find (\<lambda>c. digest \<le> point c) cs = Some (cs ! i)"
    by (intro find_first) (use assms in \<open>auto simp: not_le\<close>)
  then show ?thesis by simp
qed

lemma ketama_search_ok:
  assumes sorted: "sorted (map point cs)" and ne: "cs \<noteq> []"
  shows "search_inv cs digest low high \<Longrightarrow>
    ketama_search cs (length cs) digest low high = Inr (index (the (ring_successor cs digest)))"
proof (induction "nat (high - low)" arbitrary: low high rule: less_induct)
  case less
  note inv = less.prems [unfolded search_inv_def]
  define mid where "mid = low + (high - low) div 2"
  define i where "i = nat mid"
  have mid: "low \<le> mid" "mid \<le> high" "low < high \<Longrightarrow> mid < high"
    using inv unfolding mid_def by linarith+
  note unf = ketama_search.simps [of cs "length cs" digest low high, folded mid_def]
  have at0: "at cs 0 = Inr (cs ! 0)" using ne by (simp add: at_def)
  show ?case
  proof (cases "mid = int (length cs)")
    case True
    then have "\<forall>j<length cs. point (cs ! j) < digest" using mid inv by (auto simp: mid_def)
    with True at0 successor_wrap [OF ne] show ?thesis
      by (simp add: unf Let_def del: ring_successor.simps)
  next
    case False
    have i: "i < length cs" "mid = int i" using False mid inv by (auto simp: i_def)
    define prev where "prev = (if mid = 0 then 0 else point (cs ! (i - 1)))"
    have prev: "(if mid = 0 then Inr 0 else vbind (at cs (nat (mid - 1))) (\<lambda>p. Inr (point p))) = Inr prev"
      using i by (auto simp: prev_def at_def nat_diff_distrib)
    have ai: "at cs (nat mid) = Inr (cs ! i)" using i by (simp add: at_def)
    have neg: "(mid < 0) = False" using i by simp
    note step = unf [unfolded Let_def ai prev vbind_simps neg if_False if_not_P [OF False]]
    consider (found) "digest \<le> point (cs ! i)" "prev < digest"
      | (up) "point (cs ! i) < digest" "\<not> digest \<le> point (cs ! i)"
      | (down) "digest \<le> point (cs ! i)" "\<not> point (cs ! i) < digest" "\<not> prev < digest"
      by force
    then show ?thesis
    proof cases
      case found
      have "ring_successor cs digest = Some (cs ! i)"
        by (rule successor_found [OF sorted i(1) found(1)]) (use found(2) i(2) in \<open>simp add: prev_def\<close>)
      then show ?thesis using found by (simp add: step del: ring_successor.simps)
    next
      case up
      have "mid \<noteq> high"
      proof
        assume "mid = high"
        then have "nat high = i" "high < int (length cs)" using i by simp_all
        then have "digest \<le> point (cs ! i)" using inv by simp
        with up show False by simp
      qed
      then have lt: "mid < high" using mid by simp
      have "point (cs ! j) < digest" if "int j < mid + 1" for j
        using sorted_points [OF sorted, of j i] that i up by fastforce
      then have "search_inv cs digest (mid + 1) high"
        using lt inv mid by (simp add: search_inv_def)
      from less.hyps [OF _ this] lt mid up show ?thesis by (simp add: step del: ring_successor.simps)
    next
      case down
      show ?thesis
      proof (cases "mid = 0 \<or> mid - 1 < low")
        case True
        have z: "mid = 0"
        proof (rule ccontr)
          assume "mid \<noteq> 0"
          then have "int (i - 1) < low" "prev = point (cs ! (i - 1))"
            using True i mid by (auto simp: prev_def)
          with inv down(3) show False by auto
        qed
        then have "digest \<le> 0" using down(3) by (simp add: prev_def not_less)
        then have "ring_successor cs digest = Some (cs ! 0)"
          using successor_found [OF sorted, of 0 digest] ne by simp
        then show ?thesis unfolding step using down z mid inv at0 by (simp del: ring_successor.simps)
      next
        case False
        then have "search_inv cs digest low (mid - 1)"
          using inv mid down(3) i by (auto simp: search_inv_def prev_def nat_diff_distrib not_less)
        from less.hyps [OF _ this] False mid down show ?thesis by (simp add: step del: ring_successor.simps)
      qed
    qed
  qed
qed

lemma search_inv_init: "search_inv cs digest 0 (int (length cs))"
  by (simp add: search_inv_def)

lemma ring_successor_in: "cs \<noteq> [] \<Longrightarrow> \<exists>c\<in>set cs. ring_successor cs digest = Some c"
proof (cases "find (\<lambda>c. digest \<le> point c) cs")
  case None
  then show "cs \<noteq> [] \<Longrightarrow> ?thesis" by (cases cs) auto
next
  case (Some c)
  then have "c \<in> set cs" by (auto simp: find_Some_iff)
  then show ?thesis using Some by auto
qed

section \<open>Properties of routing\<close>

lemma wf_ring_D:
  assumes "wf_ring vb" and "0 < num_servers vb"
  obtains cs where "continuum vb = Some cs" "num_continuum vb = length cs" "cs \<noteq> []"
    "sorted (map point cs)" "\<forall>c\<in>set cs. unat (index c) < num_servers vb"
  using assms by (fastforce simp: wf_ring_def list_all_iff split: option.splits)

lemma vbucket_map_ring:
  assumes "wf_config vb" and "distribution vb = VBUCKET_DISTRIBUTION_KETAMA"
  obtains cs c where "continuum vb = Some cs" "c \<in> set cs" "unat (index c) < num_servers vb"
    "ring_successor cs (hash_ketama (stack lc) key) = Some c"
    "vbucket_map lc vb key w = Inr (if w then Some 0 else None, sint (index c))"
proof -
  have "wf_ring vb" "0 < num_servers vb" using assms by (auto simp: wf_config_def wf_servers_def)
  then obtain cs where cs: "continuum vb = Some cs" "num_continuum vb = length cs" "cs \<noteq> []"
    "sorted (map point cs)" "\<forall>c\<in>set cs. unat (index c) < num_servers vb"
    by (rule wf_ring_D)
  let ?d = "hash_ketama (stack lc) key"
  obtain c where c: "c \<in> set cs" "ring_successor cs ?d = Some c"
    using ring_successor_in [OF cs(3)] by blast
  show thesis
    using that [OF cs(1) c(1) _ c(2)] cs c assms(2) ketama_search_ok [OF cs(4,3) search_inv_init, of ?d]
    by (simp add: vbucket_map_def Let_def del: ring_successor.simps)
qed

lemma sint_index:
  fixes w :: u32
  assumes "unat w < n" and "n < 2 ^ 31"
  shows "sint w = uint w \<and> 0 \<le> sint w \<and> sint w < int n"
proof -
  have u: "uint w = int (unat w)" by (rule uint_nat)
  have "int n < 2 ^ 31" using assms(2) by (metis of_nat_less_iff of_nat_numeral of_nat_power)
  moreover have "int (unat w) < int n" "0 \<le> int (unat w)" using assms(1) by (simp_all only: of_nat_less_iff of_nat_0_le_iff)
  ultimately have "uint w < 2 ^ 31" "- (2 ^ 31) \<le> uint w" unfolding u by linarith+
  then have "signed_take_bit 31 (uint w) = uint w" by (intro signed_take_bit_int_eq_self)
  moreover have "sint w = signed_take_bit 31 (uint w)" using sint_uint [of w] by simp
  ultimately have "sint w = uint w" by argo
  then show ?thesis using u assms(1) by linarith
qed

lemma vbucket_map_vbucket:
  assumes "wf_config vb" and "distribution vb = VBUCKET_DISTRIBUTION_VBUCKET"
  shows "\<exists>v s. vbucket_map lc vb key True = Inr (Some v, s) \<and> v < num_vbuckets vb \<and>
    vbucket_get_master vb v = Inr s \<and> - 1 \<le> s \<and> s < int (num_servers vb)"
proof -
  have w: "wf_map vb" using assms by (simp add: wf_config_def)
  then have "vbucket_get_vbucket_by_key vb key < num_vbuckets vb"
    using vbucket_by_key_le [of vb key] by (auto simp: wf_map_def)
  with get_master_ok [OF w this] assms(2) show ?thesis
    by (auto simp: vbucket_map_def Let_def)
qed

section \<open>Repair\<close>

lemma copy_row_ok:
  "\<forall>i\<in>set is. i + 1 < length row \<and> i + 1 < length frow \<Longrightarrow>
   \<exists>row'. copy_row row frow is = Inr row' \<and> length row' = length row \<and>
     (\<forall>j<length row. row' ! j = (if \<exists>i\<in>set is. j = i + 1 then frow ! j else row ! j))"
proof (induction "is" arbitrary: row)
  case (Cons i "is")
  have "\<forall>k\<in>set is. k + 1 < length (row[i + 1 := frow ! (i + 1)]) \<and> k + 1 < length frow"
    using Cons.prems by simp
  from Cons.IH [OF this] Cons.prems show ?case by (auto simp: at_simps nth_list_update)
qed simp

text \<open>The row after a repair, as a function of the rows before.\<close>

lemma found_incorrect_forward:
  assumes w: "wf_map vb" and f: "fvbuckets vb = Some fm" and v: "v < num_vbuckets vb"
    and m: "vbuckets vb = Some m"
  shows "\<exists>row'. vbucket_found_incorrect_master vb v wrong
      = Inr (vb\<lparr>vbuckets := Some (m[v := row'])\<rparr>, fm ! v ! 0) \<and>
    length row' = 5 \<and> (\<forall>j<5. row' ! j = (if int j \<le> max 0 (num_replicas vb) then fm ! v ! j else m ! v ! j))"
proof -
  have rows: "length m = num_vbuckets vb" "length fm = num_vbuckets vb"
    "wf_row (num_servers vb) (m ! v)" "wf_row (num_servers vb) (fm ! v)"
    using w f m v by (auto simp: wf_map_def wf_rows_def list_all_length)
  have l: "length (m ! v) = 5" "length (fm ! v) = 5" using rows by (simp_all add: wf_row_def)
  have r: "num_replicas vb \<le> 4" using w by (simp add: wf_map_def MAX_REPLICAS_def)
  let ?row = "(m ! v)[0 := fm ! v ! 0]"
  have "\<forall>i\<in>set [0..<nat (num_replicas vb)]. i + 1 < length ?row \<and> i + 1 < length (fm ! v)"
    using l r by auto
  from copy_row_ok [OF this] obtain row' where row':
    "copy_row ?row (fm ! v) [0..<nat (num_replicas vb)] = Inr row'" "length row' = 5"
    "\<forall>j<5. row' ! j = (if \<exists>i\<in>set [0..<nat (num_replicas vb)]. j = i + 1 then fm ! v ! j else ?row ! j)"
    using l by auto
  have "row' ! j = (if int j \<le> max 0 (num_replicas vb) then fm ! v ! j else m ! v ! j)" if "j < 5" for j
  proof (cases j)
    case 0
    then show ?thesis using row'(3) l by simp
  next
    case (Suc i)
    then show ?thesis using row'(3) that by auto
  qed
  then show ?thesis
    using row' rows l v f m by (auto simp: vbucket_found_incorrect_master_def at_simps)
qed

lemma wf_map_set_row:
  assumes "wf_map vb" and "vbuckets vb = Some m" and "wf_row (num_servers vb) row"
  shows "wf_map (vb\<lparr>vbuckets := Some (m[v := row])\<rparr>)"
proof -
  have "wf_rows vb m" using assms by (simp add: wf_map_def)
  then have "wf_rows vb (m[v := row])"
    using assms(3) set_update_subset_insert [of m v row] by (auto simp: wf_rows_def list_all_iff)
  then show ?thesis using assms(1) by (auto simp: wf_map_def wf_rows_def split: option.splits)
qed

lemma smod_next:
  "- 1 \<le> s \<Longrightarrow> s < int n \<Longrightarrow> 0 < n \<Longrightarrow> (s + 1) smod int n = (s + 1) mod int n"
  by (cases "s + 1 = 0") (simp_all add: signed_modulo_int_def)

lemma found_incorrect_rotate:
  assumes w: "wf_map vb" and f: "fvbuckets vb = None" and v: "v < num_vbuckets vb"
    and m: "vbuckets vb = Some m" and n: "0 < num_servers vb"
  shows "vbucket_found_incorrect_master vb v wrong =
    (if m ! v ! 0 = wrong
     then Inr (vb\<lparr>vbuckets := Some (m[v := (m ! v)[0 := (wrong + 1) mod int (num_servers vb)]])\<rparr>,
               (wrong + 1) mod int (num_servers vb))
     else Inr (vb, m ! v ! 0))"
proof -
  have rows: "length m = num_vbuckets vb" "wf_row (num_servers vb) (m ! v)"
    using w m v by (auto simp: wf_map_def wf_rows_def list_all_length)
  then have "length (m ! v) = 5" "- 1 \<le> m ! v ! 0" "m ! v ! 0 < int (num_servers vb)"
    using wf_row_nth [of "num_servers vb" "m ! v" 0] by (auto simp: wf_row_def)
  then show ?thesis
    using f m n v rows smod_next [of "m ! v ! 0" "num_servers vb"]
    by (auto simp: vbucket_found_incorrect_master_def at_simps Let_def)
qed

lemma wf_config_map:
  "wf_config vb \<Longrightarrow> distribution vb = VBUCKET_DISTRIBUTION_VBUCKET \<Longrightarrow> wf_map vb \<and> 0 < num_servers vb"
  by (simp add: wf_config_def wf_servers_def)

lemma wf_config_set_row:
  assumes "wf_config vb" and "distribution vb = VBUCKET_DISTRIBUTION_VBUCKET" and "vbuckets vb = Some m"
    and "wf_row (num_servers vb) row"
  shows "wf_config (vb\<lparr>vbuckets := Some (m[v := row])\<rparr>)"
  using assms wf_map_set_row [of vb m row v]
  by (auto simp: wf_config_def wf_servers_def split: option.splits)

lemma wf_row_update: "wf_row ns row \<Longrightarrow> - 1 \<le> x \<Longrightarrow> x < int ns \<Longrightarrow> wf_row ns (row[j := x])"
  using set_update_subset_insert [of row j x] by (auto simp: wf_row_def list_all_iff)

text \<open>What a repair leaves as it was: everything but one row.\<close>

definition same_except_row :: "nat \<Rightarrow> vbucket_config_st \<Rightarrow> vbucket_config_st \<Rightarrow> bool" where
  "same_except_row v vb vb' \<longleftrightarrow>
     (\<exists>m m'. vbuckets vb = Some m \<and> vb' = vb\<lparr>vbuckets := Some m'\<rparr> \<and> length m' = length m \<and>
       (\<forall>u<length m. u \<noteq> v \<longrightarrow> m' ! u = m ! u))"

lemma found_incorrect_wf:
  assumes "wf_config vb" and "distribution vb = VBUCKET_DISTRIBUTION_VBUCKET" and "v < num_vbuckets vb"
  shows "\<exists>vb' s. vbucket_found_incorrect_master vb v wrong = Inr (vb', s) \<and> wf_config vb' \<and>
    same_except_row v vb vb' \<and> vbucket_get_master vb' v = Inr s"
proof -
  have w: "wf_map vb" "0 < num_servers vb" using wf_config_map assms by auto
  obtain m where m: "vbuckets vb = Some m" "length m = num_vbuckets vb" "wf_row (num_servers vb) (m ! v)"
    using wf_map_rows [OF w(1)] assms(3) by metis
  show ?thesis
  proof (cases "fvbuckets vb")
    case None
    have mv: "length (m ! v) = 5" using m(3) by (simp add: wf_row_def)
    let ?s = "(wrong + 1) mod int (num_servers vb)"
    have s: "0 \<le> ?s" "?s < int (num_servers vb)" using w(2) by simp_all
    then have "wf_row (num_servers vb) ((m ! v)[0 := ?s])" by (intro wf_row_update m(3)) simp_all
    note set = wf_config_set_row [OF assms(1,2) m(1) this, of v]
    note rot = found_incorrect_rotate [OF w(1) None assms(3) m(1) w(2), of wrong]
    show ?thesis
    proof (cases "m ! v ! 0 = wrong")
      case True
      have "same_except_row v vb (vb\<lparr>vbuckets := Some (m[v := (m ! v)[0 := ?s]])\<rparr>)"
        unfolding same_except_row_def using m
        by (intro exI [of _ m] exI [of _ "m[v := (m ! v)[0 := ?s]]"] conjI) auto
      then show ?thesis using True rot set m(2) mv assms(3)
        by (simp add: vbucket_get_master_def at_simps)
    next
      case False
      have "same_except_row v vb vb"
        unfolding same_except_row_def using m by (intro exI [of _ m] conjI) auto
      then show ?thesis using False rot m mv assms(1,3)
        by (simp add: vbucket_get_master_def at_simps)
    qed
  next
    case (Some fm)
    obtain row' where row': "vbucket_found_incorrect_master vb v wrong
        = Inr (vb\<lparr>vbuckets := Some (m[v := row'])\<rparr>, fm ! v ! 0)" "length row' = 5"
      "\<forall>j<5. row' ! j = (if int j \<le> max 0 (num_replicas vb) then fm ! v ! j else m ! v ! j)"
      using found_incorrect_forward [OF w(1) Some assms(3) m(1)] by blast
    have "wf_row (num_servers vb) (fm ! v)"
      using w(1) Some assms(3) by (auto simp: wf_map_def wf_rows_def list_all_length)
    with m(3) row' have "wf_row (num_servers vb) row'"
      by (simp add: wf_row_def list_all_length)
    note set = wf_config_set_row [OF assms(1,2) m(1) this, of v]
    have "same_except_row v vb (vb\<lparr>vbuckets := Some (m[v := row'])\<rparr>)"
      unfolding same_except_row_def using m by (intro exI [of _ m] exI [of _ "m[v := row']"] conjI) auto
    then show ?thesis using set row' m(2) assms(3)
      by (simp add: vbucket_get_master_def at_simps)
  qed
qed

text \<open>A client that reports every master it is given as wrong, \<open>k\<close> times in a row.\<close>

fun report_wrong :: "nat \<Rightarrow> vbucket_config_st \<Rightarrow> nat \<Rightarrow> int \<Rightarrow> (vbucket_config_st \<times> int) vb_result" where
  "report_wrong 0 vb v s = Inr (vb, s)"
| "report_wrong (Suc k) vb v s =
     vbind (vbucket_found_incorrect_master vb v s) (\<lambda>(vb', s'). report_wrong k vb' v s')"

lemma report_wrong_rotates:
  assumes "wf_config vb" and "distribution vb = VBUCKET_DISTRIBUTION_VBUCKET"
    and "fvbuckets vb = None" and "v < num_vbuckets vb" and "vbucket_get_master vb v = Inr s"
  shows "\<exists>vb'. report_wrong (Suc k) vb v s = Inr (vb', (s + 1 + int k) mod int (num_servers vb))"
  using assms
proof (induction k arbitrary: vb s)
  case (0 vb s)
  obtain m where m: "vbuckets vb = Some m" "length m = num_vbuckets vb" "wf_row (num_servers vb) (m ! v)"
    using wf_map_rows wf_config_map 0 by metis
  then have "m ! v ! 0 = s" using 0 by (simp add: vbucket_get_master_def at_Inr vbind_Inr)
  then show ?case
    using found_incorrect_rotate [of vb v m s] wf_config_map [OF 0(1,2)] 0 m by simp
next
  case (Suc k vb s)
  let ?n = "num_servers vb" and ?s = "(s + 1) mod int (num_servers vb)"
  obtain m where m: "vbuckets vb = Some m" "length m = num_vbuckets vb" "wf_row (num_servers vb) (m ! v)"
    using wf_map_rows wf_config_map Suc.prems by metis
  then have "m ! v ! 0 = s" using Suc.prems by (simp add: vbucket_get_master_def at_Inr vbind_Inr)
  then have step: "vbucket_found_incorrect_master vb v s
      = Inr (vb\<lparr>vbuckets := Some (m[v := (m ! v)[0 := ?s]])\<rparr>, ?s)"
    using found_incorrect_rotate [of vb v m s] wf_config_map [OF Suc.prems(1,2)] Suc.prems m by simp
  let ?vb = "vb\<lparr>vbuckets := Some (m[v := (m ! v)[0 := ?s]])\<rparr>"
  have "wf_config ?vb \<and> vbucket_get_master ?vb v = Inr ?s"
    using found_incorrect_wf [OF Suc.prems(1,2,4), of s] step by simp
  then have "\<exists>vb'. report_wrong (Suc k) ?vb v ?s = Inr (vb', (?s + 1 + int k) mod int (num_servers ?vb))"
    using Suc.prems by (intro Suc.IH) simp_all
  moreover have "(?s + 1 + int k) mod int ?n = (s + 1 + int (Suc k)) mod int ?n"
    using mod_add_left_eq [of "s + 1" "int ?n" "1 + int k"] by (simp add: ac_simps)
  ultimately show ?case using step by simp
qed

section \<open>Comparison\<close>

definition named :: "server_st list \<Rightarrow> bool" where
  "named svs \<longleftrightarrow> list_all (\<lambda>sv. authority sv \<noteq> None) svs"

definition names :: "server_st list \<Rightarrow> string list" where
  "names svs = map (the \<circ> authority) svs"

lemma server_known_ok: "named svs \<Longrightarrow> server_known svs sn = Inr (sn \<in> set (names svs))"
  by (induction svs) (auto simp: named_def names_def)

lemma compute_vb_list_diff_ok:
  "named from \<Longrightarrow> named to \<Longrightarrow> out_ok \<Longrightarrow> \<forall>k. name_ok k \<Longrightarrow>
   compute_vb_list_diff out_ok name_ok from i to = Inr (filter (\<lambda>n. n \<notin> set (names from)) (names to))"
  by (induction to arbitrary: i) (auto simp: named_def names_def server_known_ok [unfolded named_def names_def])

lemma authorities_differ_ok:
  "named as \<Longrightarrow> named bs \<Longrightarrow> length as = length bs \<Longrightarrow> authorities_differ as bs = Inr (names as \<noteq> names bs)"
  by (induction as bs rule: list_induct2') (auto simp: named_def names_def)

lemma count_vb_changes_ok:
  assumes "\<And>i. i \<in> set is \<Longrightarrow> vbucket_get_master a i = Inr (f i) \<and> vbucket_get_master b i = Inr (g i)"
  shows "count_vb_changes a b is = Inr (int (length (filter (\<lambda>i. f i \<noteq> g i) is)))"
  using assms by (induction "is") auto

lemma credential_changed_iff: "credential_changed a b \<longleftrightarrow> a \<noteq> b"
  by (cases a; cases b) (auto simp: credential_changed_def)

lemma config_servers_wf:
  "wf_servers vb \<Longrightarrow> config_servers vb = Inr (the (servers vb)) \<and> named (the (servers vb))
     \<and> length (the (servers vb)) = num_servers vb"
  by (auto simp: wf_servers_def config_servers_def named_def split: option.splits)

text \<open>The masters of a map as a list, one per vbucket.\<close>

definition masters :: "vbucket_config_st \<Rightarrow> int list" where
  "masters vb = map (\<lambda>row. row ! 0) (the (vbuckets vb))"

lemma get_master_masters:
  assumes "wf_map vb" and "i < num_vbuckets vb"
  shows "vbucket_get_master vb i = Inr (masters vb ! i)"
proof -
  obtain m where "vbuckets vb = Some m" "length m = num_vbuckets vb" "wf_row (num_servers vb) (m ! i)"
    using wf_map_rows [OF assms(1)] assms(2) by metis
  then show ?thesis using assms(2) wf_row_nth [of "num_servers vb" "m ! i" 0]
    by (simp add: vbucket_get_master_def masters_def at_simps)
qed

lemma vbucket_compare_ok:
  assumes "wf_config a" "distribution a = VBUCKET_DISTRIBUTION_VBUCKET"
    and "wf_config b" "distribution b = VBUCKET_DISTRIBUTION_VBUCKET" and "\<And>s. alloc lc s"
  shows "vbucket_compare lc a b = Inr
    \<lparr>servers_added = Some (filter (\<lambda>n. n \<notin> set (names (the (servers a)))) (names (the (servers b)))),
     servers_removed = Some (filter (\<lambda>n. n \<notin> set (names (the (servers b)))) (names (the (servers a)))),
     n_vb_changes = (if num_vbuckets a = num_vbuckets b
        then int (length (filter (\<lambda>i. masters a ! i \<noteq> masters b ! i) [0..<num_vbuckets a])) else - 1),
     sequence_changed = (names (the (servers a)) \<noteq> names (the (servers b)) \<or> user a \<noteq> user b \<or> password a \<noteq> password b)\<rparr>"
proof -
  have sa: "config_servers a = Inr (the (servers a))" "named (the (servers a))" "length (the (servers a)) = num_servers a"
    and sb: "config_servers b = Inr (the (servers b))" "named (the (servers b))" "length (the (servers b)) = num_servers b"
    using assms config_servers_wf by (auto simp: wf_config_def)
  have "(if num_vbuckets b = num_vbuckets a then count_vb_changes a b [0..<num_vbuckets b] else Inr (- 1))
    = Inr (if num_vbuckets a = num_vbuckets b
        then int (length (filter (\<lambda>i. masters a ! i \<noteq> masters b ! i) [0..<num_vbuckets a])) else - 1)"
    using assms get_master_masters
    by (auto simp: wf_config_def intro!: count_vb_changes_ok)
  moreover have "(if num_servers b = num_servers a then authorities_differ (the (servers a)) (the (servers b))
      else Inr True) = Inr (names (the (servers a)) \<noteq> names (the (servers b)))"
    using sa sb by (auto simp: authorities_differ_ok names_def dest: map_eq_imp_length_eq)
  ultimately show ?thesis
    using sa sb assms(5)
    by (simp add: vbucket_compare_def compute_vb_list_diff_ok credential_changed_iff)
qed

section \<open>Properties\<close>

text \<open>
  C31.  Routing is total and safe: on a well-formed configuration every key is mapped to an
  existing server (or to -1 where the vbucket map says that there is none), without any undefined
  access; in vbucket mode the vbucket number is a row of the map and the server its master.
\<close>

theorem vbucket_map_routes:
  assumes "wf_config vb" and "num_servers vb < 2 ^ 31"
  shows "\<exists>v s. vbucket_map lc vb key True = Inr (Some v, s) \<and> - 1 \<le> s \<and> s < int (num_servers vb) \<and>
    (case distribution vb of
       VBUCKET_DISTRIBUTION_VBUCKET \<Rightarrow> v < num_vbuckets vb \<and> vbucket_get_master vb v = Inr s
     | VBUCKET_DISTRIBUTION_KETAMA \<Rightarrow> v = 0 \<and> 0 \<le> s)"
proof (cases "distribution vb")
  case VBUCKET_DISTRIBUTION_VBUCKET
  from vbucket_map_vbucket [OF assms(1) this, of lc key] this show ?thesis by auto
next
  case VBUCKET_DISTRIBUTION_KETAMA
  show ?thesis
  proof (rule vbucket_map_ring [OF assms(1) VBUCKET_DISTRIBUTION_KETAMA, of lc key True])
    fix cs c
    assume c: "unat (index c) < num_servers vb"
      "vbucket_map lc vb key True = Inr (if True then Some 0 else None, sint (index c))"
    have s: "0 \<le> sint (index c)" "sint (index c) < int (num_servers vb)"
      using sint_index [OF c(1) assms(2)] by blast+
    then have "- 1 \<le> sint (index c)" by linarith
    with s c(2) VBUCKET_DISTRIBUTION_KETAMA show ?thesis by simp
  qed
qed

lemma demo_wf: "wf_config demo_config"
  by code_simp

theorem vbucket_map_routes_witness:
  "\<exists>v s. vbucket_map demo_libc demo_config [0x6b] True = Inr (Some v, s) \<and> - 1 \<le> s \<and> s < 2 \<and> v < 2"
  using vbucket_map_routes [of demo_config demo_libc "[0x6b]"] demo_wf
  by (auto simp: demo_config_def)

text \<open>
  C32.  The bisection of the ketama branch is correct: it returns the server of the first ring
  point that is not below the hash of the key, and wraps to the first point when there is none.
  In particular it ends and stays inside the array, also with repeated points.
\<close>

theorem ketama_bisection:
  assumes "wf_config vb" and "distribution vb = VBUCKET_DISTRIBUTION_KETAMA"
  shows "\<exists>cs c. continuum vb = Some cs \<and> ring_successor cs (hash_ketama (stack lc) key) = Some c \<and>
    vbucket_map lc vb key False = Inr (None, sint (index c))"
  by (rule vbucket_map_ring [OF assms, of lc key False]) auto

definition ring_config :: vbucket_config_st where
  "ring_config = demo_config\<lparr>distribution := VBUCKET_DISTRIBUTION_KETAMA, num_servers := 1,
     servers := Some [\<lparr>authority = Some ''a:1'', couchdb_api_base = None\<rparr>],
     num_continuum := 160, continuum := Some (replicate 160 \<lparr>index = 0, point = 5\<rparr>)\<rparr>"

lemma ring_config_wf: "wf_config ring_config"
  by (simp add: wf_config_def wf_servers_def wf_ring_def ring_config_def demo_config_def list_all_iff
      sorted_iff_nth_mono)

theorem ketama_bisection_witness:
  "\<exists>cs c. continuum ring_config = Some cs \<and> ring_successor cs (hash_ketama (stack demo_libc) [0x6b]) = Some c \<and>
    vbucket_map demo_libc ring_config [0x6b] False = Inr (None, sint (index c))"
  using ring_config_wf by (intro ketama_bisection) (simp_all add: ring_config_def)

text \<open>
  Only 32768 vbuckets can ever receive a key: the digest has 15 bits, so the rows of a larger
  map behind them are never used, although the parser accepts them.
\<close>

theorem vbucket_by_key_bound:
  "vbucket_get_vbucket_by_key vb key \<le> mask_vb vb \<and> vbucket_get_vbucket_by_key vb key < 32768"
proof -
  have "hash_crc32 key AND of_nat (mask_vb vb) \<le> hash_crc32 key" by (rule word_and_le2)
  also have "\<dots> < 0x8000" by (rule hash_crc32_bound)
  finally have "unat (hash_crc32 key AND of_nat (mask_vb vb)) < 32768"
    by (simp add: word_less_nat_alt)
  then show ?thesis using vbucket_by_key_le by (simp add: vbucket_get_vbucket_by_key_def)
qed

text \<open>
  Reporting a wrong master keeps the configuration well formed, changes at most the row of
  that vbucket, and returns the server that is its master afterwards.
\<close>

theorem found_incorrect_master_wf:
  assumes "wf_config vb" and "distribution vb = VBUCKET_DISTRIBUTION_VBUCKET" and "v < num_vbuckets vb"
  shows "\<exists>vb' s. vbucket_found_incorrect_master vb v wrong = Inr (vb', s) \<and> wf_config vb' \<and>
    same_except_row v vb vb' \<and> vbucket_get_master vb' v = Inr s"
  using assms by (rule found_incorrect_wf)

theorem found_incorrect_master_wf_witness:
  "\<exists>vb' s. vbucket_found_incorrect_master demo_config 1 1 = Inr (vb', s) \<and> wf_config vb' \<and>
    same_except_row 1 demo_config vb' \<and> vbucket_get_master vb' 1 = Inr s"
  using demo_wf by (intro found_incorrect_master_wf) (simp_all add: demo_config_def)

text \<open>
  C33.  Retrying reaches every server: when there is no forward map, a client that keeps reporting
  the master it is given as wrong is handed every server within \<open>num_servers\<close> reports.
\<close>

theorem wrong_master_reaches_all:
  assumes "wf_config vb" and "distribution vb = VBUCKET_DISTRIBUTION_VBUCKET"
    and "fvbuckets vb = None" and "v < num_vbuckets vb" and "vbucket_get_master vb v = Inr s"
    and "t < num_servers vb"
  shows "\<exists>k vb'. 0 < k \<and> k \<le> num_servers vb \<and> report_wrong k vb v s = Inr (vb', int t)"
proof -
  let ?n = "int (num_servers vb)" and ?k = "(int t - s - 1) mod int (num_servers vb)"
  have k: "0 \<le> ?k" "?k < ?n" using assms(6) by simp_all
  have "(s + 1 + int (nat ?k)) mod ?n = int t"
    using k assms(6) by (simp add: mod_add_right_eq)
  moreover have "nat ?k < num_servers vb" using k by linarith
  ultimately show ?thesis
    using report_wrong_rotates [OF assms(1-5), of "nat ?k"]
    by (intro exI [of _ "Suc (nat ?k)"]) auto
qed

theorem wrong_master_reaches_all_witness:
  "\<exists>k vb'. 0 < k \<and> k \<le> 2 \<and> report_wrong k demo_config 1 1 = Inr (vb', 0)"
proof -
  have "vbucket_get_master demo_config 1 = Inr 1" by code_simp
  then show ?thesis
    using wrong_master_reaches_all [of demo_config 1 1 0] demo_wf by (simp add: demo_config_def)
qed

text \<open>
  With a forward map, a report moves the vbucket to its row there: the master and every
  replica of the forward row are taken over, whatever server was reported.
\<close>

theorem found_incorrect_master_forward:
  assumes "wf_config vb" and "distribution vb = VBUCKET_DISTRIBUTION_VBUCKET"
    and "fvbuckets vb = Some fm" and "v < num_vbuckets vb"
  shows "\<exists>vb'. vbucket_found_incorrect_master vb v wrong = Inr (vb', fm ! v ! 0) \<and>
    vbucket_get_master vb' v = Inr (fm ! v ! 0) \<and>
    (\<forall>i. int i < num_replicas vb \<longrightarrow> vbucket_get_replica vb' v i = Inr (fm ! v ! (i + 1)))"
proof -
  have w: "wf_map vb" using assms by (simp add: wf_config_def)
  obtain m where m: "vbuckets vb = Some m" "length m = num_vbuckets vb"
    using wf_map_rows [OF w] by metis
  obtain row' where row': "vbucket_found_incorrect_master vb v wrong
      = Inr (vb\<lparr>vbuckets := Some (m[v := row'])\<rparr>, fm ! v ! 0)" "length row' = 5"
    "\<forall>j<5. row' ! j = (if int j \<le> max 0 (num_replicas vb) then fm ! v ! j else m ! v ! j)"
    using found_incorrect_forward [OF w assms(3,4) m(1)] by blast
  have "num_replicas vb \<le> 4" using w by (simp add: wf_map_def MAX_REPLICAS_def)
  with row' m assms(4) show ?thesis
    by (auto simp: vbucket_get_master_def vbucket_get_replica_def at_simps)
qed

definition forward_config :: vbucket_config_st where
  "forward_config = demo_config\<lparr>fvbuckets := Some [[1, 0, 0, 0, 0], [0, 1, 0, 0, 0]]\<rparr>"

theorem found_incorrect_master_forward_witness:
  "\<exists>vb'. vbucket_found_incorrect_master forward_config 1 1 = Inr (vb', 0) \<and>
    vbucket_get_master vb' 1 = Inr 0 \<and> vbucket_get_replica vb' 1 0 = Inr 1"
proof -
  have w: "wf_config forward_config" by code_simp
  show ?thesis
    using found_incorrect_master_forward [OF w, of "[[1, 0, 0, 0, 0], [0, 1, 0, 0, 0]]" 1 1]
    by (force simp: forward_config_def demo_config_def)
qed

text \<open>
  \<open>vbucket_compare\<close> reports exactly the differences of two well-formed vbucket maps: the added
  and removed names are the two list differences, \<open>n_vb_changes\<close> counts the vbuckets whose master
  differs (-1 when their numbers differ), and \<open>sequence_changed\<close> holds just when the server
  sequence or a credential differs.
\<close>

theorem vbucket_compare_exact:
  assumes "wf_config a" "distribution a = VBUCKET_DISTRIBUTION_VBUCKET"
    and "wf_config b" "distribution b = VBUCKET_DISTRIBUTION_VBUCKET" and "\<And>s. alloc lc s"
  shows "vbucket_compare lc a b = Inr
    \<lparr>servers_added = Some (filter (\<lambda>n. n \<notin> set (names (the (servers a)))) (names (the (servers b)))),
     servers_removed = Some (filter (\<lambda>n. n \<notin> set (names (the (servers b)))) (names (the (servers a)))),
     n_vb_changes = (if num_vbuckets a = num_vbuckets b
        then int (length (filter (\<lambda>i. masters a ! i \<noteq> masters b ! i) [0..<num_vbuckets a])) else - 1),
     sequence_changed = (names (the (servers a)) \<noteq> names (the (servers b)) \<or> user a \<noteq> user b \<or> password a \<noteq> password b)\<rparr>"
  using assms by (rule vbucket_compare_ok)

theorem vbucket_compare_exact_witness:
  "\<exists>d. vbucket_compare demo_libc demo_config forward_config = Inr d \<and>
     servers_added d = Some [] \<and> servers_removed d = Some [] \<and> n_vb_changes d = 0 \<and> \<not> sequence_changed d"
proof -
  have w: "wf_config forward_config" by code_simp
  show ?thesis
    using vbucket_compare_exact [OF demo_wf _ w, of demo_libc]
    by (simp add: demo_config_def forward_config_def demo_libc_def masters_def names_def upt_rec)
qed

text \<open>
  A node locator the parser does not know is not an error: the parse succeeds with a
  configuration that holds no servers and no map, and the first lookup in it dereferences a null
  pointer.
\<close>

theorem unknown_locator_unusable:
  assumes "cJSON_GetObjectItem j ''nodeLocator'' = Some (cJSON_String str)"
    and "str \<noteq> ''vbucket''" and "str \<noteq> ''ketama''" and "alloc lc A_config"
  shows "\<exists>vb. parse_cjson lc j = Inr vb \<and> num_servers vb = 0 \<and>
    vbucket_map lc vb key w = Inl NullDeref"
proof -
  let ?vb = "(parse_credentials lc j empty_config)\<lparr>distribution := VBUCKET_DISTRIBUTION_VBUCKET\<rparr>"
  have "vbuckets ?vb = None \<and> num_servers ?vb = 0"
    by (auto simp: parse_credentials_def empty_config_def Let_def split: option.splits cJSON.splits)
  then show ?thesis
    using assms by (auto simp: parse_cjson_def vbucket_map_def vbucket_get_master_def Let_def)
qed

theorem unknown_locator_unusable_witness:
  "\<exists>vb. parse_cjson demo_libc (cJSON_Object [(''nodeLocator'', cJSON_String ''modulo'')]) = Inr vb \<and>
    num_servers vb = 0 \<and> vbucket_map demo_libc vb [0x6b] True = Inl NullDeref"
proof -
  have "cJSON_GetObjectItem (cJSON_Object [(''nodeLocator'', cJSON_String ''modulo'')]) ''nodeLocator''
      = Some (cJSON_String ''modulo'')"
    by code_simp
  from unknown_locator_unusable [OF this, of demo_libc] show ?thesis by (simp add: demo_libc_def)
qed

end
