(* ===== verification/JenkinsHash.thy ===== *)
theory JenkinsHash
  imports Prelude
begin

unbundle bit_operations_syntax

text \<open>
  The hash function of the server (\<open>memcached/daemon/hash.c\<close>, Bob Jenkins' lookup3), which the hash table
  of the engine gets through \<open>server.core->hash\<close>; the little-endian build.  The code has three ways of
  reading the key, chosen by the alignment of its address, and the one for aligned keys reads beyond the
  end of the key.  The memory is a function from addresses to bytes, so that such reads are visible.

  The reference works on the list of the bytes of the key, padded with zeros to whole blocks.
\<close>

section \<open>The code\<close>

definition rot :: "u32 \<Rightarrow> nat \<Rightarrow> u32" where
  "rot x k = push_bit k x XOR drop_bit (32 - k) x"

text \<open>One line of the macro \<open>mix\<close>: \<open>x -= z;  x ^= rot (z, k);  z += y\<close>.\<close>

definition mix_line :: "nat \<Rightarrow> u32 \<times> u32 \<times> u32 \<Rightarrow> u32 \<times> u32 \<times> u32" where
  "mix_line k = (\<lambda>(x, y, z). ((x - z) XOR rot z k, y, z + y))"

definition mix :: "u32 \<times> u32 \<times> u32 \<Rightarrow> u32 \<times> u32 \<times> u32" where
  "mix s =
     (let (a, b, c) = s;
          (a, b, c) = mix_line 4 (a, b, c);
          (b, c, a) = mix_line 6 (b, c, a);
          (c, a, b) = mix_line 8 (c, a, b);
          (a, b, c) = mix_line 16 (a, b, c);
          (b, c, a) = mix_line 19 (b, c, a);
          (c, a, b) = mix_line 4 (c, a, b)
      in (a, b, c))"

definition final_mix :: "u32 \<times> u32 \<times> u32 \<Rightarrow> u32 \<times> u32 \<times> u32" where
  "final_mix s =
     (let (a, b, c) = s;
          c = (c XOR b) - rot b 14;
          a = (a XOR c) - rot c 11;
          b = (b XOR a) - rot a 25;
          c = (c XOR b) - rot b 16;
          a = (a XOR c) - rot c 4;
          b = (b XOR a) - rot a 14;
          c = (c XOR b) - rot b 24
      in (a, b, c))"

type_synonym memory = "addr \<Rightarrow> u8"

definition rd8 :: "memory \<Rightarrow> addr \<Rightarrow> u32" where "rd8 mem p = ucast (mem p)"

definition rd16 :: "memory \<Rightarrow> addr \<Rightarrow> u32" where
  "rd16 mem p = rd8 mem p OR push_bit 8 (rd8 mem (p + 1))"

definition rd32 :: "memory \<Rightarrow> addr \<Rightarrow> u32" where
  "rd32 mem p = rd16 mem p OR push_bit 16 (rd16 mem (p + 2))"

text \<open>The blocks in front of the last one: the position, the length and the state behind them.\<close>

function words_loop :: "memory \<Rightarrow> addr \<Rightarrow> nat \<Rightarrow> u32 \<times> u32 \<times> u32 \<Rightarrow> addr \<times> nat \<times> u32 \<times> u32 \<times> u32" where
  "words_loop mem k len (a, b, c) =
     (if len > 12 then
        words_loop mem (k + 12) (len - 12) (mix (a + rd32 mem k, b + rd32 mem (k + 4), c + rd32 mem (k + 8)))
      else (k, len, a, b, c))"
  by pat_completeness auto
termination by (relation "measure (\<lambda>(mem, k, len, s). len)") auto

function shorts_loop :: "memory \<Rightarrow> addr \<Rightarrow> nat \<Rightarrow> u32 \<times> u32 \<times> u32 \<Rightarrow> addr \<times> nat \<times> u32 \<times> u32 \<times> u32" where
  "shorts_loop mem k len (a, b, c) =
     (if len > 12 then
        let pair = (\<lambda>i. rd16 mem (k + 2 * i) + push_bit 16 (rd16 mem (k + 2 * (i + 1))))
        in shorts_loop mem (k + 12) (len - 12) (mix (a + pair 0, b + pair 2, c + pair 4))
      else (k, len, a, b, c))"
  by pat_completeness auto
termination by (relation "measure (\<lambda>(mem, k, len, s). len)") auto

function bytes_loop :: "memory \<Rightarrow> addr \<Rightarrow> nat \<Rightarrow> u32 \<times> u32 \<times> u32 \<Rightarrow> addr \<times> nat \<times> u32 \<times> u32 \<times> u32" where
  "bytes_loop mem k len (a, b, c) =
     (if len > 12 then
        let byte = (\<lambda>i s. push_bit s (rd8 mem (k + i)));
            a = a + byte 0 0 + byte 1 8 + byte 2 16 + byte 3 24;
            b = b + byte 4 0 + byte 5 8 + byte 6 16 + byte 7 24;
            c = c + byte 8 0 + byte 9 8 + byte 10 16 + byte 11 24
        in bytes_loop mem (k + 12) (len - 12) (mix (a, b, c))
      else (k, len, a, b, c))"
  by pat_completeness auto
termination by (relation "measure (\<lambda>(mem, k, len, s). len)") auto

declare words_loop.simps [simp del] shorts_loop.simps [simp del] bytes_loop.simps [simp del]

text \<open>The three switches over the length of the last block; \<open>None\<close> is the early return for length 0.\<close>

definition words_tail :: "memory \<Rightarrow> addr \<Rightarrow> nat \<Rightarrow> u32 \<times> u32 \<times> u32 \<Rightarrow> (u32 \<times> u32 \<times> u32) option" where
  "words_tail mem k len s =
     (let (a, b, c) = s; w = (\<lambda>i. rd32 mem (k + 4 * i))
      in if len = 12 then Some (a + w 0, b + w 1, c + w 2)
         else if len = 11 then Some (a + w 0, b + w 1, c + (w 2 AND 0xffffff))
         else if len = 10 then Some (a + w 0, b + w 1, c + (w 2 AND 0xffff))
         else if len = 9 then Some (a + w 0, b + w 1, c + (w 2 AND 0xff))
         else if len = 8 then Some (a + w 0, b + w 1, c)
         else if len = 7 then Some (a + w 0, b + (w 1 AND 0xffffff), c)
         else if len = 6 then Some (a + w 0, b + (w 1 AND 0xffff), c)
         else if len = 5 then Some (a + w 0, b + (w 1 AND 0xff), c)
         else if len = 4 then Some (a + w 0, b, c)
         else if len = 3 then Some (a + (w 0 AND 0xffffff), b, c)
         else if len = 2 then Some (a + (w 0 AND 0xffff), b, c)
         else if len = 1 then Some (a + (w 0 AND 0xff), b, c)
         else None)"

definition shorts_tail :: "memory \<Rightarrow> addr \<Rightarrow> nat \<Rightarrow> u32 \<times> u32 \<times> u32 \<Rightarrow> (u32 \<times> u32 \<times> u32) option" where
  "shorts_tail mem k len s =
     (let (a, b, c) = s;
          k16 = (\<lambda>i. rd16 mem (k + 2 * i));
          k8 = (\<lambda>i. rd8 mem (k + i));
          pair = (\<lambda>i. k16 i + push_bit 16 (k16 (i + 1)))
      in if len = 12 then Some (a + pair 0, b + pair 2, c + pair 4)
         else if len = 11 then Some (a + pair 0, b + pair 2, c + push_bit 16 (k8 10) + k16 4)
         else if len = 10 then Some (a + pair 0, b + pair 2, c + k16 4)
         else if len = 9 then Some (a + pair 0, b + pair 2, c + k8 8)
         else if len = 8 then Some (a + pair 0, b + pair 2, c)
         else if len = 7 then Some (a + pair 0, b + push_bit 16 (k8 6) + k16 2, c)
         else if len = 6 then Some (a + pair 0, b + k16 2, c)
         else if len = 5 then Some (a + pair 0, b + k8 4, c)
         else if len = 4 then Some (a + pair 0, b, c)
         else if len = 3 then Some (a + push_bit 16 (k8 2) + k16 0, b, c)
         else if len = 2 then Some (a + k16 0, b, c)
         else if len = 1 then Some (a + k8 0, b, c)
         else None)"

text \<open>The switch of the third case falls through: byte \<open>i\<close> is added when the length is above \<open>i\<close>.\<close>

definition bytes_tail :: "memory \<Rightarrow> addr \<Rightarrow> nat \<Rightarrow> u32 \<times> u32 \<times> u32 \<Rightarrow> (u32 \<times> u32 \<times> u32) option" where
  "bytes_tail mem k len s =
     (let (a, b, c) = s;
          fall = (\<lambda>i sh v. if len > i then v + push_bit sh (rd8 mem (k + i)) else v);
          c = fall 11 24 c; c = fall 10 16 c; c = fall 9 8 c; c = fall 8 0 c;
          b = fall 7 24 b; b = fall 6 16 b; b = fall 5 8 b; b = fall 4 0 b;
          a = fall 3 24 a; a = fall 2 16 a; a = fall 1 8 a; a = fall 0 0 a
      in if len = 0 then None else Some (a, b, c))"

definition finish :: "u32 \<Rightarrow> (u32 \<times> u32 \<times> u32) option \<Rightarrow> u32" where
  "finish c s = (case s of None \<Rightarrow> c | Some s \<Rightarrow> (case final_mix s of (a, b, c) \<Rightarrow> c))"

definition hash :: "memory \<Rightarrow> addr \<Rightarrow> nat \<Rightarrow> u32 \<Rightarrow> u32" where
  "hash mem key len initval =
     (let a = 0xdeadbeef + of_nat len + initval
      in if key mod 4 = 0 then
           (case words_loop mem key len (a, a, a) of (k, n, a, b, c) \<Rightarrow> finish c (words_tail mem k n (a, b, c)))
         else if key mod 2 = 0 then
           (case shorts_loop mem key len (a, a, a) of (k, n, a, b, c) \<Rightarrow> finish c (shorts_tail mem k n (a, b, c)))
         else
           (case bytes_loop mem key len (a, a, a) of (k, n, a, b, c) \<Rightarrow> finish c (bytes_tail mem k n (a, b, c))))"

section \<open>The reference\<close>

definition padded :: "bytes \<Rightarrow> nat \<Rightarrow> u32" where
  "padded bs i = (if i < length bs then ucast (bs ! i) else 0)"

definition le_word :: "bytes \<Rightarrow> nat \<Rightarrow> u32" where
  "le_word bs i = padded bs i + push_bit 8 (padded bs (i + 1)) + push_bit 16 (padded bs (i + 2)) + push_bit 24 (padded bs (i + 3))"

definition add_block :: "bytes \<Rightarrow> u32 \<times> u32 \<times> u32 \<Rightarrow> u32 \<times> u32 \<times> u32" where
  "add_block bs = (\<lambda>(a, b, c). (a + le_word bs 0, b + le_word bs 4, c + le_word bs 8))"

function lookup3_loop :: "bytes \<Rightarrow> u32 \<times> u32 \<times> u32 \<Rightarrow> u32" where
  "lookup3_loop bs s =
     (if length bs > 12 then lookup3_loop (drop 12 bs) (mix (add_block bs s))
      else if bs = [] then snd (snd s) else snd (snd (final_mix (add_block bs s))))"
  by pat_completeness auto
termination by (relation "measure (\<lambda>(bs, s). length bs)") auto

declare lookup3_loop.simps [simp del]

definition lookup3 :: "bytes \<Rightarrow> u32 \<Rightarrow> u32" where
  "lookup3 bs initval = (let a = 0xdeadbeef + of_nat (length bs) + initval in lookup3_loop bs (a, a, a))"

section \<open>Reading\<close>

lemma bit_rd8: "bit (rd8 mem p) n \<longleftrightarrow> n < 8 \<and> bit (mem p) n"
  by (auto simp: rd8_def bit_simps dest: bit_imp_le_length)

lemma rd16_sum: "rd16 mem p = rd8 mem p + push_bit 8 (rd8 mem (p + 1))"
  unfolding rd16_def by (rule disjunctive_add [symmetric]) (auto simp: bit_simps bit_rd8)

lemma bit_rd16: "bit (rd16 mem p) n \<longleftrightarrow> n < 16 \<and> (if n < 8 then bit (mem p) n else bit (mem (p + 1)) (n - 8))"
  by (auto simp: rd16_def bit_simps bit_rd8)

lemma rd32_pair: "rd32 mem p = rd16 mem p + push_bit 16 (rd16 mem (p + 2))"
  unfolding rd32_def by (rule disjunctive_add [symmetric]) (auto simp: bit_simps bit_rd16)

lemma bit_rd32: "bit (rd32 mem p) n \<longleftrightarrow> n < 32 \<and> (if n < 16 then bit (rd16 mem p) n else bit (rd16 mem (p + 2)) (n - 16))"
  by (auto simp: rd32_def bit_simps bit_rd16)

lemma push_bit_rd16: "push_bit 16 (rd16 mem p) = push_bit 16 (rd8 mem p) + push_bit 24 (rd8 mem (p + 1))"
  by (simp add: rd16_sum push_bit_add)

lemma rd32_sum:
  "rd32 mem p = rd8 mem p + push_bit 8 (rd8 mem (p + 1)) + push_bit 16 (rd8 mem (p + 2)) + push_bit 24 (rd8 mem (p + 3))"
  unfolding rd32_pair push_bit_rd16 unfolding rd16_sum by (simp add: add_ac numeral_3_eq_3)

lemma low_masks: "(0xff :: u32) = mask 8" "(0xffff :: u32) = mask 16" "(0xffffff :: u32) = mask 24"
  by (simp_all add: mask_eq_exp_minus_1)

lemma rd32_masked:
  "rd32 mem p AND 0xff = rd8 mem p" "rd32 mem p AND 0xffff = rd8 mem p + push_bit 8 (rd8 mem (p + 1))"
  "rd32 mem p AND 0xffffff = rd8 mem p + push_bit 8 (rd8 mem (p + 1)) + push_bit 16 (rd8 mem (p + 2))"
proof -
  show "rd32 mem p AND 0xff = rd8 mem p"
    unfolding low_masks by (rule bit_word_eqI) (auto simp: bit_simps bit_rd32 bit_rd16 bit_rd8)
  have "rd32 mem p AND 0xffff = rd16 mem p"
    unfolding low_masks by (rule bit_word_eqI) (auto simp: bit_simps bit_rd32 bit_rd16)
  then show "rd32 mem p AND 0xffff = rd8 mem p + push_bit 8 (rd8 mem (p + 1))" by (simp add: rd16_sum)
  have "rd16 mem p + push_bit 16 (rd8 mem (p + 2)) = rd16 mem p OR push_bit 16 (rd8 mem (p + 2))"
    by (rule disjunctive_add) (auto simp: bit_simps bit_rd16)
  moreover have "rd32 mem p AND 0xffffff = rd16 mem p OR push_bit 16 (rd8 mem (p + 2))"
    unfolding low_masks by (rule bit_word_eqI) (auto simp: bit_simps bit_rd32 bit_rd16 bit_rd8)
  ultimately show "rd32 mem p AND 0xffffff = rd8 mem p + push_bit 8 (rd8 mem (p + 1)) + push_bit 16 (rd8 mem (p + 2))"
    by (simp add: rd16_sum)
qed

text \<open>The key in memory.\<close>

definition key_bytes :: "memory \<Rightarrow> addr \<Rightarrow> nat \<Rightarrow> bytes" where
  "key_bytes mem k n = map (\<lambda>i. mem (k + i)) [0..<n]"

lemma length_key_bytes [simp]: "length (key_bytes mem k n) = n"
  by (simp add: key_bytes_def)

lemma padded_key: "padded (key_bytes mem k n) i = (if i < n then rd8 mem (k + i) else 0)"
  by (simp add: padded_def key_bytes_def rd8_def)

lemma drop_key: "drop m (key_bytes mem k n) = key_bytes mem (k + m) (n - m)"
  by (simp add: key_bytes_def drop_map list_eq_iff_nth_eq add.assoc)

lemma le_word_full: "i + 4 \<le> n \<Longrightarrow> le_word (key_bytes mem k n) i = rd32 mem (k + i)"
  by (simp add: le_word_def padded_key rd32_sum add.assoc)

lemma bytes_full:
  "v + push_bit 0 (rd8 mem p) + push_bit 8 (rd8 mem (p + 1)) + push_bit 16 (rd8 mem (p + 2)) + push_bit 24 (rd8 mem (p + 3)) = v + rd32 mem p"
  by (simp add: rd32_sum add.assoc)

section \<open>The three ways of reading agree\<close>

text \<open>The block reads of the three loops.\<close>

lemma words_block: "n > 12 \<Longrightarrow> words_loop mem k n s = words_loop mem (k + 12) (n - 12) (mix (add_block (key_bytes mem k n) s))"
  by (cases s) (simp add: words_loop.simps [of mem k n] add_block_def le_word_full)

lemma shorts_block: "n > 12 \<Longrightarrow> shorts_loop mem k n s = shorts_loop mem (k + 12) (n - 12) (mix (add_block (key_bytes mem k n) s))"
  by (cases s) (simp add: shorts_loop.simps [of mem k n] add_block_def le_word_full rd32_pair Let_def add.assoc)

lemma bytes_block: "n > 12 \<Longrightarrow> bytes_loop mem k n s = bytes_loop mem (k + 12) (n - 12) (mix (add_block (key_bytes mem k n) s))"
  by (cases s) (simp add: bytes_loop.simps [of mem k n] add_block_def le_word_full rd32_sum Let_def add_ac)

lemma upto_12: "n \<le> 12 \<longleftrightarrow> n \<in> {0, 1, 2, 3, 4, 5, 6, 7, 8, 9, 10, 11, 12}" for n :: nat
  by (simp only: insert_iff empty_iff) presburger

lemma Suc_numeral: "Suc (numeral v + k) = numeral (v + Num.One) + k"
  by simp

lemma words_tail_ref: "n \<le> 12 \<Longrightarrow> words_tail mem k n s = (if n = 0 then None else Some (add_block (key_bytes mem k n) s))"
  unfolding upto_12
  by (elim insertE emptyE; cases s; simp add: words_tail_def add_block_def le_word_def padded_key rd32_masked; simp add: rd32_sum add_ac)

lemma shorts_tail_ref: "n \<le> 12 \<Longrightarrow> shorts_tail mem k n s = (if n = 0 then None else Some (add_block (key_bytes mem k n) s))"
  unfolding upto_12
  by (elim insertE emptyE; cases s; simp add: shorts_tail_def add_block_def le_word_def padded_key rd16_sum push_bit_add add_ac Suc_numeral
      del: add_2_eq_Suc add_2_eq_Suc')

lemma bytes_tail_ref: "n \<le> 12 \<Longrightarrow> bytes_tail mem k n s = (if n = 0 then None else Some (add_block (key_bytes mem k n) s))"
  unfolding upto_12
  by (elim insertE emptyE; cases s; simp add: bytes_tail_def add_block_def le_word_def padded_key Let_def add_ac)

lemma finish_ref:
  assumes "n \<le> 12"
  shows "finish (snd (snd s)) (if n = 0 then None else Some (add_block (key_bytes mem k n) s)) = lookup3_loop (key_bytes mem k n) s"
proof -
  have "key_bytes mem k n = [] \<longleftrightarrow> n = 0" by (simp add: key_bytes_def)
  then show ?thesis using assms by (simp add: finish_def lookup3_loop.simps [of "key_bytes mem k n"] split_beta)
qed

text \<open>A loop over blocks with a matching treatment of the last block computes the reference.\<close>

lemma blocks_ref:
  assumes block: "\<And>k n s. n > 12 \<Longrightarrow> loop mem k n s = loop mem (k + 12) (n - 12) (mix (add_block (key_bytes mem k n) s))"
    and stop: "\<And>k n s. n \<le> 12 \<Longrightarrow> loop mem k n s = (k, n, s)"
    and tail: "\<And>k n s. n \<le> 12 \<Longrightarrow> tail mem k n s = (if n = 0 then None else Some (add_block (key_bytes mem k n) s))"
  shows "(case loop mem k n s of (k, n, a, b, c) \<Rightarrow> finish c (tail mem k n (a, b, c))) = lookup3_loop (key_bytes mem k n) s"
proof (induction n arbitrary: k s rule: less_induct)
  case (less n)
  show ?case
  proof (cases "n > 12")
    case True
    have "lookup3_loop (key_bytes mem k n) s = lookup3_loop (key_bytes mem (k + 12) (n - 12)) (mix (add_block (key_bytes mem k n) s))"
      using True by (simp add: lookup3_loop.simps [of "key_bytes mem k n"] drop_key)
    then show ?thesis using less.IH [of "n - 12"] True block [of n k s] by simp
  next
    case False
    then show ?thesis using stop [of n k s] tail [of n k s] finish_ref [of n s mem k] by (cases s) simp
  qed
qed

lemma loops_stop:
  "n \<le> 12 \<Longrightarrow> words_loop mem k n s = (k, n, s)" "n \<le> 12 \<Longrightarrow> shorts_loop mem k n s = (k, n, s)"
  "n \<le> 12 \<Longrightarrow> bytes_loop mem k n s = (k, n, s)"
  by (cases s; simp add: words_loop.simps [of mem k n] shorts_loop.simps [of mem k n] bytes_loop.simps [of mem k n])+

section \<open>Properties\<close>

text \<open>
  C25. The hash of a key.  Wherever the key lies in memory, the three ways of reading it compute the same function of its
  bytes; in particular the bytes behind the key that the word-wise reads touch have no influence.
\<close>

theorem hash_of_bytes: "hash mem key n initval = lookup3 (map (\<lambda>i. mem (key + i)) [0..<n]) initval"
proof -
  let ?a = "0xdeadbeef + of_nat n + initval"
  have "hash mem key n initval = lookup3_loop (key_bytes mem key n) (?a, ?a, ?a)"
    unfolding hash_def Let_def
    using blocks_ref [of words_loop mem words_tail, OF words_block loops_stop(1) words_tail_ref]
      blocks_ref [of shorts_loop mem shorts_tail, OF shorts_block loops_stop(2) shorts_tail_ref]
      blocks_ref [of bytes_loop mem bytes_tail, OF bytes_block loops_stop(3) bytes_tail_ref]
    by simp
  then show ?thesis by (simp add: lookup3_def key_bytes_def Let_def)
qed

text \<open>The inverse of a line of \<open>mix\<close> and of the whole macro.\<close>

definition unmix_line :: "nat \<Rightarrow> u32 \<times> u32 \<times> u32 \<Rightarrow> u32 \<times> u32 \<times> u32" where
  "unmix_line k = (\<lambda>(x, y, z). ((x XOR rot (z - y) k) + (z - y), y, z - y))"

definition unmix :: "u32 \<times> u32 \<times> u32 \<Rightarrow> u32 \<times> u32 \<times> u32" where
  "unmix s =
     (let (a, b, c) = s;
          (c, a, b) = unmix_line 4 (c, a, b);
          (b, c, a) = unmix_line 19 (b, c, a);
          (a, b, c) = unmix_line 16 (a, b, c);
          (c, a, b) = unmix_line 8 (c, a, b);
          (b, c, a) = unmix_line 6 (b, c, a);
          (a, b, c) = unmix_line 4 (a, b, c)
      in (a, b, c))"

definition turn :: "u32 \<times> u32 \<times> u32 \<Rightarrow> u32 \<times> u32 \<times> u32" where "turn = (\<lambda>(x, y, z). (y, z, x))"
definition unturn :: "u32 \<times> u32 \<times> u32 \<Rightarrow> u32 \<times> u32 \<times> u32" where "unturn = (\<lambda>(x, y, z). (z, x, y))"

lemma mix_lines: "mix s = turn (mix_line 4 (turn (mix_line 19 (turn (mix_line 16 (turn (mix_line 8 (turn (mix_line 6 (turn (mix_line 4 s)))))))))))"
proof -
  obtain a b c where s: "s = (a, b, c)" by (rule prod_cases3)
  obtain a1 b1 c1 where 1: "mix_line 4 s = (a1, b1, c1)" by (rule prod_cases3)
  obtain b2 c2 a2 where 2: "mix_line 6 (b1, c1, a1) = (b2, c2, a2)" by (rule prod_cases3)
  obtain c3 a3 b3 where 3: "mix_line 8 (c2, a2, b2) = (c3, a3, b3)" by (rule prod_cases3)
  obtain a4 b4 c4 where 4: "mix_line 16 (a3, b3, c3) = (a4, b4, c4)" by (rule prod_cases3)
  obtain b5 c5 a5 where 5: "mix_line 19 (b4, c4, a4) = (b5, c5, a5)" by (rule prod_cases3)
  obtain c6 a6 b6 where 6: "mix_line 4 (c5, a5, b5) = (c6, a6, b6)" by (rule prod_cases3)
  show ?thesis using 1 unfolding s by (simp add: mix_def turn_def 2 3 4 5 6)
qed

lemma unmix_lines:
  "unmix s = unmix_line 4 (unturn (unmix_line 6 (unturn (unmix_line 8 (unturn (unmix_line 16 (unturn (unmix_line 19 (unturn (unmix_line 4 (unturn s)))))))))))"
proof -
  obtain a b c where s: "s = (a, b, c)" by (rule prod_cases3)
  obtain c1 a1 b1 where 1: "unmix_line 4 (c, a, b) = (c1, a1, b1)" by (rule prod_cases3)
  obtain b2 c2 a2 where 2: "unmix_line 19 (b1, c1, a1) = (b2, c2, a2)" by (rule prod_cases3)
  obtain a3 b3 c3 where 3: "unmix_line 16 (a2, b2, c2) = (a3, b3, c3)" by (rule prod_cases3)
  obtain c4 a4 b4 where 4: "unmix_line 8 (c3, a3, b3) = (c4, a4, b4)" by (rule prod_cases3)
  obtain b5 c5 a5 where 5: "unmix_line 6 (b4, c4, a4) = (b5, c5, a5)" by (rule prod_cases3)
  obtain a6 b6 c6 where 6: "unmix_line 4 (a5, b5, c5) = (a6, b6, c6)" by (rule prod_cases3)
  show ?thesis unfolding s by (simp add: unmix_def unturn_def 1 2 3 4 5 6)
qed

lemma mix_line_inverse: "unmix_line k (mix_line k s) = s" "mix_line k (unmix_line k s) = s"
  "unturn (turn s) = s" "turn (unturn s) = s"
  by (cases s; simp add: unmix_line_def mix_line_def turn_def unturn_def xor.assoc)+

text \<open>
  Mixing is reversible, as the comment in front of the macro says: \<open>mix\<close> is a bijection on the three words of the
  state, with \<open>unmix\<close> as its inverse, so no information about the blocks read so far is lost.
\<close>

theorem mix_reversible: "unmix (mix s) = s \<and> mix (unmix s) = s"
  by (simp add: mix_lines unmix_lines mix_line_inverse)

end
