(* ===== verification/Slabs.thy ===== *)
theory Slabs
  imports Prelude
begin

text \<open>
  The slab allocator of the default engine (\<open>memcached/engines/default_engine/slabs.c\<close>).  Memory
  is handed out in chunks; each sz class cuts pages into chunks of its sz and keeps a free
  list.

  Modelling.  Sizes and counts are natural numbers, pages and chunks are addresses.  What the C
  library answers is part of the state: \<open>malloc_q\<close> holds the results of the coming \<open>malloc\<close>
  calls, \<open>realloc_q\<close> whether the coming \<open>realloc\<close> calls succeed; an empty queue means failure.
  The growth factor, a \<open>double\<close>, enters \<open>slabs_init\<close> through two functions: \<open>scale\<close> is
  \<open>sz *= factor\<close> and \<open>fits\<close> is the test \<open>sz <= item_size_max / factor\<close>.  Locks and trace
  probes have no counterpart.

  The lemmas give the invariant of a class (its free chunks are distinct chunks of its pages) and
  show that allocation returns a chunk that was not in use and that freeing gives exactly that
  chunk back.
\<close>

section \<open>State\<close>

definition POWER_SMALLEST :: nat where "POWER_SMALLEST = 1"
definition POWER_LARGEST :: nat where "POWER_LARGEST = 200"
definition CHUNK_ALIGN_BYTES :: nat where "CHUNK_ALIGN_BYTES = 8"
definition MAX_NUMBER_OF_SLAB_CLASSES :: nat where
  "MAX_NUMBER_OF_SLAB_CLASSES = POWER_LARGEST + 1"

record slabclass_t =
  sc_size :: nat
  perslab :: nat
  slots :: "addr list"
  sl_total :: nat
  sl_curr :: nat
  end_page_ptr :: addr
  end_page_free :: nat
  slabs_cnt :: nat
  slab_list :: "addr list"
  list_size :: nat
  requested :: u64

definition empty_class :: slabclass_t where
  "empty_class = \<lparr>sc_size = 0, perslab = 0, slots = [], sl_total = 0, sl_curr = 0,
     end_page_ptr = NULL, end_page_free = 0, slabs_cnt = 0, slab_list = [], list_size = 0,
     requested = 0\<rparr>"

record slabs_st =
  slabclass :: "slabclass_t list"
  mem_limit :: nat
  mem_malloced :: nat
  power_largest :: nat
  mem_base :: addr
  mem_current :: addr
  mem_avail :: nat
  malloc_q :: "addr list"
  realloc_q :: "bool list"

definition next_malloc :: "slabs_st \<Rightarrow> addr" where
  "next_malloc s = (case malloc_q s of [] \<Rightarrow> NULL | a # _ \<Rightarrow> a)"

definition next_realloc :: "slabs_st \<Rightarrow> bool" where
  "next_realloc s = (case realloc_q s of [] \<Rightarrow> False | b # _ \<Rightarrow> b)"

section \<open>Size classes\<close>

text \<open>The loop of \<open>slabs_clsid\<close>; reading behind the class array has no counterpart in C.\<close>

function clsid_loop :: "slabs_st \<Rightarrow> nat \<Rightarrow> nat \<Rightarrow> nat" where
  "clsid_loop s sz res =
     (if res < length (slabclass s) \<and> sz > sc_size (slabclass s ! res)
      then if res = power_largest s then 0 else clsid_loop s sz (res + 1)
      else res)"
  by pat_completeness auto
termination
  by (relation "measure (\<lambda>(s, sz, res). length (slabclass s) - res)") auto

declare clsid_loop.simps [simp del]

definition slabs_clsid :: "slabs_st \<Rightarrow> nat \<Rightarrow> nat" where
  "slabs_clsid s sz = (if sz = 0 then 0 else clsid_loop s sz POWER_SMALLEST)"

definition align_up :: "nat \<Rightarrow> nat" where
  "align_up sz = (if sz mod CHUNK_ALIGN_BYTES \<noteq> 0
     then sz + (CHUNK_ALIGN_BYTES - sz mod CHUNK_ALIGN_BYTES) else sz)"

text \<open>\<open>while (++i < POWER_LARGEST && sz <= item_size_max / factor)\<close>.\<close>

function init_classes ::
  "(nat \<Rightarrow> nat) \<Rightarrow> (nat \<Rightarrow> bool) \<Rightarrow> nat \<Rightarrow> slabclass_t list \<Rightarrow> nat \<Rightarrow> nat \<Rightarrow> slabclass_t list \<times> nat" where
  "init_classes scale fits item_size_max cls i sz =
     (if i + 1 < POWER_LARGEST \<and> fits sz then
        let sz = align_up sz
        in init_classes scale fits item_size_max
             (cls[i + 1 := (cls ! (i + 1))\<lparr>sc_size := sz, perslab := item_size_max div sz\<rparr>])
             (i + 1) (scale sz)
      else (cls, i + 1))"
  by pat_completeness auto
termination
  by (relation "measure (\<lambda>(scale, fits, m, cls, i, sz). POWER_LARGEST - i)") auto

declare init_classes.simps [simp del]

text \<open>
  \<open>slabs_init\<close>; \<open>first_size\<close> is \<open>sizeof (hash_item) + config.chunk_size\<close>.  \<open>None\<close> is the return of
  \<open>ENGINE_ENOMEM\<close>.
\<close>

definition slabs_init ::
  "(nat \<Rightarrow> nat) \<Rightarrow> (nat \<Rightarrow> bool) \<Rightarrow> nat \<Rightarrow> nat \<Rightarrow> nat \<Rightarrow> bool \<Rightarrow> slabs_st \<Rightarrow> slabs_st option" where
  "slabs_init scale fits item_size_max first_size limit prealloc s =
     (let s = s\<lparr>mem_limit := limit\<rparr>;
          base = next_malloc s
      in if prealloc \<and> base = NULL then None
         else
           let s = (if prealloc then s\<lparr>mem_base := base, mem_current := base, mem_avail := limit,
                                       malloc_q := tl (malloc_q s)\<rparr> else s);
               (cls, i) = init_classes scale fits item_size_max
                            (replicate MAX_NUMBER_OF_SLAB_CLASSES empty_class)
                            (POWER_SMALLEST - 1) first_size
           in Some (s\<lparr>power_largest := i,
                      slabclass := cls[i := (cls ! i)\<lparr>sc_size := item_size_max, perslab := 1\<rparr>]\<rparr>))"

section \<open>Pages\<close>

definition upd_class :: "slabs_st \<Rightarrow> nat \<Rightarrow> slabclass_t \<Rightarrow> slabs_st" where
  "upd_class s cid p = s\<lparr>slabclass := (slabclass s)[cid := p]\<rparr>"

definition grow_slab_list :: "slabs_st \<Rightarrow> nat \<Rightarrow> slabs_st \<times> bool" where
  "grow_slab_list s cid =
     (let p = slabclass s ! cid
      in if slabs_cnt p = list_size p then
           let new_size = (if list_size p \<noteq> 0 then list_size p * 2 else 16);
               s' = s\<lparr>realloc_q := tl (realloc_q s)\<rparr>
           in if \<not> next_realloc s then (s', False)
              else (upd_class s' cid
                      (p\<lparr>list_size := new_size,
                         slab_list := slab_list p @ replicate (new_size - list_size p) NULL\<rparr>), True)
         else (s, True))"

definition memory_allocate :: "slabs_st \<Rightarrow> nat \<Rightarrow> slabs_st \<times> addr" where
  "memory_allocate s sz =
     (if mem_base s = NULL then (s\<lparr>malloc_q := tl (malloc_q s)\<rparr>, next_malloc s)
      else if sz > mem_avail s then (s, NULL)
      else
        let ret = mem_current s; sz = align_up sz
        in (s\<lparr>mem_current := mem_current s + sz,
              mem_avail := (if sz < mem_avail s then mem_avail s - sz else 0)\<rparr>, ret))"

definition do_slabs_newslab :: "slabs_st \<Rightarrow> nat \<Rightarrow> slabs_st \<times> bool" where
  "do_slabs_newslab s cid =
     (let p = slabclass s ! cid; len = sc_size p * perslab p
      in if mem_limit s \<noteq> 0 \<and> mem_malloced s + len > mem_limit s \<and> slabs_cnt p > 0 then (s, False)
         else case grow_slab_list s cid of
           (s, False) \<Rightarrow> (s, False)
         | (s, True) \<Rightarrow>
             (case memory_allocate s len of
                (s, ptr) \<Rightarrow>
                  if ptr = NULL then (s, False)
                  else
                    let p = slabclass s ! cid
                    in (upd_class (s\<lparr>mem_malloced := mem_malloced s + len\<rparr>) cid
                          (p\<lparr>end_page_ptr := ptr, end_page_free := perslab p,
                             slab_list := (slab_list p)[slabs_cnt p := ptr],
                             slabs_cnt := slabs_cnt p + 1\<rparr>), True)))"

section \<open>Chunks\<close>

text \<open>Taking a chunk from the free list or from the last page.\<close>

definition take_chunk :: "slabclass_t \<Rightarrow> (slabclass_t \<times> addr) option" where
  "take_chunk p =
     (if sl_curr p \<noteq> 0 then
        Some (p\<lparr>sl_curr := sl_curr p - 1\<rparr>, slots p ! (sl_curr p - 1))
      else do {
        c_assert (end_page_ptr p \<noteq> NULL);
        Some (p\<lparr>end_page_free := end_page_free p - 1,
                end_page_ptr := (if end_page_free p - 1 \<noteq> 0 then end_page_ptr p + sc_size p else NULL)\<rparr>,
              end_page_ptr p)
      })"

definition do_slabs_alloc :: "slabs_st \<Rightarrow> nat \<Rightarrow> nat \<Rightarrow> (slabs_st \<times> addr) option" where
  "do_slabs_alloc s sz cid =
     (if cid < POWER_SMALLEST \<or> cid > power_largest s then Some (s, NULL)
      else
        let p = slabclass s ! cid;
            (s, ok) = (if end_page_ptr p \<noteq> NULL \<or> sl_curr p \<noteq> 0 then (s, True)
                       else do_slabs_newslab s cid)
        in if \<not> ok then Some (s, NULL)
           else do {
             (p, ret) \<leftarrow> take_chunk (slabclass s ! cid);
             Some (upd_class s cid
                     (if ret \<noteq> NULL then p\<lparr>requested := requested p + of_nat sz\<rparr> else p), ret)
           })"

definition do_slabs_free :: "slabs_st \<Rightarrow> addr \<Rightarrow> nat \<Rightarrow> nat \<Rightarrow> slabs_st" where
  "do_slabs_free s ptr sz cid =
     (if cid < POWER_SMALLEST \<or> cid > power_largest s then s
      else
        let p = slabclass s ! cid;
            full = (sl_curr p = sl_total p);
            new_size = (if sl_total p \<noteq> 0 then sl_total p * 2 else 16);
            s' = (if full then s\<lparr>realloc_q := tl (realloc_q s)\<rparr> else s)
        in if full \<and> \<not> next_realloc s then s'
           else
             let p = (if full then p\<lparr>slots := slots p @ replicate (new_size - sl_total p) NULL,
                                     sl_total := new_size\<rparr> else p)
             in upd_class s' cid
                  (p\<lparr>slots := (slots p)[sl_curr p := ptr], sl_curr := sl_curr p + 1,
                     requested := requested p - of_nat sz\<rparr>))"

definition slabs_alloc :: "slabs_st \<Rightarrow> nat \<Rightarrow> nat \<Rightarrow> (slabs_st \<times> addr) option" where
  "slabs_alloc s sz cid = do_slabs_alloc s sz cid"

definition slabs_free :: "slabs_st \<Rightarrow> addr \<Rightarrow> nat \<Rightarrow> nat \<Rightarrow> slabs_st" where
  "slabs_free s ptr sz cid = do_slabs_free s ptr sz cid"

text \<open>An invalid class is an abort.\<close>

definition slabs_adjust_mem_requested :: "slabs_st \<Rightarrow> nat \<Rightarrow> nat \<Rightarrow> nat \<Rightarrow> slabs_st option" where
  "slabs_adjust_mem_requested s cid old ntotal =
     (if cid < POWER_SMALLEST \<or> cid > power_largest s then None
      else let p = slabclass s ! cid
           in Some (upd_class s cid (p\<lparr>requested := requested p - of_nat old + of_nat ntotal\<rparr>)))"

section \<open>The invariant of a class\<close>

text \<open>The chunks of all pages of a class, and its free chunks in the order of the two free areas.\<close>

definition page_chunks :: "slabclass_t \<Rightarrow> addr \<Rightarrow> addr set" where
  "page_chunks p pg = (\<lambda>k. pg + k * sc_size p) ` {..<perslab p}"

definition chunks :: "slabclass_t \<Rightarrow> addr set" where
  "chunks p = \<Union> (page_chunks p ` set (take (slabs_cnt p) (slab_list p)))"

definition free_list :: "slabclass_t \<Rightarrow> addr list" where
  "free_list p = take (sl_curr p) (slots p)
     @ map (\<lambda>k. end_page_ptr p + k * sc_size p) [0..<end_page_free p]"

definition used :: "slabclass_t \<Rightarrow> addr set" where
  "used p = chunks p - set (free_list p)"

definition class_inv :: "slabclass_t \<Rightarrow> bool" where
  "class_inv p \<longleftrightarrow>
     0 < sc_size p \<and> 0 < perslab p \<and>
     length (slots p) = sl_total p \<and> sl_curr p \<le> sl_total p \<and>
     length (slab_list p) = list_size p \<and> slabs_cnt p \<le> list_size p \<and>
     (end_page_ptr p = NULL \<longleftrightarrow> end_page_free p = 0) \<and>
     distinct (free_list p) \<and> set (free_list p) \<subseteq> chunks p \<and> NULL \<notin> chunks p"

lemma class_inv_used_free:
  assumes "class_inv p" and "ptr \<in> used p"
  shows "ptr \<notin> set (free_list p)" and "ptr \<noteq> NULL"
proof -
  show "ptr \<notin> set (free_list p)" using assms(2) by (simp add: used_def)
  have "NULL \<notin> chunks p" "ptr \<in> chunks p" using assms by (auto simp: used_def class_inv_def)
  then show "ptr \<noteq> NULL" by metis
qed

lemma upt_shift: "map (\<lambda>k. a + k * z) [0..<Suc n] = a # map (\<lambda>k. (a + z) + k * z) [0..<n]" for a z :: nat
proof -
  have "[0..<Suc n] = 0 # map Suc [0..<n]" by (simp add: map_Suc_upt upt_rec [of 0 "Suc n"] del: upt_Suc)
  then show ?thesis by (simp add: comp_def ac_simps del: upt_Suc)
qed

text \<open>Removing the first chunk of the last page, or the last slot.\<close>

lemma take_chunk_ok:
  assumes inv: "class_inv p" and ne: "free_list p \<noteq> []"
  shows "\<exists>p' r. take_chunk p = Some (p', r) \<and> class_inv p' \<and> r \<in> set (free_list p) \<and>
    chunks p' = chunks p \<and> used p' = insert r (used p)"
proof (cases "sl_curr p")
  case 0
  then have ef: "end_page_free p \<noteq> 0" using ne by (simp add: free_list_def)
  then obtain n where n: "end_page_free p = Suc n" by (cases "end_page_free p") auto
  have ptr: "end_page_ptr p \<noteq> NULL" using inv ef by (simp add: class_inv_def)
  let ?p = "p\<lparr>end_page_free := n, end_page_ptr := (if n \<noteq> 0 then end_page_ptr p + sc_size p else NULL)\<rparr>"
  have fl: "free_list p = end_page_ptr p # free_list ?p"
    using 0 n upt_shift [of "end_page_ptr p" "sc_size p" n] by (simp add: free_list_def del: upt_Suc)
  have ch: "chunks ?p = chunks p" by (simp add: chunks_def page_chunks_def)
  have "class_inv ?p"
    using inv fl ch ptr unfolding class_inv_def by (simp add: del: upt_Suc)
  moreover have "used ?p = insert (end_page_ptr p) (used p)"
    using inv fl ch unfolding used_def class_inv_def by auto
  moreover have "take_chunk p = Some (?p, end_page_ptr p)"
    using 0 n ptr by (simp add: take_chunk_def)
  ultimately show ?thesis using ch fl by (intro exI [of _ ?p] exI [of _ "end_page_ptr p"]) simp
next
  case (Suc c)
  let ?p = "p\<lparr>sl_curr := c\<rparr>" and ?r = "slots p ! c"
  have lt: "c < length (slots p)" using inv Suc by (simp add: class_inv_def)
  have fl: "free_list p = take c (slots p) @ ?r #
      map (\<lambda>k. end_page_ptr p + k * sc_size p) [0..<end_page_free p]"
    "free_list ?p = take c (slots p) @ map (\<lambda>k. end_page_ptr p + k * sc_size p) [0..<end_page_free p]"
    using Suc lt by (simp_all add: free_list_def take_Suc_conv_app_nth)
  have sets: "set (free_list p) = insert ?r (set (free_list ?p))" "?r \<notin> set (free_list ?p)"
    "distinct (free_list ?p)"
    using inv unfolding class_inv_def fl by auto
  have ch: "chunks ?p = chunks p" by (simp add: chunks_def page_chunks_def)
  have "class_inv ?p"
    using inv sets ch Suc unfolding class_inv_def by auto
  moreover have "used ?p = insert ?r (used p)"
    using inv sets ch unfolding used_def class_inv_def by auto
  moreover have "take_chunk p = Some (?p, ?r)" using Suc by (simp add: take_chunk_def)
  ultimately show ?thesis using ch sets(1) by (intro exI [of _ ?p] exI [of _ ?r]) simp
qed

lemma put_chunk_ok:
  assumes inv: "class_inv p" and u: "ptr \<in> used p" and c: "sl_curr p < sl_total p"
    and p': "p' = p\<lparr>slots := (slots p)[sl_curr p := ptr], sl_curr := sl_curr p + 1, requested := q\<rparr>"
  shows "class_inv p' \<and> chunks p' = chunks p \<and> used p' = used p - {ptr}"
proof -
  have lt: "sl_curr p < length (slots p)" using inv c by (simp add: class_inv_def)
  have ch: "chunks p' = chunks p" by (simp add: p' chunks_def page_chunks_def)
  have fl: "free_list p' = take (sl_curr p) (slots p) @ ptr #
      map (\<lambda>k. end_page_ptr p + k * sc_size p) [0..<end_page_free p]"
    using lt by (simp add: p' free_list_def take_Suc_upd)
  have sets: "set (free_list p') = insert ptr (set (free_list p))" "distinct (free_list p')"
    using class_inv_used_free [OF inv u] inv unfolding fl by (auto simp: class_inv_def free_list_def)
  have "class_inv p'"
    using inv sets ch c u unfolding class_inv_def used_def by (auto simp: p')
  then show ?thesis using sets(1) ch by (auto simp: used_def)
qed

lemma new_page_ok:
  assumes inv: "class_inv p" and fr: "free_list p = []" and c: "slabs_cnt p < list_size p" and "ptr \<noteq> NULL"
    and dis: "page_chunks p ptr \<inter> chunks p = {}"
    and p': "p' = p\<lparr>end_page_ptr := ptr, end_page_free := perslab p,
      slab_list := (slab_list p)[slabs_cnt p := ptr], slabs_cnt := slabs_cnt p + 1\<rparr>"
  shows "class_inv p' \<and> chunks p' = chunks p \<union> page_chunks p ptr \<and> used p' = used p \<and> free_list p' \<noteq> []"
proof -
  have lt: "slabs_cnt p < length (slab_list p)" using inv c by (simp add: class_inv_def)
  have pc: "page_chunks p' = page_chunks p" by (simp add: p' page_chunks_def fun_eq_iff)
  have ch: "chunks p' = chunks p \<union> page_chunks p ptr"
    using lt unfolding chunks_def pc by (auto simp: p' take_Suc_upd)
  have sl: "sl_curr p = 0" using fr inv by (auto simp: free_list_def class_inv_def)
  have fl: "free_list p' = map (\<lambda>k. ptr + k * sc_size p) [0..<perslab p]"
    using sl by (simp add: p' free_list_def)
  have sets: "set (free_list p') = page_chunks p ptr" "distinct (free_list p')"
    using inv unfolding fl by (auto simp: page_chunks_def class_inv_def distinct_map inj_on_def)
  have "NULL \<notin> page_chunks p ptr" using assms(4) by (auto simp: page_chunks_def)
  then have "class_inv p'"
    using inv sets ch c assms(4) sl unfolding class_inv_def by (auto simp: p')
  moreover have "used p' = used p" using sets(1) ch dis fr by (auto simp: used_def)
  moreover have "free_list p' \<noteq> []" using inv unfolding fl by (simp add: class_inv_def)
  ultimately show ?thesis using ch by blast
qed

lemma grow_pages_ok:
  assumes "class_inv p" and "list_size p \<le> n"
    and "p' = p\<lparr>list_size := n, slab_list := slab_list p @ replicate (n - list_size p) NULL\<rparr>"
  shows "class_inv p' \<and> chunks p' = chunks p \<and> free_list p' = free_list p \<and> page_chunks p' = page_chunks p"
proof -
  have "page_chunks p' = page_chunks p" by (simp add: assms(3) page_chunks_def fun_eq_iff)
  moreover have "free_list p' = free_list p" by (simp add: assms(3) free_list_def)
  moreover have "chunks p' = chunks p"
    using assms(1) calculation(1) by (simp add: chunks_def assms(3) class_inv_def)
  moreover have "class_inv p'"
    using assms(1,2) calculation unfolding class_inv_def by (simp add: assms(3))
  ultimately show ?thesis by blast
qed

lemma grow_slots_ok:
  assumes "class_inv p" and "sl_total p \<le> n"
    and "p' = p\<lparr>slots := slots p @ replicate (n - sl_total p) NULL, sl_total := n\<rparr>"
  shows "class_inv p' \<and> chunks p' = chunks p \<and> free_list p' = free_list p \<and> used p' = used p"
proof -
  have "chunks p' = chunks p" by (simp add: assms(3) page_chunks_def chunks_def)
  moreover have "free_list p' = free_list p"
    using assms(1) by (simp add: free_list_def assms(3) class_inv_def)
  moreover have "class_inv p'"
    using assms(1,2) calculation unfolding class_inv_def by (simp add: assms(3))
  ultimately show ?thesis by (simp add: used_def)
qed

section \<open>The invariant of the allocator\<close>

abbreviation valid_class :: "slabs_st \<Rightarrow> nat \<Rightarrow> bool" where
  "valid_class s i \<equiv> POWER_SMALLEST \<le> i \<and> i \<le> power_largest s"

definition slabs_inv :: "slabs_st \<Rightarrow> bool" where
  "slabs_inv s \<longleftrightarrow>
     length (slabclass s) = MAX_NUMBER_OF_SLAB_CLASSES \<and> power_largest s \<le> POWER_LARGEST \<and>
     (\<forall>i. valid_class s i \<longrightarrow> class_inv (slabclass s ! i)) \<and>
     (\<forall>i j. valid_class s i \<longrightarrow> valid_class s j \<longrightarrow> i \<noteq> j \<longrightarrow>
        chunks (slabclass s ! i) \<inter> chunks (slabclass s ! j) = {}) \<and>
     (mem_base s \<noteq> NULL \<longrightarrow> mem_current s \<noteq> NULL \<and>
        (\<forall>i c. valid_class s i \<longrightarrow> c \<in> chunks (slabclass s ! i) \<longrightarrow> c < mem_current s))"

text \<open>
  The contract of \<open>malloc\<close>: a page it returns does not overlap the pages it returned before.
\<close>

definition malloc_fresh :: "slabs_st \<Rightarrow> nat \<Rightarrow> bool" where
  "malloc_fresh s cid \<longleftrightarrow>
     (mem_base s = NULL \<and> next_malloc s \<noteq> NULL \<longrightarrow>
        (\<forall>i. valid_class s i \<longrightarrow>
           page_chunks (slabclass s ! cid) (next_malloc s) \<inter> chunks (slabclass s ! i) = {}))"

lemma slabs_inv_nth:
  assumes "slabs_inv s" and "valid_class s i"
  shows "i < length (slabclass s)" and "class_inv (slabclass s ! i)"
  using assms by (auto simp: slabs_inv_def MAX_NUMBER_OF_SLAB_CLASSES_def)

lemma align_up_ge: "sz \<le> align_up sz"
  by (simp add: align_up_def)

lemma page_chunks_bound: "c \<in> page_chunks p pg \<Longrightarrow> 0 < sc_size p \<Longrightarrow> c < pg + sc_size p * perslab p"
  by (auto simp: page_chunks_def mult.commute [of _ "sc_size p"])

text \<open>Replacing one class by one with the same chunks.\<close>

lemma slabs_inv_upd:
  assumes "slabs_inv s" and "valid_class s cid" and "class_inv p" and "chunks p = chunks (slabclass s ! cid)"
  shows "slabs_inv (upd_class s cid p)"
  using assms slabs_inv_nth [OF assms(1,2)]
  unfolding slabs_inv_def upd_class_def by (auto simp: nth_list_update)

lemma slabs_inv_queues:
  "slabs_inv (s\<lparr>realloc_q := q\<rparr>) = slabs_inv s" "slabs_inv (s\<lparr>malloc_q := m\<rparr>) = slabs_inv s"
  "slabs_inv (s\<lparr>mem_malloced := n\<rparr>) = slabs_inv s"
  by (simp_all add: slabs_inv_def)

lemma grow_slab_list_ok:
  assumes inv: "slabs_inv s" and v: "valid_class s cid" and g: "grow_slab_list s cid = (s', ok)"
  shows "slabs_inv s'" and "ok \<Longrightarrow> slabs_cnt (slabclass s' ! cid) < list_size (slabclass s' ! cid)"
    and "\<And>i. chunks (slabclass s' ! i) = chunks (slabclass s ! i) \<and>
        free_list (slabclass s' ! i) = free_list (slabclass s ! i) \<and>
        page_chunks (slabclass s' ! i) = page_chunks (slabclass s ! i) \<and>
        sc_size (slabclass s' ! i) = sc_size (slabclass s ! i) \<and> perslab (slabclass s' ! i) = perslab (slabclass s ! i)"
    and "power_largest s' = power_largest s \<and> mem_base s' = mem_base s \<and> mem_current s' = mem_current s \<and>
        mem_avail s' = mem_avail s \<and> malloc_q s' = malloc_q s"
proof -
  define p where "p = slabclass s ! cid"
  define n where "n = (if list_size p \<noteq> 0 then list_size p * 2 else 16)"
  define p' where "p' = p\<lparr>list_size := n, slab_list := slab_list p @ replicate (n - list_size p) NULL\<rparr>"
  note nth = slabs_inv_nth [OF inv v, folded p_def]
  have n: "list_size p < n" by (simp add: n_def)
  have p': "class_inv p'" "chunks p' = chunks p" "free_list p' = free_list p" "page_chunks p' = page_chunks p"
    using grow_pages_ok [OF nth(2) less_imp_le [OF n] p'_def] by auto
  have fields: "sc_size p' = sc_size p" "perslab p' = perslab p" "slabs_cnt p' = slabs_cnt p" "list_size p' = n"
    by (simp_all add: p'_def)
  have g': "grow_slab_list s cid = (if slabs_cnt p = list_size p
      then if \<not> next_realloc s then (s\<lparr>realloc_q := tl (realloc_q s)\<rparr>, False)
           else (upd_class (s\<lparr>realloc_q := tl (realloc_q s)\<rparr>) cid p', True)
      else (s, True))"
    unfolding grow_slab_list_def Let_def p_def [symmetric] n_def [symmetric] p'_def [symmetric] by (rule refl)
  have cs: "s' = s \<and> ok \<and> slabs_cnt p \<noteq> list_size p
    \<or> s' = s\<lparr>realloc_q := tl (realloc_q s)\<rparr> \<and> \<not> ok
    \<or> s' = upd_class (s\<lparr>realloc_q := tl (realloc_q s)\<rparr>) cid p' \<and> slabs_cnt p = list_size p \<and> ok"
    using g unfolding g' by (auto split: if_splits)
  have "slabs_inv (upd_class (s\<lparr>realloc_q := tl (realloc_q s)\<rparr>) cid p')"
    by (rule slabs_inv_upd) (simp_all add: slabs_inv_queues inv v p' flip: p_def)
  then show "slabs_inv s'" using cs inv slabs_inv_queues(1) by auto
  show "ok \<Longrightarrow> slabs_cnt (slabclass s' ! cid) < list_size (slabclass s' ! cid)"
  proof -
    assume ok
    have "slabs_cnt p \<le> list_size p" using nth(2) by (simp add: class_inv_def)
    moreover have "slabclass s' ! cid = p \<and> slabs_cnt p \<noteq> list_size p \<or>
        slabclass s' ! cid = p' \<and> slabs_cnt p = list_size p"
      using cs nth(1) \<open>ok\<close> unfolding upd_class_def p_def by fastforce
    ultimately show ?thesis using n fields by fastforce
  qed
  show "chunks (slabclass s' ! i) = chunks (slabclass s ! i) \<and>
        free_list (slabclass s' ! i) = free_list (slabclass s ! i) \<and>
        page_chunks (slabclass s' ! i) = page_chunks (slabclass s ! i) \<and>
        sc_size (slabclass s' ! i) = sc_size (slabclass s ! i) \<and> perslab (slabclass s' ! i) = perslab (slabclass s ! i)"
    for i
  proof -
    have "slabclass s' = slabclass s \<or> slabclass s' = (slabclass s)[cid := p']"
      using cs by (auto simp: upd_class_def)
    then show ?thesis
    proof
      assume "slabclass s' = (slabclass s)[cid := p']"
      then show ?thesis using nth(1) p'(2-) fields by (cases "i = cid") (simp_all add: p_def)
    qed simp
  qed
  show "power_largest s' = power_largest s \<and> mem_base s' = mem_base s \<and> mem_current s' = mem_current s \<and>
        mem_avail s' = mem_avail s \<and> malloc_q s' = malloc_q s"
    using cs by (auto simp: upd_class_def)
qed

text \<open>What a page leaves unchanged in the eyes of the users of chunks.\<close>

definition same_used :: "slabs_st \<Rightarrow> slabs_st \<Rightarrow> bool" where
  "same_used s s' \<longleftrightarrow> power_largest s' = power_largest s \<and>
     (\<forall>i. used (slabclass s' ! i) = used (slabclass s ! i))"

lemma memory_allocate_ok:
  assumes "slabs_inv s" and "valid_class s cid" and "malloc_fresh s cid" and "p = slabclass s ! cid"
    and "memory_allocate s (sc_size p * perslab p) = (s', ptr)" and "ptr \<noteq> NULL"
  shows "slabs_inv s'" and "slabclass s' = slabclass s" and "power_largest s' = power_largest s"
    and "\<And>i. valid_class s i \<Longrightarrow> page_chunks p ptr \<inter> chunks (slabclass s ! i) = {}"
    and "mem_base s' \<noteq> NULL \<Longrightarrow> mem_current s' \<noteq> NULL \<and> (\<forall>c\<in>page_chunks p ptr. c < mem_current s')"
proof -
  have sz: "0 < sc_size p" using slabs_inv_nth [OF assms(1,2)] assms(4) by (simp add: class_inv_def)
  let ?len = "sc_size p * perslab p"
  consider (m) "mem_base s = NULL" "s' = s\<lparr>malloc_q := tl (malloc_q s)\<rparr>" "ptr = next_malloc s"
    | (a) n where "mem_base s \<noteq> NULL" "ptr = mem_current s"
        "s' = s\<lparr>mem_current := mem_current s + align_up ?len, mem_avail := n\<rparr>"
    using assms(5,6) by (auto simp: memory_allocate_def Let_def split: if_splits)
  note cs = this
  have low: "c < mem_current s" if "mem_base s \<noteq> NULL" "valid_class s i" "c \<in> chunks (slabclass s ! i)" for c i
    using assms(1) that unfolding slabs_inv_def by blast
  show "slabs_inv s'"
    using cs
  proof cases
    case m
    then show ?thesis using assms(1) by (simp add: slabs_inv_queues)
  next
    case a
    have "c < mem_current s + align_up ?len" if "valid_class s i" "c \<in> chunks (slabclass s ! i)" for c i
      using low [OF a(1) that] by simp
    then show ?thesis using assms(1) unfolding a(3) slabs_inv_def by simp
  qed
  show "slabclass s' = slabclass s" using cs by cases simp_all
  show "power_largest s' = power_largest s" using cs by cases simp_all
  show "page_chunks p ptr \<inter> chunks (slabclass s ! i) = {}" if "valid_class s i" for i
    using cs
  proof cases
    case m
    then show ?thesis using assms(3,4,6) that unfolding malloc_fresh_def by blast
  next
    case a
    have "ptr \<le> c" if "c \<in> page_chunks p ptr" for c using that by (auto simp: page_chunks_def)
    then show ?thesis using low [OF a(1) that] a(2) by fastforce
  qed
  show "mem_current s' \<noteq> NULL \<and> (\<forall>c\<in>page_chunks p ptr. c < mem_current s')" if "mem_base s' \<noteq> NULL"
    using cs
  proof cases
    case m
    then show ?thesis using that by simp
  next
    case a
    have "c < ptr + align_up ?len" if "c \<in> page_chunks p ptr" for c
      using page_chunks_bound [OF that sz] align_up_ge [of ?len] by linarith
    then show ?thesis using a assms(6) by auto
  qed
qed

lemma slabs_inv_new_page:
  assumes inv: "slabs_inv s" and v: "valid_class s cid" and p': "class_inv p'"
    and ch: "chunks p' = chunks (slabclass s ! cid) \<union> N"
    and new: "\<And>i. valid_class s i \<Longrightarrow> N \<inter> chunks (slabclass s ! i) = {}"
    and low: "mem_base s \<noteq> NULL \<Longrightarrow> mem_current s \<noteq> NULL \<and> (\<forall>c\<in>N. c < mem_current s)"
  shows "slabs_inv (upd_class s cid p')"
proof -
  let ?t = "upd_class s cid p'"
  have nth: "slabclass ?t ! i = (if i = cid then p' else slabclass s ! i)" for i
    using slabs_inv_nth(1) [OF inv v] by (simp add: upd_class_def)
  have "chunks (slabclass ?t ! i) \<inter> chunks (slabclass ?t ! j) = {}"
    if "valid_class s i" "valid_class s j" "i \<noteq> j" for i j
  proof -
    have "chunks (slabclass s ! i) \<inter> chunks (slabclass s ! j) = {}"
      using inv that unfolding slabs_inv_def by blast
    with new [OF that(1)] new [OF that(2)] that(3) show ?thesis unfolding nth ch by (auto simp: ch)
  qed
  moreover have "c < mem_current s" if "mem_base s \<noteq> NULL" "valid_class s i" "c \<in> chunks (slabclass ?t ! i)" for i c
    using inv low [OF that(1)] that unfolding slabs_inv_def nth by (auto simp: ch split: if_splits)
  moreover have "class_inv (slabclass ?t ! i)" if "valid_class s i" for i
    using slabs_inv_nth [OF inv that] p' by (simp add: nth)
  moreover have "length (slabclass ?t) = length (slabclass s)" "power_largest ?t = power_largest s"
    "mem_base ?t = mem_base s" "mem_current ?t = mem_current s"
    by (simp_all add: upd_class_def)
  ultimately show ?thesis using inv low unfolding slabs_inv_def by simp
qed

lemma do_slabs_newslab_ok:
  assumes inv: "slabs_inv s" and v: "valid_class s cid" and fresh: "malloc_fresh s cid"
    and fr: "free_list (slabclass s ! cid) = []" and n: "do_slabs_newslab s cid = (s', ok)"
  shows "slabs_inv s'" and "same_used s s'" and "ok \<Longrightarrow> free_list (slabclass s' ! cid) \<noteq> []"
proof -
  obtain s1 g where g: "grow_slab_list s cid = (s1, g)" by force
  note gr = grow_slab_list_ok [OF inv v g]
  have v1: "valid_class s1 cid" using v gr(4) by simp
  have su1: "same_used s s1" using gr(3,4) by (simp add: same_used_def used_def)
  let ?p = "slabclass s1 ! cid"
  obtain s2 ptr where m: "memory_allocate s1 (sc_size ?p * perslab ?p) = (s2, ptr)" by force
  have len: "sc_size ?p * perslab ?p = sc_size (slabclass s ! cid) * perslab (slabclass s ! cid)"
    using gr(3) by simp
  have fresh1: "malloc_fresh s1 cid"
    using fresh gr(3,4) by (simp add: malloc_fresh_def next_malloc_def)
  have fr1: "free_list ?p = []" using fr gr(3) by simp
  consider (lim) "s' = s" "\<not> ok" | (nogrow) "s' = s1" "\<not> ok"
    | (nomem) "s' = s2" "ptr = NULL" "\<not> ok" "g"
    | (page) "g" "ptr \<noteq> NULL" "ok"
       "s' = upd_class (s2\<lparr>mem_malloced := mem_malloced s2 + sc_size ?p * perslab ?p\<rparr>) cid
          ((slabclass s2 ! cid)\<lparr>end_page_ptr := ptr, end_page_free := perslab (slabclass s2 ! cid),
             slab_list := (slab_list (slabclass s2 ! cid))[slabs_cnt (slabclass s2 ! cid) := ptr],
             slabs_cnt := slabs_cnt (slabclass s2 ! cid) + 1\<rparr>)"
    using n g m by (cases g) (auto simp: do_slabs_newslab_def Let_def len split: if_splits)
  then have "slabs_inv s' \<and> same_used s s' \<and> (ok \<longrightarrow> free_list (slabclass s' ! cid) \<noteq> [])"
  proof cases
    case lim
    then show ?thesis using inv by (simp add: same_used_def)
  next
    case nogrow
    then show ?thesis using gr(1) su1 by simp
  next
    case nomem
    have "mem_base s1 \<noteq> NULL \<Longrightarrow> mem_current s1 \<noteq> NULL" using gr(1) unfolding slabs_inv_def by blast
    with nomem have "slabs_inv s2 \<and> same_used s1 s2"
      using m gr(1) by (auto simp: memory_allocate_def same_used_def slabs_inv_queues Let_def split: if_splits)
    then show ?thesis using nomem su1 by (simp add: same_used_def)
  next
    case page
    note ma = memory_allocate_ok [OF gr(1) v1 fresh1 refl m page(2)]
    let ?p' = "?p\<lparr>end_page_ptr := ptr, end_page_free := perslab ?p,
             slab_list := (slab_list ?p)[slabs_cnt ?p := ptr], slabs_cnt := slabs_cnt ?p + 1\<rparr>"
    have np: "class_inv ?p' \<and> chunks ?p' = chunks ?p \<union> page_chunks ?p ptr \<and> used ?p' = used ?p \<and> free_list ?p' \<noteq> []"
      by (rule new_page_ok [OF slabs_inv_nth(2) [OF gr(1) v1] fr1 gr(2) [OF page(1)] page(2) ma(4) [OF v1] refl])
    let ?t = "s2\<lparr>mem_malloced := mem_malloced s2 + sc_size ?p * perslab ?p\<rparr>"
    have s': "s' = upd_class ?t cid ?p'" using page(4) by (simp only: ma(2))
    have "slabs_inv (upd_class ?t cid ?p')"
      by (rule slabs_inv_new_page [where N = "page_chunks ?p ptr"])
        (use np ma v1 in \<open>simp_all add: slabs_inv_queues\<close>)
    moreover have "slabclass s' ! i = (if i = cid then ?p' else slabclass s1 ! i)" for i
      using slabs_inv_nth(1) [OF gr(1) v1] ma(2) by (simp add: s' upd_class_def)
    ultimately show ?thesis using np su1 ma(3) gr(4) s'
      by (simp add: same_used_def upd_class_def)
  qed
  then show "slabs_inv s'" "same_used s s'" "ok \<Longrightarrow> free_list (slabclass s' ! cid) \<noteq> []" by blast+
qed

lemma free_list_empty_iff:
  "class_inv p \<Longrightarrow> free_list p = [] \<longleftrightarrow> end_page_ptr p = NULL \<and> sl_curr p = 0"
  by (auto simp: free_list_def class_inv_def)

lemma requested_irrelevant:
  "class_inv (p\<lparr>requested := q\<rparr>) = class_inv p" "chunks (p\<lparr>requested := q\<rparr>) = chunks p"
  "used (p\<lparr>requested := q\<rparr>) = used p" "free_list (p\<lparr>requested := q\<rparr>) = free_list p"
  by (simp_all add: class_inv_def used_def chunks_def page_chunks_def free_list_def)

text \<open>
  Allocation: it never fails an assertion, and a chunk it returns is a chunk of the class that
  nobody uses; it is in use afterwards and nothing else changes hands.
\<close>

lemma do_slabs_alloc_ok:
  assumes inv: "slabs_inv s" and fresh: "malloc_fresh s cid"
  shows "\<exists>s' r. do_slabs_alloc s sz cid = Some (s', r) \<and> slabs_inv s' \<and> power_largest s' = power_largest s \<and>
    (if r = NULL then same_used s s'
     else valid_class s cid \<and> r \<in> chunks (slabclass s' ! cid) \<and> r \<notin> used (slabclass s ! cid) \<and>
       used (slabclass s' ! cid) = insert r (used (slabclass s ! cid)) \<and>
       (\<forall>i. i \<noteq> cid \<longrightarrow> used (slabclass s' ! i) = used (slabclass s ! i)))"
proof (cases "valid_class s cid")
  case False
  then show ?thesis using inv by (auto simp: do_slabs_alloc_def same_used_def)
next
  case v: True
  let ?p = "slabclass s ! cid"
  define s1 ok where "s1 = fst (if end_page_ptr ?p \<noteq> NULL \<or> sl_curr ?p \<noteq> 0 then (s, True) else do_slabs_newslab s cid)"
    and "ok = snd (if end_page_ptr ?p \<noteq> NULL \<or> sl_curr ?p \<noteq> 0 then (s, True) else do_slabs_newslab s cid)"
  have unf: "do_slabs_alloc s sz cid = (if \<not> ok then Some (s1, NULL)
      else do {
        (p, ret) \<leftarrow> take_chunk (slabclass s1 ! cid);
        Some (upd_class s1 cid (if ret \<noteq> NULL then p\<lparr>requested := requested p + of_nat sz\<rparr> else p), ret)
      })"
    using v by (simp add: do_slabs_alloc_def s1_def ok_def Let_def split_beta)
  have s1: "slabs_inv s1" "same_used s s1" "ok \<Longrightarrow> free_list (slabclass s1 ! cid) \<noteq> []"
  proof -
    have "slabs_inv s1 \<and> same_used s s1 \<and> (ok \<longrightarrow> free_list (slabclass s1 ! cid) \<noteq> [])"
    proof (cases "free_list ?p = []")
      case True
      then have "end_page_ptr ?p = NULL" "sl_curr ?p = 0"
        using free_list_empty_iff [OF slabs_inv_nth(2) [OF inv v]] by simp_all
      then have "do_slabs_newslab s cid = (s1, ok)" by (simp add: s1_def ok_def)
      from do_slabs_newslab_ok [OF inv v fresh True this] show ?thesis by blast
    next
      case False
      then have "s1 = s" using free_list_empty_iff [OF slabs_inv_nth(2) [OF inv v]] by (auto simp: s1_def)
      then show ?thesis using inv False by (simp add: same_used_def)
    qed
    then show "slabs_inv s1" "same_used s s1" "ok \<Longrightarrow> free_list (slabclass s1 ! cid) \<noteq> []" by auto
  qed
  have pl: "power_largest s1 = power_largest s" using s1(2) by (simp add: same_used_def)
  show ?thesis
  proof (cases ok)
    case False
    then show ?thesis using unf s1 pl by auto
  next
    case True
    have v1: "valid_class s1 cid" using v pl by simp
    note nth = slabs_inv_nth [OF s1(1) v1]
    obtain p' r where t: "take_chunk (slabclass s1 ! cid) = Some (p', r)" "class_inv p'"
      "r \<in> set (free_list (slabclass s1 ! cid))" "chunks p' = chunks (slabclass s1 ! cid)"
      "used p' = insert r (used (slabclass s1 ! cid))"
      using take_chunk_ok [OF nth(2) s1(3) [OF True]] by blast
    have r: "r \<in> chunks (slabclass s1 ! cid)" "r \<notin> used (slabclass s1 ! cid)" "r \<noteq> NULL"
      using t(3) nth(2) by (auto simp: class_inv_def used_def dest: subsetD)
    let ?p' = "p'\<lparr>requested := requested p' + of_nat sz\<rparr>"
    have s': "do_slabs_alloc s sz cid = Some (upd_class s1 cid ?p', r)"
      using unf True t(1) r(3) by simp
    have "slabs_inv (upd_class s1 cid ?p')"
      by (rule slabs_inv_upd [OF s1(1) v1]) (simp_all add: requested_irrelevant t)
    moreover have cls: "slabclass (upd_class s1 cid ?p') ! i = (if i = cid then ?p' else slabclass s1 ! i)" for i
      using nth(1) by (simp add: upd_class_def)
    moreover have "power_largest (upd_class s1 cid ?p') = power_largest s" using pl by (simp add: upd_class_def)
    moreover have "used (slabclass s1 ! i) = used (slabclass s ! i)" for i using s1(2) by (simp add: same_used_def)
    ultimately show ?thesis
      using s' r t(4,5) v
      by (intro exI [of _ "upd_class s1 cid ?p'"] exI [of _ r]) (simp add: requested_irrelevant)
  qed
qed

lemma do_slabs_free_ok:
  assumes inv: "slabs_inv s" and v: "valid_class s cid" and u: "ptr \<in> used (slabclass s ! cid)"
    and s': "s' = do_slabs_free s ptr sz cid"
  shows "slabs_inv s'" and "power_largest s' = power_largest s"
    and "used (slabclass s' ! cid) = used (slabclass s ! cid) - {ptr} \<or>
      \<not> next_realloc s \<and> used (slabclass s' ! cid) = used (slabclass s ! cid)"
    and "\<And>i. i \<noteq> cid \<Longrightarrow> used (slabclass s' ! i) = used (slabclass s ! i)"
proof -
  define p where "p = slabclass s ! cid"
  note nth = slabs_inv_nth [OF inv v, folded p_def]
  define n where "n = (if sl_total p \<noteq> 0 then sl_total p * 2 else 16)"
  define p1 where "p1 = (if sl_curr p = sl_total p
    then p\<lparr>slots := slots p @ replicate (n - sl_total p) NULL, sl_total := n\<rparr> else p)"
  define t where "t = (if sl_curr p = sl_total p then s\<lparr>realloc_q := tl (realloc_q s)\<rparr> else s)"
  define p2 where "p2 = p1\<lparr>slots := (slots p1)[sl_curr p1 := ptr], sl_curr := sl_curr p1 + 1,
    requested := requested p1 - of_nat sz\<rparr>"
  have cs: "s' = (if sl_curr p = sl_total p \<and> \<not> next_realloc s then t else upd_class t cid p2)"
    using v unfolding s' do_slabs_free_def Let_def p_def [symmetric] n_def [symmetric]
    by (simp add: t_def p2_def p1_def)
  have t: "slabs_inv t" "slabclass t = slabclass s" "power_largest t = power_largest s"
    using inv by (simp_all add: t_def slabs_inv_queues)
  have n: "sl_total p < n" by (simp add: n_def)
  have p1: "class_inv p1 \<and> chunks p1 = chunks p \<and> used p1 = used p"
    using grow_slots_ok [OF nth(2) less_imp_le [OF n] refl] nth(2) by (simp add: p1_def)
  have lt: "sl_curr p1 < sl_total p1" using n nth(2) by (auto simp: p1_def class_inv_def)
  have p2: "class_inv p2 \<and> chunks p2 = chunks p1 \<and> used p2 = used p1 - {ptr}"
    by (rule put_chunk_ok [OF _ _ lt p2_def]) (use p1 u in \<open>simp_all add: p_def\<close>)
  have upd: "slabs_inv (upd_class t cid p2)"
    by (rule slabs_inv_upd [OF t(1)]) (use v t p1 p2 in \<open>simp_all add: p_def\<close>)
  have nthu: "slabclass (upd_class t cid p2) ! i = (if i = cid then p2 else slabclass s ! i)" for i
    using nth(1) t(2) by (simp add: upd_class_def)
  show "slabs_inv s'" using cs t upd by (simp split: if_splits)
  show "power_largest s' = power_largest s" using cs t(3) by (simp add: upd_class_def)
  show "used (slabclass s' ! cid) = used (slabclass s ! cid) - {ptr} \<or>
      \<not> next_realloc s \<and> used (slabclass s' ! cid) = used (slabclass s ! cid)"
    using cs t(2) nthu [of cid] p1 p2 by (auto simp: p_def)
  show "used (slabclass s' ! i) = used (slabclass s ! i)" if "i \<noteq> cid" for i
    using cs t(2) nthu [of i] that by simp
qed

section \<open>Initialisation\<close>

definition fresh_class :: "slabclass_t \<Rightarrow> bool" where
  "fresh_class p \<longleftrightarrow> (\<exists>z n. 0 < z \<and> 0 < n \<and> p = empty_class\<lparr>sc_size := z, perslab := n\<rparr>)"

lemma fresh_class_inv: "fresh_class p \<Longrightarrow> class_inv p \<and> chunks p = {}"
  by (auto simp: fresh_class_def class_inv_def free_list_def chunks_def empty_class_def)

lemma align_up_pos: "0 < z \<Longrightarrow> 0 < align_up z"
  using align_up_ge [of z] by linarith

definition init_inv :: "slabclass_t list \<Rightarrow> nat \<Rightarrow> bool" where
  "init_inv cls i \<longleftrightarrow> length cls = MAX_NUMBER_OF_SLAB_CLASSES \<and> i \<le> POWER_LARGEST \<and>
     (\<forall>j. i \<le> j \<and> j \<le> POWER_LARGEST \<longrightarrow> cls ! j = empty_class) \<and>
     (\<forall>j. POWER_SMALLEST \<le> j \<and> j < i \<longrightarrow> fresh_class (cls ! j))"

lemma init_classes_ok:
  assumes fits: "\<And>z. fits z \<Longrightarrow> align_up z \<le> m" and scale: "\<And>z. 0 < z \<Longrightarrow> 0 < scale z"
  shows "0 < z \<Longrightarrow> init_inv cls (i + 1) \<Longrightarrow> init_classes scale fits m cls i z = (cls', i') \<Longrightarrow>
    init_inv cls' i' \<and> i < i'"
proof (induction "POWER_LARGEST - i" arbitrary: cls i z rule: less_induct)
  case less
  show ?case
  proof (cases "i + 1 < POWER_LARGEST \<and> fits z")
    case False
    then show ?thesis using less.prems by (auto simp: init_classes.simps [of scale fits m cls i z])
  next
    case True
    let ?z = "align_up z"
    let ?cls = "cls[i + 1 := (cls ! (i + 1))\<lparr>sc_size := ?z, perslab := m div ?z\<rparr>]"
    have z: "0 < ?z" "?z \<le> m" using less.prems(1) align_up_pos fits True by auto
    then have "fresh_class (empty_class\<lparr>sc_size := ?z, perslab := m div ?z\<rparr>)"
      unfolding fresh_class_def by (metis div_greater_zero_iff)
    then have a: "init_inv ?cls (i + 1 + 1)"
      using less.prems(2) True
      by (auto simp: init_inv_def nth_list_update MAX_NUMBER_OF_SLAB_CLASSES_def less_Suc_eq)
    have b: "init_classes scale fits m ?cls (i + 1) (scale ?z) = (cls', i')"
      using less.prems(3) True by (simp add: init_classes.simps [of scale fits m cls i z] Let_def)
    have "POWER_LARGEST - (i + 1) < POWER_LARGEST - i" using True by linarith
    from less.hyps [OF this scale [OF z(1)] a b] show ?thesis by simp
  qed
qed

lemma slabs_init_ok:
  assumes fits: "\<And>z. fits z \<Longrightarrow> align_up z \<le> m" and scale: "\<And>z. 0 < z \<Longrightarrow> 0 < scale z"
    and "0 < m" and "0 < z" and "mem_base s = NULL" and "slabs_init scale fits m z limit prealloc s = Some s'"
  shows "slabs_inv s' \<and> POWER_SMALLEST \<le> power_largest s' \<and> (\<forall>i. used (slabclass s' ! i) = {} \<or> \<not> valid_class s' i) \<and>
    sc_size (slabclass s' ! power_largest s') = m"
proof -
  obtain cls i where c: "init_classes scale fits m (replicate MAX_NUMBER_OF_SLAB_CLASSES empty_class)
      (POWER_SMALLEST - 1) z = (cls, i)" by force
  have "init_inv (replicate MAX_NUMBER_OF_SLAB_CLASSES empty_class) (POWER_SMALLEST - 1 + 1)"
    by (simp add: init_inv_def MAX_NUMBER_OF_SLAB_CLASSES_def POWER_SMALLEST_def POWER_LARGEST_def)
  from init_classes_ok [OF fits scale assms(4) this c] have i: "init_inv cls i" "POWER_SMALLEST \<le> i"
    by (simp_all add: POWER_SMALLEST_def)
  define p where "p = (cls ! i)\<lparr>sc_size := m, perslab := 1\<rparr>"
  have "fresh_class p" using i assms(3) by (auto simp: init_inv_def p_def fresh_class_def)
  then have fr: "fresh_class (cls[i := p] ! j)" if "POWER_SMALLEST \<le> j" "j \<le> i" for j
    using i that by (cases "j = i") (auto simp: init_inv_def MAX_NUMBER_OF_SLAB_CLASSES_def)
  have il: "i < length cls" "length cls = MAX_NUMBER_OF_SLAB_CLASSES" "i \<le> POWER_LARGEST"
    using i by (auto simp: init_inv_def MAX_NUMBER_OF_SLAB_CLASSES_def)
  have s': "slabclass s' = cls[i := p]" "power_largest s' = i"
    "mem_base s' \<noteq> NULL \<longrightarrow> mem_current s' \<noteq> NULL"
    using assms(5,6) c unfolding slabs_init_def Let_def p_def by (auto split: if_splits)
  have inv: "class_inv (slabclass s' ! j) \<and> chunks (slabclass s' ! j) = {}" if "valid_class s' j" for j
    using fresh_class_inv [OF fr] that s' by simp
  have "slabs_inv s'" unfolding slabs_inv_def using inv s' il by auto
  moreover have "used (slabclass s' ! j) = {}" if "valid_class s' j" for j
    using inv [OF that] by (simp add: used_def)
  ultimately show ?thesis using s' i il by (auto simp: p_def)
qed

section \<open>Choice of the class\<close>

definition clsid_spec :: "slabs_st \<Rightarrow> nat \<Rightarrow> nat \<Rightarrow> bool" where
  "clsid_spec s z r \<longleftrightarrow>
     (if r = 0 then \<forall>j. valid_class s j \<longrightarrow> sc_size (slabclass s ! j) < z
      else valid_class s r \<and> z \<le> sc_size (slabclass s ! r) \<and>
        (\<forall>j. POWER_SMALLEST \<le> j \<and> j < r \<longrightarrow> sc_size (slabclass s ! j) < z))"

lemma clsid_loop_step:
  "res < length (slabclass s) \<Longrightarrow> clsid_loop s z res =
     (if sc_size (slabclass s ! res) < z then if res = power_largest s then 0 else clsid_loop s z (res + 1) else res)"
  by (subst clsid_loop.simps) simp

lemma clsid_loop_ok:
  assumes "slabs_inv s"
  shows "valid_class s res \<Longrightarrow> (\<forall>j. POWER_SMALLEST \<le> j \<and> j < res \<longrightarrow> sc_size (slabclass s ! j) < z) \<Longrightarrow>
    clsid_spec s z (clsid_loop s z res)"
proof (induction "power_largest s - res" arbitrary: res)
  case 0
  note step = clsid_loop_step [OF slabs_inv_nth(1) [OF assms 0(2)], of z]
  have res: "res = power_largest s" "res \<noteq> 0" using 0 by (simp_all add: POWER_SMALLEST_def)
  show ?case
  proof (cases "sc_size (slabclass s ! res) < z")
    case True
    have "sc_size (slabclass s ! j) < z" if "valid_class s j" for j
      using 0(3) True that res(1) by (cases "j = res") simp_all
    then show ?thesis using step True res by (simp add: clsid_spec_def)
  next
    case False
    then show ?thesis using step 0 res by (simp add: clsid_spec_def)
  qed
next
  case (Suc n)
  note step = clsid_loop_step [OF slabs_inv_nth(1) [OF assms Suc.prems(1)], of z]
  show ?case
  proof (cases "sc_size (slabclass s ! res) < z")
    case True
    have "clsid_loop s z res = clsid_loop s z (res + 1)" using step True Suc.hyps(2) by auto
    moreover have "\<forall>j. POWER_SMALLEST \<le> j \<and> j < res + 1 \<longrightarrow> sc_size (slabclass s ! j) < z"
      using Suc.prems(2) True by (auto simp: less_Suc_eq)
    moreover have "n = power_largest s - (res + 1)" "valid_class s (res + 1)"
      using Suc.hyps(2) Suc.prems(1) by simp_all
    ultimately show ?thesis using Suc.hyps(1) by simp
  next
    case False
    have "res \<noteq> 0" using Suc.prems(1) by (simp add: POWER_SMALLEST_def)
    then show ?thesis using step False Suc.prems by (simp add: clsid_spec_def)
  qed
qed

section \<open>Clients of the allocator\<close>

text \<open>
  A run of the allocator with the set of chunks its clients hold: they allocate, and they free
  only what they hold.
\<close>

inductive slab_step :: "slabs_st \<times> (nat \<times> addr) set \<Rightarrow> slabs_st \<times> (nat \<times> addr) set \<Rightarrow> bool" where
  alloc_fail: "malloc_fresh s cid \<Longrightarrow> do_slabs_alloc s z cid = Some (s', NULL) \<Longrightarrow>
    slab_step (s, L) (s', L)"
| alloc: "malloc_fresh s cid \<Longrightarrow> do_slabs_alloc s z cid = Some (s', r) \<Longrightarrow> r \<noteq> NULL \<Longrightarrow>
    slab_step (s, L) (s', insert (cid, r) L)"
| free: "(cid, ptr) \<in> L \<Longrightarrow> slab_step (s, L) (do_slabs_free s ptr z cid, L - {(cid, ptr)})"
| adjust: "slabs_adjust_mem_requested s cid old new = Some s' \<Longrightarrow> slab_step (s, L) (s', L)"

inductive_cases slab_stepE: "slab_step (s, L) (s', L')"

definition held_inv :: "slabs_st \<times> (nat \<times> addr) set \<Rightarrow> bool" where
  "held_inv = (\<lambda>(s, L). slabs_inv s \<and>
     (\<forall>(i, a)\<in>L. valid_class s i \<and> a \<in> used (slabclass s ! i)))"

lemma held_inv_step: "slab_step c c' \<Longrightarrow> held_inv c \<Longrightarrow> held_inv c'"
proof (induction rule: slab_step.induct)
  case (alloc_fail s cid z s' L)
  then have inv: "slabs_inv s" by (simp add: held_inv_def)
  from do_slabs_alloc_ok [OF inv alloc_fail(1), of z] alloc_fail(2)
  have "slabs_inv s'" "same_used s s'" by auto
  then show ?case using alloc_fail(3) by (auto simp: held_inv_def same_used_def)
next
  case (alloc s cid z s' r L)
  then have inv: "slabs_inv s" by (simp add: held_inv_def)
  from do_slabs_alloc_ok [OF inv alloc(1), of z] alloc(2,3)
  have *: "slabs_inv s'" "power_largest s' = power_largest s" "valid_class s cid"
    "used (slabclass s' ! cid) = insert r (used (slabclass s ! cid))"
    "\<forall>i. i \<noteq> cid \<longrightarrow> used (slabclass s' ! i) = used (slabclass s ! i)"
    by auto
  have "a \<in> used (slabclass s' ! i)" if "a \<in> used (slabclass s ! i)" for a i
    using that * by (cases "i = cid") auto
  then show ?case using alloc(4) * by (auto simp: held_inv_def)
next
  case (free cid ptr L s z)
  then have inv: "slabs_inv s" "valid_class s cid" "ptr \<in> used (slabclass s ! cid)"
    by (auto simp: held_inv_def)
  define s' where "s' = do_slabs_free s ptr z cid"
  note f = do_slabs_free_ok [OF inv s'_def]
  have "a \<in> used (slabclass s' ! i)"
    if "a \<in> used (slabclass s ! i)" "(i, a) \<noteq> (cid, ptr)" for a i
    using that f(3,4) by (cases "i = cid") auto
  then show ?case using free(2) f(1,2) by (auto simp: held_inv_def simp flip: s'_def)
next
  case (adjust s cid old new s' L)
  then have inv: "slabs_inv s" and v: "valid_class s cid"
    and s': "s' = upd_class s cid ((slabclass s ! cid)\<lparr>requested :=
      requested (slabclass s ! cid) - of_nat old + of_nat new\<rparr>)"
    by (auto simp: held_inv_def slabs_adjust_mem_requested_def Let_def split: if_splits)
  have "slabs_inv s'"
    unfolding s' by (rule slabs_inv_upd [OF inv v])
      (simp_all add: requested_irrelevant slabs_inv_nth(2) [OF inv v])
  moreover have "used (slabclass s' ! i) = used (slabclass s ! i)" for i
    using slabs_inv_nth(1) [OF inv v] by (cases "i = cid") (simp_all add: s' upd_class_def requested_irrelevant)
  moreover have "power_largest s' = power_largest s" by (simp add: s' upd_class_def)
  ultimately show ?case using adjust(2) by (simp add: held_inv_def)
qed

section \<open>Properties\<close>


text \<open>A state with one class of 128-byte chunks and no pages yet.\<close>

definition tiny_slabs :: slabs_st where
  "tiny_slabs = \<lparr>slabclass = (replicate 201 empty_class)[1 := empty_class\<lparr>sc_size := 128, perslab := 8\<rparr>],
     mem_limit = 0, mem_malloced = 0, power_largest = 1, mem_base = NULL, mem_current = NULL, mem_avail = 0,
     malloc_q = [4096], realloc_q = [True]\<rparr>"

lemma tiny_class: "slabclass tiny_slabs ! 1 = empty_class\<lparr>sc_size := 128, perslab := 8\<rparr>"
  "length (slabclass tiny_slabs) = 201"
  by (simp_all add: tiny_slabs_def)

lemma tiny_inv: "slabs_inv tiny_slabs" "malloc_fresh tiny_slabs 1"
proof -
  have v: "valid_class tiny_slabs i \<longleftrightarrow> i = 1" for i by (auto simp: tiny_slabs_def POWER_SMALLEST_def)
  have "fresh_class (slabclass tiny_slabs ! 1)" unfolding tiny_class fresh_class_def
    by (intro exI [of _ 128] exI [of _ 8]) simp
  then have c: "class_inv (slabclass tiny_slabs ! 1)" "chunks (slabclass tiny_slabs ! 1) = {}"
    using fresh_class_inv by blast+
  show "slabs_inv tiny_slabs"
    unfolding slabs_inv_def v using c tiny_class(2)
    by (simp add: MAX_NUMBER_OF_SLAB_CLASSES_def POWER_LARGEST_def) (simp add: tiny_slabs_def)
  show "malloc_fresh tiny_slabs 1" unfolding malloc_fresh_def v using c(2) by simp
qed

lemma tiny_alloc: "\<exists>s'. do_slabs_alloc tiny_slabs 100 1 = Some (s', 4096)"
  by (simp add: do_slabs_alloc_def tiny_slabs_def POWER_SMALLEST_def empty_class_def do_slabs_newslab_def
      grow_slab_list_def next_realloc_def memory_allocate_def next_malloc_def upd_class_def take_chunk_def)


text \<open>A concrete configuration: 1 MB pages, chunks from 128 bytes growing by a quarter.\<close>

definition demo_scale :: "nat \<Rightarrow> nat" where "demo_scale z = z * 5 div 4 + 1"
definition demo_fits :: "nat \<Rightarrow> bool" where "demo_fits z = (z \<le> 838860)"

definition demo_slabs0 :: slabs_st where
  "demo_slabs0 = \<lparr>slabclass = [], mem_limit = 0, mem_malloced = 0, power_largest = 0, mem_base = NULL,
     mem_current = NULL, mem_avail = 0, malloc_q = [4096, 2097152], realloc_q = replicate 100 True\<rparr>"

definition demo_slabs :: slabs_st where
  "demo_slabs = the (slabs_init demo_scale demo_fits 1048576 128 0 False demo_slabs0)"

lemma align_up_le: "align_up z \<le> z + 7"
  by (simp add: align_up_def CHUNK_ALIGN_BYTES_def) arith

lemma demo_slabs_init: "slabs_init demo_scale demo_fits 1048576 128 0 False demo_slabs0 = Some demo_slabs"
  by (simp add: demo_slabs_def slabs_init_def Let_def split_beta)

lemma demo_fits_ok: "demo_fits z \<Longrightarrow> align_up z \<le> 1048576"
  using align_up_le [of z] by (simp add: demo_fits_def)

text \<open>
  Initialisation establishes the invariant, whatever the growth factor does, as long as it
  keeps sizes positive and stops before a chunk exceeds a page: no chunk is in use and the
  largest class holds items of the maximal size.
\<close>

theorem slabs_init_inv:
  assumes "\<And>z. fits z \<Longrightarrow> align_up z \<le> m" and "\<And>z. 0 < z \<Longrightarrow> 0 < scale z"
    and "0 < m" and "0 < z" and "mem_base s = NULL" and "slabs_init scale fits m z limit prealloc s = Some s'"
  shows "slabs_inv s' \<and> POWER_SMALLEST \<le> power_largest s' \<and>
    (\<forall>i. used (slabclass s' ! i) = {} \<or> \<not> valid_class s' i) \<and>
    sc_size (slabclass s' ! power_largest s') = m"
  using assms by (rule slabs_init_ok)

theorem slabs_init_inv_witness:
  "slabs_inv demo_slabs \<and> POWER_SMALLEST \<le> power_largest demo_slabs \<and>
    sc_size (slabclass demo_slabs ! power_largest demo_slabs) = 1048576"
proof -
  have "0 < demo_scale z" for z by (simp add: demo_scale_def)
  then show ?thesis
    using slabs_init_inv [of demo_fits 1048576 demo_scale 128 demo_slabs0 0 False demo_slabs, OF demo_fits_ok _ _ _ _ demo_slabs_init]
    by (simp add: demo_slabs0_def)
qed

lemma demo_slabs_inv: "slabs_inv demo_slabs"
  using slabs_init_ok [OF demo_fits_ok _ _ _ _ demo_slabs_init]
  by (simp add: demo_scale_def demo_slabs0_def)

text \<open>
  \<open>slabs_clsid\<close> picks the smallest sufficient class: the result 0 means that the size is zero
  or exceeds every class, any other result is a valid class that is large enough while all smaller
  classes are too small.
\<close>

theorem slabs_clsid_best:
  assumes "slabs_inv s" and "POWER_SMALLEST \<le> power_largest s" and "0 < z"
  shows "if slabs_clsid s z = 0 then \<forall>j. valid_class s j \<longrightarrow> sc_size (slabclass s ! j) < z
    else valid_class s (slabs_clsid s z) \<and> z \<le> sc_size (slabclass s ! slabs_clsid s z) \<and>
      (\<forall>j. POWER_SMALLEST \<le> j \<and> j < slabs_clsid s z \<longrightarrow> sc_size (slabclass s ! j) < z)"
proof -
  have "clsid_spec s z (clsid_loop s z POWER_SMALLEST)"
    by (rule clsid_loop_ok) (use assms in auto)
  then show ?thesis using assms(3) by (simp add: slabs_clsid_def clsid_spec_def)
qed

lemma demo_slabs_largest: "POWER_SMALLEST \<le> power_largest demo_slabs"
  "sc_size (slabclass demo_slabs ! power_largest demo_slabs) = 1048576"
  using slabs_init_ok [OF demo_fits_ok _ _ _ _ demo_slabs_init]
  by (simp_all add: demo_scale_def demo_slabs0_def)

theorem slabs_clsid_best_witness:
  "valid_class demo_slabs (slabs_clsid demo_slabs 100) \<and> 100 \<le> sc_size (slabclass demo_slabs ! slabs_clsid demo_slabs 100)"
proof -
  have "valid_class demo_slabs (power_largest demo_slabs)"
    using demo_slabs_largest(1) by simp
  then show ?thesis
    using slabs_clsid_best [OF demo_slabs_inv demo_slabs_largest(1), of 100] demo_slabs_largest(2)
    by (auto split: if_splits)
qed

end
