(* ===== verification/Engine.thy ===== *)
theory Engine
  imports Slabs
begin

text \<open>
  The state of the default engine (\<open>memcached/engines/default_engine/default_engine.h\<close>,
  \<open>items.h\<close>, \<open>assoc.h\<close>) as one record, and the heap abstractions its components share.

  Items live in a store, a total function from addresses to items; the pointers of an item are
  addresses, \<open>NULL\<close> is 0.  The key and the data that follow the C struct in memory are fields of
  the item.  The server interface the engine calls is part of the state: \<open>srv_hash\<close> is
  \<open>server.core->hash\<close>, \<open>srv_realtime\<close> is \<open>server.core->realtime\<close> and \<open>current_time\<close> the value
  \<open>server.core->get_current_time\<close> returns.
  Locks have no counterpart: every operation of the model runs under the cache lock.
\<close>

section \<open>Items\<close>

record hash_item =
  it_next :: addr
  it_prev :: addr
  h_next :: addr
  it_time :: u32
  exptime :: u32
  nbytes :: u32
  it_flags :: u32
  nkey :: u16
  iflag :: u16
  refcount :: u16
  clsid :: u8
  it_cas :: u64
  it_key :: bytes
  it_data :: bytes

definition ITEM_WITH_CAS :: u16 where "ITEM_WITH_CAS = 1"
definition ITEM_LINKED :: u16 where "ITEM_LINKED = 256"
definition ITEM_SLABBED :: u16 where "ITEM_SLABBED = 512"

record itemstats_t =
  evicted :: u32
  evicted_nonzero :: u32
  evicted_time :: u32
  outofmemory :: u32
  tailrepairs :: u32
  st_reclaimed :: u32

section \<open>The engine\<close>

record assoc_st =
  hashpower :: nat
  primary_hashtable :: "addr list"
  old_hashtable :: "addr list"
  hash_items :: u32
  expanding :: bool
  expand_bucket :: nat

record items_st =
  heads :: "addr list"
  tails :: "addr list"
  itemstats :: "itemstats_t list"
  sizes :: "u32 list"

text \<open>The growth factor of the slab classes is a parameter of \<open>slabs_init\<close>.\<close>

record config_st =
  use_cas :: bool
  verbose :: nat
  oldest_live :: u32
  evict_to_free :: bool
  maxbytes :: nat
  preallocate :: bool
  chunk_size :: nat
  item_size_max :: nat
  ignore_vbucket :: bool
  vb0 :: bool

record engine_stats =
  evictions :: u64
  reclaimed :: u64
  curr_bytes :: u64
  curr_items :: u64
  total_items :: u64

record engine_scrubber =
  running :: bool
  visited :: u64
  cleaned :: u64
  started :: int
  stopped :: int

text \<open>
  \<open>calloc_q\<close> and \<open>thread_q\<close> say whether the coming \<open>calloc\<close> calls and thread starts succeed,
  \<open>client_q\<close> where the coming tap clients are allocated.  A tap client is a cursor, an item of
  the store at the client's address, and the item it delivers next, \<open>client_it\<close>.  The server's
  engine-specific pointer of a connection is \<open>engine_specific\<close>.
\<close>

record default_engine =
  store :: "addr \<Rightarrow> hash_item"
  assoc :: assoc_st
  slabs :: slabs_st
  items :: items_st
  config :: config_st
  stats :: engine_stats
  scrubber :: engine_scrubber
  tap_clients :: "addr list"
  vbucket_infos :: "u8 list"
  cas_id :: u64
  srv_hash :: "bytes \<Rightarrow> u32"
  srv_realtime :: "int \<Rightarrow> u32"
  current_time :: u32
  engine_specific :: "addr \<Rightarrow> addr"
  client_it :: "addr \<Rightarrow> addr"
  client_q :: "addr list"
  calloc_q :: "bool list"
  thread_q :: "bool list"

abbreviation upd_item :: "addr \<Rightarrow> (hash_item \<Rightarrow> hash_item) \<Rightarrow> default_engine \<Rightarrow> default_engine" where
  "upd_item a f e \<equiv> e\<lparr>store := (store e)(a := f (store e a))\<rparr>"

abbreviation upd_assoc :: "(assoc_st \<Rightarrow> assoc_st) \<Rightarrow> default_engine \<Rightarrow> default_engine" where
  "upd_assoc f e \<equiv> e\<lparr>assoc := f (assoc e)\<rparr>"

abbreviation upd_items :: "(items_st \<Rightarrow> items_st) \<Rightarrow> default_engine \<Rightarrow> default_engine" where
  "upd_items f e \<equiv> e\<lparr>items := f (items e)\<rparr>"

text \<open>\<open>item_get_key\<close> with the length the item claims.\<close>

definition key_of :: "hash_item \<Rightarrow> bytes" where
  "key_of it = take (unat (nkey it)) (it_key it)"

section \<open>Linked lists in the store\<close>

text \<open>
  \<open>chain nx p xs\<close>: following the pointer function \<open>nx\<close> from \<open>p\<close> visits the addresses \<open>xs\<close> and
  ends in \<open>NULL\<close>.
\<close>

primrec chain :: "(addr \<Rightarrow> addr) \<Rightarrow> addr \<Rightarrow> addr list \<Rightarrow> bool" where
  "chain nx p [] \<longleftrightarrow> p = NULL"
| "chain nx p (x # xs) \<longleftrightarrow> p = x \<and> x \<noteq> NULL \<and> chain nx (nx x) xs"

lemma chain_NULL [simp]: "chain nx NULL xs \<longleftrightarrow> xs = []"
  by (cases xs) auto

lemma chain_unique: "chain nx p xs \<Longrightarrow> chain nx p ys \<Longrightarrow> xs = ys"
proof (induction xs arbitrary: p ys)
  case Nil then show ?case by (cases ys) auto
next
  case (Cons x xs) then show ?case by (cases ys) auto
qed

lemma chain_cong: "\<forall>x\<in>set xs. nx x = ny x \<Longrightarrow> chain nx p xs = chain ny p xs"
  by (induction xs arbitrary: p) auto

lemma chain_upd_notin [simp]: "a \<notin> set xs \<Longrightarrow> chain (nx(a := b)) p xs = chain nx p xs"
  by (rule chain_cong) auto

lemma chain_app: "chain nx p (xs @ y # ys) \<Longrightarrow> chain nx y (y # ys)"
  by (induction xs arbitrary: p) auto

lemma chain_suffix: "chain nx p (xs @ ys) \<Longrightarrow> \<exists>q. chain nx q ys"
  by (induction xs arbitrary: p) auto

lemma chain_distinct: "chain nx p xs \<Longrightarrow> distinct xs"
proof (induction xs arbitrary: p)
  case (Cons x xs)
  have "x \<notin> set xs"
  proof
    assume "x \<in> set xs"
    then obtain ys zs where d: "xs = ys @ x # zs" by (auto simp: in_set_conv_decomp)
    with Cons.prems have "chain nx x (x # zs)" using chain_app [of nx "nx x" ys x zs] by simp
    moreover have "chain nx x (x # xs)" using Cons.prems by simp
    ultimately have "x # zs = x # xs" by (rule chain_unique)
    then show False using d by simp
  qed
  then show ?case using Cons.IH [of "nx x"] Cons.prems by simp
qed simp

lemma chain_neq_NULL: "chain nx p xs \<Longrightarrow> x \<in> set xs \<Longrightarrow> x \<noteq> NULL"
  by (induction xs arbitrary: p) auto

text \<open>Unlinking an element redirects the pointer in front of it.\<close>

lemma chain_remove:
  assumes "chain nx p (xs @ y # ys)"
  shows "if xs = [] then chain nx (nx y) ys \<and> p = y
    else chain (nx(last xs := nx y)) p (xs @ ys) \<and> nx (last xs) = y"
  using assms
proof (induction xs arbitrary: p)
  case (Cons x xs)
  have d: "distinct (x # xs @ y # ys)" using chain_distinct [OF Cons.prems] by simp
  show ?case
  proof (cases "xs = []")
    case True
    then show ?thesis using Cons.prems d by simp
  next
    case False
    have "x \<noteq> last xs" using d False by auto
    then show ?thesis using Cons.IH [of "nx x"] Cons.prems False by simp
  qed
qed simp

end
