(* ===== verification/Assoc.thy ===== *)
theory Assoc
  imports Engine
begin

text \<open>
  The hash table of the default engine (\<open>memcached/engines/default_engine/assoc.c\<close>): buckets of
  singly linked items, doubled in size while lookups and updates go on.  During an expansion the
  buckets below \<open>expand_bucket\<close> have been moved to the new table, the others are still in the old
  one; a maintenance thread moves one bucket per turn of the cache lock.

  The invariant \<open>assoc_inv\<close> ties the two tables to a ghost function from buckets to lists of
  items.  The lemmas show that find, insert, delete and the bucket move keep it, that the table
  behaves as a finite map from keys to items, and that the moves do not change that map and end.
\<close>

section \<open>The code\<close>

definition hashsize :: "nat \<Rightarrow> nat" where
  "hashsize n = 2 ^ n"

definition hashmask :: "nat \<Rightarrow> nat" where
  "hashmask n = hashsize n - 1"

definition assoc_init :: "default_engine \<Rightarrow> default_engine option" where
  "assoc_init e =
     (case calloc_q e of
        True # q \<Rightarrow> Some (upd_assoc (\<lambda>a. a\<lparr>primary_hashtable := replicate (hashsize (hashpower a)) NULL\<rparr>)
                            (e\<lparr>calloc_q := q\<rparr>))
      | _ \<Rightarrow> None)"

text \<open>The bucket of a hash value: in the old table or in the primary one.\<close>

datatype slot = Old nat | Primary nat

definition bucket_of :: "assoc_st \<Rightarrow> u32 \<Rightarrow> slot" where
  "bucket_of a hash =
     (let oldbucket = unat hash AND hashmask (hashpower a - 1)
      in if expanding a \<and> oldbucket \<ge> expand_bucket a then Old oldbucket
         else Primary (unat hash AND hashmask (hashpower a)))"

fun slot_get :: "assoc_st \<Rightarrow> slot \<Rightarrow> addr" where
  "slot_get a (Old i) = old_hashtable a ! i"
| "slot_get a (Primary i) = primary_hashtable a ! i"

fun slot_set :: "slot \<Rightarrow> addr \<Rightarrow> assoc_st \<Rightarrow> assoc_st" where
  "slot_set (Old i) p a = a\<lparr>old_hashtable := (old_hashtable a)[i := p]\<rparr>"
| "slot_set (Primary i) p a = a\<lparr>primary_hashtable := (primary_hashtable a)[i := p]\<rparr>"

definition key_matches :: "hash_item \<Rightarrow> bytes \<Rightarrow> bool" where
  "key_matches it key \<longleftrightarrow> length key = unat (nkey it) \<and> take (length key) (it_key it) = key"

partial_function (option) find_loop :: "(addr \<Rightarrow> hash_item) \<Rightarrow> bytes \<Rightarrow> addr \<Rightarrow> addr option" where
  "find_loop h key it =
     (if it = NULL then Some NULL
      else if key_matches (h it) key then Some it
      else find_loop h key (h_next (h it)))"

definition assoc_find :: "default_engine \<Rightarrow> u32 \<Rightarrow> bytes \<Rightarrow> addr option" where
  "assoc_find e hash key =
     find_loop (store e) key (slot_get (assoc e) (bucket_of (assoc e) hash))"

text \<open>A \<open>hash_item **\<close>: a bucket or the \<open>h_next\<close> field of an item.\<close>

datatype pos = Bucket slot | Next_of addr

fun pos_get :: "default_engine \<Rightarrow> pos \<Rightarrow> addr" where
  "pos_get e (Bucket b) = slot_get (assoc e) b"
| "pos_get e (Next_of a) = h_next (store e a)"

fun pos_set :: "pos \<Rightarrow> addr \<Rightarrow> default_engine \<Rightarrow> default_engine" where
  "pos_set (Bucket b) p e = upd_assoc (slot_set b p) e"
| "pos_set (Next_of a) p e = upd_item a (h_next_update (\<lambda>_. p)) e"

partial_function (option) before_loop :: "default_engine \<Rightarrow> bytes \<Rightarrow> pos \<Rightarrow> pos option" where
  "before_loop e key pos =
     (let it = pos_get e pos
      in if it \<noteq> NULL \<and> \<not> key_matches (store e it) key then before_loop e key (Next_of it)
         else Some pos)"

definition hashitem_before :: "default_engine \<Rightarrow> u32 \<Rightarrow> bytes \<Rightarrow> pos option" where
  "hashitem_before e hash key = before_loop e key (Bucket (bucket_of (assoc e) hash))"

definition assoc_expand :: "default_engine \<Rightarrow> default_engine" where
  "assoc_expand e =
     (let a = assoc e; old = primary_hashtable a
      in case calloc_q e of
           True # q \<Rightarrow>
             let e = e\<lparr>calloc_q := q\<rparr>
             in (case thread_q e of
                   True # t \<Rightarrow>
                     e\<lparr>thread_q := t,
                       assoc := a\<lparr>old_hashtable := old,
                                  primary_hashtable := replicate (hashsize (hashpower a + 1)) NULL,
                                  hashpower := hashpower a + 1, expanding := True, expand_bucket := 0\<rparr>\<rparr>
                 | _ \<Rightarrow>
                     e\<lparr>thread_q := tl (thread_q e),
                       assoc := a\<lparr>old_hashtable := old, expanding := False, expand_bucket := 0\<rparr>\<rparr>)
         | _ \<Rightarrow> e\<lparr>calloc_q := tl (calloc_q e), assoc := a\<lparr>old_hashtable := old\<rparr>\<rparr>)"

definition assoc_insert :: "default_engine \<Rightarrow> u32 \<Rightarrow> addr \<Rightarrow> default_engine option" where
  "assoc_insert e hash it = do {
     found \<leftarrow> assoc_find e hash (key_of (store e it));
     c_assert (found = NULL);
     let b = bucket_of (assoc e) hash;
         e = upd_item it (h_next_update (\<lambda>_. slot_get (assoc e) b)) e;
         e = upd_assoc (slot_set b it) e;
         e = upd_assoc (hash_items_update (\<lambda>n. n + 1)) e;
         a = assoc e;
         e = (if \<not> expanding a \<and> unat (hash_items a) > hashsize (hashpower a) * 3 mod 2 ^ 32 div 2
              then assoc_expand e else e)
     in Some e
   }"

definition assoc_delete :: "default_engine \<Rightarrow> u32 \<Rightarrow> bytes \<Rightarrow> default_engine option" where
  "assoc_delete e hash key = do {
     before \<leftarrow> hashitem_before e hash key;
     let it = pos_get e before;
     c_assert (it \<noteq> NULL);
     let e = upd_assoc (hash_items_update (\<lambda>n. n - 1)) e;
         nxt = h_next (store e it);
         e = upd_item it (h_next_update (\<lambda>_. NULL)) e
     in Some (pos_set before nxt e)
   }"

text \<open>One bucket of the maintenance thread: the loop over its items, then the book-keeping.\<close>

partial_function (option) move_loop :: "default_engine \<Rightarrow> addr \<Rightarrow> default_engine option" where
  "move_loop e it =
     (if it = NULL then Some e
      else
        let nxt = h_next (store e it);
            bucket = unat (srv_hash e (key_of (store e it))) AND hashmask (hashpower (assoc e));
            e = upd_item it (h_next_update (\<lambda>_. primary_hashtable (assoc e) ! bucket)) e;
            e = upd_assoc (slot_set (Primary bucket) it) e
        in move_loop e nxt)"

definition move_bucket :: "default_engine \<Rightarrow> default_engine option" where
  "move_bucket e = do {
     e \<leftarrow> move_loop e (old_hashtable (assoc e) ! expand_bucket (assoc e));
     let a = assoc e;
         a = a\<lparr>old_hashtable := (old_hashtable a)[expand_bucket a := NULL], expand_bucket := expand_bucket a + 1\<rparr>;
         a = (if expand_bucket a = hashsize (hashpower a - 1) then a\<lparr>expanding := False\<rparr> else a)
     in Some (e\<lparr>assoc := a\<rparr>)
   }"

text \<open>
  One turn of the thread under the lock: up to \<open>hash_bulk_move\<close> buckets.  The thread leaves its
  outer loop when the table is no longer expanding.
\<close>

fun maintenance_turn :: "nat \<Rightarrow> default_engine \<Rightarrow> default_engine option" where
  "maintenance_turn 0 e = Some e"
| "maintenance_turn (Suc n) e =
     (if expanding (assoc e) then move_bucket e \<bind> maintenance_turn n else Some e)"

section \<open>The invariant\<close>

definition tables_ok :: "assoc_st \<Rightarrow> bool" where
  "tables_ok a \<longleftrightarrow> length (primary_hashtable a) = hashsize (hashpower a) \<and>
     (expanding a \<longrightarrow> 0 < hashpower a \<and> length (old_hashtable a) = hashsize (hashpower a - 1) \<and>
        expand_bucket a < hashsize (hashpower a - 1))"

fun slot_ok :: "assoc_st \<Rightarrow> slot \<Rightarrow> bool" where
  "slot_ok a (Old i) \<longleftrightarrow> expanding a \<and> expand_bucket a \<le> i \<and> i < hashsize (hashpower a - 1)"
| "slot_ok a (Primary i) \<longleftrightarrow> i < hashsize (hashpower a)"

definition item_ok :: "hash_item \<Rightarrow> bool" where
  "item_ok it \<longleftrightarrow> length (it_key it) = unat (nkey it)"

text \<open>
  \<open>assoc_inv e M\<close>: the tables hold exactly the items of the map \<open>M\<close>, each in the bucket of its key.
\<close>

definition bucket_rel :: "default_engine \<Rightarrow> (bytes \<rightharpoonup> addr) \<Rightarrow> slot \<Rightarrow> addr list \<Rightarrow> bool" where
  "bucket_rel e M s xs \<longleftrightarrow> chain (h_next \<circ> store e) (slot_get (assoc e) s) xs \<and>
     set xs = {x. \<exists>k. M k = Some x \<and> bucket_of (assoc e) (srv_hash e k) = s}"

definition keys_ok :: "default_engine \<Rightarrow> (bytes \<rightharpoonup> addr) \<Rightarrow> bool" where
  "keys_ok e M \<longleftrightarrow> (\<forall>k x. M k = Some x \<longrightarrow> key_of (store e x) = k \<and> item_ok (store e x))"

definition assoc_inv :: "default_engine \<Rightarrow> (bytes \<rightharpoonup> addr) \<Rightarrow> bool" where
  "assoc_inv e M \<longleftrightarrow> tables_ok (assoc e) \<and> keys_ok e M \<and> finite (dom M) \<and>
     hash_items (assoc e) = of_nat (card (dom M)) \<and>
     (\<forall>s. slot_ok (assoc e) s \<longrightarrow> (\<exists>xs. bucket_rel e M s xs))"

text \<open>What the hash table operations may change: hash chains, the tables and the queues.\<close>

definition assoc_frame :: "default_engine \<Rightarrow> default_engine \<Rightarrow> bool" where
  "assoc_frame e e' \<longleftrightarrow>
     (\<forall>x. \<exists>n. store e' x = (store e x)\<lparr>h_next := n\<rparr>) \<and> slabs e' = slabs e \<and> items e' = items e \<and>
     config e' = config e \<and> stats e' = stats e \<and> scrubber e' = scrubber e \<and> tap_clients e' = tap_clients e \<and>
     vbucket_infos e' = vbucket_infos e \<and> cas_id e' = cas_id e \<and> srv_hash e' = srv_hash e \<and>
     srv_realtime e' = srv_realtime e \<and> current_time e' = current_time e \<and> engine_specific e' = engine_specific e \<and>
     client_it e' = client_it e \<and> client_q e' = client_q e"

lemma and_hashmask: "x AND hashmask n = x mod hashsize n"
proof -
  have "hashmask n = mask n" by (simp add: hashmask_def hashsize_def mask_eq_exp_minus_1)
  then show ?thesis by (simp add: hashsize_def take_bit_eq_mod flip: take_bit_eq_mask)
qed

lemma hashsize_pos [simp]: "0 < hashsize n"
  by (simp add: hashsize_def)

lemma hashsize_Suc: "hashsize (Suc n) = 2 * hashsize n"
  by (simp add: hashsize_def)

lemma bucket_of_ok: "slot_ok a (bucket_of a h)"
  by (simp add: bucket_of_def Let_def and_hashmask)

lemma slot_get_set:
  "tables_ok a \<Longrightarrow> slot_ok a b \<Longrightarrow> slot_get (slot_set b p a) s = (if s = b then p else slot_get a s)"
  by (cases b; cases s) (auto simp: tables_ok_def nth_list_update)

lemma slot_set_frame [simp]:
  "bucket_of (slot_set b p a) = bucket_of a" "tables_ok (slot_set b p a) = tables_ok a"
  "hash_items (slot_set b p a) = hash_items a" "expanding (slot_set b p a) = expanding a"
  "hashpower (slot_set b p a) = hashpower a" "expand_bucket (slot_set b p a) = expand_bucket a"
  by (cases b; simp add: fun_eq_iff bucket_of_def tables_ok_def Let_def; fail)+

lemma slot_ok_cong:
  "expanding a' = expanding a \<Longrightarrow> hashpower a' = hashpower a \<Longrightarrow> expand_bucket a' = expand_bucket a \<Longrightarrow>
   slot_ok a' s = slot_ok a s"
  by (cases s) simp_all

lemma hash_items_frame [simp]:
  "bucket_of (hash_items_update f a) = bucket_of a" "tables_ok (hash_items_update f a) = tables_ok a"
  "slot_get (hash_items_update f a) s = slot_get a s" "slot_ok (hash_items_update f a) s = slot_ok a s"
  by (cases s; simp add: fun_eq_iff bucket_of_def tables_ok_def Let_def; fail)+

lemma key_matches_iff: "item_ok it \<Longrightarrow> key_matches it key \<longleftrightarrow> key_of it = key"
  by (auto simp: key_matches_def key_of_def item_ok_def)

lemma find_loop_chain:
  "chain (h_next \<circ> h) p xs \<Longrightarrow>
   find_loop h key p = Some (case find (\<lambda>x. key_matches (h x) key) xs of None \<Rightarrow> NULL | Some x \<Rightarrow> x)"
proof (induction xs arbitrary: p)
  case Nil
  then show ?case by (simp add: find_loop.simps)
next
  case (Cons x xs)
  then show ?case using Cons.IH [of "h_next (h x)"] by (simp add: find_loop.simps [of h key x])
qed

lemma find_in_bucket:
  assumes "keys_ok e M" and "bucket_rel e M (bucket_of (assoc e) (srv_hash e k)) xs"
  shows "find (\<lambda>x. key_matches (store e x) k) xs = M k"
proof -
  have xs: "set xs = {x. \<exists>j. M j = Some x \<and> bucket_of (assoc e) (srv_hash e j) = bucket_of (assoc e) (srv_hash e k)}"
    using assms(2) by (simp add: bucket_rel_def)
  have m: "key_matches (store e x) k \<longleftrightarrow> M k = Some x" if x: "x \<in> set xs" for x
  proof -
    obtain j where j: "M j = Some x" using x unfolding xs by blast
    then have "key_of (store e x) = j" "item_ok (store e x)" using assms(1) by (auto simp: keys_ok_def)
    then show ?thesis using j assms(1) by (auto simp: key_matches_iff keys_ok_def)
  qed
  show ?thesis
  proof (cases "M k")
    case None
    then show ?thesis using m by (auto simp: find_None_iff)
  next
    case (Some x)
    then have "x \<in> set xs" using xs by auto
    then have "find (\<lambda>x. key_matches (store e x) k) xs \<noteq> None" using m Some by (auto simp: find_None_iff)
    then obtain y where y: "find (\<lambda>x. key_matches (store e x) k) xs = Some y" by auto
    then have "y \<in> set xs" "key_matches (store e y) k" by (auto simp: find_Some_iff)
    then show ?thesis using m y by simp
  qed
qed

lemma assoc_find_ok:
  assumes "assoc_inv e M"
  shows "assoc_find e (srv_hash e k) k = Some (case M k of None \<Rightarrow> NULL | Some x \<Rightarrow> x)"
proof -
  let ?s = "bucket_of (assoc e) (srv_hash e k)"
  obtain xs where xs: "bucket_rel e M ?s xs"
    using assms bucket_of_ok by (metis assoc_inv_def)
  have "keys_ok e M" using assms by (simp add: assoc_inv_def)
  from find_in_bucket [OF this xs] show ?thesis
    using xs find_loop_chain [of "store e" "slot_get (assoc e) ?s" xs k]
    by (simp add: assoc_find_def bucket_rel_def)
qed

section \<open>Insertion\<close>

lemma h_next_upd: "h_next \<circ> (h(a := (h a)\<lparr>h_next := p\<rparr>)) = (h_next \<circ> h)(a := p)"
  by (simp add: fun_eq_iff)

lemma key_of_h_next [simp]: "key_of (it\<lparr>h_next := p\<rparr>) = key_of it" "item_ok (it\<lparr>h_next := p\<rparr>) = item_ok it"
  by (simp_all add: key_of_def item_ok_def)

lemma keys_ok_frame: "assoc_frame e e' \<Longrightarrow> keys_ok e M \<Longrightarrow> keys_ok e' M"
  unfolding assoc_frame_def keys_ok_def by (metis key_of_h_next)

text \<open>Two items in the buckets are in one bucket only.\<close>

lemma bucket_rel_disjoint:
  "keys_ok e M \<Longrightarrow> bucket_rel e M s xs \<Longrightarrow> bucket_rel e M t ys \<Longrightarrow> s \<noteq> t \<Longrightarrow> set xs \<inter> set ys = {}"
  unfolding bucket_rel_def keys_ok_def by (auto, metis option.inject)

lemma assoc_expand_inv:
  assumes "assoc_inv e M" and "\<not> expanding (assoc e)"
  shows "assoc_inv (assoc_expand e) M" and "assoc_frame e (assoc_expand e)"
proof -
  let ?a = "assoc e"
  have fr: "store (assoc_expand e) = store e" "srv_hash (assoc_expand e) = srv_hash e"
    by (auto simp: assoc_expand_def Let_def split: list.splits bool.splits)
  have x: "\<exists>n. it = it\<lparr>h_next := n\<rparr>" for it :: hash_item by (rule exI [of _ "h_next it"]) simp
  show "assoc_frame e (assoc_expand e)"
    by (auto simp: assoc_frame_def assoc_expand_def Let_def x split: list.splits bool.splits)
  let ?b = "?a\<lparr>old_hashtable := primary_hashtable ?a, primary_hashtable := replicate (hashsize (hashpower ?a + 1)) NULL,
      hashpower := hashpower ?a + 1, expanding := True, expand_bucket := 0\<rparr>"
  have keys: "keys_ok (assoc_expand e) M" using assms(1) fr by (simp add: assoc_inv_def keys_ok_def)
  have tb: "tables_ok ?b" using assms(1) by (simp add: tables_ok_def assoc_inv_def)
  define b where "b = ?b"
  have sb: "slot_get b (Old i) = slot_get ?a (Primary i)" "slot_ok b (Old i) \<Longrightarrow> slot_ok ?a (Primary i)"
    "slot_ok b (Primary i) \<Longrightarrow> slot_get b (Primary i) = NULL" for i
    by (simp_all add: b_def)
  have bo: "bucket_of b h = Old (unat h mod hashsize (hashpower ?a))"
    "bucket_of ?a h = Primary (unat h mod hashsize (hashpower ?a))" for h
    using assms(2) by (simp_all add: b_def bucket_of_def and_hashmask)
  have rel: "\<exists>xs. chain (h_next \<circ> store e) (slot_get b s) xs \<and>
      set xs = {x. \<exists>k. M k = Some x \<and> bucket_of b (srv_hash e k) = s}" if "slot_ok b s" for s
  proof (cases s)
    case (Old i)
    then have "slot_ok ?a (Primary i)" using that sb(2) by simp
    then obtain xs where "bucket_rel e M (Primary i) xs" using assms(1) unfolding assoc_inv_def by blast
    then show ?thesis using Old by (intro exI [of _ xs]) (simp add: bucket_rel_def bo sb(1) del: slot_get.simps)
  next
    case (Primary i)
    then show ?thesis using that sb(3) by (intro exI [of _ "[]"]) (simp add: bo)
  qed
  have "assoc (assoc_expand e) = ?b \<or>
    (\<exists>n. assoc (assoc_expand e) = ?a\<lparr>old_hashtable := primary_hashtable ?a, expanding := False, expand_bucket := n\<rparr>)"
    using assms(2) by (auto simp: assoc_expand_def Let_def split: list.splits bool.splits intro: exI [of _ "expand_bucket ?a"])
  then show "assoc_inv (assoc_expand e) M"
  proof
    assume b: "assoc (assoc_expand e) = ?b"
    then show ?thesis
      using rel tb keys assms(1) unfolding assoc_inv_def bucket_rel_def b fr b_def by simp
  next
    assume "\<exists>n. assoc (assoc_expand e) = ?a\<lparr>old_hashtable := primary_hashtable ?a, expanding := False, expand_bucket := n\<rparr>"
    then obtain n where b: "assoc (assoc_expand e) = ?a\<lparr>old_hashtable := primary_hashtable ?a, expanding := False, expand_bucket := n\<rparr>" ..
    have "\<exists>xs. bucket_rel (assoc_expand e) M s xs" if "slot_ok (assoc (assoc_expand e)) s" for s
    proof (cases s)
      case (Primary i)
      then have "slot_ok ?a s" using that by (simp add: b)
      then obtain xs where "bucket_rel e M s xs" using assms(1) unfolding assoc_inv_def by blast
      then have "bucket_rel (assoc_expand e) M s xs"
        using Primary assms(2) by (simp add: bucket_rel_def fr b bucket_of_def Let_def)
      then show ?thesis ..
    qed (use that b in simp)
    then show ?thesis
      using keys assms unfolding assoc_inv_def by (simp add: b tables_ok_def)
  qed
qed

text \<open>The table right after an item has been put in front of its bucket.\<close>

definition link_front :: "default_engine \<Rightarrow> slot \<Rightarrow> addr \<Rightarrow> default_engine" where
  "link_front e b it =
     (let e = upd_item it (h_next_update (\<lambda>_. slot_get (assoc e) b)) e
      in upd_assoc (hash_items_update (\<lambda>n. n + 1)) (upd_assoc (slot_set b it) e))"

lemma link_front_inv:
  assumes inv: "assoc_inv e M" and it: "it \<noteq> NULL" "it \<notin> ran M" "item_ok (store e it)"
    and k: "k = key_of (store e it)" "M k = None" and b: "b = bucket_of (assoc e) (srv_hash e k)"
  shows "assoc_inv (link_front e b it) (M(k \<mapsto> it))" and "assoc_frame e (link_front e b it)"
proof -
  let ?e = "link_front e b it" and ?M = "M(k \<mapsto> it)"
  have tb: "tables_ok (assoc e)" and keys: "keys_ok e M" using inv by (simp_all add: assoc_inv_def)
  have sb: "slot_ok (assoc e) b" unfolding b by (rule bucket_of_ok)
  have x: "\<exists>n. it = it\<lparr>h_next := n\<rparr>" for it :: hash_item by (rule exI [of _ "h_next it"]) simp
  show fr: "assoc_frame e ?e"
    by (auto simp: assoc_frame_def link_front_def Let_def x)
  have st: "h_next \<circ> store ?e = (h_next \<circ> store e)(it := slot_get (assoc e) b)"
    by (simp add: link_front_def Let_def fun_eq_iff)
  have as: "bucket_of (assoc ?e) = bucket_of (assoc e)" "tables_ok (assoc ?e)"
    "srv_hash ?e = srv_hash e" "hash_items (assoc ?e) = hash_items (assoc e) + 1"
    using tb by (simp_all add: link_front_def Let_def)
  have so: "slot_ok (assoc ?e) s = slot_ok (assoc e) s" for s
    by (rule slot_ok_cong) (simp_all add: link_front_def Let_def)
  have sg: "slot_get (assoc ?e) s = (if s = b then it else slot_get (assoc e) s)" for s
    using slot_get_set [OF tb sb] by (simp add: link_front_def Let_def)
  have "keys_ok ?e ?M"
    using keys_ok_frame [OF fr keys] k it(3) by (auto simp: keys_ok_def link_front_def Let_def)
  moreover have "\<exists>xs. bucket_rel ?e ?M s xs" if s: "slot_ok (assoc ?e) s" for s
  proof -
    obtain xs where xs: "bucket_rel e M s xs" using inv s unfolding assoc_inv_def so by blast
    then have notin: "it \<notin> set xs" using it(2) by (auto simp: bucket_rel_def ran_def)
    show ?thesis
    proof (cases "s = b")
      case True
      then have "bucket_rel ?e ?M s (it # xs)"
        using xs notin it(1) b k(2) unfolding bucket_rel_def st sg as
        by (auto simp: chain_upd_notin split: if_splits) (metis option.distinct(1))
      then show ?thesis ..
    next
      case False
      then have "bucket_rel ?e ?M s xs"
        using xs notin b k(2) unfolding bucket_rel_def st sg as by auto
      then show ?thesis ..
    qed
  qed
  moreover have "card (dom ?M) = Suc (card (dom M))" "finite (dom ?M)"
    using inv k(2) by (auto simp: assoc_inv_def card_insert_if)
  ultimately show "assoc_inv ?e ?M"
    using as inv by (simp add: assoc_inv_def)
qed

lemma assoc_frame_trans: "assoc_frame e e' \<Longrightarrow> assoc_frame e' e'' \<Longrightarrow> assoc_frame e e''"
proof -
  assume a: "assoc_frame e e'" "assoc_frame e' e''"
  have "\<exists>n. store e'' x = (store e x)\<lparr>h_next := n\<rparr>" for x
  proof -
    obtain m n where "store e' x = (store e x)\<lparr>h_next := m\<rparr>" "store e'' x = (store e' x)\<lparr>h_next := n\<rparr>"
      using a unfolding assoc_frame_def by meson
    then show ?thesis by auto
  qed
  then show ?thesis using a by (simp add: assoc_frame_def)
qed

lemma assoc_insert_ok:
  assumes inv: "assoc_inv e M" and it: "it \<noteq> NULL" "it \<notin> ran M" "item_ok (store e it)"
    and k: "k = key_of (store e it)" "M k = None"
  shows "\<exists>e'. assoc_insert e (srv_hash e k) it = Some e' \<and> assoc_inv e' (M(k \<mapsto> it)) \<and> assoc_frame e e'"
proof -
  let ?b = "bucket_of (assoc e) (srv_hash e k)"
  let ?e = "link_front e ?b it"
  note lf = link_front_inv [OF inv it k refl]
  have "assoc_insert e (srv_hash e k) it = Some
      (if \<not> expanding (assoc ?e) \<and> unat (hash_items (assoc ?e)) > hashsize (hashpower (assoc ?e)) * 3 mod 2 ^ 32 div 2
       then assoc_expand ?e else ?e)"
    using assoc_find_ok [OF inv, of k] k
    by (simp add: assoc_insert_def link_front_def Let_def)
  then show ?thesis
    using lf assoc_expand_inv [OF lf(1)] assoc_frame_trans [OF lf(2)] by auto
qed

section \<open>Deletion\<close>

lemma before_loop_chain:
  "chain (h_next \<circ> store e) (pos_get e pos) (xs @ y # ys) \<Longrightarrow> \<forall>x\<in>set xs. \<not> key_matches (store e x) key \<Longrightarrow>
   key_matches (store e y) key \<Longrightarrow>
   before_loop e key pos = Some (if xs = [] then pos else Next_of (last xs))"
proof (induction xs arbitrary: pos)
  case Nil
  then show ?case by (simp add: before_loop.simps [of e key pos] Let_def)
next
  case (Cons x xs)
  then have "before_loop e key (Next_of x) = Some (if xs = [] then Next_of x else Next_of (last xs))"
    by (intro Cons.IH) simp_all
  then show ?case using Cons.prems by (simp add: before_loop.simps [of e key pos] Let_def)
qed

lemma before_loop_miss:
  "chain (h_next \<circ> store e) (pos_get e pos) xs \<Longrightarrow> \<forall>x\<in>set xs. \<not> key_matches (store e x) key \<Longrightarrow>
   \<exists>p. before_loop e key pos = Some p \<and> pos_get e p = NULL"
proof (induction xs arbitrary: pos)
  case Nil
  then show ?case by (simp add: before_loop.simps [of e key pos])
next
  case (Cons x xs)
  then have "\<exists>p. before_loop e key (Next_of x) = Some p \<and> pos_get e p = NULL"
    by (intro Cons.IH) simp_all
  then show ?case using Cons.prems by (simp add: before_loop.simps [of e key pos])
qed

text \<open>The table right after the item \<open>y\<close> has been unlinked from behind \<open>xs\<close> in bucket \<open>b\<close>.\<close>

definition unlink_at :: "default_engine \<Rightarrow> slot \<Rightarrow> addr list \<Rightarrow> addr \<Rightarrow> default_engine" where
  "unlink_at e b xs y =
     (let e1 = upd_assoc (hash_items_update (\<lambda>n. n - 1)) e;
          e2 = upd_item y (h_next_update (\<lambda>_. NULL)) e1
      in pos_set (if xs = [] then Bucket b else Next_of (last xs)) (h_next (store e y)) e2)"

lemma unlink_at_frame: "assoc_frame e (unlink_at e b xs y)"
  "bucket_of (assoc (unlink_at e b xs y)) = bucket_of (assoc e)"
  "tables_ok (assoc (unlink_at e b xs y)) = tables_ok (assoc e)"
  "slot_ok (assoc (unlink_at e b xs y)) = slot_ok (assoc e)"
  "hash_items (assoc (unlink_at e b xs y)) = hash_items (assoc e) - 1"
  "h_next (store (unlink_at e b xs y) x) =
    (if xs \<noteq> [] \<and> x = last xs then h_next (store e y) else if x = y then NULL else h_next (store e x))"
proof -
  have x: "\<exists>n. it = it\<lparr>h_next := n\<rparr>" for it :: hash_item by (rule exI [of _ "h_next it"]) simp
  show "assoc_frame e (unlink_at e b xs y)"
    by (auto simp: assoc_frame_def unlink_at_def Let_def x)
  show "slot_ok (assoc (unlink_at e b xs y)) = slot_ok (assoc e)"
    by (rule ext, rule slot_ok_cong) (simp_all add: unlink_at_def Let_def)
qed (simp_all add: unlink_at_def Let_def)

lemma unlink_at_slot:
  "tables_ok (assoc e) \<Longrightarrow> slot_ok (assoc e) b \<Longrightarrow>
   slot_get (assoc (unlink_at e b xs y)) s =
     (if xs = [] \<and> s = b then h_next (store e y) else slot_get (assoc e) s)"
  using slot_get_set [of "hash_items_update (\<lambda>n. n - 1) (assoc e)" b]
  by (simp add: unlink_at_def Let_def)

lemma unlink_at_inv:
  assumes inv: "assoc_inv e M" and k: "M k = Some y" and b: "b = bucket_of (assoc e) (srv_hash e k)"
    and rel: "bucket_rel e M b (xs @ y # ys)"
  shows "assoc_inv (unlink_at e b xs y) (M(k := None))"
proof -
  let ?e = "unlink_at e b xs y" and ?M = "M(k := None)"
  have tb: "tables_ok (assoc e)" and keys: "keys_ok e M" using inv by (simp_all add: assoc_inv_def)
  have sb: "slot_ok (assoc e) b" unfolding b by (rule bucket_of_ok)
  note fr = unlink_at_frame and sg = unlink_at_slot [OF tb sb]
  have hs: "srv_hash ?e = srv_hash e" using fr(1) [of e b xs y] by (simp add: assoc_frame_def)
  have inj: "M j = Some y \<longleftrightarrow> j = k" for j using keys k unfolding keys_ok_def by metis
  have keys': "keys_ok ?e ?M" using keys_ok_frame [OF fr(1) keys] by (simp add: keys_ok_def)
  have ch: "chain (h_next \<circ> store e) (slot_get (assoc e) b) (xs @ y # ys)"
    and set: "set (xs @ y # ys) = {x. \<exists>k. M k = Some x \<and> bucket_of (assoc e) (srv_hash e k) = b}"
    using rel by (simp_all add: bucket_rel_def)
  have d: "distinct (xs @ y # ys)" by (rule chain_distinct [OF ch])
  have here: "bucket_rel ?e ?M b (xs @ ys)"
  proof -
    have "set (xs @ ys) = set (xs @ y # ys) - {y}" using d by auto
    also have "\<dots> = {x. \<exists>k. M k = Some x \<and> bucket_of (assoc e) (srv_hash e k) = b} - {y}" unfolding set ..
    also have "\<dots> = {x. \<exists>k. ?M k = Some x \<and> bucket_of (assoc e) (srv_hash e k) = b}"
    proof (intro set_eqI iffI)
      fix x assume "x \<in> {x. \<exists>k. M k = Some x \<and> bucket_of (assoc e) (srv_hash e k) = b} - {y}"
      then obtain j where j: "M j = Some x" "bucket_of (assoc e) (srv_hash e j) = b" and "x \<noteq> y" by blast
      then have "j \<noteq> k" using k by force
      then show "x \<in> {x. \<exists>k. ?M k = Some x \<and> bucket_of (assoc e) (srv_hash e k) = b}" using j by auto
    qed (use inj in \<open>auto split: if_splits\<close>)
    finally have s: "set (xs @ ys) = {x. \<exists>k. ?M k = Some x \<and> bucket_of (assoc e) (srv_hash e k) = b}" .
    have "chain (h_next \<circ> store ?e) (slot_get (assoc ?e) b) (xs @ ys)"
    proof (cases "xs = []")
      case True
      have "chain (h_next \<circ> store ?e) (h_next (store e y)) ys = chain (h_next \<circ> store e) (h_next (store e y)) ys"
        by (rule chain_cong) (use d True in \<open>auto simp: fr\<close>)
      then show ?thesis using ch True by (simp add: sg)
    next
      case False
      then have "chain ((h_next \<circ> store e)(last xs := h_next (store e y))) (slot_get (assoc e) b) (xs @ ys)"
        using chain_remove [OF ch] by simp
      moreover have "chain (h_next \<circ> store ?e) p (xs @ ys) =
          chain ((h_next \<circ> store e)(last xs := h_next (store e y))) p (xs @ ys)" for p
        by (rule chain_cong) (use d False in \<open>auto simp: fr\<close>)
      ultimately show ?thesis using False by (simp add: sg)
    qed
    then show ?thesis using s by (simp add: bucket_rel_def fr hs)
  qed
  have there: "bucket_rel ?e ?M s zs" if "s \<noteq> b" "bucket_rel e M s zs" for s zs
  proof -
    have dis: "set zs \<inter> set (xs @ y # ys) = {}"
      using bucket_rel_disjoint [OF keys that(2) rel that(1)] .
    have "chain (h_next \<circ> store ?e) p zs = chain (h_next \<circ> store e) p zs" for p
      by (rule chain_cong) (use dis in \<open>auto simp: fr\<close>)
    moreover have "{x. \<exists>k. ?M k = Some x \<and> bucket_of (assoc e) (srv_hash e k) = s} =
        {x. \<exists>k. M k = Some x \<and> bucket_of (assoc e) (srv_hash e k) = s}"
      using that(1) b by auto
    ultimately show ?thesis using that by (simp add: bucket_rel_def fr hs sg)
  qed
  have "\<exists>zs. bucket_rel ?e ?M s zs" if s: "slot_ok (assoc e) s" for s
  proof (cases "s = b")
    case False
    obtain zs where "bucket_rel e M s zs" using inv s unfolding assoc_inv_def by blast
    from there [OF False this] show ?thesis ..
  qed (use here in blast)
  moreover have "card (dom M) = Suc (card (dom ?M))"
    using inv k card_Suc_Diff1 [of "dom M" k] by (simp add: assoc_inv_def domI)
  ultimately show ?thesis using keys' inv by (simp add: assoc_inv_def fr)
qed

lemma assoc_delete_ok:
  assumes inv: "assoc_inv e M" and k: "M k = Some y"
  shows "\<exists>e'. assoc_delete e (srv_hash e k) k = Some e' \<and> assoc_inv e' (M(k := None)) \<and> assoc_frame e e' \<and>
    h_next (store e' y) = NULL"
proof -
  let ?b = "bucket_of (assoc e) (srv_hash e k)"
  have keys: "keys_ok e M" using inv by (simp add: assoc_inv_def)
  obtain zs where zs: "bucket_rel e M ?b zs"
    using inv bucket_of_ok unfolding assoc_inv_def by blast
  then have "y \<in> set zs" using k by (auto simp: bucket_rel_def)
  then obtain xs ys where d: "zs = xs @ y # ys" by (auto simp: in_set_conv_decomp)
  have ch: "chain (h_next \<circ> store e) (slot_get (assoc e) ?b) (xs @ y # ys)"
    using zs d by (simp add: bucket_rel_def)
  have km: "key_matches (store e x) k \<longleftrightarrow> x = y" if x: "x \<in> set zs" for x
  proof -
    obtain j where j: "M j = Some x" using x zs unfolding bucket_rel_def by blast
    then have "key_matches (store e x) k \<longleftrightarrow> j = k"
      using keys key_matches_iff unfolding keys_ok_def by blast
    then show ?thesis using j k keys unfolding keys_ok_def by (metis option.inject)
  qed
  have nm: "\<forall>x\<in>set xs. \<not> key_matches (store e x) k" and my: "key_matches (store e y) k"
    using km d chain_distinct [OF ch] by auto
  have nn: "y \<noteq> NULL" using chain_neq_NULL [OF ch] by simp
  have pg: "pos_get e (if xs = [] then Bucket ?b else Next_of (last xs)) = y"
    using chain_remove [OF ch] by (cases "xs = []") simp_all
  have "hashitem_before e (srv_hash e k) k = Some (if xs = [] then Bucket ?b else Next_of (last xs))"
    unfolding hashitem_before_def using before_loop_chain [of e "Bucket ?b"] ch nm my by simp
  then have "assoc_delete e (srv_hash e k) k = Some (unlink_at e ?b xs y)"
    using pg nn by (simp add: assoc_delete_def unlink_at_def Let_def)
  moreover have "h_next (store (unlink_at e ?b xs y) y) = NULL"
    using chain_distinct [OF ch] by (auto simp: unlink_at_frame)
  ultimately show ?thesis
    using unlink_at_inv [OF inv k refl] zs d unlink_at_frame(1) by blast
qed

section \<open>Moving a bucket\<close>

text \<open>The bucket of an item in the table of the present size.\<close>

definition new_bucket :: "default_engine \<Rightarrow> addr \<Rightarrow> nat" where
  "new_bucket e x = unat (srv_hash e (key_of (store e x))) mod hashsize (hashpower (assoc e))"

lemma move_loop_Cons:
  "it \<noteq> NULL \<Longrightarrow> move_loop e it =
     move_loop (upd_assoc (slot_set (Primary (new_bucket e it)) it)
       (upd_item it (h_next_update (\<lambda>_. primary_hashtable (assoc e) ! new_bucket e it)) e)) (h_next (store e it))"
  by (subst move_loop.simps) (simp add: Let_def new_bucket_def and_hashmask)

text \<open>
  The loop takes the items \<open>xs\<close> of the old bucket off one by one and puts each in front of its new
  bucket; \<open>P j\<close> are the items bucket \<open>j\<close> has before.
\<close>

lemma move_loop_ok:
  assumes "chain (h_next \<circ> store e) p xs" and "length (primary_hashtable (assoc e)) = hashsize (hashpower (assoc e))"
    and "\<forall>j < hashsize (hashpower (assoc e)). chain (h_next \<circ> store e) (primary_hashtable (assoc e) ! j) (P j) \<and> set (P j) \<inter> set xs = {}"
  shows "\<exists>e' tab. move_loop e p = Some e' \<and> assoc e' = (assoc e)\<lparr>primary_hashtable := tab\<rparr> \<and>
    length tab = length (primary_hashtable (assoc e)) \<and> assoc_frame e e' \<and>
    (\<forall>x. x \<notin> set xs \<longrightarrow> store e' x = store e x) \<and>
    (\<forall>j < hashsize (hashpower (assoc e)). chain (h_next \<circ> store e') (tab ! j) (rev (filter (\<lambda>x. new_bucket e x = j) xs) @ P j))"
  using assms
proof (induction xs arbitrary: e p P)
  case Nil
  have x: "\<exists>n. it = it\<lparr>h_next := n\<rparr>" for it :: hash_item by (rule exI [of _ "h_next it"]) simp
  show ?case using Nil
    by (intro exI [of _ e] exI [of _ "primary_hashtable (assoc e)"] conjI)
       (simp_all add: move_loop.simps assoc_frame_def x)
next
  case (Cons x xs)
  let ?n = "hashsize (hashpower (assoc e))" and ?b = "new_bucket e x"
  define e1 where "e1 = upd_assoc (slot_set (Primary ?b) x)
       (upd_item x (h_next_update (\<lambda>_. primary_hashtable (assoc e) ! ?b)) e)"
  define Q where "Q = P(?b := x # P ?b)"
  have x: "\<exists>n. it = it\<lparr>h_next := n\<rparr>" for it :: hash_item by (rule exI [of _ "h_next it"]) simp
  have d: "distinct (x # xs)" using chain_distinct [OF Cons.prems(1)] .
  have b: "?b < ?n" by (simp add: new_bucket_def)
  have nx: "h_next \<circ> store e1 = (h_next \<circ> store e)(x := primary_hashtable (assoc e) ! ?b)"
    by (simp add: e1_def fun_eq_iff)
  have a1: "assoc e1 = (assoc e)\<lparr>primary_hashtable := (primary_hashtable (assoc e))[?b := x]\<rparr>"
    by (simp add: e1_def)
  have fr: "assoc_frame e e1" by (auto simp: assoc_frame_def e1_def x)
  have nb: "new_bucket e1 = new_bucket e"
    by (simp add: fun_eq_iff new_bucket_def e1_def)
  have loop: "move_loop e p = move_loop e1 (h_next (store e x))"
    using Cons.prems(1) by (simp add: move_loop_Cons e1_def)
  have "chain (h_next \<circ> store e1) (h_next (store e x)) xs"
    using Cons.prems(1) d unfolding nx by (simp add: comp_def)
  moreover have "length (primary_hashtable (assoc e1)) = hashsize (hashpower (assoc e1))"
    using Cons.prems(2) by (simp add: a1)
  moreover have "\<forall>j < hashsize (hashpower (assoc e1)). chain (h_next \<circ> store e1) (primary_hashtable (assoc e1) ! j) (Q j) \<and>
      set (Q j) \<inter> set xs = {}"
  proof (intro allI impI)
    fix j assume "j < hashsize (hashpower (assoc e1))"
    then have j: "j < ?n" by (simp add: a1)
    have "x \<notin> set (P j)" "x \<notin> set (P ?b)" using Cons.prems(3) j b by fastforce+
    then show "chain (h_next \<circ> store e1) (primary_hashtable (assoc e1) ! j) (Q j) \<and> set (Q j) \<inter> set xs = {}"
      using Cons.prems j b d unfolding nx a1 Q_def by (simp add: nth_list_update comp_def)
  qed
  ultimately obtain e' tab where ih: "move_loop e1 (h_next (store e x)) = Some e'"
    "assoc e' = (assoc e1)\<lparr>primary_hashtable := tab\<rparr>" "length tab = length (primary_hashtable (assoc e1))"
    "assoc_frame e1 e'" "\<forall>x. x \<notin> set xs \<longrightarrow> store e' x = store e1 x"
    "\<forall>j < hashsize (hashpower (assoc e1)). chain (h_next \<circ> store e') (tab ! j) (rev (filter (\<lambda>x. new_bucket e1 x = j) xs) @ Q j)"
    using Cons.IH [of e1 "h_next (store e x)" Q] by blast
  show ?case
  proof (intro exI [of _ e'] exI [of _ tab] conjI)
    show "assoc_frame e e'" by (rule assoc_frame_trans [OF fr ih(4)])
    show "\<forall>y. y \<notin> set (x # xs) \<longrightarrow> store e' y = store e y" using ih(5) by (simp add: e1_def)
    show "\<forall>j < ?n. chain (h_next \<circ> store e') (tab ! j) (rev (filter (\<lambda>x. new_bucket e x = j) (x # xs)) @ P j)"
    proof (intro allI impI)
      fix j assume j: "j < ?n"
      then have "chain (h_next \<circ> store e') (tab ! j) (rev (filter (\<lambda>x. new_bucket e x = j) xs) @ Q j)"
        using ih(6) by (simp add: nb a1)
      then show "chain (h_next \<circ> store e') (tab ! j) (rev (filter (\<lambda>x. new_bucket e x = j) (x # xs)) @ P j)"
        by (cases "j = ?b") (simp_all add: Q_def)
    qed
  qed (use loop ih a1 in simp_all)
qed

definition move_done :: "assoc_st \<Rightarrow> assoc_st" where
  "move_done a = (let a = a\<lparr>old_hashtable := (old_hashtable a)[expand_bucket a := NULL], expand_bucket := expand_bucket a + 1\<rparr>
     in if expand_bucket a = hashsize (hashpower a - 1) then a\<lparr>expanding := False\<rparr> else a)"

lemma bucket_of_move_done:
  "tables_ok a \<Longrightarrow> expanding a \<Longrightarrow> bucket_of (move_done a) h =
     (if bucket_of a h = Old (expand_bucket a) then Primary (unat h mod hashsize (hashpower a)) else bucket_of a h)"
  by (simp add: move_done_def bucket_of_def Let_def and_hashmask tables_ok_def)
     (metis One_nat_def hashsize_pos le_antisym less_Suc_eq_le mod_less_divisor)

lemma move_done_frame:
  "tables_ok a \<Longrightarrow> expanding a \<Longrightarrow> tables_ok (move_done a)" "hash_items (move_done a) = hash_items a"
  "slot_ok (move_done a) s \<Longrightarrow> tables_ok a \<Longrightarrow> expanding a \<Longrightarrow> slot_ok a s \<and> s \<noteq> Old (expand_bucket a)"
  "slot_ok (move_done a) s \<Longrightarrow> slot_get (move_done a) s = slot_get a s"
  by (cases s; auto simp: move_done_def tables_ok_def Let_def split: if_splits)+

lemma move_bucket_ok:
  assumes inv: "assoc_inv e M" and ex: "expanding (assoc e)"
  shows "\<exists>e'. move_bucket e = Some e' \<and> assoc_inv e' M \<and> assoc_frame e e' \<and>
    expand_bucket (assoc e') = expand_bucket (assoc e) + 1 \<and> hashpower (assoc e') = hashpower (assoc e) \<and>
    expanding (assoc e') = (expand_bucket (assoc e) + 1 \<noteq> hashsize (hashpower (assoc e) - 1))"
proof -
  let ?a = "assoc e" and ?o = "Old (expand_bucket (assoc e))"
  have tb: "tables_ok ?a" and keys: "keys_ok e M" using inv by (simp_all add: assoc_inv_def)
  have so: "slot_ok ?a ?o" using tb ex by (simp add: tables_ok_def)
  have all: "\<forall>s. \<exists>ys. slot_ok ?a s \<longrightarrow> bucket_rel e M s ys" using inv unfolding assoc_inv_def by blast
  obtain B where B: "bucket_rel e M s (B s)" if "slot_ok ?a s" for s
    using choice [OF all] by blast
  let ?xs = "B ?o"
  have xs: "bucket_rel e M ?o ?xs" by (rule B [OF so])
  have dis: "set (B s) \<inter> set ?xs = {}" if "slot_ok ?a s" "s \<noteq> ?o" for s
    using bucket_rel_disjoint [OF keys B [OF that(1)] xs that(2)] .
  have "\<exists>e' tab. move_loop e (old_hashtable ?a ! expand_bucket ?a) = Some e' \<and> assoc e' = ?a\<lparr>primary_hashtable := tab\<rparr> \<and>
    length tab = length (primary_hashtable ?a) \<and> assoc_frame e e' \<and>
    (\<forall>x. x \<notin> set ?xs \<longrightarrow> store e' x = store e x) \<and>
    (\<forall>j < hashsize (hashpower ?a). chain (h_next \<circ> store e') (tab ! j)
        (rev (filter (\<lambda>x. new_bucket e x = j) ?xs) @ B (Primary j)))"
  proof (rule move_loop_ok)
    show "chain (h_next \<circ> store e) (old_hashtable ?a ! expand_bucket ?a) ?xs" using xs by (simp add: bucket_rel_def)
    show "length (primary_hashtable ?a) = hashsize (hashpower ?a)" using tb by (simp add: tables_ok_def)
    show "\<forall>j < hashsize (hashpower ?a). chain (h_next \<circ> store e) (primary_hashtable ?a ! j) (B (Primary j)) \<and>
        set (B (Primary j)) \<inter> set ?xs = {}"
      using B [of "Primary _"] dis [of "Primary _"] by (simp add: bucket_rel_def)
  qed
  then obtain e' tab where l: "move_loop e (old_hashtable ?a ! expand_bucket ?a) = Some e'"
    "assoc e' = ?a\<lparr>primary_hashtable := tab\<rparr>" "length tab = length (primary_hashtable ?a)" "assoc_frame e e'"
    "\<And>x. x \<notin> set ?xs \<Longrightarrow> store e' x = store e x"
    "\<And>j. j < hashsize (hashpower ?a) \<Longrightarrow> chain (h_next \<circ> store e') (tab ! j)
        (rev (filter (\<lambda>x. new_bucket e x = j) ?xs) @ B (Primary j))"
    by blast
  let ?e = "e'\<lparr>assoc := move_done (assoc e')\<rparr>"
  have tb': "tables_ok (assoc e')" and ex': "expanding (assoc e')" using tb ex l by (simp_all add: tables_ok_def)
  have hs: "srv_hash e' = srv_hash e" using l(4) by (simp add: assoc_frame_def)
  have bo: "bucket_of (assoc e') = bucket_of ?a" by (simp add: l(2) fun_eq_iff bucket_of_def Let_def)
  have fr: "assoc_frame e ?e" using l(4) by (simp add: assoc_frame_def)
  have nb: "new_bucket e x = unat (srv_hash e k) mod hashsize (hashpower ?a)" if "M k = Some x" for k x
    using that keys by (simp add: new_bucket_def keys_ok_def)
  have bd: "bucket_of (move_done (assoc e')) h =
      (if bucket_of ?a h = ?o then Primary (unat h mod hashsize (hashpower ?a)) else bucket_of ?a h)" for h
    using bucket_of_move_done [OF tb' ex', of h] by (simp add: bo) (simp add: l(2))
  have rel: "\<exists>ys. bucket_rel ?e M s ys" if s: "slot_ok (move_done (assoc e')) s" for s
  proof -
    have "slot_ok (assoc e') s" "s \<noteq> ?o" and sg: "slot_get (move_done (assoc e')) s = slot_get (assoc e') s"
      using move_done_frame(3) [OF s tb' ex'] move_done_frame(4) [OF s] by (auto simp: l(2))
    then have sa: "slot_ok ?a s" and no: "s \<noteq> ?o" using slot_ok_cong [of "assoc e'" ?a s] by (simp_all add: l(2))
    have setB: "set (B s) = {x. \<exists>k. M k = Some x \<and> bucket_of ?a (srv_hash e k) = s}"
      using B [OF sa] by (simp add: bucket_rel_def)
    show ?thesis
    proof (cases s)
      case (Old i)
      have "chain (h_next \<circ> store e') (slot_get ?a s) (B s) = chain (h_next \<circ> store e) (slot_get ?a s) (B s)"
        by (rule chain_cong) (use dis [OF sa no] l(5) in \<open>metis comp_apply disjoint_iff\<close>)
      moreover have "bucket_of (move_done (assoc e')) h = s \<longleftrightarrow> bucket_of ?a h = s" for h
        using no Old by (simp add: bd)
      moreover have "slot_get (assoc e') s = slot_get ?a s" using Old by (simp add: l(2))
      ultimately have "bucket_rel ?e M s (B s)"
        using B [OF sa] setB by (simp add: bucket_rel_def hs sg)
      then show ?thesis ..
    next
      case (Primary j)
      have sx: "set ?xs = {x. \<exists>k. M k = Some x \<and> bucket_of ?a (srv_hash e k) = ?o}"
        using xs by (simp add: bucket_rel_def)
      have "{x. \<exists>k. M k = Some x \<and> bucket_of (move_done (assoc e')) (srv_hash e k) = s} =
          {x \<in> set ?xs. new_bucket e x = j} \<union> set (B s)"
      proof (intro set_eqI iffI)
        fix x assume "x \<in> {x. \<exists>k. M k = Some x \<and> bucket_of (move_done (assoc e')) (srv_hash e k) = s}"
        then obtain k where k: "M k = Some x" "bucket_of (move_done (assoc e')) (srv_hash e k) = s" by blast
        show "x \<in> {x \<in> set ?xs. new_bucket e x = j} \<union> set (B s)"
        proof (cases "bucket_of ?a (srv_hash e k) = ?o")
          case True
          then have "x \<in> set ?xs" "new_bucket e x = j" using k nb Primary by (auto simp: sx bd)
          then show ?thesis by simp
        next
          case False
          then have "x \<in> set (B s)" using k by (auto simp: setB bd)
          then show ?thesis by simp
        qed
      next
        fix x assume "x \<in> {x \<in> set ?xs. new_bucket e x = j} \<union> set (B s)"
        then show "x \<in> {x. \<exists>k. M k = Some x \<and> bucket_of (move_done (assoc e')) (srv_hash e k) = s}"
        proof
          assume "x \<in> {x \<in> set ?xs. new_bucket e x = j}"
          then obtain k where "M k = Some x" "bucket_of ?a (srv_hash e k) = ?o" "new_bucket e x = j"
            unfolding sx by blast
          then show ?thesis using nb Primary by (auto simp: bd)
        next
          assume "x \<in> set (B s)"
          then obtain k where "M k = Some x" "bucket_of ?a (srv_hash e k) = s" unfolding setB by blast
          then show ?thesis using no by (auto simp: bd)
        qed
      qed
      moreover have "slot_get (move_done (assoc e')) s = tab ! j" unfolding sg by (simp add: Primary l(2))
      moreover have "chain (h_next \<circ> store e') (tab ! j) (rev (filter (\<lambda>x. new_bucket e x = j) ?xs) @ B s)"
        using l(6) [of j] sa Primary by simp
      ultimately have "bucket_rel ?e M s (rev (filter (\<lambda>x. new_bucket e x = j) ?xs) @ B s)"
        by (simp add: bucket_rel_def hs)
      then show ?thesis ..
    qed
  qed
  have "assoc_inv ?e M"
    using inv keys_ok_frame [OF fr keys] move_done_frame(1,2) tb' ex' rel by (simp add: assoc_inv_def l(2))
  moreover have "move_bucket e = Some ?e"
    by (simp add: move_bucket_def l(1) move_done_def Let_def)
  ultimately show ?thesis
    using fr ex by (simp add: move_done_def Let_def l(2))
qed

lemma maintenance_turn_ok:
  "assoc_inv e M \<Longrightarrow> \<exists>e'. maintenance_turn n e = Some e' \<and> assoc_inv e' M \<and> assoc_frame e e'"
proof (induction n arbitrary: e)
  case 0
  have "\<exists>n. it = it\<lparr>h_next := n\<rparr>" for it :: hash_item by (rule exI [of _ "h_next it"]) simp
  then show ?case using 0 by (simp add: assoc_frame_def)
next
  case (Suc n)
  show ?case
  proof (cases "expanding (assoc e)")
    case True
    then obtain e1 where "move_bucket e = Some e1" "assoc_inv e1 M" "assoc_frame e e1"
      using move_bucket_ok [OF Suc.prems] by blast
    then show ?thesis using Suc.IH [of e1] True assoc_frame_trans by auto
  next
    case False
    have "\<exists>n. it = it\<lparr>h_next := n\<rparr>" for it :: hash_item by (rule exI [of _ "h_next it"]) simp
    then show ?thesis using False Suc.prems by (simp add: assoc_frame_def)
  qed
qed

lemma maintenance_turn_ends:
  "assoc_inv e M \<Longrightarrow> expanding (assoc e) \<longrightarrow> n = hashsize (hashpower (assoc e) - 1) - expand_bucket (assoc e) \<Longrightarrow>
   \<exists>e'. maintenance_turn n e = Some e' \<and> \<not> expanding (assoc e') \<and> assoc_inv e' M"
proof (induction n arbitrary: e)
  case 0
  then show ?case by (auto simp: assoc_inv_def tables_ok_def)
next
  case (Suc n)
  show ?case
  proof (cases "expanding (assoc e)")
    case True
    obtain e1 where e1: "move_bucket e = Some e1" "assoc_inv e1 M"
      "expand_bucket (assoc e1) = expand_bucket (assoc e) + 1" "hashpower (assoc e1) = hashpower (assoc e)"
      using move_bucket_ok [OF Suc.prems(1) True] by blast
    then have "\<exists>e'. maintenance_turn n e1 = Some e' \<and> \<not> expanding (assoc e') \<and> assoc_inv e' M"
      using Suc.prems(2) True by (intro Suc.IH) auto
    then show ?thesis using True e1(1) by simp
  next
    case False
    then show ?thesis using Suc.prems by auto
  qed
qed

section \<open>The table as a finite map\<close>

text \<open>
  The contract the cache relies on: a lookup structure whose state stands for a map from keys to
  items, with background work that never changes the map.
\<close>

locale item_table =
  fixes inv :: "'s \<Rightarrow> (bytes \<rightharpoonup> addr) \<Rightarrow> bool"
    and item_key :: "'s \<Rightarrow> addr \<Rightarrow> bytes"
    and valid_item :: "'s \<Rightarrow> addr \<Rightarrow> bool"
    and tfind :: "'s \<Rightarrow> bytes \<Rightarrow> addr option"
    and tinsert :: "'s \<Rightarrow> addr \<Rightarrow> 's option"
    and tdelete :: "'s \<Rightarrow> bytes \<Rightarrow> 's option"
    and background :: "nat \<Rightarrow> 's \<Rightarrow> 's option"
    and frame :: "'s \<Rightarrow> 's \<Rightarrow> bool"
  assumes find_law: "inv s M \<Longrightarrow> tfind s k = Some (case M k of None \<Rightarrow> NULL | Some x \<Rightarrow> x)"
    and mapped_law: "inv s M \<Longrightarrow> M k = Some x \<Longrightarrow> x \<noteq> NULL \<and> item_key s x = k"
    and insert_law: "inv s M \<Longrightarrow> valid_item s x \<Longrightarrow> x \<notin> ran M \<Longrightarrow> M (item_key s x) = None \<Longrightarrow>
      \<exists>s'. tinsert s x = Some s' \<and> inv s' (M(item_key s x \<mapsto> x)) \<and> frame s s'"
    and insert_dup_law: "inv s M \<Longrightarrow> M (item_key s x) \<noteq> None \<Longrightarrow> tinsert s x = None"
    and delete_law: "inv s M \<Longrightarrow> M k \<noteq> None \<Longrightarrow>
      \<exists>s'. tdelete s k = Some s' \<and> inv s' (M(k := None)) \<and> frame s s'"
    and delete_missing_law: "inv s M \<Longrightarrow> M k = None \<Longrightarrow> tdelete s k = None"
    and background_law: "inv s M \<Longrightarrow> \<exists>s'. background n s = Some s' \<and> inv s' M \<and> frame s s'"
    and frame_law: "frame s s' \<Longrightarrow> item_key s' x = item_key s x \<and> valid_item s' x = valid_item s x"
begin

lemma determined: "inv s M \<Longrightarrow> inv s N \<Longrightarrow> M = N"
proof
  fix k assume a: "inv s M" "inv s N"
  have "(case M k of None \<Rightarrow> NULL | Some x \<Rightarrow> x) = (case N k of None \<Rightarrow> NULL | Some x \<Rightarrow> x)"
    using find_law [OF a(1), of k] find_law [OF a(2), of k] by simp
  then show "M k = N k"
    using mapped_law [OF a(1), of k] mapped_law [OF a(2), of k] by (cases "M k"; cases "N k") auto
qed

lemma find_after_insert:
  assumes "inv s M" "valid_item s x" "x \<notin> ran M" "M (item_key s x) = None"
  shows "\<exists>s'. tinsert s x = Some s' \<and> tfind s' (item_key s x) = Some x \<and>
    (\<forall>k. k \<noteq> item_key s x \<longrightarrow> tfind s' k = tfind s k)"
proof -
  obtain s' where s': "tinsert s x = Some s'" "inv s' (M(item_key s x \<mapsto> x))"
    using insert_law [OF assms] by blast
  show ?thesis using s' find_law [OF s'(2)] find_law [OF assms(1)] by auto
qed

lemma find_after_delete:
  assumes "inv s M" "M k \<noteq> None"
  shows "\<exists>s'. tdelete s k = Some s' \<and> tfind s' k = Some NULL \<and> (\<forall>j. j \<noteq> k \<longrightarrow> tfind s' j = tfind s j)"
proof -
  obtain s' where s': "tdelete s k = Some s'" "inv s' (M(k := None))"
    using delete_law [OF assms] by blast
  show ?thesis using s' find_law [OF s'(2)] find_law [OF assms(1)] by auto
qed

lemma find_after_background:
  "inv s M \<Longrightarrow> \<exists>s'. background n s = Some s' \<and> (\<forall>k. tfind s' k = tfind s k)"
  using background_law [of s M n] find_law by metis

lemma delete_undoes_insert:
  assumes "inv s M" "valid_item s x" "x \<notin> ran M" "M (item_key s x) = None"
  shows "\<exists>s' s''. tinsert s x = Some s' \<and> tdelete s' (item_key s x) = Some s'' \<and> inv s'' M"
proof -
  obtain s' where s': "tinsert s x = Some s'" "inv s' (M(item_key s x \<mapsto> x))"
    using insert_law [OF assms] by blast
  obtain s'' where "tdelete s' (item_key s x) = Some s''" "inv s'' ((M(item_key s x \<mapsto> x))(item_key s x := None))"
    using delete_law [OF s'(2), of "item_key s x"] by auto
  moreover have "(M(item_key s x \<mapsto> x))(item_key s x := None) = M" using assms(4) by auto
  ultimately show ?thesis using s' by auto
qed

end

lemma assoc_inv_neq_NULL: "assoc_inv e M \<Longrightarrow> M k = Some x \<Longrightarrow> x \<noteq> NULL"
proof -
  assume a: "assoc_inv e M" "M k = Some x"
  obtain xs where xs: "bucket_rel e M (bucket_of (assoc e) (srv_hash e k)) xs"
    using a(1) bucket_of_ok unfolding assoc_inv_def by blast
  then have "x \<in> set xs" using a(2) by (auto simp: bucket_rel_def)
  then show ?thesis using xs chain_neq_NULL unfolding bucket_rel_def by blast
qed

lemma assoc_insert_dup: "assoc_inv e M \<Longrightarrow> M (key_of (store e x)) \<noteq> None \<Longrightarrow>
   assoc_insert e (srv_hash e (key_of (store e x))) x = None"
proof -
  assume a: "assoc_inv e M" "M (key_of (store e x)) \<noteq> None"
  then obtain y where y: "M (key_of (store e x)) = Some y" by auto
  then have "y \<noteq> NULL" using assoc_inv_neq_NULL [OF a(1)] by simp
  then show ?thesis using assoc_find_ok [OF a(1), of "key_of (store e x)"] y by (simp add: assoc_insert_def)
qed

lemma assoc_delete_missing: "assoc_inv e M \<Longrightarrow> M k = None \<Longrightarrow> assoc_delete e (srv_hash e k) k = None"
proof -
  assume a: "assoc_inv e M" "M k = None"
  let ?b = "bucket_of (assoc e) (srv_hash e k)"
  obtain xs where xs: "bucket_rel e M ?b xs" using a(1) bucket_of_ok unfolding assoc_inv_def by blast
  have "\<not> key_matches (store e x) k" if x: "x \<in> set xs" for x
  proof -
    obtain j where j: "M j = Some x" using x xs unfolding bucket_rel_def by blast
    then have "key_of (store e x) = j" "item_ok (store e x)" using a(1) by (auto simp: assoc_inv_def keys_ok_def)
    then show ?thesis using key_matches_iff j a(2) by auto
  qed
  then have "\<exists>p. before_loop e k (Bucket ?b) = Some p \<and> pos_get e p = NULL"
    using xs by (intro before_loop_miss [of e _ xs]) (auto simp: bucket_rel_def)
  then show ?thesis by (auto simp: assoc_delete_def hashitem_before_def)
qed

interpretation ht: item_table assoc_inv "\<lambda>e x. key_of (store e x)" "\<lambda>e x. x \<noteq> NULL \<and> item_ok (store e x)"
  "\<lambda>e k. assoc_find e (srv_hash e k) k" "\<lambda>e x. assoc_insert e (srv_hash e (key_of (store e x))) x"
  "\<lambda>e k. assoc_delete e (srv_hash e k) k" maintenance_turn assoc_frame
proof (unfold_locales, goal_cases)
  case (1 s M k) then show ?case by (rule assoc_find_ok)
next
  case (2 s M k x) then show ?case using assoc_inv_neq_NULL by (auto simp: assoc_inv_def keys_ok_def)
next
  case (3 s M x) then show ?case using assoc_insert_ok by blast
next
  case (4 s M x) then show ?case by (rule assoc_insert_dup)
next
  case (5 s M k) then show ?case using assoc_delete_ok by blast
next
  case (6 s M k) then show ?case by (rule assoc_delete_missing)
next
  case (7 s M n) then show ?case by (rule maintenance_turn_ok)
next
  case (8 s s' x)
  then obtain n where "store s' x = (store s x)\<lparr>h_next := n\<rparr>" unfolding assoc_frame_def by blast
  then show ?case by simp
qed

text \<open>
  Calls on the table in the order in which the cache lock serialises them: client operations and
  turns of the maintenance thread.
\<close>

datatype table_op = TFind bytes | TInsert addr | TDelete bytes | TMaintain nat

fun table_step :: "default_engine \<Rightarrow> table_op \<Rightarrow> (default_engine \<times> addr) option" where
  "table_step e (TFind k) = map_option (\<lambda>x. (e, x)) (assoc_find e (srv_hash e k) k)"
| "table_step e (TInsert x) = map_option (\<lambda>e'. (e', NULL)) (assoc_insert e (srv_hash e (key_of (store e x))) x)"
| "table_step e (TDelete k) = map_option (\<lambda>e'. (e', NULL)) (assoc_delete e (srv_hash e k) k)"
| "table_step e (TMaintain n) = map_option (\<lambda>e'. (e', NULL)) (maintenance_turn n e)"

fun table_run :: "default_engine \<Rightarrow> table_op list \<Rightarrow> (default_engine \<times> addr list) option" where
  "table_run e [] = Some (e, [])"
| "table_run e (c # cs) = do {
     (e, r) \<leftarrow> table_step e c;
     (e, rs) \<leftarrow> table_run e cs;
     Some (e, r # rs)
   }"

text \<open>The specification: the same calls on a finite map, and when they are within the contract.\<close>

fun map_step :: "(addr \<Rightarrow> bytes) \<Rightarrow> (bytes \<rightharpoonup> addr) \<Rightarrow> table_op \<Rightarrow> (bytes \<rightharpoonup> addr) \<times> addr" where
  "map_step kf M (TFind k) = (M, case M k of None \<Rightarrow> NULL | Some x \<Rightarrow> x)"
| "map_step kf M (TInsert x) = (M(kf x \<mapsto> x), NULL)"
| "map_step kf M (TDelete k) = (M(k := None), NULL)"
| "map_step kf M (TMaintain n) = (M, NULL)"

fun map_run :: "(addr \<Rightarrow> bytes) \<Rightarrow> (bytes \<rightharpoonup> addr) \<Rightarrow> table_op list \<Rightarrow> (bytes \<rightharpoonup> addr) \<times> addr list" where
  "map_run kf M [] = (M, [])"
| "map_run kf M (c # cs) =
     (let (M, r) = map_step kf M c; (M, rs) = map_run kf M cs in (M, r # rs))"

fun call_ok :: "(addr \<Rightarrow> hash_item) \<Rightarrow> (bytes \<rightharpoonup> addr) \<Rightarrow> table_op \<Rightarrow> bool" where
  "call_ok h M (TInsert x) \<longleftrightarrow> x \<noteq> NULL \<and> item_ok (h x) \<and> x \<notin> ran M \<and> M (key_of (h x)) = None"
| "call_ok h M (TDelete k) \<longleftrightarrow> M k \<noteq> None"
| "call_ok h M _ \<longleftrightarrow> True"

fun calls_ok :: "(addr \<Rightarrow> hash_item) \<Rightarrow> (bytes \<rightharpoonup> addr) \<Rightarrow> table_op list \<Rightarrow> bool" where
  "calls_ok h M [] \<longleftrightarrow> True"
| "calls_ok h M (c # cs) \<longleftrightarrow> call_ok h M c \<and> calls_ok h (fst (map_step (\<lambda>x. key_of (h x)) M c)) cs"

lemma assoc_frame_key: "assoc_frame e e' \<Longrightarrow> key_of (store e' x) = key_of (store e x) \<and> item_ok (store e' x) = item_ok (store e x)"
  using ht.frame_law [of e e' x] unfolding assoc_frame_def by (metis key_of_h_next)

lemma call_ok_frame: "assoc_frame e e' \<Longrightarrow> call_ok (store e') M c = call_ok (store e) M c"
  by (cases c) (simp_all add: assoc_frame_key)

lemma map_step_frame: "assoc_frame e e' \<Longrightarrow> map_step (\<lambda>x. key_of (store e' x)) M c = map_step (\<lambda>x. key_of (store e x)) M c"
  by (cases c) (simp_all add: assoc_frame_key)

lemma calls_ok_frame: "assoc_frame e e' \<Longrightarrow> calls_ok (store e') M cs = calls_ok (store e) M cs"
  by (induction cs arbitrary: M) (simp_all add: call_ok_frame map_step_frame)

lemma map_run_frame: "assoc_frame e e' \<Longrightarrow> map_run (\<lambda>x. key_of (store e' x)) M cs = map_run (\<lambda>x. key_of (store e x)) M cs"
  by (induction cs arbitrary: M) (simp_all add: map_step_frame)

lemma assoc_frame_refl: "assoc_frame e e"
  using maintenance_turn_ok [of e] unfolding assoc_frame_def
  by (metis (mono_tags, lifting) hash_item.surjective hash_item.update_convs(3))

lemma table_step_ok:
  assumes "assoc_inv e M" "call_ok (store e) M c"
  shows "\<exists>e'. table_step e c = Some (e', snd (map_step (\<lambda>x. key_of (store e x)) M c)) \<and>
    assoc_inv e' (fst (map_step (\<lambda>x. key_of (store e x)) M c)) \<and> assoc_frame e e'"
proof (cases c)
  case (TFind k)
  then show ?thesis using ht.find_law [OF assms(1)] assms(1) assoc_frame_refl by simp
next
  case (TInsert x)
  then have "x \<noteq> NULL \<and> item_ok (store e x)" "x \<notin> ran M" "M (key_of (store e x)) = None"
    using assms(2) by auto
  then show ?thesis using ht.insert_law [OF assms(1)] TInsert by fastforce
next
  case (TDelete k)
  then show ?thesis using ht.delete_law [OF assms(1), of k] assms(2) by fastforce
next
  case (TMaintain n)
  then show ?thesis using ht.background_law [OF assms(1), of n] by fastforce
qed

lemma table_run_ok:
  "assoc_inv e M \<Longrightarrow> calls_ok (store e) M cs \<Longrightarrow>
   \<exists>e'. table_run e cs = Some (e', snd (map_run (\<lambda>x. key_of (store e x)) M cs)) \<and>
     assoc_inv e' (fst (map_run (\<lambda>x. key_of (store e x)) M cs)) \<and> assoc_frame e e'"
proof (induction cs arbitrary: e M)
  case Nil
  then show ?case using assoc_frame_refl by simp
next
  case (Cons c cs)
  let ?kf = "\<lambda>x. key_of (store e x)"
  obtain N r where m: "map_step ?kf M c = (N, r)" by (cases "map_step ?kf M c")
  obtain e1 where e1: "table_step e c = Some (e1, r)" "assoc_inv e1 N" "assoc_frame e e1"
    using table_step_ok [OF Cons.prems(1), of c] Cons.prems(2) m by auto
  obtain N' rs where n: "map_run ?kf N cs = (N', rs)" by (cases "map_run ?kf N cs")
  have "calls_ok (store e1) N cs" using Cons.prems(2) m by (simp add: calls_ok_frame [OF e1(3)])
  from Cons.IH [OF e1(2) this] obtain e2 where "table_run e1 cs = Some (e2, rs)" "assoc_inv e2 N'" "assoc_frame e1 e2"
    by (auto simp: map_run_frame [OF e1(3)] n)
  then show ?case using e1 m n assoc_frame_trans by (auto simp: Let_def)
qed

lemma assoc_inv_fresh:
  assumes "tables_ok (assoc e)" "hash_items (assoc e) = 0"
    and "\<And>s. slot_ok (assoc e) s \<Longrightarrow> slot_get (assoc e) s = NULL"
  shows "assoc_inv e Map.empty"
proof -
  have "bucket_rel e Map.empty s []" if "slot_ok (assoc e) s" for s
    using assms(3) [OF that] by (simp add: bucket_rel_def)
  then show ?thesis using assms(1,2) by (auto simp: assoc_inv_def keys_ok_def)
qed

lemma assoc_init_inv:
  assumes "\<not> expanding (assoc e)" "hash_items (assoc e) = 0" "calloc_q e = True # q"
  shows "\<exists>e'. assoc_init e = Some e' \<and> assoc_inv e' Map.empty \<and> store e' = store e"
proof -
  let ?e = "upd_assoc (\<lambda>a. a\<lparr>primary_hashtable := replicate (hashsize (hashpower a)) NULL\<rparr>) (e\<lparr>calloc_q := q\<rparr>)"
  have "slot_get (assoc ?e) s = NULL" if "slot_ok (assoc ?e) s" for s
    using that assms(1) by (cases s) simp_all
  then have "assoc_inv ?e Map.empty" using assms by (intro assoc_inv_fresh) (simp_all add: tables_ok_def)
  then show ?thesis using assms(3) by (simp add: assoc_init_def)
qed

section \<open>Properties\<close>

text \<open>A small engine for the examples: two items with one-byte keys and a table of one bucket.\<close>

definition sample_item :: "u8 \<Rightarrow> hash_item" where
  "sample_item b = \<lparr>it_next = NULL, it_prev = NULL, h_next = NULL, it_time = 0, exptime = 0, nbytes = 0, it_flags = 0,
     nkey = 1, iflag = 0, refcount = 1, clsid = 1, it_cas = 0, it_key = [b], it_data = []\<rparr>"

definition sample_engine :: default_engine where
  "sample_engine = \<lparr>store = (\<lambda>a. sample_item (of_nat a)),
     assoc = \<lparr>hashpower = 0, primary_hashtable = [NULL], old_hashtable = [], hash_items = 0, expanding = False, expand_bucket = 0\<rparr>,
     slabs = \<lparr>slabclass = [], mem_limit = 0, mem_malloced = 0, power_largest = 0, mem_base = NULL, mem_current = NULL,
       mem_avail = 0, malloc_q = [], realloc_q = []\<rparr>,
     items = \<lparr>heads = [], tails = [], itemstats = [], sizes = []\<rparr>,
     config = \<lparr>use_cas = True, verbose = 0, oldest_live = 0, evict_to_free = True, maxbytes = 67108864, preallocate = False,
       chunk_size = 48, item_size_max = 1048576, ignore_vbucket = False, vb0 = True\<rparr>,
     stats = \<lparr>evictions = 0, reclaimed = 0, curr_bytes = 0, curr_items = 0, total_items = 0\<rparr>,
     scrubber = \<lparr>running = False, visited = 0, cleaned = 0, started = 0, stopped = 0\<rparr>, tap_clients = replicate 10 NULL,
     vbucket_infos = replicate 65536 0,
     cas_id = 0, srv_hash = (\<lambda>k. sum_list (map ucast k)), srv_realtime = (\<lambda>t. word_of_int t), current_time = 100,
     engine_specific = (\<lambda>_. NULL), client_it = (\<lambda>_. NULL), client_q = [], calloc_q = [True], thread_q = [True]\<rparr>"

lemma sample_engine_inv: "assoc_inv sample_engine Map.empty"
proof (rule assoc_inv_fresh)
  show "slot_get (assoc sample_engine) s = NULL" if "slot_ok (assoc sample_engine) s" for s
    using that by (cases s) (simp_all add: sample_engine_def hashsize_def)
qed (simp_all add: sample_engine_def tables_ok_def hashsize_def)

lemma sample_keys: "key_of (store sample_engine x) = [of_nat x]" "item_ok (store sample_engine x)"
  by (simp_all add: sample_engine_def sample_item_def key_of_def item_ok_def)

text \<open>
  C12. The hash table refines a finite map.  For every sequence of lookups, insertions of new keys,
  deletions of present keys and maintenance turns, interleaved in any order and across any number of
  table expansions, no assertion of the code fails, every lookup returns exactly what the map holds,
  and the invariant holds at the end.
\<close>

theorem assoc_refines_map:
  assumes "assoc_inv e M" and "calls_ok (store e) M cs"
  shows "\<exists>e'. table_run e cs = Some (e', snd (map_run (\<lambda>x. key_of (store e x)) M cs)) \<and>
    assoc_inv e' (fst (map_run (\<lambda>x. key_of (store e x)) M cs))"
  using table_run_ok [OF assms] by blast

theorem assoc_refines_map_witness:
  "\<exists>e'. table_run sample_engine [TInsert 7, TInsert 8, TFind [7], TMaintain 1, TFind [8], TDelete [7], TFind [7]] =
     Some (e', [NULL, NULL, 7, NULL, 8, NULL, NULL])"
proof -
  let ?cs = "[TInsert 7, TInsert 8, TFind [7], TMaintain 1, TFind [8], TDelete [7], TFind [7]]"
  have "calls_ok (store sample_engine) Map.empty ?cs"
    by (simp add: sample_keys ran_def)
  from assoc_refines_map [OF sample_engine_inv this] show ?thesis
    by (auto simp: sample_keys Let_def)
qed

text \<open>
  C27. An expansion completes.  As long as the table is expanding, the maintenance thread is left with
  one move for each bucket of the old table it has not reached: that many moves succeed, the
  expansion is then over, and the table holds the same map.
\<close>

theorem expansion_completes:
  assumes "assoc_inv e M" and "expanding (assoc e)"
  shows "\<exists>e'. maintenance_turn (hashsize (hashpower (assoc e) - 1) - expand_bucket (assoc e)) e = Some e' \<and>
    \<not> expanding (assoc e') \<and> assoc_inv e' M"
  using maintenance_turn_ends [OF assms(1)] by blast

lemma sample_expanding:
  "assoc_inv (assoc_expand sample_engine) Map.empty" "expanding (assoc (assoc_expand sample_engine))"
  using assoc_expand_inv(1) [OF sample_engine_inv] by (simp_all add: sample_engine_def assoc_expand_def)

theorem expansion_completes_witness:
  "\<exists>e'. maintenance_turn 1 (assoc_expand sample_engine) = Some e' \<and> \<not> expanding (assoc e') \<and> assoc_inv e' Map.empty"
  using expansion_completes [OF sample_expanding] by (simp add: sample_engine_def assoc_expand_def hashsize_def)

text \<open>
  The assertions of the table: inserting an item whose key is already in the table and deleting a
  key that is not there are stopped, in every state, and these are the only ways the two fail on a
  valid item that is not linked.
\<close>

theorem assoc_assertions:
  assumes "assoc_inv e M" and "x \<noteq> NULL" and "item_ok (store e x)" and "x \<notin> ran M"
  shows "(assoc_insert e (srv_hash e (key_of (store e x))) x = None \<longleftrightarrow> M (key_of (store e x)) \<noteq> None) \<and>
    (assoc_delete e (srv_hash e k) k = None \<longleftrightarrow> M k = None)"
  using ht.insert_dup_law [OF assms(1), of x] ht.insert_law [OF assms(1), of x] assms(2-4)
    ht.delete_missing_law [OF assms(1), of k] ht.delete_law [OF assms(1), of k]
  by (metis option.distinct(1))

theorem assoc_assertions_witness:
  "assoc_insert sample_engine (srv_hash sample_engine [7]) 7 \<noteq> None \<and>
   assoc_delete sample_engine (srv_hash sample_engine [7]) [7] = None"
  using assoc_assertions [OF sample_engine_inv, of 7 "[7]"] by (simp add: sample_keys)

end
