(* ===== verification/Util.thy ===== *)
theory Util
  imports Prelude
begin

unbundle bit_operations_syntax

text \<open>
  Number parsing and byte order of \<open>memcached/utilities/util.c\<close>.  A C string is the list of its
  bytes without the terminator.  The library functions \<open>strtoull\<close> and \<open>strtoll\<close> are written out for
  base ten: leading white space, a sign, digits; the result carries the position of \<open>endptr\<close> and
  whether \<open>errno\<close> is \<open>ERANGE\<close>.
\<close>

section \<open>The C library\<close>

definition isspace :: "u8 \<Rightarrow> bool" where
  "isspace c \<longleftrightarrow> c = 32 \<or> (9 \<le> c \<and> c \<le> 13)"

definition isdigit :: "u8 \<Rightarrow> bool" where
  "isdigit c \<longleftrightarrow> 48 \<le> c \<and> c \<le> 57"

definition digits_value :: "bytes \<Rightarrow> nat" where
  "digits_value ds = foldl (\<lambda>v d. 10 * v + (unat d - 48)) 0 ds"

fun split_sign :: "bytes \<Rightarrow> bool \<times> nat \<times> bytes" where
  "split_sign (c # r) = (if c = 45 then (True, 1, r) else if c = 43 then (False, 1, r) else (False, 0, c # r))"
| "split_sign [] = (False, 0, [])"

text \<open>The number in front of a string: its sign, magnitude and the position after it.\<close>

definition scan_number :: "bytes \<Rightarrow> (bool \<times> nat \<times> nat) option" where
  "scan_number str =
     (let ws = takeWhile isspace str;
          (neg, n, r) = split_sign (dropWhile isspace str);
          ds = takeWhile isdigit r
      in if ds = [] then None else Some (neg, digits_value ds, length ws + n + length ds))"

definition strtoull :: "bytes \<Rightarrow> u64 \<times> nat \<times> bool" where
  "strtoull str =
     (case scan_number str of
        None \<Rightarrow> (0, 0, False)
      | Some (neg, v, p) \<Rightarrow>
          if v \<ge> 2 ^ 64 then (- 1, p, True)
          else (if neg then - of_nat v else of_nat v, p, False))"

definition strtoll :: "bytes \<Rightarrow> int \<times> nat \<times> bool" where
  "strtoll str =
     (case scan_number str of
        None \<Rightarrow> (0, 0, False)
      | Some (neg, v, p) \<Rightarrow>
          let i = (if neg then - int v else int v)
          in if i > 2 ^ 63 - 1 then (2 ^ 63 - 1, p, True)
             else if i < - (2 ^ 63) then (- (2 ^ 63), p, True)
             else (i, p, False))"

text \<open>The C string a buffer holds: its bytes in front of the first zero.\<close>

definition c_string :: "bytes \<Rightarrow> bytes" where
  "c_string bs = takeWhile (\<lambda>b. b \<noteq> 0) bs"

definition char_at :: "bytes \<Rightarrow> nat \<Rightarrow> u8" where
  "char_at str p = (if p < length str then str ! p else 0)"

section \<open>The code\<close>

definition end_ok :: "bytes \<Rightarrow> nat \<Rightarrow> bool" where
  "end_ok str p \<longleftrightarrow> isspace (char_at str p) \<or> (char_at str p = 0 \<and> p \<noteq> 0)"

definition safe_strtoull :: "bytes \<Rightarrow> u64 option" where
  "safe_strtoull str =
     (case strtoull str of
        (ull, p, erange) \<Rightarrow>
          if erange then None
          else if end_ok str p then
            if sint ull < 0 \<and> 45 \<in> set str then None else Some ull
          else None)"

definition safe_strtoll :: "bytes \<Rightarrow> int option" where
  "safe_strtoll str =
     (case strtoll str of
        (ll, p, erange) \<Rightarrow>
          if erange then None else if end_ok str p then Some ll else None)"

text \<open>\<open>unsigned long\<close> and \<open>long\<close> have 64 bits; the result is stored into 32.\<close>

definition safe_strtoul :: "bytes \<Rightarrow> u32 option" where
  "safe_strtoul str =
     (case strtoull str of
        (l, p, erange) \<Rightarrow>
          if erange then None
          else if end_ok str p then
            if sint l < 0 \<and> 45 \<in> set str then None else Some (ucast l)
          else None)"

definition safe_strtol :: "bytes \<Rightarrow> u32 option" where
  "safe_strtol str =
     (case strtoll str of
        (l, p, erange) \<Rightarrow>
          if erange then None else if end_ok str p then Some (word_of_int l) else None)"

fun swap_loop :: "nat \<Rightarrow> u64 \<Rightarrow> u64 \<Rightarrow> u64" where
  "swap_loop 0 rv inp = rv"
| "swap_loop (Suc n) rv inp = swap_loop n (push_bit 8 rv OR (inp AND 0xff)) (drop_bit 8 inp)"

definition mc_swap64 :: "u64 \<Rightarrow> u64" where
  "mc_swap64 inp = swap_loop 8 0 inp"

definition ntohll :: "u64 \<Rightarrow> u64" where "ntohll val = mc_swap64 val"
definition htonll :: "u64 \<Rightarrow> u64" where "htonll val = mc_swap64 val"

text \<open>\<open>sprintf\<close> of an unsigned number in decimal.\<close>

fun dec_bytes :: "nat \<Rightarrow> bytes" where
  "dec_bytes n = (if n < 10 then [of_nat (48 + n)] else dec_bytes (n div 10) @ [of_nat (48 + n mod 10)])"

declare dec_bytes.simps [simp del]

section \<open>Parsing what was printed\<close>

lemma digit_byte: "d < 10 \<Longrightarrow> isdigit (of_nat (48 + d))" "d < 10 \<Longrightarrow> unat (of_nat (48 + d) :: u8) = 48 + d"
  "d < 10 \<Longrightarrow> \<not> isspace (of_nat (48 + d))" "d < 10 \<Longrightarrow> of_nat (48 + d) \<noteq> (45 :: u8)" "d < 10 \<Longrightarrow> of_nat (48 + d) \<noteq> (43 :: u8)"
proof -
  assume d: "d < 10"
  have u: "unat (of_nat (48 + d) :: u8) = 48 + d" unfolding unat_of_nat by (rule mod_less) (use d in simp)
  then show "unat (of_nat (48 + d) :: u8) = 48 + d" .
  have ne: "of_nat (48 + d) \<noteq> c" if "unat c < 48" for c :: u8 using that u by (metis not_add_less1)
  show "isdigit (of_nat (48 + d))" unfolding isdigit_def word_le_nat_alt u using d by simp
  show "\<not> isspace (of_nat (48 + d))" unfolding isspace_def word_le_nat_alt u using ne [of 32] by simp
  show "of_nat (48 + d) \<noteq> (45 :: u8)" "of_nat (48 + d) \<noteq> (43 :: u8)" using ne [of 45] ne [of 43] by simp_all
qed

lemma dec_bytes_digits: "\<forall>c \<in> set (dec_bytes n). isdigit c \<and> \<not> isspace c \<and> c \<noteq> 45 \<and> c \<noteq> 43"
proof (induction n rule: dec_bytes.induct)
  case (1 n)
  then show ?case
    using digit_byte [of n] digit_byte [of "n mod 10"] by (auto simp: dec_bytes.simps [of n])
qed

lemma dec_bytes_neq_Nil: "dec_bytes n \<noteq> []"
  by (simp add: dec_bytes.simps [of n])

lemma digits_value_dec: "digits_value (dec_bytes n) = n"
proof (induction n rule: dec_bytes.induct)
  case (1 n)
  show ?case
  proof (cases "n < 10")
    case True
    then show ?thesis using digit_byte(2) [of n] by (simp add: dec_bytes.simps [of n] digits_value_def)
  next
    case False
    then have "digits_value (dec_bytes (n div 10)) = n div 10" using 1 by simp
    then show ?thesis
      using False digit_byte(2) [of "n mod 10"]
      by (simp add: dec_bytes.simps [of n] digits_value_def)
  qed
qed

lemma scan_dec: "scan_number (dec_bytes n) = Some (False, n, length (dec_bytes n))"
proof -
  obtain c r where c: "dec_bytes n = c # r" using dec_bytes_neq_Nil by (meson neq_Nil_conv)
  have "takeWhile isdigit (dec_bytes n) = dec_bytes n" "\<not> isspace c" "c \<noteq> 45" "c \<noteq> 43"
    using dec_bytes_digits [of n] by (auto simp: takeWhile_eq_all_conv c)
  then show ?thesis using digits_value_dec [of n] by (simp add: scan_number_def c)
qed

lemma end_ok_dec: "end_ok (dec_bytes n) (length (dec_bytes n))"
  using dec_bytes_neq_Nil by (simp add: end_ok_def char_at_def)

lemma strtoull_dec:
  "strtoull (dec_bytes n) = (if n < 2 ^ 64 then (of_nat n, length (dec_bytes n), False) else (- 1, length (dec_bytes n), True))"
  by (simp add: strtoull_def scan_dec)

lemma no_minus_dec: "45 \<notin> set (dec_bytes n)"
  using dec_bytes_digits by blast

section \<open>Properties\<close>

text \<open>
  Printing and parsing of counters: for every 64-bit number, the decimal text \<open>snprintf\<close>
  produces is accepted by \<open>safe_strtoull\<close> and gives the number back, and larger numbers are refused.
\<close>

theorem safe_strtoull_dec: "safe_strtoull (dec_bytes n) = (if n < 2 ^ 64 then Some (of_nat n) else None)"
  by (simp add: safe_strtoull_def strtoull_dec end_ok_dec no_minus_dec)

text \<open>
  What \<open>safe_strtoull\<close> accepts besides numbers.  A string that begins with white space and has no
  number after it is accepted as 0, and a negative number whose 64-bit image is below \<open>2 ^ 63\<close> is
  accepted as that image: \<open>-18446744073709551615\<close> is read as 1.
\<close>

theorem safe_strtoull_accepts:
  "(isspace c \<and> scan_number (c # str) = None \<longrightarrow> safe_strtoull (c # str) = Some 0) \<and>
   safe_strtoull (45 # dec_bytes 18446744073709551615) = Some 1"
proof
  show "isspace c \<and> scan_number (c # str) = None \<longrightarrow> safe_strtoull (c # str) = Some 0"
    by (simp add: safe_strtoull_def strtoull_def end_ok_def char_at_def)
  let ?ds = "dec_bytes 18446744073709551615"
  have tw: "takeWhile isdigit ?ds = ?ds" unfolding takeWhile_eq_all_conv using dec_bytes_digits by blast
  have "\<not> isspace 45" by (simp add: isspace_def)
  then have "scan_number (45 # ?ds) = Some (True, 18446744073709551615, Suc (length ?ds))"
    by (simp add: scan_number_def Let_def tw dec_bytes_neq_Nil digits_value_dec del: takeWhile_eq_all_conv)
  moreover have "end_ok (45 # ?ds) (Suc (length ?ds))" by (simp add: end_ok_def char_at_def)
  ultimately show "safe_strtoull (45 # ?ds) = Some 1"
    by (simp add: safe_strtoull_def strtoull_def)
qed

theorem safe_strtoull_accepts_witness: "safe_strtoull [32, 120] = Some 0"
  using safe_strtoull_accepts [of 32 "[120]"] by (simp add: isspace_def scan_number_def isdigit_def)

lemma bit_swap_loop:
  "8 * k \<le> 64 \<Longrightarrow> n < 64 \<Longrightarrow> bit (swap_loop k rv inp) n \<longleftrightarrow>
     (if n < 8 * k then bit inp (8 * (k - 1 - n div 8) + n mod 8) else bit rv (n - 8 * k))"
proof (induction k arbitrary: rv inp)
  case (Suc k)
  let ?rv = "push_bit 8 rv OR (inp AND 0xff)"
  have ih: "bit (swap_loop k ?rv (drop_bit 8 inp)) n \<longleftrightarrow>
      (if n < 8 * k then bit (drop_bit 8 inp) (8 * (k - 1 - n div 8) + n mod 8) else bit ?rv (n - 8 * k))"
    using Suc.prems by (intro Suc.IH) simp_all
  have ff: "(0xff :: u64) = mask 8" by (simp add: mask_eq_exp_minus_1)
  consider "n < 8 * k" | "8 * k \<le> n" "n < 8 * k + 8" | "8 * k + 8 \<le> n" by linarith
  then show ?case
  proof cases
    case 1
    then have "n div 8 < k" by (simp add: less_mult_imp_div_less mult.commute)
    then have i: "8 + (8 * (k - 1 - n div 8) + n mod 8) = 8 * (Suc k - 1 - n div 8) + n mod 8" by simp
    have "bit (swap_loop (Suc k) rv inp) n = bit inp (8 + (8 * (k - 1 - n div 8) + n mod 8))"
      using ih 1 unfolding swap_loop.simps bit_drop_bit_eq comp_apply by (simp del: One_nat_def)
    then show ?thesis using 1 unfolding i by simp
  next
    case 2
    then have n: "n div 8 = k" "n mod 8 = n - 8 * k" "n - 8 * k < 8" by presburger+
    then show ?thesis using ih 2 unfolding swap_loop.simps ff by (simp add: bit_simps)
  next
    case 3
    then have "8 \<le> n - 8 * k" "n - 8 * k < 64" "n - 8 * k - 8 = n - 8 * Suc k" using Suc.prems by simp_all
    then show ?thesis using ih 3 unfolding swap_loop.simps ff by (simp add: bit_simps)
  qed
qed simp

lemma bit_mc_swap64: "n < 64 \<Longrightarrow> bit (mc_swap64 x) n \<longleftrightarrow> bit x (8 * (7 - n div 8) + n mod 8)"
  unfolding mc_swap64_def by (subst bit_swap_loop) simp_all

text \<open>
  Byte order: \<open>htonll\<close> puts byte \<open>i\<close> of its argument at byte \<open>7 - i\<close>, so that \<open>ntohll\<close> undoes it.
\<close>

theorem htonll_reverses_bytes:
  "ntohll (htonll x) = x \<and>
   (\<forall>i j. i < 8 \<longrightarrow> j < 8 \<longrightarrow> bit (htonll x) (8 * i + j) = bit x (8 * (7 - i) + j))"
proof
  show "ntohll (htonll x) = x"
  proof (rule bit_word_eqI)
    fix n assume "n < LENGTH(64)"
    then have n: "n < 64" by simp
    let ?m = "8 * (7 - n div 8) + n mod 8"
    have d: "n div 8 \<le> 7" using n by (simp add: div_le_mono [of n 63 8, simplified])
    have m: "?m < 64" using d by presburger
    have "?m div 8 = 7 - n div 8" "?m mod 8 = n mod 8" by simp_all
    then have "8 * (7 - ?m div 8) + ?m mod 8 = n" using d by simp
    then show "bit (ntohll (htonll x)) n = bit x n"
      using bit_mc_swap64 [OF n] bit_mc_swap64 [OF m] by (simp add: ntohll_def htonll_def)
  qed
  show "\<forall>i j. i < 8 \<longrightarrow> j < 8 \<longrightarrow> bit (htonll x) (8 * i + j) = bit x (8 * (7 - i) + j)"
    by (simp add: htonll_def bit_mc_swap64)
qed

theorem htonll_reverses_bytes_witness:
  "ntohll (htonll 1) = 1 \<and> bit (htonll 1) 56 = bit (1 :: u64) 0"
proof -
  have "7 < (8::nat) \<longrightarrow> 0 < (8::nat) \<longrightarrow> bit (htonll 1) (8 * 7 + 0) = bit (1 :: u64) (8 * (7 - 7) + 0)"
    using htonll_reverses_bytes [of 1] by blast
  then show ?thesis using htonll_reverses_bytes [of 1] by simp
qed

end
