(* ===== verification/Lru.thy ===== *)
theory Lru
  imports Assoc Util
begin

unbundle bit_operations_syntax

text \<open>
  The queues of the default engine (first part of \<open>default_engine/items.c\<close>): one doubly linked
  list per slab class, newest item first, with head, tail and length in \<open>engine->items\<close>; and the
  cursors of the scrubber and of the tap streams, which are queue elements themselves.

  \<open>queue e c xs\<close> says that class \<open>c\<close> holds the items \<open>xs\<close>: the \<open>next\<close> pointers lead from the head
  through \<open>xs\<close>, the \<open>prev\<close> pointers from the tail through its reverse.
\<close>

section \<open>The code\<close>

definition item_link_q :: "default_engine \<Rightarrow> addr \<Rightarrow> default_engine option" where
  "item_link_q e it = do {
     let c = unat (clsid (store e it));
     c_assert (c < POWER_LARGEST);
     c_assert (iflag (store e it) AND ITEM_SLABBED = 0);
     let head = heads (items e) ! c;
     let tail = tails (items e) ! c;
     c_assert (it \<noteq> head);
     c_assert ((head \<noteq> NULL \<and> tail \<noteq> NULL) \<or> (head = NULL \<and> tail = NULL));
     let e = upd_item it (it_prev_update (\<lambda>_. NULL)) e;
         e = upd_item it (it_next_update (\<lambda>_. head)) e;
         e = (if head \<noteq> NULL then upd_item head (it_prev_update (\<lambda>_. it)) e else e);
         e = upd_items (\<lambda>q. q\<lparr>heads := (heads q)[c := it]\<rparr>) e;
         e = (if tail = NULL then upd_items (\<lambda>q. q\<lparr>tails := (tails q)[c := it]\<rparr>) e else e)
     in Some (upd_items (\<lambda>q. q\<lparr>sizes := (sizes q)[c := sizes q ! c + 1]\<rparr>) e)
   }"

definition item_unlink_q :: "default_engine \<Rightarrow> addr \<Rightarrow> default_engine option" where
  "item_unlink_q e it = do {
     let c = unat (clsid (store e it));
     c_assert (c < POWER_LARGEST);
     let nxt = it_next (store e it);
     let prv = it_prev (store e it);
     c_assert (heads (items e) ! c = it \<longrightarrow> prv = NULL);
     let e = (if heads (items e) ! c = it then upd_items (\<lambda>q. q\<lparr>heads := (heads q)[c := nxt]\<rparr>) e else e);
     c_assert (tails (items e) ! c = it \<longrightarrow> nxt = NULL);
     let e = (if tails (items e) ! c = it then upd_items (\<lambda>q. q\<lparr>tails := (tails q)[c := prv]\<rparr>) e else e);
     c_assert (nxt \<noteq> it);
     c_assert (prv \<noteq> it);
     let e = (if nxt \<noteq> NULL then upd_item nxt (it_prev_update (\<lambda>_. prv)) e else e);
         e = (if prv \<noteq> NULL then upd_item prv (it_next_update (\<lambda>_. nxt)) e else e)
     in Some (upd_items (\<lambda>q. q\<lparr>sizes := (sizes q)[c := sizes q ! c - 1]\<rparr>) e)
   }"

text \<open>
  A cursor goes to the tail of a queue that is not empty; the code dereferences the tail, so an
  empty queue is \<open>None\<close>.
\<close>

definition do_item_link_cursor :: "default_engine \<Rightarrow> addr \<Rightarrow> nat \<Rightarrow> default_engine option" where
  "do_item_link_cursor e cursor ii = do {
     let e = upd_item cursor (clsid_update (\<lambda>_. of_nat ii)) e;
     let e = upd_item cursor (it_next_update (\<lambda>_. NULL)) e;
     let tail = tails (items e) ! ii;
     let e = upd_item cursor (it_prev_update (\<lambda>_. tail)) e;
     c_assert (tail \<noteq> NULL);
     let e = upd_item tail (it_next_update (\<lambda>_. cursor)) e;
         e = upd_items (\<lambda>q. q\<lparr>tails := (tails q)[ii := cursor]\<rparr>) e
     in Some (upd_items (\<lambda>q. q\<lparr>sizes := (sizes q)[ii := sizes q ! ii + 1]\<rparr>) e)
   }"

section \<open>Queues\<close>

definition queue :: "default_engine \<Rightarrow> nat \<Rightarrow> addr list \<Rightarrow> bool" where
  "queue e c xs \<longleftrightarrow>
     chain (it_next \<circ> store e) (heads (items e) ! c) xs \<and>
     chain (it_prev \<circ> store e) (tails (items e) ! c) (rev xs) \<and>
     sizes (items e) ! c = of_nat (length xs) \<and>
     (\<forall>x \<in> set xs. unat (clsid (store e x)) = c)"

text \<open>All queues: \<open>Q c\<close> are the items of class \<open>c\<close>.\<close>

definition lru_inv :: "default_engine \<Rightarrow> (nat \<Rightarrow> addr list) \<Rightarrow> bool" where
  "lru_inv e Q \<longleftrightarrow>
     length (heads (items e)) = POWER_LARGEST \<and> length (tails (items e)) = POWER_LARGEST \<and>
     length (sizes (items e)) = POWER_LARGEST \<and> length (itemstats (items e)) = POWER_LARGEST \<and>
     (\<forall>c < POWER_LARGEST. queue e c (Q c))"

text \<open>What the queue operations may change: queue pointers and the heads, tails and sizes.\<close>

definition lru_frame :: "default_engine \<Rightarrow> default_engine \<Rightarrow> bool" where
  "lru_frame e e' \<longleftrightarrow>
     (\<forall>x. (store e' x)\<lparr>it_next := NULL, it_prev := NULL\<rparr> = (store e x)\<lparr>it_next := NULL, it_prev := NULL\<rparr>) \<and>
     itemstats (items e') = itemstats (items e) \<and> e' = e\<lparr>store := store e', items := items e'\<rparr>"

lemma chain_snoc:
  "chain nx p xs \<Longrightarrow> xs \<noteq> [] \<Longrightarrow> y \<notin> set xs \<Longrightarrow> y \<noteq> NULL \<Longrightarrow> nx y = NULL \<Longrightarrow>
   chain (nx(last xs := y)) p (xs @ [y])"
proof (induction xs arbitrary: p)
  case (Cons x xs)
  have d: "x \<notin> set xs" using chain_distinct [OF Cons.prems(1)] by simp
  show ?case
  proof (cases "xs = []")
    case True
    then show ?thesis using Cons.prems by auto
  next
    case False
    then have "last xs \<noteq> x" using d by auto
    then show ?thesis using False Cons by auto
  qed
qed simp

lemma queue_distinct: "queue e c xs \<Longrightarrow> distinct xs"
  using chain_distinct unfolding queue_def by blast

lemma queue_neq_NULL: "queue e c xs \<Longrightarrow> x \<in> set xs \<Longrightarrow> x \<noteq> NULL"
  using chain_neq_NULL unfolding queue_def by blast

lemma queue_disjoint: "queue e c xs \<Longrightarrow> queue e d ys \<Longrightarrow> c \<noteq> d \<Longrightarrow> set xs \<inter> set ys = {}"
  unfolding queue_def by auto

lemma queue_head: "queue e c xs \<Longrightarrow> heads (items e) ! c = (if xs = [] then NULL else hd xs)"
  unfolding queue_def by (cases xs) auto

lemma queue_tail: "queue e c xs \<Longrightarrow> tails (items e) ! c = (if xs = [] then NULL else last xs)"
  unfolding queue_def by (cases xs rule: rev_cases) auto

text \<open>A queue is unaffected by changes to items that are not in it and to other classes.\<close>

lemma queue_cong:
  assumes "queue e c xs"
    and "\<And>x. x \<in> set xs \<Longrightarrow> it_next (store e' x) = it_next (store e x) \<and> it_prev (store e' x) = it_prev (store e x) \<and>
      clsid (store e' x) = clsid (store e x)"
    and "heads (items e') ! c = heads (items e) ! c" "tails (items e') ! c = tails (items e) ! c"
    and "sizes (items e') ! c = sizes (items e) ! c"
  shows "queue e' c xs"
proof -
  have "chain (it_next \<circ> store e') p xs = chain (it_next \<circ> store e) p xs" for p
    by (rule chain_cong) (simp add: assms(2))
  moreover have "chain (it_prev \<circ> store e') p (rev xs) = chain (it_prev \<circ> store e) p (rev xs)" for p
    by (rule chain_cong) (simp add: assms(2))
  ultimately show ?thesis using assms by (simp add: queue_def)
qed

section \<open>Linking\<close>

text \<open>The state \<open>item_link_q\<close> computes once its assertions have passed.\<close>

definition push_front :: "default_engine \<Rightarrow> addr \<Rightarrow> nat \<Rightarrow> default_engine" where
  "push_front e it c =
     (let head = heads (items e) ! c; tail = tails (items e) ! c;
          st = (store e)(it := (store e it)\<lparr>it_prev := NULL, it_next := head\<rparr>);
          st = (if head \<noteq> NULL then st(head := (st head)\<lparr>it_prev := it\<rparr>) else st)
      in e\<lparr>store := st,
           items := (items e)\<lparr>heads := (heads (items e))[c := it],
             tails := (if tail = NULL then (tails (items e))[c := it] else tails (items e)),
             sizes := (sizes (items e))[c := sizes (items e) ! c + 1]\<rparr>\<rparr>)"

lemma item_link_q_push:
  "c = unat (clsid (store e it)) \<Longrightarrow> c < POWER_LARGEST \<Longrightarrow> iflag (store e it) AND ITEM_SLABBED = 0 \<Longrightarrow>
   it \<noteq> heads (items e) ! c \<Longrightarrow> (heads (items e) ! c = NULL) = (tails (items e) ! c = NULL) \<Longrightarrow>
   item_link_q e it = Some (push_front e it c)"
  by (auto simp: item_link_q_def push_front_def Let_def)

lemma push_front_queue:
  assumes q: "queue e c xs" and it: "it \<noteq> NULL" "it \<notin> set xs" "unat (clsid (store e it)) = c"
    and len: "c < length (heads (items e))" "c < length (tails (items e))" "c < length (sizes (items e))"
  shows "queue (push_front e it c) c (it # xs)"
proof -
  let ?e = "push_front e it c"
  note hd = queue_head [OF q] and tl = queue_tail [OF q]
  have nx: "it_next \<circ> store ?e = (it_next \<circ> store e)(it := heads (items e) ! c)"
    using it hd by (auto simp: push_front_def Let_def fun_eq_iff)
  have nf: "chain (it_next \<circ> store ?e) (heads (items ?e) ! c) (it # xs)"
    using q it len unfolding nx queue_def by (simp add: push_front_def Let_def)
  have pv: "chain (it_prev \<circ> store ?e) (tails (items ?e) ! c) (rev (it # xs))"
  proof (cases "xs = []")
    case True
    then show ?thesis using it len hd tl by (simp add: push_front_def Let_def)
  next
    case False
    then have h: "heads (items e) ! c = hd xs" "hd xs \<noteq> NULL" "tails (items e) ! c = last xs" "last xs \<noteq> NULL" "last (rev xs) = hd xs"
      using hd tl queue_neq_NULL [OF q] by (simp_all add: last_rev)
    have ne: "hd xs \<noteq> it" using it(2) False by auto
    have "chain ((it_prev \<circ> store e)(it := NULL)) (last xs) (rev xs)"
      using q h it(2) by (simp add: queue_def)
    then have "chain (((it_prev \<circ> store e)(it := NULL))(last (rev xs) := it)) (last xs) (rev xs @ [it])"
      using False it by (intro chain_snoc) simp_all
    moreover have "it_prev \<circ> store ?e = ((it_prev \<circ> store e)(it := NULL))(last (rev xs) := it)"
      using h ne by (auto simp: push_front_def Let_def fun_eq_iff)
    moreover have "tails (items ?e) ! c = last xs" using h by (simp add: push_front_def Let_def)
    ultimately show ?thesis by simp
  qed
  have "sizes (items ?e) ! c = of_nat (length (it # xs))"
    using q len by (simp add: queue_def push_front_def Let_def)
  moreover have "\<forall>x \<in> set (it # xs). unat (clsid (store ?e x)) = c"
    using q it by (auto simp: queue_def push_front_def Let_def)
  ultimately show ?thesis using nf pv by (simp add: queue_def)
qed

lemma push_front_other:
  assumes q: "queue e d ys" and c: "queue e c xs" "c \<noteq> d" and it: "it \<notin> set ys"
  shows "queue (push_front e it c) d ys"
proof (rule queue_cong [OF q])
  have "heads (items e) ! c = NULL \<or> heads (items e) ! c \<notin> set ys"
    using queue_head [OF c(1)] queue_disjoint [OF c(1) q c(2)] by (cases xs) auto
  then show "it_next (store (push_front e it c) x) = it_next (store e x) \<and> it_prev (store (push_front e it c) x) = it_prev (store e x) \<and>
      clsid (store (push_front e it c) x) = clsid (store e x)" if "x \<in> set ys" for x
    using that it by (auto simp: push_front_def Let_def)
qed (use c(2) in \<open>simp_all add: push_front_def Let_def\<close>)

section \<open>Unlinking\<close>

definition take_out :: "default_engine \<Rightarrow> addr \<Rightarrow> nat \<Rightarrow> default_engine" where
  "take_out e it c =
     (let nxt = it_next (store e it); prv = it_prev (store e it);
          st = (if nxt \<noteq> NULL then (store e)(nxt := (store e nxt)\<lparr>it_prev := prv\<rparr>) else store e);
          st = (if prv \<noteq> NULL then st(prv := (st prv)\<lparr>it_next := nxt\<rparr>) else st)
      in e\<lparr>store := st,
           items := (items e)\<lparr>heads := (if heads (items e) ! c = it then (heads (items e))[c := nxt] else heads (items e)),
             tails := (if tails (items e) ! c = it then (tails (items e))[c := prv] else tails (items e)),
             sizes := (sizes (items e))[c := sizes (items e) ! c - 1]\<rparr>\<rparr>)"

lemma chain_start: "chain nx p xs \<Longrightarrow> p = (if xs = [] then NULL else hd xs)"
  by (cases xs) auto

lemma queue_neighbours:
  assumes q: "queue e c (as @ it # bs)"
  shows "it_next (store e it) = (if bs = [] then NULL else hd bs)"
    and "it_prev (store e it) = (if as = [] then NULL else last as)"
proof -
  have "chain (it_next \<circ> store e) it (it # bs)" using q chain_app unfolding queue_def by blast
  then show "it_next (store e it) = (if bs = [] then NULL else hd bs)"
    using chain_start [of "it_next \<circ> store e" "it_next (store e it)" bs] by simp
  have "chain (it_prev \<circ> store e) it (it # rev as)"
    using q chain_app [of "it_prev \<circ> store e" "tails (items e) ! c" "rev bs" it "rev as"] unfolding queue_def by simp
  then show "it_prev (store e it) = (if as = [] then NULL else last as)"
    using chain_start [of "it_prev \<circ> store e" "it_prev (store e it)" "rev as"] by (simp add: hd_rev)
qed

lemma item_unlink_q_take:
  assumes q: "queue e c (as @ it # bs)" and c: "c < POWER_LARGEST"
  shows "item_unlink_q e it = Some (take_out e it c)"
proof -
  have d: "distinct (as @ it # bs)" by (rule queue_distinct [OF q])
  have cls: "unat (clsid (store e it)) = c" using q by (simp add: queue_def)
  note n = queue_neighbours [OF q]
  have hd: "heads (items e) ! c = it \<Longrightarrow> it_prev (store e it) = NULL"
    using queue_head [OF q] n(2) d by (cases as) auto
  have tl: "tails (items e) ! c = it \<Longrightarrow> it_next (store e it) = NULL"
    using queue_tail [OF q] n(1) d by (cases bs rule: rev_cases) auto
  have ne: "it_next (store e it) \<noteq> it" "it_prev (store e it) \<noteq> it"
    using n d queue_neq_NULL [OF q, of it] by auto
  show ?thesis
    using hd tl ne c unfolding item_unlink_q_def cls by (auto simp: take_out_def Let_def)
qed

lemma take_out_queue:
  assumes q: "queue e c (as @ it # bs)"
    and len: "c < length (heads (items e))" "c < length (tails (items e))" "c < length (sizes (items e))"
  shows "queue (take_out e it c) c (as @ bs)"
proof -
  let ?e = "take_out e it c"
  have d: "distinct (as @ it # bs)" by (rule queue_distinct [OF q])
  have nn: "x \<noteq> NULL" if "x \<in> set (as @ it # bs)" for x using queue_neq_NULL [OF q that] .
  note n = queue_neighbours [OF q]
  have hit: "heads (items e) ! c = it \<longleftrightarrow> as = []" using queue_head [OF q] d by (cases as) auto
  have tit: "tails (items e) ! c = it \<longleftrightarrow> bs = []" using queue_tail [OF q] d by (cases bs rule: rev_cases) auto
  have pn: "it_prev (store e it) \<noteq> NULL \<longleftrightarrow> as \<noteq> []" "it_next (store e it) \<noteq> NULL \<longleftrightarrow> bs \<noteq> []"
    using n nn by auto
  have nx: "it_next \<circ> store ?e = (if as = [] then it_next \<circ> store e else (it_next \<circ> store e)(last as := it_next (store e it)))"
    using n pn by (auto simp: take_out_def Let_def fun_eq_iff)
  have hl: "last (rev bs) = hd bs" if "bs \<noteq> []" using that by (simp add: last_rev)
  have ne: "last as \<noteq> hd bs" if "as \<noteq> []" "bs \<noteq> []" using d that by (metis IntI distinct_append empty_iff last_in_set list.set_intros(2) list.set_sel(1))
  have pv: "it_prev \<circ> store ?e = (if bs = [] then it_prev \<circ> store e else (it_prev \<circ> store e)(last (rev bs) := it_prev (store e it)))"
    using n pn hl ne by (auto simp: take_out_def Let_def fun_eq_iff)
  have f: "chain (it_next \<circ> store e) (heads (items e) ! c) (as @ it # bs)"
    and b: "chain (it_prev \<circ> store e) (tails (items e) ! c) (rev bs @ it # rev as)"
    using q by (simp_all add: queue_def)
  have "chain (it_next \<circ> store ?e) (heads (items ?e) ! c) (as @ bs)"
    using chain_remove [OF f] hit len unfolding nx by (cases "as = []") (simp_all add: take_out_def Let_def)
  moreover have "chain (it_prev \<circ> store ?e) (tails (items ?e) ! c) (rev bs @ rev as)"
    using chain_remove [OF b] tit len unfolding pv by (cases "bs = []") (simp_all add: take_out_def Let_def)
  moreover have "sizes (items ?e) ! c = of_nat (length (as @ bs))"
    using q len by (simp add: queue_def take_out_def Let_def)
  moreover have "\<forall>x \<in> set (as @ bs). unat (clsid (store ?e x)) = c"
    using q by (auto simp: queue_def take_out_def Let_def)
  ultimately show ?thesis by (simp add: queue_def)
qed

lemma take_out_other:
  assumes q: "queue e d ys" and c: "queue e c (as @ it # bs)" "c \<noteq> d"
  shows "queue (take_out e it c) d ys"
proof (rule queue_cong [OF q])
  have "bs \<noteq> [] \<Longrightarrow> hd bs \<notin> set ys" "as \<noteq> [] \<Longrightarrow> last as \<notin> set ys"
    using queue_disjoint [OF c(1) q c(2)] hd_in_set [of bs] last_in_set [of as] by (auto simp: disjoint_iff)
  then have "it_next (store e it) = NULL \<or> it_next (store e it) \<notin> set ys" "it_prev (store e it) = NULL \<or> it_prev (store e it) \<notin> set ys"
    using queue_neighbours [OF c(1)] by presburger+
  then show "it_next (store (take_out e it c) x) = it_next (store e x) \<and> it_prev (store (take_out e it c) x) = it_prev (store e x) \<and>
      clsid (store (take_out e it c) x) = clsid (store e x)" if "x \<in> set ys" for x
    using that by (auto simp: take_out_def Let_def)
qed (use c(2) in \<open>simp_all add: take_out_def Let_def\<close>)

section \<open>All queues\<close>

lemma push_front_frame: "lru_frame e (push_front e it c)"
  by (simp add: lru_frame_def push_front_def Let_def)

lemma take_out_frame: "lru_frame e (take_out e it c)"
  by (simp add: lru_frame_def take_out_def Let_def)

lemma item_link_q_ok:
  assumes inv: "lru_inv e Q" and it: "it \<noteq> NULL" "\<forall>d < POWER_LARGEST. it \<notin> set (Q d)"
    and c: "c = unat (clsid (store e it))" "c < POWER_LARGEST" and sl: "iflag (store e it) AND ITEM_SLABBED = 0"
  shows "\<exists>e'. item_link_q e it = Some e' \<and> lru_inv e' (Q(c := it # Q c)) \<and> lru_frame e e'"
proof -
  let ?e = "push_front e it c"
  have q: "queue e d (Q d)" if "d < POWER_LARGEST" for d using inv that by (simp add: lru_inv_def)
  have nh: "it \<noteq> heads (items e) ! c" using queue_head [OF q [OF c(2)]] it c(2) by (cases "Q c") auto
  have ht: "(heads (items e) ! c = NULL) = (tails (items e) ! c = NULL)"
    using queue_head [OF q [OF c(2)]] queue_tail [OF q [OF c(2)]] queue_neq_NULL [OF q [OF c(2)]]
    by (cases "Q c = []") (simp_all, metis gr_implies_not_zero hd_in_set last_in_set)
  have "item_link_q e it = Some ?e" using item_link_q_push [OF c sl nh ht] .
  moreover have "queue ?e d ((Q(c := it # Q c)) d)" if d: "d < POWER_LARGEST" for d
  proof (cases "d = c")
    case True
    then show ?thesis using push_front_queue [OF q [OF c(2)]] it c inv by (simp add: lru_inv_def)
  next
    case False
    then show ?thesis using push_front_other [OF q [OF d] q [OF c(2)]] it(2) d by simp
  qed
  moreover have "length (heads (items ?e)) = POWER_LARGEST \<and> length (tails (items ?e)) = POWER_LARGEST \<and>
     length (sizes (items ?e)) = POWER_LARGEST \<and> length (itemstats (items ?e)) = POWER_LARGEST"
    using inv by (simp add: lru_inv_def push_front_def Let_def)
  ultimately show ?thesis using push_front_frame unfolding lru_inv_def by blast
qed

lemma item_unlink_q_ok:
  assumes inv: "lru_inv e Q" and c: "c < POWER_LARGEST" and q': "Q c = as @ it # bs"
  shows "\<exists>e'. item_unlink_q e it = Some e' \<and> lru_inv e' (Q(c := as @ bs)) \<and> lru_frame e e'"
proof -
  let ?e = "take_out e it c"
  have q: "queue e d (Q d)" if "d < POWER_LARGEST" for d using inv that by (simp add: lru_inv_def)
  have qc: "queue e c (as @ it # bs)" using q [OF c] by (simp add: q')
  have "item_unlink_q e it = Some ?e" by (rule item_unlink_q_take [OF qc c])
  moreover have "queue ?e d ((Q(c := as @ bs)) d)" if d: "d < POWER_LARGEST" for d
  proof (cases "d = c")
    case True
    then show ?thesis using take_out_queue [OF qc] c inv by (simp add: lru_inv_def)
  next
    case False
    then show ?thesis using take_out_other [OF q [OF d] qc] by simp
  qed
  moreover have "length (heads (items ?e)) = POWER_LARGEST \<and> length (tails (items ?e)) = POWER_LARGEST \<and>
     length (sizes (items ?e)) = POWER_LARGEST \<and> length (itemstats (items ?e)) = POWER_LARGEST"
    using inv by (simp add: lru_inv_def take_out_def Let_def)
  ultimately show ?thesis using take_out_frame unfolding lru_inv_def by blast
qed

end
