(* ===== verification/Items.thy ===== *)
theory Items
  imports Lru
begin

unbundle bit_operations_syntax

text \<open>
  The item layer of the default engine (\<open>default_engine/items.c\<close>, and the item accessors of
  \<open>default_engine.c\<close>): allocation with reclaiming and eviction, linking and unlinking, reference
  counts, lookup with lazy expiry, the storage commands, arithmetic, flush, the scrubber and the tap
  walker.

  Every operation runs under the cache lock; log messages, trace probes and the eviction callback
  of the server have no effect on the engine and are left out.  The bytes of an item's value are
  \<open>it_data\<close>; after an allocation they are whatever the memory held before.
\<close>

section \<open>Items\<close>

definition ITEM_UPDATE_INTERVAL :: u32 where "ITEM_UPDATE_INTERVAL = 60"
definition TAIL_REPAIR_TIME :: u32 where "TAIL_REPAIR_TIME = 3 * 3600"
definition search_items :: nat where "search_items = 50"

text \<open>\<open>sizeof (hash_item)\<close> on a platform with 64-bit pointers.\<close>

definition sizeof_hash_item :: nat where "sizeof_hash_item = 48"

definition item_stats_reset :: "default_engine \<Rightarrow> default_engine" where
  "item_stats_reset e =
     upd_items (\<lambda>q. q\<lparr>itemstats := replicate (length (itemstats q))
       \<lparr>evicted = 0, evicted_nonzero = 0, evicted_time = 0, outofmemory = 0, tailrepairs = 0, st_reclaimed = 0\<rparr>\<rparr>) e"

definition ITEM_ntotal :: "default_engine \<Rightarrow> hash_item \<Rightarrow> nat" where
  "ITEM_ntotal e it =
     sizeof_hash_item + unat (nkey it) + unat (nbytes it) + (if use_cas (config e) then 8 else 0)"

definition get_cas_id :: "default_engine \<Rightarrow> default_engine \<times> u64" where
  "get_cas_id e = (e\<lparr>cas_id := cas_id e + 1\<rparr>, cas_id e + 1)"

definition item_get_cas :: "hash_item \<Rightarrow> u64" where
  "item_get_cas it = (if iflag it AND ITEM_WITH_CAS \<noteq> 0 then it_cas it else 0)"

definition item_set_cas :: "default_engine \<Rightarrow> addr \<Rightarrow> u64 \<Rightarrow> default_engine" where
  "item_set_cas e it val =
     (if iflag (store e it) AND ITEM_WITH_CAS \<noteq> 0 then upd_item it (it_cas_update (\<lambda>_. val)) e else e)"

text \<open>\<open>memcpy (item_get_data (it) + off, bs, length bs)\<close>, and the value of an item.\<close>

definition write_data :: "default_engine \<Rightarrow> addr \<Rightarrow> nat \<Rightarrow> bytes \<Rightarrow> default_engine" where
  "write_data e it off bs =
     upd_item it (it_data_update (\<lambda>d. take off d @ bs @ drop (off + length bs) d)) e"

definition item_data :: "hash_item \<Rightarrow> bytes" where
  "item_data it = take (unat (nbytes it)) (it_data it)"

definition upd_stats :: "(engine_stats \<Rightarrow> engine_stats) \<Rightarrow> default_engine \<Rightarrow> default_engine" where
  "upd_stats f e = e\<lparr>stats := f (stats e)\<rparr>"

definition upd_itemstats :: "nat \<Rightarrow> (itemstats_t \<Rightarrow> itemstats_t) \<Rightarrow> default_engine \<Rightarrow> default_engine" where
  "upd_itemstats c f e = upd_items (\<lambda>q. q\<lparr>itemstats := (itemstats q)[c := f (itemstats q ! c)]\<rparr>) e"

section \<open>Linking and reference counts\<close>

definition item_free :: "default_engine \<Rightarrow> addr \<Rightarrow> default_engine option" where
  "item_free e it = do {
     let ntotal = ITEM_ntotal e (store e it);
     let c = unat (clsid (store e it));
     c_assert (iflag (store e it) AND ITEM_LINKED = 0);
     c_assert (c < POWER_LARGEST);
     c_assert (it \<noteq> heads (items e) ! c);
     c_assert (it \<noteq> tails (items e) ! c);
     c_assert (refcount (store e it) = 0);
     let e = upd_item it (clsid_update (\<lambda>_. 0)) e;
     let e = upd_item it (iflag_update (\<lambda>f. f OR ITEM_SLABBED)) e;
     Some (e\<lparr>slabs := slabs_free (slabs e) it ntotal c\<rparr>)
   }"

definition do_item_link :: "default_engine \<Rightarrow> addr \<Rightarrow> default_engine option" where
  "do_item_link e it = do {
     c_assert (iflag (store e it) AND (ITEM_LINKED OR ITEM_SLABBED) = 0);
     c_assert (nbytes (store e it) < 1024 * 1024);
     let e = upd_item it (iflag_update (\<lambda>f. f OR ITEM_LINKED)) e;
     let e = upd_item it (it_time_update (\<lambda>_. current_time e)) e;
     e \<leftarrow> assoc_insert e (srv_hash e (key_of (store e it))) it;
     let e = upd_stats (\<lambda>s. s\<lparr>curr_bytes := curr_bytes s + of_nat (ITEM_ntotal e (store e it)),
                              curr_items := curr_items s + 1, total_items := total_items s + 1\<rparr>) e;
     let (e, cas) = get_cas_id e;
     let e = item_set_cas e it cas;
     item_link_q e it
   }"

definition do_item_unlink :: "default_engine \<Rightarrow> addr \<Rightarrow> default_engine option" where
  "do_item_unlink e it =
     (if iflag (store e it) AND ITEM_LINKED \<noteq> 0 then do {
        let e = upd_item it (iflag_update (\<lambda>f. f AND NOT ITEM_LINKED)) e;
        let e = upd_stats (\<lambda>s. s\<lparr>curr_bytes := curr_bytes s - of_nat (ITEM_ntotal e (store e it)),
                                 curr_items := curr_items s - 1\<rparr>) e;
        e \<leftarrow> assoc_delete e (srv_hash e (key_of (store e it))) (key_of (store e it));
        e \<leftarrow> item_unlink_q e it;
        if refcount (store e it) = 0 then item_free e it else Some e
      } else Some e)"

definition do_item_release :: "default_engine \<Rightarrow> addr \<Rightarrow> default_engine option" where
  "do_item_release e it =
     (let e = (if refcount (store e it) \<noteq> 0 then upd_item it (refcount_update (\<lambda>r. r - 1)) e else e)
      in if refcount (store e it) = 0 \<and> iflag (store e it) AND ITEM_LINKED = 0 then item_free e it else Some e)"

definition do_item_update :: "default_engine \<Rightarrow> addr \<Rightarrow> default_engine option" where
  "do_item_update e it =
     (if it_time (store e it) < current_time e - ITEM_UPDATE_INTERVAL then do {
        c_assert (iflag (store e it) AND ITEM_SLABBED = 0);
        if iflag (store e it) AND ITEM_LINKED \<noteq> 0 then do {
          e \<leftarrow> item_unlink_q e it;
          let e = upd_item it (it_time_update (\<lambda>_. current_time e)) e;
          item_link_q e it
        } else Some e
      } else Some e)"

definition do_item_replace :: "default_engine \<Rightarrow> addr \<Rightarrow> addr \<Rightarrow> default_engine option" where
  "do_item_replace e it new_it = do {
     c_assert (iflag (store e it) AND ITEM_SLABBED = 0);
     e \<leftarrow> do_item_unlink e it;
     do_item_link e new_it
   }"

section \<open>Allocation\<close>

text \<open>
  \<open>slabs_alloc\<close> of the engine.  A new page is cleared by \<open>do_slabs_newslab\<close>, so the items that
  start in it read as zero.
\<close>

definition zero_item :: hash_item where
  "zero_item = \<lparr>it_next = NULL, it_prev = NULL, h_next = NULL, it_time = 0, exptime = 0, nbytes = 0, it_flags = 0,
     nkey = 0, iflag = 0, refcount = 0, clsid = 0, it_cas = 0, it_key = [], it_data = []\<rparr>"

definition engine_slabs_alloc :: "default_engine \<Rightarrow> nat \<Rightarrow> nat \<Rightarrow> (default_engine \<times> addr) option" where
  "engine_slabs_alloc e sz cid = do {
     (s, ret) \<leftarrow> slabs_alloc (slabs e) sz cid;
     let p = slabclass (slabs e) ! cid;
     let p' = slabclass s ! cid;
     let page = slab_list p' ! slabs_cnt p;
     let st = (if slabs_cnt p < slabs_cnt p' then
                 (\<lambda>a. if page \<le> a \<and> a < page + sc_size p * perslab p then zero_item else store e a)
               else store e);
     Some (e\<lparr>slabs := s, store := st\<rparr>, ret)
   }"

text \<open>The walk from the tail of a queue that the three searches of \<open>do_item_alloc\<close> share.\<close>

fun lru_search :: "(hash_item \<Rightarrow> bool) \<Rightarrow> (addr \<Rightarrow> hash_item) \<Rightarrow> nat \<Rightarrow> addr \<Rightarrow> addr" where
  "lru_search P h 0 search = NULL"
| "lru_search P h (Suc tries) search =
     (if search = NULL then NULL
      else if P (h search) then search
      else lru_search P h tries (it_prev (h search)))"

definition steal_expired :: "default_engine \<Rightarrow> nat \<Rightarrow> nat \<Rightarrow> addr \<Rightarrow> default_engine option" where
  "steal_expired e cid ntotal it = do {
     let e = upd_stats (\<lambda>s. s\<lparr>reclaimed := reclaimed s + 1\<rparr>) e;
     let e = upd_itemstats cid (\<lambda>s. s\<lparr>st_reclaimed := st_reclaimed s + 1\<rparr>) e;
     let e = upd_item it (refcount_update (\<lambda>_. 1)) e;
     s \<leftarrow> slabs_adjust_mem_requested (slabs e) (unat (clsid (store e it))) (ITEM_ntotal e (store e it)) ntotal;
     let e = e\<lparr>slabs := s\<rparr>;
     e \<leftarrow> do_item_unlink e it;
     let e = upd_item it (clsid_update (\<lambda>_. 0)) e;
     Some (upd_item it (refcount_update (\<lambda>_. 0)) e)
   }"

definition evict_one :: "default_engine \<Rightarrow> nat \<Rightarrow> addr \<Rightarrow> default_engine option" where
  "evict_one e cid search =
     (let it = store e search;
          e = (if exptime it = 0 \<or> exptime it > current_time e then
                 upd_stats (\<lambda>s. s\<lparr>evictions := evictions s + 1\<rparr>)
                   (upd_itemstats cid (\<lambda>s. s\<lparr>evicted := evicted s + 1, evicted_time := current_time e - it_time it,
                      evicted_nonzero := (if exptime it \<noteq> 0 then evicted_nonzero s + 1 else evicted_nonzero s)\<rparr>) e)
               else
                 upd_stats (\<lambda>s. s\<lparr>reclaimed := reclaimed s + 1\<rparr>)
                   (upd_itemstats cid (\<lambda>s. s\<lparr>st_reclaimed := st_reclaimed s + 1\<rparr>) e))
      in do_item_unlink e search)"

definition tail_repair :: "default_engine \<Rightarrow> nat \<Rightarrow> default_engine option" where
  "tail_repair e cid =
     (let search = lru_search (\<lambda>i. refcount i \<noteq> 0 \<and> it_time i + TAIL_REPAIR_TIME < current_time e)
                     (store e) search_items (tails (items e) ! cid)
      in if search = NULL then Some e
         else do_item_unlink
                (upd_item search (refcount_update (\<lambda>_. 0))
                  (upd_itemstats cid (\<lambda>s. s\<lparr>tailrepairs := tailrepairs s + 1\<rparr>) e)) search)"

definition evict_alloc :: "default_engine \<Rightarrow> nat \<Rightarrow> nat \<Rightarrow> (default_engine \<times> addr) option" where
  "evict_alloc e cid ntotal =
     (if \<not> evict_to_free (config e) \<or> tails (items e) ! cid = NULL then
        Some (upd_itemstats cid (\<lambda>s. s\<lparr>outofmemory := outofmemory s + 1\<rparr>) e, NULL)
      else do {
        let search = lru_search (\<lambda>i. refcount i = 0) (store e) search_items (tails (items e) ! cid);
        e \<leftarrow> (if search \<noteq> NULL then evict_one e cid search else Some e);
        (e, it) \<leftarrow> engine_slabs_alloc e ntotal cid;
        if it \<noteq> NULL then Some (e, it)
        else do {
          let e = upd_itemstats cid (\<lambda>s. s\<lparr>outofmemory := outofmemory s + 1\<rparr>) e;
          e \<leftarrow> tail_repair e cid;
          engine_slabs_alloc e ntotal cid
        }
      })"

text \<open>
  \<open>nb\<close> is the \<open>int nbytes\<close> of the call.  It is added to \<open>size_t\<close> values, so a negative one wraps
  around.
\<close>

definition alloc_ntotal :: "default_engine \<Rightarrow> nat \<Rightarrow> u32 \<Rightarrow> nat" where
  "alloc_ntotal e nk nb =
     nat ((int sizeof_hash_item + int nk + sint nb + (if use_cas (config e) then 8 else 0)) mod 2 ^ 64)"

definition init_item :: "default_engine \<Rightarrow> bytes \<Rightarrow> u32 \<Rightarrow> u32 \<Rightarrow> u32 \<Rightarrow> nat \<Rightarrow> hash_item \<Rightarrow> hash_item" where
  "init_item e key flags exp nb cid it =
     it\<lparr>clsid := of_nat cid, it_next := NULL, it_prev := NULL, h_next := NULL, refcount := 1,
        iflag := (if use_cas (config e) then ITEM_WITH_CAS else 0), nkey := of_nat (length key), nbytes := nb,
        it_flags := flags, it_key := key, exptime := exp\<rparr>"

definition do_item_alloc ::
  "default_engine \<Rightarrow> bytes \<Rightarrow> u32 \<Rightarrow> u32 \<Rightarrow> u32 \<Rightarrow> (default_engine \<times> addr) option" where
  "do_item_alloc e key flags exp nb = do {
     let ntotal = alloc_ntotal e (length key) nb;
     let cid = slabs_clsid (slabs e) ntotal;
     if cid = 0 then Some (e, NULL)
     else do {
       c_assert (cid < POWER_LARGEST);
       let it = lru_search (\<lambda>i. refcount i = 0 \<and> exptime i \<noteq> 0 \<and> exptime i < current_time e)
                  (store e) search_items (tails (items e) ! cid);
       (e, it) \<leftarrow>
         (if it \<noteq> NULL then map_option (\<lambda>e. (e, it)) (steal_expired e cid ntotal it)
          else do {
            (e, it) \<leftarrow> engine_slabs_alloc e ntotal cid;
            if it \<noteq> NULL then Some (e, it) else evict_alloc e cid ntotal
          });
       if it = NULL then Some (e, NULL)
       else do {
         c_assert (clsid (store e it) = 0);
         c_assert (it \<noteq> heads (items e) ! cid);
         Some (upd_item it (init_item e key flags exp nb cid) e, it)
       }
     }
   }"

section \<open>Lookup\<close>

definition flushed :: "default_engine \<Rightarrow> hash_item \<Rightarrow> bool" where
  "flushed e it \<longleftrightarrow> oldest_live (config e) \<noteq> 0 \<and> oldest_live (config e) \<le> current_time e \<and>
     it_time it \<le> oldest_live (config e)"

definition do_item_get :: "default_engine \<Rightarrow> bytes \<Rightarrow> (default_engine \<times> addr) option" where
  "do_item_get e key = do {
     it \<leftarrow> assoc_find e (srv_hash e key) key;
     (e, it) \<leftarrow> (if it \<noteq> NULL \<and> flushed e (store e it) then map_option (\<lambda>e. (e, NULL)) (do_item_unlink e it)
                else Some (e, it));
     (e, it) \<leftarrow> (if it \<noteq> NULL \<and> exptime (store e it) \<noteq> 0 \<and> exptime (store e it) \<le> current_time e
                then map_option (\<lambda>e. (e, NULL)) (do_item_unlink e it) else Some (e, it));
     if it \<noteq> NULL then do {
       let e = upd_item it (refcount_update (\<lambda>r. r + 1)) e;
       e \<leftarrow> do_item_update e it;
       Some (e, it)
     } else Some (e, NULL)
   }"

section \<open>Storage commands\<close>

datatype ENGINE_ERROR_CODE =
    ENGINE_SUCCESS | ENGINE_KEY_ENOENT | ENGINE_KEY_EEXISTS | ENGINE_ENOMEM | ENGINE_NOT_STORED | ENGINE_EINVAL
  | ENGINE_ENOTSUP | ENGINE_EWOULDBLOCK | ENGINE_E2BIG | ENGINE_WANT_MORE | ENGINE_DISCONNECT | ENGINE_EACCESS
  | ENGINE_NOT_MY_VBUCKET | ENGINE_TMPFAIL | ENGINE_FAILED

datatype ENGINE_STORE_OPERATION =
    OPERATION_ADD | OPERATION_SET | OPERATION_REPLACE | OPERATION_APPEND | OPERATION_PREPEND | OPERATION_CAS

definition release_opt :: "default_engine \<Rightarrow> addr \<Rightarrow> default_engine option" where
  "release_opt e it = (if it \<noteq> NULL then do_item_release e it else Some e)"

text \<open>Appending and prepending: the new item that holds both values, \<open>NULL\<close> when there is no memory.\<close>

definition combine_items ::
  "default_engine \<Rightarrow> addr \<Rightarrow> addr \<Rightarrow> ENGINE_STORE_OPERATION \<Rightarrow> (default_engine \<times> addr) option" where
  "combine_items e it old_it op = do {
     (e, new_it) \<leftarrow> do_item_alloc e (key_of (store e it)) (it_flags (store e old_it)) (exptime (store e old_it))
                     (nbytes (store e it) + nbytes (store e old_it));
     if new_it = NULL then Some (e, NULL)
     else
       let old_data = item_data (store e old_it); data = item_data (store e it)
       in if op = OPERATION_APPEND
          then Some (write_data (write_data e new_it 0 old_data) new_it (unat (nbytes (store e old_it))) data, new_it)
          else Some (write_data (write_data e new_it 0 data) new_it (unat (nbytes (store e it))) old_data, new_it)
   }"

text \<open>
  \<open>do_store_item\<close>; the result is the status and, for a success, the CAS value the caller gets.
\<close>

definition finish_store ::
  "default_engine \<Rightarrow> addr \<Rightarrow> addr \<Rightarrow> addr \<Rightarrow> ENGINE_ERROR_CODE \<Rightarrow> (default_engine \<times> ENGINE_ERROR_CODE \<times> u64 option) option" where
  "finish_store e old_it new_it it stored = do {
     e \<leftarrow> release_opt e old_it;
     e \<leftarrow> release_opt e new_it;
     Some (e, stored, if stored = ENGINE_SUCCESS then Some (item_get_cas (store e it)) else None)
   }"

definition link_or_replace :: "default_engine \<Rightarrow> addr \<Rightarrow> addr \<Rightarrow> default_engine option" where
  "link_or_replace e old_it it =
     (if old_it \<noteq> NULL then do_item_replace e old_it it else do_item_link e it)"

definition do_store_item ::
  "default_engine \<Rightarrow> addr \<Rightarrow> ENGINE_STORE_OPERATION \<Rightarrow> (default_engine \<times> ENGINE_ERROR_CODE \<times> u64 option) option" where
  "do_store_item e it op = do {
     (e, old_it) \<leftarrow> do_item_get e (key_of (store e it));
     if old_it \<noteq> NULL \<and> op = OPERATION_ADD then do {
       e \<leftarrow> do_item_update e old_it;
       finish_store e old_it NULL it ENGINE_NOT_STORED
     }
     else if old_it = NULL \<and> (op = OPERATION_REPLACE \<or> op = OPERATION_APPEND \<or> op = OPERATION_PREPEND) then
       finish_store e old_it NULL it ENGINE_NOT_STORED
     else if op = OPERATION_CAS then
       (if old_it = NULL then finish_store e old_it NULL it ENGINE_KEY_ENOENT
        else if item_get_cas (store e it) = item_get_cas (store e old_it) then do {
          e \<leftarrow> do_item_replace e old_it it;
          finish_store e old_it NULL it ENGINE_SUCCESS
        }
        else finish_store e old_it NULL it ENGINE_KEY_EEXISTS)
     else if op = OPERATION_APPEND \<or> op = OPERATION_PREPEND then
       (if item_get_cas (store e it) \<noteq> 0 \<and> item_get_cas (store e it) \<noteq> item_get_cas (store e old_it)
        then finish_store e old_it NULL it ENGINE_KEY_EEXISTS
        else do {
          (e, new_it) \<leftarrow> combine_items e it old_it op;
          if new_it = NULL then do {
            e \<leftarrow> release_opt e old_it;
            Some (e, ENGINE_NOT_STORED, None)
          }
          else do {
            e \<leftarrow> link_or_replace e old_it new_it;
            finish_store e old_it new_it new_it ENGINE_SUCCESS
          }
        })
     else do {
       e \<leftarrow> link_or_replace e old_it it;
       finish_store e old_it NULL it ENGINE_SUCCESS
     }
   }"

section \<open>Arithmetic\<close>

definition add_delta_value :: "bool \<Rightarrow> u64 \<Rightarrow> u64 \<Rightarrow> u64" where
  "add_delta_value incr delta value =
     (if incr then value + delta else if delta > value then 0 else value - delta)"

text \<open>The result is the status, the CAS value and the new number.\<close>

definition do_add_delta ::
  "default_engine \<Rightarrow> addr \<Rightarrow> bool \<Rightarrow> u64 \<Rightarrow> (default_engine \<times> ENGINE_ERROR_CODE \<times> u64 \<times> u64) option" where
  "do_add_delta e it incr delta =
     (if unat (nbytes (store e it)) \<ge> 80 - 1 then Some (e, ENGINE_EINVAL, 0, 0)
      else case safe_strtoull (c_string (item_data (store e it))) of
        None \<Rightarrow> Some (e, ENGINE_EINVAL, 0, 0)
      | Some value \<Rightarrow>
          let value = add_delta_value incr delta value;
              buf = dec_bytes (unat value);
              res = length buf
          in if refcount (store e it) = 1 \<and> res \<le> unat (nbytes (store e it)) then
               let e = write_data e it 0 (buf @ replicate (unat (nbytes (store e it)) - res) 32);
                   (e, cas) = get_cas_id e;
                   e = item_set_cas e it cas
               in Some (e, ENGINE_SUCCESS, item_get_cas (store e it), value)
             else do {
               (e, new_it) \<leftarrow> do_item_alloc e (key_of (store e it)) (it_flags (store e it)) (exptime (store e it)) (of_nat res);
               if new_it = NULL then do {
                 e \<leftarrow> do_item_unlink e it;
                 Some (e, ENGINE_ENOMEM, 0, value)
               }
               else do {
                 let e = write_data e new_it 0 buf;
                 e \<leftarrow> do_item_replace e it new_it;
                 let cas = item_get_cas (store e new_it);
                 e \<leftarrow> do_item_release e new_it;
                 Some (e, ENGINE_SUCCESS, cas, value)
               }
             })"

definition do_arithmetic ::
  "default_engine \<Rightarrow> bytes \<Rightarrow> bool \<Rightarrow> bool \<Rightarrow> u64 \<Rightarrow> u64 \<Rightarrow> u32 \<Rightarrow>
   (default_engine \<times> ENGINE_ERROR_CODE \<times> u64 \<times> u64) option" where
  "do_arithmetic e key increment create delta initial exp = do {
     (e, it) \<leftarrow> do_item_get e key;
     if it = NULL then
       (if \<not> create then Some (e, ENGINE_KEY_ENOENT, 0, 0)
        else do {
          let buffer = dec_bytes (unat initial);
          (e, it) \<leftarrow> do_item_alloc e key 0 exp (of_nat (length buffer));
          if it = NULL then Some (e, ENGINE_ENOMEM, 0, 0)
          else do {
            let e = write_data e it 0 buffer;
            (e, ret, cas) \<leftarrow> do_store_item e it OPERATION_ADD;
            let cas = item_get_cas (store e it);
            e \<leftarrow> do_item_release e it;
            Some (e, ret, if ret = ENGINE_SUCCESS then cas else 0, if ret = ENGINE_SUCCESS then initial else 0)
          }
        })
     else do {
       (e, ret, cas, result) \<leftarrow> do_add_delta e it increment delta;
       e \<leftarrow> do_item_release e it;
       Some (e, ret, cas, result)
     }
   }"

section \<open>Entry points\<close>

definition item_alloc :: "default_engine \<Rightarrow> bytes \<Rightarrow> u32 \<Rightarrow> u32 \<Rightarrow> u32 \<Rightarrow> (default_engine \<times> addr) option" where
  "item_alloc e key flags exp nb = do_item_alloc e key flags exp nb"

definition item_get :: "default_engine \<Rightarrow> bytes \<Rightarrow> (default_engine \<times> addr) option" where
  "item_get e key = do_item_get e key"

definition item_release :: "default_engine \<Rightarrow> addr \<Rightarrow> default_engine option" where
  "item_release e it = do_item_release e it"

definition item_unlink :: "default_engine \<Rightarrow> addr \<Rightarrow> default_engine option" where
  "item_unlink e it = do_item_unlink e it"

definition arithmetic ::
  "default_engine \<Rightarrow> bytes \<Rightarrow> bool \<Rightarrow> bool \<Rightarrow> u64 \<Rightarrow> u64 \<Rightarrow> u32 \<Rightarrow>
   (default_engine \<times> ENGINE_ERROR_CODE \<times> u64 \<times> u64) option" where
  "arithmetic e key increment create delta initial exp = do_arithmetic e key increment create delta initial exp"

definition store_item ::
  "default_engine \<Rightarrow> addr \<Rightarrow> ENGINE_STORE_OPERATION \<Rightarrow> (default_engine \<times> ENGINE_ERROR_CODE \<times> u64 option) option" where
  "store_item e it op = do_store_item e it op"

definition do_touch_item :: "default_engine \<Rightarrow> bytes \<Rightarrow> u32 \<Rightarrow> (default_engine \<times> addr) option" where
  "do_touch_item e key exp = do {
     (e, it) \<leftarrow> do_item_get e key;
     Some (if it \<noteq> NULL then upd_item it (exptime_update (\<lambda>_. exp)) e else e, it)
   }"

definition touch_item :: "default_engine \<Rightarrow> bytes \<Rightarrow> u32 \<Rightarrow> (default_engine \<times> addr) option" where
  "touch_item e key exp = do_touch_item e key exp"

section \<open>Flush\<close>

text \<open>The walk over one queue, from the head to the first item older than the flush time.\<close>

partial_function (option) flush_class :: "default_engine \<Rightarrow> addr \<Rightarrow> default_engine option" where
  "flush_class e iter =
     (if iter \<noteq> NULL \<and> it_time (store e iter) \<ge> oldest_live (config e) then
        let nxt = it_next (store e iter)
        in Option.bind (if iflag (store e iter) AND ITEM_SLABBED = 0 then do_item_unlink e iter else Some e)
             (\<lambda>e. flush_class e nxt)
      else Some e)"

fun flush_classes :: "nat list \<Rightarrow> default_engine \<Rightarrow> default_engine option" where
  "flush_classes [] e = Some e"
| "flush_classes (i # is) e = Option.bind (flush_class e (heads (items e) ! i)) (flush_classes is)"

definition item_flush_expired :: "default_engine \<Rightarrow> int \<Rightarrow> default_engine option" where
  "item_flush_expired e when =
     (let live = (if when = 0 then current_time e else srv_realtime e when) - 1;
          e = e\<lparr>config := (config e)\<lparr>oldest_live := live\<rparr>\<rparr>
      in if live \<noteq> 0 then flush_classes [0..<POWER_LARGEST] e else Some e)"

section \<open>Statistics\<close>

text \<open>The purge of expired and flushed items at the tail of a queue in front of its statistics.\<close>

fun purge_tail :: "nat \<Rightarrow> default_engine \<Rightarrow> nat \<Rightarrow> default_engine option" where
  "purge_tail 0 e i = Some e"
| "purge_tail (Suc search) e i =
     (let tail = tails (items e) ! i
      in if tail \<noteq> NULL \<and> (flushed e (store e tail) \<or>
             (exptime (store e tail) \<noteq> 0 \<and> exptime (store e tail) < current_time e)) then
           if refcount (store e tail) = 0 then Option.bind (do_item_unlink e tail) (\<lambda>e. purge_tail search e i)
           else Some e
         else Some e)"

definition class_stats :: "default_engine \<Rightarrow> nat \<Rightarrow> (nat \<times> string \<times> u32) list" where
  "class_stats e i =
     (let s = itemstats (items e) ! i
      in [(i, ''number'', sizes (items e) ! i), (i, ''age'', it_time (store e (tails (items e) ! i))),
          (i, ''evicted'', evicted s), (i, ''evicted_nonzero'', evicted_nonzero s), (i, ''evicted_time'', evicted_time s),
          (i, ''outofmemory'', outofmemory s), (i, ''tailrepairs'', tailrepairs s), (i, ''reclaimed'', st_reclaimed s)])"

fun do_item_stats :: "nat list \<Rightarrow> default_engine \<Rightarrow> (default_engine \<times> (nat \<times> string \<times> u32) list) option" where
  "do_item_stats [] e = Some (e, [])"
| "do_item_stats (i # is) e =
     (if tails (items e) ! i = NULL then do_item_stats is e
      else do {
        e \<leftarrow> purge_tail search_items e i;
        (e', out) \<leftarrow> do_item_stats is e;
        Some (e', (if tails (items e) ! i = NULL then [] else class_stats e i) @ out)
      })"

definition item_stats :: "default_engine \<Rightarrow> (default_engine \<times> (nat \<times> string \<times> u32) list) option" where
  "item_stats e = do_item_stats [0..<POWER_LARGEST] e"

text \<open>The histogram of item sizes in steps of 32 bytes; \<open>None\<close> is a histogram that cannot be allocated.\<close>

definition num_buckets :: nat where "num_buckets = 32768"

definition size_bucket :: "nat \<Rightarrow> nat" where
  "size_bucket ntotal = (if ntotal mod 32 \<noteq> 0 then ntotal div 32 + 1 else ntotal div 32)"

partial_function (option) sizes_class :: "default_engine \<Rightarrow> addr \<Rightarrow> u32 list \<Rightarrow> u32 list option" where
  "sizes_class e iter histogram =
     (if iter = NULL then Some histogram
      else let b = size_bucket (ITEM_ntotal e (store e iter));
               histogram = (if b < num_buckets then histogram[b := histogram ! b + 1] else histogram)
           in sizes_class e (it_next (store e iter)) histogram)"

fun sizes_classes :: "nat list \<Rightarrow> default_engine \<Rightarrow> u32 list \<Rightarrow> u32 list option" where
  "sizes_classes [] e histogram = Some histogram"
| "sizes_classes (i # is) e histogram = Option.bind (sizes_class e (heads (items e) ! i) histogram) (sizes_classes is e)"

definition do_item_stats_sizes :: "default_engine \<Rightarrow> (bytes \<times> bytes) list option" where
  "do_item_stats_sizes e =
     (case calloc_q e of
        True # _ \<Rightarrow>
          map_option (\<lambda>histogram. map (\<lambda>i. (dec_bytes (i * 32), dec_bytes (unat (histogram ! i))))
                                    (filter (\<lambda>i. histogram ! i \<noteq> 0) [0..<num_buckets]))
            (sizes_classes [0..<POWER_LARGEST] e (replicate num_buckets 0))
      | _ \<Rightarrow> Some [])"

end
