(* ===== verification/ItemsInv.thy ===== *)
theory ItemsInv
  imports Items
begin

unbundle bit_operations_syntax

text \<open>
  The invariant of the item layer and its preservation.  \<open>cache_inv e M Q A\<close> ties the engine to a
  ghost view: the map \<open>M\<close> from keys to linked items, the queue \<open>Q c\<close> of every class, and the set \<open>A\<close>
  of items that are allocated, linked or held by a client.  The hash table holds \<open>M\<close>, the queues
  hold the same items, every allocated item is a used chunk of its slab class, and the flags and the
  item count agree with the view.
\<close>

section \<open>Flags\<close>

lemma ITEM_flags_exp: "ITEM_WITH_CAS = 2 ^ 0" "ITEM_LINKED = 2 ^ 8" "ITEM_SLABBED = 2 ^ 9"
  by (simp_all add: ITEM_WITH_CAS_def ITEM_LINKED_def ITEM_SLABBED_def)

lemma flag_bits [state_simps]:
  "f AND ITEM_LINKED = 0 \<longleftrightarrow> \<not> bit f 8" "f AND ITEM_SLABBED = 0 \<longleftrightarrow> \<not> bit f 9"
  "f AND ITEM_WITH_CAS = 0 \<longleftrightarrow> \<not> bit f 0"
  unfolding ITEM_flags_exp by (simp_all only: and_exp_eq_0_iff_not_bit)

lemma bit_flags [state_simps]:
  "bit (f OR ITEM_LINKED) n \<longleftrightarrow> bit f n \<or> n = 8" "bit (f OR ITEM_SLABBED) n \<longleftrightarrow> bit f n \<or> n = 9"
  "bit (f AND NOT ITEM_LINKED) n \<longleftrightarrow> bit f n \<and> n \<noteq> 8" for f :: u16
  unfolding ITEM_flags_exp bit_or_iff bit_and_iff bit_not_iff bit_exp_iff
  using bit_imp_le_length [of f n] by (auto simp: possible_bit_def)

lemma flag_both [state_simps]: "f AND (ITEM_LINKED OR ITEM_SLABBED) = 0 \<longleftrightarrow> \<not> bit f 8 \<and> \<not> bit f 9"
  unfolding flag_bits [symmetric] bit.conj_disj_distrib or_eq_0_iff ..

abbreviation linked :: "default_engine \<Rightarrow> addr \<Rightarrow> bool" where "linked e x \<equiv> bit (iflag (store e x)) 8"
abbreviation slabbed :: "default_engine \<Rightarrow> addr \<Rightarrow> bool" where "slabbed e x \<equiv> bit (iflag (store e x)) 9"

section \<open>What the operations leave unchanged\<close>

text \<open>An item without its links.\<close>

definition core :: "hash_item \<Rightarrow> hash_item" where
  "core it = it\<lparr>it_next := NULL, it_prev := NULL, h_next := NULL\<rparr>"

lemma core_fields:
  "core a = core b \<Longrightarrow> it_time a = it_time b \<and> exptime a = exptime b \<and> nbytes a = nbytes b \<and> it_flags a = it_flags b \<and>
     nkey a = nkey b \<and> iflag a = iflag b \<and> refcount a = refcount b \<and> clsid a = clsid b \<and> it_cas a = it_cas b \<and>
     it_key a = it_key b \<and> it_data a = it_data b"
  unfolding core_def by (cases a, cases b) simp

lemma core_key: "core a = core b \<Longrightarrow> key_of a = key_of b \<and> item_ok a = item_ok b \<and> item_data a = item_data b"
  using core_fields [of a b] by (simp add: key_of_def item_ok_def item_data_def)

lemma core_upd [state_simps]:
  "core (it\<lparr>it_next := x\<rparr>) = core it" "core (it\<lparr>it_prev := x\<rparr>) = core it" "core (it\<lparr>h_next := x\<rparr>) = core it"
  "core (it\<lparr>it_time := t\<rparr>) = (core it)\<lparr>it_time := t\<rparr>" "core (it\<lparr>iflag := f\<rparr>) = (core it)\<lparr>iflag := f\<rparr>"
  "core (it\<lparr>refcount := r\<rparr>) = (core it)\<lparr>refcount := r\<rparr>" "core (it\<lparr>clsid := c\<rparr>) = (core it)\<lparr>clsid := c\<rparr>"
  "core (it\<lparr>it_cas := w\<rparr>) = (core it)\<lparr>it_cas := w\<rparr>"
  by (cases it; simp add: core_def)+

lemma upd_const [state_simps]:
  "iflag_update (\<lambda>f. f OR w) it = it\<lparr>iflag := iflag it OR w\<rparr>" "iflag_update (\<lambda>f. f AND w) it = it\<lparr>iflag := iflag it AND w\<rparr>"
  "refcount_update (\<lambda>r. r + 1) it = it\<lparr>refcount := refcount it + 1\<rparr>"
  "refcount_update (\<lambda>r. r - 1) it = it\<lparr>refcount := refcount it - 1\<rparr>"
  by (cases it; simp)+

definition env_same :: "default_engine \<Rightarrow> default_engine \<Rightarrow> bool" where
  "env_same e e' \<longleftrightarrow> config e' = config e \<and> current_time e' = current_time e \<and> srv_hash e' = srv_hash e \<and>
     srv_realtime e' = srv_realtime e \<and> power_largest (slabs e') = power_largest (slabs e)"

lemma env_same_refl [simp]: "env_same e e"
  by (simp add: env_same_def)

lemma env_same_trans: "env_same e e' \<Longrightarrow> env_same e' e'' \<Longrightarrow> env_same e e''"
  by (simp add: env_same_def)

lemma assoc_frame_D:
  "assoc_frame e e' \<Longrightarrow> core (store e' x) = core (store e x) \<and> it_next (store e' x) = it_next (store e x) \<and>
     it_prev (store e' x) = it_prev (store e x)"
  "assoc_frame e e' \<Longrightarrow> slabs e' = slabs e \<and> items e' = items e \<and> config e' = config e \<and> stats e' = stats e \<and>
     cas_id e' = cas_id e \<and> srv_hash e' = srv_hash e \<and> env_same e e'"
proof -
  assume a: "assoc_frame e e'"
  then obtain n where "store e' x = (store e x)\<lparr>h_next := n\<rparr>" unfolding assoc_frame_def by blast
  then show "core (store e' x) = core (store e x) \<and> it_next (store e' x) = it_next (store e x) \<and>
     it_prev (store e' x) = it_prev (store e x)" by (simp add: state_simps)
qed (simp add: assoc_frame_def env_same_def)

lemma lru_frame_D:
  "lru_frame e e' \<Longrightarrow> core (store e' x) = core (store e x) \<and> h_next (store e' x) = h_next (store e x)"
  "lru_frame e e' \<Longrightarrow> slabs e' = slabs e \<and> assoc e' = assoc e \<and> itemstats (items e') = itemstats (items e) \<and>
     config e' = config e \<and> stats e' = stats e \<and> cas_id e' = cas_id e \<and> srv_hash e' = srv_hash e \<and> env_same e e'"
proof -
  assume a: "lru_frame e e'"
  then have x: "(store e' x)\<lparr>it_next := NULL, it_prev := NULL\<rparr> = (store e x)\<lparr>it_next := NULL, it_prev := NULL\<rparr>"
    unfolding lru_frame_def by blast
  then show "core (store e' x) = core (store e x) \<and> h_next (store e' x) = h_next (store e x)"
    unfolding core_def by (cases "store e x", cases "store e' x") simp
  have e: "e' = e\<lparr>store := store e', items := items e'\<rparr>" "itemstats (items e') = itemstats (items e)"
    using a unfolding lru_frame_def by blast+
  show "slabs e' = slabs e \<and> assoc e' = assoc e \<and> itemstats (items e') = itemstats (items e) \<and>
     config e' = config e \<and> stats e' = stats e \<and> cas_id e' = cas_id e \<and> srv_hash e' = srv_hash e \<and> env_same e e'"
    unfolding env_same_def by (intro conjI; (rule e(2))?) (subst e(1), simp)+
qed

lemma assoc_inv_cong:
  assumes "assoc_inv e M" and "assoc e' = assoc e" and "srv_hash e' = srv_hash e"
    and "\<And>x. h_next (store e' x) = h_next (store e x)"
    and "\<And>x. key_of (store e' x) = key_of (store e x) \<and> item_ok (store e' x) = item_ok (store e x)"
  shows "assoc_inv e' M"
proof -
  have "h_next \<circ> store e' = h_next \<circ> store e" using assms(4) by (simp add: fun_eq_iff)
  then have "bucket_rel e' M = bucket_rel e M" by (intro ext) (simp only: bucket_rel_def assms(2,3))
  moreover have "keys_ok e' M = keys_ok e M" by (simp add: keys_ok_def assms(5))
  ultimately show ?thesis using assms(1) by (simp add: assoc_inv_def assms(2))
qed

lemma lru_inv_cong:
  assumes "lru_inv e Q" and "heads (items e') = heads (items e)" "tails (items e') = tails (items e)"
    and "sizes (items e') = sizes (items e)" "length (itemstats (items e')) = length (itemstats (items e))"
    and "\<And>x. it_next (store e' x) = it_next (store e x) \<and> it_prev (store e' x) = it_prev (store e x)"
    and "\<And>x c. c < POWER_LARGEST \<Longrightarrow> x \<in> set (Q c) \<Longrightarrow> clsid (store e' x) = clsid (store e x)"
  shows "lru_inv e' Q"
proof -
  have "queue e' c (Q c)" if c: "c < POWER_LARGEST" for c
  proof (rule queue_cong)
    show "queue e c (Q c)" using assms(1) c by (simp add: lru_inv_def)
  qed (use assms c in simp_all)
  then show ?thesis using assms by (simp add: lru_inv_def)
qed

section \<open>The invariant\<close>

abbreviation cls :: "default_engine \<Rightarrow> addr \<Rightarrow> nat" where "cls e x \<equiv> unat (clsid (store e x))"

definition alloc_ok :: "default_engine \<Rightarrow> addr \<Rightarrow> bool" where
  "alloc_ok e x \<longleftrightarrow> x \<noteq> NULL \<and> valid_class (slabs e) (cls e x) \<and> cls e x < POWER_LARGEST \<and>
     x \<in> used (slabclass (slabs e) ! cls e x) \<and> \<not> slabbed e x \<and> item_ok (store e x)"

definition cache_inv :: "default_engine \<Rightarrow> (bytes \<rightharpoonup> addr) \<Rightarrow> (nat \<Rightarrow> addr list) \<Rightarrow> addr set \<Rightarrow> bool" where
  "cache_inv e M Q A \<longleftrightarrow> assoc_inv e M \<and> lru_inv e Q \<and> slabs_inv (slabs e) \<and>
     ran M = (\<Union>c \<in> {..<POWER_LARGEST}. set (Q c)) \<and> ran M \<subseteq> A \<and>
     (\<forall>x \<in> A. alloc_ok e x) \<and> (\<forall>x. x \<notin> A \<longrightarrow> clsid (store e x) = 0) \<and>
     (\<forall>x. linked e x \<longleftrightarrow> x \<in> ran M) \<and> curr_items (stats e) = of_nat (card (dom M))"

lemma cache_inv_D:
  assumes "cache_inv e M Q A"
  shows "assoc_inv e M" "lru_inv e Q" "slabs_inv (slabs e)" "ran M = (\<Union>c \<in> {..<POWER_LARGEST}. set (Q c))"
    "ran M \<subseteq> A" "x \<in> A \<Longrightarrow> alloc_ok e x" "x \<notin> A \<Longrightarrow> clsid (store e x) = 0" "linked e x \<longleftrightarrow> x \<in> ran M"
    "curr_items (stats e) = of_nat (card (dom M))"
  using assms unfolding cache_inv_def by blast+

lemma cache_invI:
  assumes "assoc_inv e M" "lru_inv e Q" "slabs_inv (slabs e)" "ran M = (\<Union>c \<in> {..<POWER_LARGEST}. set (Q c))"
    "ran M \<subseteq> A" "\<And>x. x \<in> A \<Longrightarrow> alloc_ok e x" "\<And>x. x \<notin> A \<Longrightarrow> clsid (store e x) = 0" "\<And>x. linked e x \<longleftrightarrow> x \<in> ran M"
    "curr_items (stats e) = of_nat (card (dom M))"
  shows "cache_inv e M Q A"
  using assms unfolding cache_inv_def by blast

text \<open>The queue of a linked item.\<close>

lemma cache_inv_queue:
  assumes "cache_inv e M Q A" "x \<in> ran M"
  shows "x \<in> set (Q (cls e x))" and "cls e x < POWER_LARGEST"
proof -
  obtain c where c: "c < POWER_LARGEST" "x \<in> set (Q c)" using assms cache_inv_D(4) [OF assms(1)] by auto
  then have "cls e x = c" using cache_inv_D(2) [OF assms(1)] by (auto simp: lru_inv_def queue_def)
  then show "x \<in> set (Q (cls e x))" "cls e x < POWER_LARGEST" using c by simp_all
qed

lemma cache_inv_key: "cache_inv e M Q A \<Longrightarrow> M k = Some x \<Longrightarrow> key_of (store e x) = k \<and> x \<noteq> NULL \<and> x \<in> A"
  using cache_inv_D(1,5) ht.mapped_law by (metis ranI subsetD)

text \<open>Moves of the maintenance thread keep the cache.\<close>

lemma maintenance_turn_cache:
  assumes "cache_inv e M Q A"
  shows "\<exists>e'. maintenance_turn n e = Some e' \<and> cache_inv e' M Q A"
proof -
  obtain e' where e': "maintenance_turn n e = Some e'" "assoc_inv e' M" "assoc_frame e e'"
    using maintenance_turn_ok [OF cache_inv_D(1) [OF assms]] by blast
  note fr = assoc_frame_D(1) [OF e'(3)] and fe = assoc_frame_D(2) [OF e'(3)]
  have cf: "iflag (store e' x) = iflag (store e x)" "clsid (store e' x) = clsid (store e x)" "item_ok (store e' x) = item_ok (store e x)" for x
    using core_fields [of "store e' x" "store e x"] core_key [of "store e' x" "store e x"] fr by simp_all
  have "lru_inv e' Q" by (rule lru_inv_cong [OF cache_inv_D(2) [OF assms]]) (simp_all add: fr fe cf)
  moreover have "alloc_ok e' x = alloc_ok e x" for x by (simp add: alloc_ok_def fe cf)
  ultimately have "cache_inv e' M Q A"
    using cache_inv_D [OF assms] e'(2) unfolding cache_inv_def by (simp only: fe cf) blast
  then show ?thesis using e'(1) by blast
qed

section \<open>Linking an item\<close>

text \<open>The book-keeping of \<open>do_item_link\<close> between the hash table and the queue.\<close>

definition link_book :: "default_engine \<Rightarrow> addr \<Rightarrow> default_engine" where
  "link_book e it =
     item_set_cas (fst (get_cas_id (upd_stats (\<lambda>s. s\<lparr>curr_bytes := curr_bytes s + of_nat (ITEM_ntotal e (store e it)),
        curr_items := curr_items s + 1, total_items := total_items s + 1\<rparr>) e))) it (cas_id e + 1)"

lemma link_book_D:
  "store (link_book e it) = (store e)(it := (store e it)\<lparr>it_cas := if bit (iflag (store e it)) 0 then cas_id e + 1 else it_cas (store e it)\<rparr>)"
  "assoc (link_book e it) = assoc e" "items (link_book e it) = items e" "slabs (link_book e it) = slabs e"
  "srv_hash (link_book e it) = srv_hash e" "cas_id (link_book e it) = cas_id e + 1" "env_same e (link_book e it)"
  "curr_items (stats (link_book e it)) = curr_items (stats e) + 1"
  by (simp_all add: link_book_def item_set_cas_def get_cas_id_def upd_stats_def state_simps env_same_def)

lemma do_item_link_steps:
  assumes "\<not> linked e it" "\<not> slabbed e it" "nbytes (store e it) < 1024 * 1024"
    and "e1 = upd_item it (\<lambda>i. i\<lparr>iflag := iflag i OR ITEM_LINKED, it_time := current_time e\<rparr>) e"
    and "assoc_insert e1 (srv_hash e1 (key_of (store e1 it))) it = Some e2"
  shows "do_item_link e it = item_link_q (link_book e2 it) it"
proof -
  have "upd_item it (it_time_update (\<lambda>_. current_time (upd_item it (iflag_update (\<lambda>f. f OR ITEM_LINKED)) e)))
      (upd_item it (iflag_update (\<lambda>f. f OR ITEM_LINKED)) e) = e1"
    by (simp add: assms(4) state_simps)
  moreover have "srv_hash e (key_of ((iflag_update (\<lambda>f. f OR ITEM_LINKED) (store e it))\<lparr>it_time := current_time e\<rparr>)) =
      srv_hash e1 (key_of (store e1 it))"
    by (simp add: assms(4) key_of_def)
  ultimately show ?thesis
    using assms(1,2,3,5) unfolding do_item_link_def
    by (simp add: flag_both Let_def link_book_def get_cas_id_def upd_stats_def)
qed

lemma ran_upd_fresh: "M k = None \<Longrightarrow> ran (M(k \<mapsto> x)) = insert x (ran M)"
  by (simp add: ran_map_upd)

lemma do_item_link_ok:
  assumes inv: "cache_inv e M Q A" and it: "it \<in> A" "it \<notin> ran M" and k: "k = key_of (store e it)" "M k = None"
    and nb: "nbytes (store e it) < 1024 * 1024" and c: "c = cls e it"
  shows "\<exists>e'. do_item_link e it = Some e' \<and> cache_inv e' (M(k \<mapsto> it)) (Q(c := it # Q c)) A \<and>
    (\<forall>x. x \<noteq> it \<longrightarrow> core (store e' x) = core (store e x)) \<and>
    core (store e' it) = (core (store e it))\<lparr>iflag := iflag (store e it) OR ITEM_LINKED, it_time := current_time e,
      it_cas := if bit (iflag (store e it)) 0 then cas_id e + 1 else it_cas (store e it)\<rparr> \<and>
    env_same e e' \<and> cas_id e' = cas_id e + 1"
proof -
  note D = cache_inv_D [OF inv]
  have ok: "alloc_ok e it" by (rule D(6) [OF it(1)])
  define e1 where "e1 = upd_item it (\<lambda>i. i\<lparr>iflag := iflag i OR ITEM_LINKED, it_time := current_time e\<rparr>) e"
  have s1: "store e1 = (store e)(it := (store e it)\<lparr>iflag := iflag (store e it) OR ITEM_LINKED, it_time := current_time e\<rparr>)"
    "srv_hash e1 = srv_hash e" "assoc e1 = assoc e" "items e1 = items e" "slabs e1 = slabs e" "cas_id e1 = cas_id e"
    "env_same e e1" "stats e1 = stats e"
    by (simp_all add: e1_def env_same_def)
  have key1: "key_of (store e1 x) = key_of (store e x)" "item_ok (store e1 x) = item_ok (store e x)" for x
    by (simp_all add: s1 key_of_def item_ok_def)
  have a1: "assoc_inv e1 M" by (rule assoc_inv_cong [OF D(1)]) (simp_all add: key1, simp_all add: s1)
  obtain e2 where e2: "assoc_insert e1 (srv_hash e1 k) it = Some e2" "assoc_inv e2 (M(k \<mapsto> it))" "assoc_frame e1 e2"
    using assoc_insert_ok [OF a1, of it k] it k ok by (auto simp: key1 alloc_ok_def)
  note f2 = assoc_frame_D(1) [OF e2(3)] and g2 = assoc_frame_D(2) [OF e2(3)]
  note c2 = core_fields [OF conjunct1 [OF f2]] and k2 = core_key [OF conjunct1 [OF f2]]
  let ?e3 = "link_book e2 it"
  note b3 = link_book_D [of e2 it]
  have steps: "do_item_link e it = item_link_q ?e3 it"
    using do_item_link_steps [OF _ _ nb e1_def, of e2] e2(1) it(2) ok D(8) by (simp add: key1 k(1) alloc_ok_def)
  have a3: "assoc_inv ?e3 (M(k \<mapsto> it))"
    by (rule assoc_inv_cong [OF e2(2)]) (simp_all add: b3 key_of_def item_ok_def)
  have l3: "lru_inv ?e3 Q"
    by (rule lru_inv_cong [OF D(2)]) (simp_all add: b3 g2 s1 f2 c2)
  have c3: "clsid (store ?e3 x) = clsid (store e x)" "iflag (store ?e3 x) = iflag (store e1 x)" for x
    by (simp_all add: b3 c2 s1)
  have "it \<noteq> NULL" "c < POWER_LARGEST" using ok c by (simp_all add: alloc_ok_def)
  moreover have "\<forall>d < POWER_LARGEST. it \<notin> set (Q d)" using it(2) D(4) by auto
  moreover have "iflag (store ?e3 it) AND ITEM_SLABBED = 0" using ok by (simp add: c3 s1 state_simps alloc_ok_def)
  ultimately obtain e5 where e5: "item_link_q ?e3 it = Some e5" "lru_inv e5 (Q(c := it # Q c))" "lru_frame ?e3 e5"
    using item_link_q_ok [OF l3, of it c] by (auto simp: c3 c)
  note f5 = lru_frame_D(1) [OF e5(3)] and g5 = lru_frame_D(2) [OF e5(3)]
  note c5 = core_fields [OF conjunct1 [OF f5]] and k5 = core_key [OF conjunct1 [OF f5]]
  have core5: "core (store e5 x) = (if x = it then (core (store e it))\<lparr>iflag := iflag (store e it) OR ITEM_LINKED,
      it_time := current_time e, it_cas := if bit (iflag (store e it)) 0 then cas_id e + 1 else it_cas (store e it)\<rparr>
      else core (store e x))" for x
  proof -
    have "core (store e5 x) = core (store ?e3 x)" using f5 by simp
    also have "\<dots> = (if x = it then (core (store e2 it))\<lparr>it_cas := if bit (iflag (store e2 it)) 0 then cas_id e2 + 1 else it_cas (store e2 it)\<rparr>
        else core (store e2 x))" by (simp add: b3 state_simps)
    finally show ?thesis using f2 c2 [of it] g2 by (simp add: s1 state_simps)
  qed
  have fl: "iflag (store e5 x) = (if x = it then iflag (store e it) OR ITEM_LINKED else iflag (store e x))"
    "clsid (store e5 x) = clsid (store e x)" "item_ok (store e5 x) = item_ok (store e x)" for x
    using c5 [of x] k5 [of x] c3 [of x] by (simp_all add: s1 b3 item_ok_def c2)
  have "assoc_inv e5 (M(k \<mapsto> it))" by (rule assoc_inv_cong [OF a3]) (simp_all add: g5 f5 k5)
  moreover have "ran (M(k \<mapsto> it)) = (\<Union>d \<in> {..<POWER_LARGEST}. set ((Q(c := it # Q c)) d))"
    using ran_upd_fresh [of M k it] k(2) D(4) \<open>c < POWER_LARGEST\<close> by (auto split: if_splits)
  moreover have "alloc_ok e5 x" if "x \<in> A" for x
    using D(6) [OF that] by (auto simp: alloc_ok_def fl g5 b3 g2 s1 state_simps)
  moreover have "linked e5 x \<longleftrightarrow> x \<in> ran (M(k \<mapsto> it))" for x
    using ran_upd_fresh [of M k it] k(2) D(8) [of x] by (simp add: fl state_simps)
  moreover have "card (dom (M(k \<mapsto> it))) = Suc (card (dom M))"
    using D(1) k(2) by (auto simp: assoc_inv_def card_insert_if)
  then have "curr_items (stats e5) = of_nat (card (dom (M(k \<mapsto> it))))"
    using D(9) by (simp add: g5 b3 g2 s1)
  moreover have "clsid (store e5 x) = 0" if "x \<notin> A" for x using D(7) [OF that] fl by simp
  moreover have "slabs_inv (slabs e5)" using D(3) by (simp add: g5 b3 g2 s1)
  moreover have "ran (M(k \<mapsto> it)) \<subseteq> A" using D(5) it(1) ran_upd_fresh [of M k it] k(2) by simp
  ultimately have "cache_inv e5 (M(k \<mapsto> it)) (Q(c := it # Q c)) A"
    using e5(2) by (intro cache_invI)
  moreover have "env_same e e5"
    using s1(7) b3(7) g2 g5 by (simp add: env_same_def)
  moreover have "cas_id e5 = cas_id e + 1" by (simp add: g5 b3 g2 s1)
  ultimately show ?thesis using steps e5(1) core5 by simp
qed

section \<open>Freeing and unlinking\<close>

text \<open>An allocated item that is neither linked nor referenced goes back to its slab class.\<close>

definition freed_item :: "hash_item \<Rightarrow> hash_item" where
  "freed_item it = it\<lparr>clsid := 0, iflag := iflag it OR ITEM_SLABBED\<rparr>"

lemma item_free_ok:
  assumes inv: "cache_inv e M Q A" and it: "it \<in> A" "it \<notin> ran M" "refcount (store e it) = 0"
  shows "\<exists>e'. item_free e it = Some e' \<and> cache_inv e' M Q (A - {it}) \<and>
    store e' = (store e)(it := freed_item (store e it)) \<and> env_same e e' \<and> cas_id e' = cas_id e"
proof -
  note D = cache_inv_D [OF inv]
  let ?c = "cls e it"
  have ok: "alloc_ok e it" by (rule D(6) [OF it(1)])
  then have v: "valid_class (slabs e) ?c" and c: "?c < POWER_LARGEST" and u: "it \<in> used (slabclass (slabs e) ! ?c)" and nn: "it \<noteq> NULL"
    by (simp_all add: alloc_ok_def)
  have q: "queue e ?c (Q ?c)" using D(2) c by (simp add: lru_inv_def)
  have nq: "it \<notin> set (Q ?c)" using it(2) D(4) c by auto
  have ht: "it \<noteq> heads (items e) ! ?c" "it \<noteq> tails (items e) ! ?c"
    using queue_head [OF q] queue_tail [OF q] nq nn hd_in_set [of "Q ?c"] last_in_set [of "Q ?c"]
    by (cases "Q ?c = []"; fastforce)+
  define s where "s = do_slabs_free (slabs e) it (ITEM_ntotal e (store e it)) ?c"
  note fr = do_slabs_free_ok [OF D(3) v u s_def]
  define e' where "e' = e\<lparr>store := (store e)(it := freed_item (store e it)), slabs := s\<rparr>"
  have "item_free e it = Some e'"
    using it(2,3) D(8) [of it] c ht
    by (simp add: item_free_def state_simps Let_def e'_def freed_item_def s_def slabs_free_def)
  moreover have "cache_inv e' M Q (A - {it})"
  proof (rule cache_invI)
    show "assoc_inv e' M" by (rule assoc_inv_cong [OF D(1)]) (simp_all add: e'_def freed_item_def key_of_def item_ok_def)
    show "lru_inv e' Q" by (rule lru_inv_cong [OF D(2)]) (use it(2) D(4) in \<open>auto simp: e'_def freed_item_def\<close>)
    show "slabs_inv (slabs e')" using fr(1) by (simp add: e'_def)
    show "ran M = (\<Union>c \<in> {..<POWER_LARGEST}. set (Q c))" by (rule D(4))
    show "ran M \<subseteq> A - {it}" using D(5) it(2) by blast
    show "curr_items (stats e') = of_nat (card (dom M))" using D(9) by (simp add: e'_def)
    show "linked e' x \<longleftrightarrow> x \<in> ran M" for x using D(8) [of x] D(8) [of it] by (simp add: e'_def freed_item_def state_simps)
    show "clsid (store e' x) = 0" if "x \<notin> A - {it}" for x using that D(7) [of x] by (auto simp: e'_def freed_item_def)
    show "alloc_ok e' x" if x: "x \<in> A - {it}" for x
    proof -
      have ox: "alloc_ok e x" using x D(6) by blast
      have "x \<in> used (slabclass s ! cls e x)"
        using ox x fr(3) fr(4) [of "cls e x"] by (cases "cls e x = ?c") (auto simp: alloc_ok_def)
      then show ?thesis using ox x fr(2) by (simp add: alloc_ok_def e'_def)
    qed
  qed
  ultimately show ?thesis using fr(2) by (simp add: e'_def env_same_def)
qed

lemma ran_remove: "M k = Some x \<Longrightarrow> (\<And>j. M j = Some x \<Longrightarrow> j = k) \<Longrightarrow> ran (M(k := None)) = ran M - {x}"
proof (intro set_eqI iffI)
  fix y assume a: "M k = Some x" "\<And>j. M j = Some x \<Longrightarrow> j = k"
  { assume "y \<in> ran (M(k := None))"
    then obtain j where "M j = Some y" "j \<noteq> k" by (auto simp: ran_def split: if_splits)
    then show "y \<in> ran M - {x}" using a(2) [of j] by (metis DiffI ranI singletonD) }
  assume "y \<in> ran M - {x}"
  then obtain j where "M j = Some y" "y \<noteq> x" by (auto simp: ran_def)
  then have "(M(k := None)) j = Some y" using a(1) by auto
  then show "y \<in> ran (M(k := None))" by (rule ranI)
qed

lemma union_remove:
  assumes "c < n" "Q c = as @ x # bs" "distinct (as @ x # bs)" "\<And>d. d < n \<Longrightarrow> d \<noteq> c \<Longrightarrow> x \<notin> set (Q d)"
  shows "(\<Union>d \<in> {..<n}. set (Q d)) - {x} = (\<Union>d \<in> {..<n}. set ((Q(c := as @ bs)) d))"
proof (intro set_eqI iffI)
  fix y assume "y \<in> (\<Union>d \<in> {..<n}. set (Q d)) - {x}"
  then obtain d where d: "d < n" "y \<in> set (Q d)" "y \<noteq> x" by blast
  then have "y \<in> set ((Q(c := as @ bs)) d)" using assms(2) by (cases "d = c") auto
  then show "y \<in> (\<Union>d \<in> {..<n}. set ((Q(c := as @ bs)) d))" using d(1) by blast
next
  fix y assume "y \<in> (\<Union>d \<in> {..<n}. set ((Q(c := as @ bs)) d))"
  then obtain d where d: "d < n" "y \<in> set ((Q(c := as @ bs)) d)" by blast
  then have "y \<in> set (Q d) \<and> y \<noteq> x" using assms(2,3) assms(4) [of d] by (cases "d = c") auto
  then show "y \<in> (\<Union>d \<in> {..<n}. set (Q d)) - {x}" using d(1) by blast
qed

text \<open>The state of \<open>do_item_unlink\<close> in front of the release of the memory.\<close>

lemma unlink_linked_ok:
  assumes inv: "cache_inv e M Q A" and k: "M k = Some it" and q: "Q (cls e it) = as @ it # bs"
  shows "\<exists>e'. do_item_unlink e it = (if refcount (store e' it) = 0 then item_free e' it else Some e') \<and>
    cache_inv e' (M(k := None)) (Q(cls e it := as @ bs)) A \<and>
    (\<forall>x. x \<noteq> it \<longrightarrow> core (store e' x) = core (store e x)) \<and>
    core (store e' it) = (core (store e it))\<lparr>iflag := iflag (store e it) AND NOT ITEM_LINKED\<rparr> \<and>
    env_same e e' \<and> cas_id e' = cas_id e"
proof -
  note D = cache_inv_D [OF inv]
  have r: "it \<in> ran M" using k by (rule ranI)
  have key: "key_of (store e it) = k" using cache_inv_key [OF inv k] by simp
  have c: "cls e it < POWER_LARGEST" using cache_inv_queue [OF inv r] by simp
  define e1 where "e1 = upd_stats (\<lambda>s. s\<lparr>curr_bytes := curr_bytes s - of_nat (ITEM_ntotal e (store e it)), curr_items := curr_items s - 1\<rparr>)
     (upd_item it (\<lambda>i. i\<lparr>iflag := iflag i AND NOT ITEM_LINKED\<rparr>) e)"
  have s1: "store e1 = (store e)(it := (store e it)\<lparr>iflag := iflag (store e it) AND NOT ITEM_LINKED\<rparr>)"
    "srv_hash e1 = srv_hash e" "assoc e1 = assoc e" "items e1 = items e" "slabs e1 = slabs e" "cas_id e1 = cas_id e"
    "env_same e e1" "curr_items (stats e1) = curr_items (stats e) - 1"
    by (simp_all add: e1_def env_same_def upd_stats_def)
  have key1: "key_of (store e1 x) = key_of (store e x)" "item_ok (store e1 x) = item_ok (store e x)" for x
    by (simp_all add: s1 key_of_def item_ok_def)
  have a1: "assoc_inv e1 M" by (rule assoc_inv_cong [OF D(1)]) (simp_all add: key1, simp_all add: s1)
  obtain e2 where e2: "assoc_delete e1 (srv_hash e1 k) k = Some e2" "assoc_inv e2 (M(k := None))" "assoc_frame e1 e2"
    using assoc_delete_ok [OF a1 k] by blast
  note f2 = assoc_frame_D(1) [OF e2(3)] and g2 = assoc_frame_D(2) [OF e2(3)]
  note c2 = core_fields [OF conjunct1 [OF f2]] and k2 = core_key [OF conjunct1 [OF f2]]
  have l2: "lru_inv e2 Q" by (rule lru_inv_cong [OF D(2)]) (simp_all add: g2 s1 f2 c2)
  obtain e3 where e3: "item_unlink_q e2 it = Some e3" "lru_inv e3 (Q(cls e it := as @ bs))" "lru_frame e2 e3"
    using item_unlink_q_ok [OF l2 c q] by blast
  note f3 = lru_frame_D(1) [OF e3(3)] and g3 = lru_frame_D(2) [OF e3(3)]
  note c3 = core_fields [OF conjunct1 [OF f3]] and k3 = core_key [OF conjunct1 [OF f3]]
  have fl: "iflag (store e3 x) = (if x = it then iflag (store e it) AND NOT ITEM_LINKED else iflag (store e x))"
    "clsid (store e3 x) = clsid (store e x)" "item_ok (store e3 x) = item_ok (store e x)"
    "core (store e3 x) = (if x = it then (core (store e it))\<lparr>iflag := iflag (store e it) AND NOT ITEM_LINKED\<rparr> else core (store e x))" for x
    using c3 [of x] k3 [of x] c2 [of x] k2 [of x] f3 [of x] f2 [of x] by (simp_all add: s1 key1 state_simps, simp_all add: item_ok_def)
  have L: "iflag (store e it) AND ITEM_LINKED \<noteq> 0" using D(8) [of it] r by (simp add: state_simps)
  have eq1: "upd_stats (\<lambda>s. s\<lparr>curr_bytes := curr_bytes s - of_nat (ITEM_ntotal (upd_item it (iflag_update (\<lambda>f. f AND NOT ITEM_LINKED)) e)
        (store (upd_item it (iflag_update (\<lambda>f. f AND NOT ITEM_LINKED)) e) it)), curr_items := curr_items s - 1\<rparr>)
      (upd_item it (iflag_update (\<lambda>f. f AND NOT ITEM_LINKED)) e) = e1"
    by (simp add: e1_def upd_stats_def ITEM_ntotal_def state_simps)
  have run: "do_item_unlink e it = (if refcount (store e3 it) = 0 then item_free e3 it else Some e3)"
    unfolding do_item_unlink_def if_P [OF L] Let_def eq1 key1 key using e2(1) e3(1) by simp
  have inj: "M j = Some it \<Longrightarrow> j = k" for j using cache_inv_key [OF inv, of j it] key by simp
  have rn: "ran (M(k := None)) = ran M - {it}" by (rule ran_remove [of M k it, OF k inj])
  have d: "distinct (as @ it # bs)" using D(2) c q by (metis lru_inv_def queue_distinct)
  have "cache_inv e3 (M(k := None)) (Q(cls e it := as @ bs)) A"
  proof (rule cache_invI)
    show "assoc_inv e3 (M(k := None))" by (rule assoc_inv_cong [OF e2(2)]) (simp_all add: g3 f3 k3)
    show "lru_inv e3 (Q(cls e it := as @ bs))" by (rule e3(2))
    show "slabs_inv (slabs e3)" using D(3) by (simp add: g3 g2 s1)
    show "ran (M(k := None)) \<subseteq> A" using rn D(5) by blast
    show "alloc_ok e3 x" if "x \<in> A" for x
      using D(6) [OF that] by (auto simp: alloc_ok_def fl g3 g2 s1 state_simps)
    show "clsid (store e3 x) = 0" if "x \<notin> A" for x using D(7) [OF that] fl by simp
    show "linked e3 x \<longleftrightarrow> x \<in> ran (M(k := None))" for x
      unfolding rn using D(8) [of x] by (simp add: fl state_simps)
    have "card (dom M) = Suc (card (dom (M(k := None))))"
      using D(1) k card_Suc_Diff1 [of "dom M" k] by (simp add: assoc_inv_def domI)
    then show "curr_items (stats e3) = of_nat (card (dom (M(k := None))))"
      using D(9) by (simp add: g3 g2 s1)
    show "ran (M(k := None)) = (\<Union>d \<in> {..<POWER_LARGEST}. set ((Q(cls e it := as @ bs)) d))"
    proof -
      have other: "it \<notin> set (Q x)" if "x < POWER_LARGEST" "x \<noteq> cls e it" for x
        using D(2) that by (auto simp: lru_inv_def queue_def)
      show ?thesis unfolding rn D(4) by (rule union_remove [of "cls e it" _ Q as it bs, OF c q d other])
    qed
  qed
  moreover have "env_same e e3" using s1(7) g2 g3 by (simp add: env_same_def)
  moreover have "cas_id e3 = cas_id e" by (simp add: g3 g2 s1)
  ultimately show ?thesis using run fl(4) by auto
qed

text \<open>
  The effect of unlinking: the key leaves the map and the item its queue; without references the
  item is freed.
\<close>

definition drop_item :: "nat \<Rightarrow> addr \<Rightarrow> (nat \<Rightarrow> addr list) \<Rightarrow> (nat \<Rightarrow> addr list)" where
  "drop_item c x Q = Q(c := remove1 x (Q c))"

definition unlinked_item :: "hash_item \<Rightarrow> hash_item" where
  "unlinked_item it =
     (if refcount it = 0 then freed_item (it\<lparr>iflag := iflag it AND NOT ITEM_LINKED\<rparr>)
      else it\<lparr>iflag := iflag it AND NOT ITEM_LINKED\<rparr>)"

lemma core_freed: "core (freed_item it) = freed_item (core it)"
  by (cases it) (simp add: core_def freed_item_def)

lemma do_item_unlink_ok:
  assumes inv: "cache_inv e M Q A" and k: "M k = Some it"
  shows "\<exists>e'. do_item_unlink e it = Some e' \<and>
    cache_inv e' (M(k := None)) (drop_item (cls e it) it Q) (if refcount (store e it) = 0 then A - {it} else A) \<and>
    (\<forall>x. x \<noteq> it \<longrightarrow> core (store e' x) = core (store e x)) \<and>
    core (store e' it) = unlinked_item (core (store e it)) \<and> env_same e e' \<and> cas_id e' = cas_id e"
proof -
  have r: "it \<in> ran M" using k by (rule ranI)
  have A: "it \<in> A" using cache_inv_D(5) [OF inv] r by blast
  obtain as bs where q: "Q (cls e it) = as @ it # bs" "it \<notin> set as"
    using cache_inv_queue(1) [OF inv r] by (meson split_list_first)
  have dq: "drop_item (cls e it) it Q = Q(cls e it := as @ bs)" by (simp add: drop_item_def q remove1_append)
  obtain e1 where e1: "do_item_unlink e it = (if refcount (store e1 it) = 0 then item_free e1 it else Some e1)"
    "cache_inv e1 (M(k := None)) (drop_item (cls e it) it Q) A" "\<forall>x. x \<noteq> it \<longrightarrow> core (store e1 x) = core (store e x)"
    "core (store e1 it) = (core (store e it))\<lparr>iflag := iflag (store e it) AND NOT ITEM_LINKED\<rparr>" "env_same e e1" "cas_id e1 = cas_id e"
    using unlink_linked_ok [OF inv k q(1)] unfolding dq by blast
  have ci: "refcount (core i) = refcount i" "iflag (core i) = iflag i" for i by (cases i; simp add: core_def)+
  have rc: "refcount (store e1 it) = refcount (store e it)"
    using arg_cong [OF e1(4), of refcount] by (simp add: ci)
  show ?thesis
  proof (cases "refcount (store e it) = 0")
    case True
    have "it \<notin> ran (M(k := None))"
      using k cache_inv_key [OF inv] by (auto simp: ran_def)
    then obtain e2 where e2: "item_free e1 it = Some e2" "cache_inv e2 (M(k := None)) (drop_item (cls e it) it Q) (A - {it})"
      "store e2 = (store e1)(it := freed_item (store e1 it))" "env_same e1 e2" "cas_id e2 = cas_id e1"
      using item_free_ok [OF e1(2) A] True rc by auto
    have "core (store e2 it) = unlinked_item (core (store e it))"
      using True e1(4) by (simp add: e2(3) core_freed unlinked_item_def ci)
    then show ?thesis using e1 e2 True rc env_same_trans [OF e1(5) e2(4)] by simp
  next
    case False
    then show ?thesis using e1 rc by (simp add: unlinked_item_def ci)
  qed
qed

section \<open>References\<close>

text \<open>A change to an item that concerns neither its place nor its flags keeps the invariant.\<close>

lemma cache_inv_touch:
  assumes inv: "cache_inv e M Q A" and s: "store e' = (store e)(it := i)"
    and i: "it_next i = it_next (store e it)" "it_prev i = it_prev (store e it)" "h_next i = h_next (store e it)"
      "clsid i = clsid (store e it)" "iflag i = iflag (store e it)" "nkey i = nkey (store e it)" "it_key i = it_key (store e it)"
    and e: "assoc e' = assoc e" "items e' = items e" "slabs e' = slabs e" "srv_hash e' = srv_hash e" "curr_items (stats e') = curr_items (stats e)"
  shows "cache_inv e' M Q A"
proof (rule cache_invI)
  note D = cache_inv_D [OF inv]
  have ko: "key_of (store e' x) = key_of (store e x) \<and> item_ok (store e' x) = item_ok (store e x)" for x
    by (simp add: s i key_of_def item_ok_def)
  show "assoc_inv e' M" by (rule assoc_inv_cong [OF D(1)]) (simp_all add: e s i ko, simp_all add: i key_of_def item_ok_def)
  show "lru_inv e' Q" by (rule lru_inv_cong [OF D(2)]) (simp_all add: e s i)
  show "slabs_inv (slabs e')" using D(3) by (simp add: e)
  show "ran M = (\<Union>c \<in> {..<POWER_LARGEST}. set (Q c))" by (rule D(4))
  show "ran M \<subseteq> A" by (rule D(5))
  have cl: "clsid (store e' x) = clsid (store e x)" "iflag (store e' x) = iflag (store e x)" for x by (simp_all add: s i)
  show "alloc_ok e' x" if "x \<in> A" for x using D(6) [OF that] ko [of x] unfolding alloc_ok_def by (simp add: cl e)
  show "clsid (store e' x) = 0" if "x \<notin> A" for x using D(7) [OF that] by (simp add: cl)
  show "linked e' x \<longleftrightarrow> x \<in> ran M" for x using D(8) [of x] D(8) [of it] by (simp add: s i)
  show "curr_items (stats e') = of_nat (card (dom M))" using D(9) by (simp add: e)
qed

lemma do_item_release_ok:
  assumes inv: "cache_inv e M Q A" and it: "it \<in> A"
  shows "\<exists>e'. do_item_release e it = Some e' \<and>
    cache_inv e' M Q (if refcount (store e it) \<le> 1 \<and> it \<notin> ran M then A - {it} else A) \<and>
    (\<forall>x. x \<noteq> it \<longrightarrow> store e' x = store e x) \<and> env_same e e' \<and> cas_id e' = cas_id e \<and>
    (refcount (store e it) > 1 \<or> it \<in> ran M \<longrightarrow> store e' it =
       (store e it)\<lparr>refcount := if refcount (store e it) = 0 then 0 else refcount (store e it) - 1\<rparr>)"
proof -
  let ?r = "if refcount (store e it) = 0 then 0 else refcount (store e it) - 1"
  define e1 where "e1 = (if refcount (store e it) \<noteq> 0 then upd_item it (refcount_update (\<lambda>r. r - 1)) e else e)"
  have it1: "store e1 it = (store e it)\<lparr>refcount := ?r\<rparr>"
    by (cases "store e it") (simp add: e1_def state_simps)
  have st1: "store e1 = (store e)(it := (store e it)\<lparr>refcount := ?r\<rparr>)"
    using it1 by (auto simp: e1_def fun_eq_iff)
  have o1: "assoc e1 = assoc e" "items e1 = items e" "slabs e1 = slabs e" "srv_hash e1 = srv_hash e" "stats e1 = stats e"
    "env_same e e1" "cas_id e1 = cas_id e"
    by (simp_all add: e1_def env_same_def)
  have i1: "cache_inv e1 M Q A" by (rule cache_inv_touch [OF inv st1]) (simp_all add: o1)
  have run: "do_item_release e it = (if ?r = 0 \<and> it \<notin> ran M then item_free e1 it else Some e1)"
    using cache_inv_D(8) [OF i1, of it] it1 unfolding do_item_release_def Let_def e1_def [symmetric]
    by (simp add: state_simps)
  have r1: "?r = 0 \<longleftrightarrow> refcount (store e it) \<le> 1"
    by (auto simp: word_le_nat_alt word_less_nat_alt unat_eq_zero) (metis One_nat_def le_0_eq le_Suc_eq right_minus_eq unat_1 unat_eq_zero word_unat_eq_iff)+
  show ?thesis
  proof (cases "?r = 0 \<and> it \<notin> ran M")
    case True
    then obtain e2 where "item_free e1 it = Some e2" "cache_inv e2 M Q (A - {it})"
      "store e2 = (store e1)(it := freed_item (store e1 it))" "env_same e1 e2" "cas_id e2 = cas_id e1"
      using item_free_ok [OF i1 it] it1 by auto
    then show ?thesis using True r1 run o1 st1 by (auto simp: env_same_def)
  next
    case False
    then show ?thesis using run i1 r1 o1 st1 by auto
  qed
qed

section \<open>Lookup\<close>

text \<open>Only the items of \<open>S\<close> change, apart from links.\<close>

definition same_except :: "addr set \<Rightarrow> default_engine \<Rightarrow> default_engine \<Rightarrow> bool" where
  "same_except S e e' \<longleftrightarrow> (\<forall>x. x \<notin> S \<longrightarrow> core (store e' x) = core (store e x)) \<and> env_same e e'"

lemma same_except_trans: "same_except S e e' \<Longrightarrow> same_except T e' e'' \<Longrightarrow> S \<subseteq> U \<Longrightarrow> T \<subseteq> U \<Longrightarrow> same_except U e e''"
  unfolding same_except_def using env_same_trans by (metis subsetD)

lemma same_except_refl [simp]: "same_except S e e"
  by (simp add: same_except_def)

text \<open>The time stamp of an item of the cache after a lookup: renewed unless it is recent.\<close>

definition touched_time :: "default_engine \<Rightarrow> hash_item \<Rightarrow> u32" where
  "touched_time e it = (if it_time it < current_time e - ITEM_UPDATE_INTERVAL then current_time e else it_time it)"

lemma do_item_update_ok:
  assumes inv: "cache_inv e M Q A" and it: "it \<in> A"
  shows "\<exists>e' Q' t. do_item_update e it = Some e' \<and> cache_inv e' M Q' A \<and> same_except {it} e e' \<and>
    core (store e' it) = (core (store e it))\<lparr>it_time := t\<rparr> \<and> cas_id e' = cas_id e \<and>
    (it \<in> ran M \<longrightarrow> t = touched_time e (store e it))"
proof -
  note D = cache_inv_D [OF inv]
  have sl: "\<not> slabbed e it" using D(6) [OF it] by (simp add: alloc_ok_def)
  have tr: "(core i)\<lparr>it_time := it_time i\<rparr> = core i" for i by (cases i) (simp add: core_def)
  show ?thesis
  proof (cases "it_time (store e it) < current_time e - ITEM_UPDATE_INTERVAL \<and> it \<in> ran M")
    case False
    then have "do_item_update e it = Some e" using D(8) [of it] sl by (auto simp: do_item_update_def state_simps)
    then show ?thesis using inv tr False by (intro exI [of _ e] exI [of _ Q] exI [of _ "it_time (store e it)"]) (auto simp: touched_time_def)
  next
    case True
    let ?c = "cls e it"
    have c: "?c < POWER_LARGEST" using cache_inv_queue [OF inv] True by blast
    obtain as bs where q: "Q ?c = as @ it # bs"
      using cache_inv_queue(1) [OF inv] True by (meson split_list)
    obtain e1 where e1: "item_unlink_q e it = Some e1" "lru_inv e1 (Q(?c := as @ bs))" "lru_frame e e1"
      using item_unlink_q_ok [OF D(2) c q] by blast
    note f1 = lru_frame_D(1) [OF e1(3)] and g1 = lru_frame_D(2) [OF e1(3)]
    note c1 = core_fields [OF conjunct1 [OF f1]] and k1 = core_key [OF conjunct1 [OF f1]]
    define e2 where "e2 = upd_item it (it_time_update (\<lambda>_. current_time e1)) e1"
    have l2: "lru_inv e2 (Q(?c := as @ bs))" by (rule lru_inv_cong [OF e1(2)]) (simp_all add: e2_def)
    have d: "distinct (as @ it # bs)" using D(2) c q by (metis lru_inv_def queue_distinct)
    have other: "it \<notin> set (Q x)" if "x < POWER_LARGEST" "x \<noteq> ?c" for x
      using D(2) that by (auto simp: lru_inv_def queue_def)
    have "it \<noteq> NULL" using D(6) [OF it] by (simp add: alloc_ok_def)
    moreover have "\<forall>x < POWER_LARGEST. it \<notin> set ((Q(?c := as @ bs)) x)" using d other by simp
    moreover have "?c = unat (clsid (store e2 it))" by (simp add: e2_def c1)
    moreover have "iflag (store e2 it) AND ITEM_SLABBED = 0" using sl by (simp add: e2_def c1 state_simps)
    ultimately obtain e3 where e3: "item_link_q e2 it = Some e3" "lru_inv e3 (Q(?c := it # as @ bs))" "lru_frame e2 e3"
      using item_link_q_ok [OF l2, of it ?c] c by auto
    note f3 = lru_frame_D(1) [OF e3(3)] and g3 = lru_frame_D(2) [OF e3(3)]
    note c3 = core_fields [OF conjunct1 [OF f3]] and k3 = core_key [OF conjunct1 [OF f3]]
    have run: "do_item_update e it = Some e3"
      using True D(8) [of it] sl e1(1) e3(1) by (simp add: do_item_update_def state_simps e2_def)
    have core3: "core (store e3 x) = (if x = it then (core (store e it))\<lparr>it_time := current_time e1\<rparr> else core (store e x))" for x
      using f3 [of x] f1 [of x] by (cases "x = it") (simp_all add: e2_def state_simps)
    have fl: "iflag (store e3 x) = iflag (store e x)" "clsid (store e3 x) = clsid (store e x)" "item_ok (store e3 x) = item_ok (store e x)"
      "key_of (store e3 x) = key_of (store e x)" "h_next (store e3 x) = h_next (store e x)" for x
      using c3 [of x] c1 [of x] f3 [of x] f1 [of x]
      by (cases "x = it"; simp add: e2_def item_ok_def key_of_def)+
    have o: "slabs e3 = slabs e" "assoc e3 = assoc e" "srv_hash e3 = srv_hash e" "stats e3 = stats e" "cas_id e3 = cas_id e" "env_same e e3"
      using g1 g3 by (simp_all add: e2_def env_same_def)
    have "cache_inv e3 M (Q(?c := it # as @ bs)) A"
    proof (rule cache_invI)
      show "assoc_inv e3 M" by (rule assoc_inv_cong [OF D(1)]) (simp_all add: o fl)
      show "ran M = (\<Union>x \<in> {..<POWER_LARGEST}. set ((Q(?c := it # as @ bs)) x))"
      proof -
        have "set ((Q(?c := it # as @ bs)) x) = set (Q x)" for x using q by (cases "x = ?c") auto
        then show ?thesis unfolding D(4) by simp
      qed
      show "alloc_ok e3 x" if "x \<in> A" for x using D(6) [OF that] by (simp add: alloc_ok_def o fl)
      show "clsid (store e3 x) = 0" if "x \<notin> A" for x using D(7) [OF that] fl by simp
      show "linked e3 x \<longleftrightarrow> x \<in> ran M" for x using D(8) [of x] by (simp add: fl)
    qed (use e3(2) D(3,5,9) in \<open>simp_all add: o\<close>)
    moreover have "current_time e1 = touched_time e (store e it)" using True g1 by (simp add: touched_time_def env_same_def)
    ultimately show ?thesis using run core3 o
      by (intro exI [of _ e3] exI [of _ "Q(?c := it # as @ bs)"] exI [of _ "current_time e1"]) (simp add: same_except_def)
  qed
qed

text \<open>An item is dead once it is flushed or has expired; \<open>live\<close> is what a lookup may return.\<close>

definition dead :: "default_engine \<Rightarrow> hash_item \<Rightarrow> bool" where
  "dead e it \<longleftrightarrow> flushed e it \<or> (exptime it \<noteq> 0 \<and> exptime it \<le> current_time e)"

definition live :: "default_engine \<Rightarrow> (bytes \<rightharpoonup> addr) \<Rightarrow> bytes \<Rightarrow> addr option" where
  "live e M k = (case M k of None \<Rightarrow> None | Some x \<Rightarrow> if dead e (store e x) then None else Some x)"

lemma do_item_get_ok:
  assumes inv: "cache_inv e M Q A"
  shows "\<exists>e' Q' A'. do_item_get e k = Some (e', case live e M k of None \<Rightarrow> NULL | Some x \<Rightarrow> x) \<and>
    cache_inv e' (if live e M k = None then M(k := None) else M) Q' A' \<and>
    A' \<subseteq> A \<and> A - A' \<subseteq> set_option (M k) \<and> (live e M k \<noteq> None \<longrightarrow> A' = A) \<and>
    same_except (set_option (M k)) e e' \<and> cas_id e' = cas_id e \<and>
    (\<forall>x. live e M k = Some x \<longrightarrow>
       core (store e' x) = (core (store e x))\<lparr>it_time := touched_time e (store e x), refcount := refcount (store e x) + 1\<rparr>)"
proof (cases "M k")
  case None
  then have "do_item_get e k = Some (e, NULL)" "M(k := None) = M"
    using ht.find_law [OF cache_inv_D(1) [OF inv], of k] by (auto simp: do_item_get_def)
  then show ?thesis using inv None
    by (intro exI [of _ e] exI [of _ Q] exI [of _ A]) (simp add: live_def)
next
  case (Some x)
  have find: "assoc_find e (srv_hash e k) k = Some x"
    using ht.find_law [OF cache_inv_D(1) [OF inv], of k] Some by simp
  have x: "x \<noteq> NULL" "x \<in> A" using cache_inv_key [OF inv Some] by auto
  show ?thesis
  proof (cases "dead e (store e x)")
    case True
    obtain e' where e': "do_item_unlink e x = Some e'"
      "cache_inv e' (M(k := None)) (drop_item (cls e x) x Q) (if refcount (store e x) = 0 then A - {x} else A)"
      "\<forall>y. y \<noteq> x \<longrightarrow> core (store e' y) = core (store e y)" "env_same e e'" "cas_id e' = cas_id e"
      using do_item_unlink_ok [OF inv Some] by blast
    have "do_item_get e k = Some (e', NULL)"
      using find x(1) True e'(1) by (auto simp: do_item_get_def dead_def)
    then show ?thesis
      using e' Some True by (intro exI [of _ e'] exI [of _ "drop_item (cls e x) x Q"]
          exI [of _ "if refcount (store e x) = 0 then A - {x} else A"]) (auto simp: live_def same_except_def)
  next
    case False
    define e1 where "e1 = upd_item x (\<lambda>i. i\<lparr>refcount := refcount i + 1\<rparr>) e"
    have st1: "store e1 = (store e)(x := (store e x)\<lparr>refcount := refcount (store e x) + 1\<rparr>)" by (simp add: e1_def)
    have i1: "cache_inv e1 M Q A" by (rule cache_inv_touch [OF inv st1]) (simp_all add: e1_def)
    have "touched_time e1 (store e1 x) = touched_time e (store e x)" by (simp add: touched_time_def e1_def)
    then obtain e2 Q' where e2: "do_item_update e1 x = Some e2" "cache_inv e2 M Q' A" "same_except {x} e1 e2"
      "core (store e2 x) = (core (store e1 x))\<lparr>it_time := touched_time e (store e x)\<rparr>" "cas_id e2 = cas_id e1"
      using do_item_update_ok [OF i1 x(2)] Some by (metis ranI)
    have "do_item_get e k = Some (e2, x)"
      using find x(1) False e2(1) by (auto simp: do_item_get_def dead_def e1_def state_simps)
    moreover have "same_except {x} e e2"
      using e2(3) by (simp add: same_except_def e1_def env_same_def)
    moreover have "core (store e2 x) = (core (store e x))\<lparr>it_time := touched_time e (store e x), refcount := refcount (store e x) + 1\<rparr>"
      using e2(4) by (simp add: st1 state_simps)
    ultimately show ?thesis
      using e2 Some False by (intro exI [of _ e2] exI [of _ Q'] exI [of _ A]) (auto simp: live_def e1_def)
  qed
qed

section \<open>Storing an item\<close>

lemma do_item_replace_ok:
  assumes inv: "cache_inv e M Q A" and old: "M k = Some old" "refcount (store e old) \<noteq> 0"
    and it: "it \<in> A" "it \<notin> ran M" "key_of (store e it) = k" "nbytes (store e it) < 1024 * 1024"
  shows "\<exists>e' Q'. do_item_replace e old it = Some e' \<and> cache_inv e' (M(k \<mapsto> it)) Q' A \<and> same_except {old, it} e e' \<and>
    refcount (store e' old) = refcount (store e old) \<and>
    core (store e' it) = (core (store e it))\<lparr>iflag := iflag (store e it) OR ITEM_LINKED, it_time := current_time e,
      it_cas := if bit (iflag (store e it)) 0 then cas_id e + 1 else it_cas (store e it)\<rparr> \<and> cas_id e' = cas_id e + 1"
proof -
  have oA: "old \<in> A" "old \<noteq> it" using cache_inv_key [OF inv old(1)] ranI [of M k old] old(1) it(2) by metis+
  have sl: "\<not> slabbed e old" using cache_inv_D(6) [OF inv oA(1)] by (simp add: alloc_ok_def)
  obtain e1 where e1: "do_item_unlink e old = Some e1" "cache_inv e1 (M(k := None)) (drop_item (cls e old) old Q) A"
    "\<forall>x. x \<noteq> old \<longrightarrow> core (store e1 x) = core (store e x)" "core (store e1 old) = unlinked_item (core (store e old))" "env_same e e1" "cas_id e1 = cas_id e"
    using do_item_unlink_ok [OF inv old(1)] unfolding if_not_P [OF old(2)] by blast
  have ci: "core (store e1 it) = core (store e it)" using e1(3) oA by simp
  note cf = core_fields [OF ci] and ck = core_key [OF ci]
  have nr: "it \<notin> ran (M(k := None))" using it(2) by (auto simp: ran_def split: if_splits)
  have k1: "k = key_of (store e1 it)" "(M(k := None)) k = None" "nbytes (store e1 it) < 1024 * 1024"
    using it(3,4) cf ck by simp_all
  obtain e2 Q2 where e2: "do_item_link e1 it = Some e2" "cache_inv e2 ((M(k := None))(k \<mapsto> it)) Q2 A"
    "\<forall>x. x \<noteq> it \<longrightarrow> core (store e2 x) = core (store e1 x)"
    "core (store e2 it) = (core (store e1 it))\<lparr>iflag := iflag (store e1 it) OR ITEM_LINKED, it_time := current_time e1,
      it_cas := if bit (iflag (store e1 it)) 0 then cas_id e1 + 1 else it_cas (store e1 it)\<rparr>" "env_same e1 e2" "cas_id e2 = cas_id e1 + 1"
    using do_item_link_ok [OF e1(2) it(1) nr k1 refl] by blast
  have cr: "refcount (core i) = refcount i" for i by (cases i) (simp add: core_def)
  have "refcount (store e2 old) = refcount (store e old)"
    using e2(3) oA(2) arg_cong [OF e1(4), of refcount] core_fields [of "store e2 old" "store e1 old"]
    by (simp add: cr unlinked_item_def freed_item_def split: if_splits)
  moreover have "do_item_replace e old it = Some e2"
    using e1(1) e2(1) sl by (simp add: do_item_replace_def state_simps)
  moreover have "same_except {old, it} e e2"
    using e1(3,5) e2(3,5) env_same_trans by (auto simp: same_except_def)
  moreover have "current_time e1 = current_time e" using e1(5) by (simp add: env_same_def)
  moreover have "(M(k := None))(k \<mapsto> it) = M(k \<mapsto> it)" by simp
  ultimately show ?thesis using e2(2,4,6) ci cf e1(6) by (intro exI [of _ e2] exI [of _ Q2]) simp
qed

text \<open>The status of a storage command; \<open>old\<close> says whether the key has a live item.\<close>

fun store_status :: "ENGINE_STORE_OPERATION \<Rightarrow> bool \<Rightarrow> bool \<Rightarrow> ENGINE_ERROR_CODE" where
  "store_status OPERATION_ADD old cas_eq = (if old then ENGINE_NOT_STORED else ENGINE_SUCCESS)"
| "store_status OPERATION_SET old cas_eq = ENGINE_SUCCESS"
| "store_status OPERATION_REPLACE old cas_eq = (if old then ENGINE_SUCCESS else ENGINE_NOT_STORED)"
| "store_status OPERATION_CAS old cas_eq =
     (if \<not> old then ENGINE_KEY_ENOENT else if cas_eq then ENGINE_SUCCESS else ENGINE_KEY_EEXISTS)"
| "store_status _ old cas_eq = (if old then ENGINE_SUCCESS else ENGINE_NOT_STORED)"

lemma release_opt_NULL [simp]: "release_opt e NULL = Some e"
  by (simp add: release_opt_def)

lemma item_get_cas_core: "core a = core b \<Longrightarrow> item_get_cas a = item_get_cas b"
  using core_fields [of a b] by (simp add: item_get_cas_def)

text \<open>Releasing the reference to the old item at the end of a command.\<close>

lemma finish_store_ok:
  assumes inv: "cache_inv e M Q A" and old: "old \<in> A" "old \<noteq> it" "old \<noteq> NULL" and it: "it \<in> A"
  shows "\<exists>e' A'. finish_store e old NULL it st =
      Some (e', st, if st = ENGINE_SUCCESS then Some (item_get_cas (store e it)) else None) \<and>
    cache_inv e' M Q A' \<and> it \<in> A' \<and> A' \<subseteq> A \<and> A - A' \<subseteq> {old} - ran M \<and> same_except {old} e e' \<and> store e' it = store e it"
proof -
  obtain e' where e': "do_item_release e old = Some e'"
    "cache_inv e' M Q (if refcount (store e old) \<le> 1 \<and> old \<notin> ran M then A - {old} else A)"
    "\<forall>x. x \<noteq> old \<longrightarrow> store e' x = store e x" "env_same e e'"
    using do_item_release_ok [OF inv old(1)] by blast
  have "store e' it = store e it" using e'(3) old(2) by simp
  then show ?thesis
    using e' old it by (intro exI [of _ e'] exI [of _ "if refcount (store e old) \<le> 1 \<and> old \<notin> ran M then A - {old} else A"])
      (auto simp: finish_store_def release_opt_def same_except_def)
qed

text \<open>What a storage command does to the item it is given.\<close>

definition stored_item :: "default_engine \<Rightarrow> hash_item \<Rightarrow> hash_item" where
  "stored_item e it = it\<lparr>iflag := iflag it OR ITEM_LINKED, it_time := current_time e,
     it_cas := if bit (iflag it) 0 then cas_id e + 1 else it_cas it\<rparr>"

lemma stored_item_D: "item_data (stored_item e it) = item_data it" "exptime (stored_item e it) = exptime it"
  "it_flags (stored_item e it) = it_flags it" "key_of (stored_item e it) = key_of it"
  "bit (iflag it) 0 \<Longrightarrow> item_get_cas (stored_item e it) = cas_id e + 1"
  by (simp_all add: stored_item_def item_data_def key_of_def item_get_cas_def state_simps)

lemma stored_item_core:
  "stored_item e (core it) = (core it)\<lparr>iflag := iflag it OR ITEM_LINKED, it_time := current_time e,
     it_cas := if bit (iflag it) 0 then cas_id e + 1 else it_cas it\<rparr>"
  by (simp add: stored_item_def core_def)

lemma core_stored: "core (stored_item e it) = stored_item e (core it)"
  by (cases it) (simp add: core_def stored_item_def)

lemma stored_item_env: "env_same e e' \<Longrightarrow> cas_id e' = cas_id e \<Longrightarrow> stored_item e' it = stored_item e it"
  by (simp add: stored_item_def env_same_def)

definition store_post ::
  "default_engine \<Rightarrow> addr \<Rightarrow> (bytes \<rightharpoonup> addr) \<Rightarrow> addr set \<Rightarrow> ENGINE_ERROR_CODE \<Rightarrow> (bytes \<rightharpoonup> addr) \<Rightarrow>
   (default_engine \<times> ENGINE_ERROR_CODE \<times> u64 option) option \<Rightarrow> bool" where
  "store_post e it M A st M' r \<longleftrightarrow>
     (\<exists>e' Q' A'. r = Some (e', st, if st = ENGINE_SUCCESS then Some (item_get_cas (store e' it)) else None) \<and>
        cache_inv e' M' Q' A' \<and> it \<in> A' \<and> A' \<subseteq> A \<and> A - A' \<subseteq> set_option (M (key_of (store e it))) \<and>
        same_except (insert it (set_option (M (key_of (store e it))))) e e' \<and>
        core (store e' it) = core (if st = ENGINE_SUCCESS then stored_item e (store e it) else store e it))"

lemma store_miss:
  assumes inv: "cache_inv e M Q A" and it: "it \<in> A" "it \<notin> ran M" "nbytes (store e it) < 1024 * 1024"
    and k: "k = key_of (store e it)" and l: "live e M k = None" and op: "op \<notin> {OPERATION_APPEND, OPERATION_PREPEND}"
    and st: "st = store_status op False cas_eq"
  shows "store_post e it M A st (if st = ENGINE_SUCCESS then M(k \<mapsto> it) else M(k := None)) (do_store_item e it op)"
proof -
  obtain e1 Q1 A1 where e1: "do_item_get e k = Some (e1, NULL)" "cache_inv e1 (M(k := None)) Q1 A1"
    "A1 \<subseteq> A" "A - A1 \<subseteq> set_option (M k)" "same_except (set_option (M k)) e e1" "cas_id e1 = cas_id e"
    using do_item_get_ok [OF inv, of k] l by auto
  have nk: "it \<notin> set_option (M k)" using it(2) by (auto simp: ran_def elem_set)
  have A1: "it \<in> A1" using it(1) nk e1(4) by blast
  have ci: "core (store e1 it) = core (store e it)" using e1(5) nk by (simp add: same_except_def)
  note cf = core_fields [OF ci] and ck = core_key [OF ci]
  have env: "env_same e e1" using e1(5) by (simp add: same_except_def)
  have get: "do_item_get e (key_of (store e it)) = Some (e1, NULL)" using e1(1) k by simp
  show ?thesis
  proof (cases "op = OPERATION_ADD \<or> op = OPERATION_SET")
    case True
    then have S: "st = ENGINE_SUCCESS" using st by auto
    have nr: "it \<notin> ran (M(k := None))" using it(2) by (auto simp: ran_def split: if_splits)
    have k1: "k = key_of (store e1 it)" "(M(k := None)) k = None" "nbytes (store e1 it) < 1024 * 1024"
      using it(3) cf ck k by simp_all
    obtain e2 Q2 where e2: "do_item_link e1 it = Some e2" "cache_inv e2 ((M(k := None))(k \<mapsto> it)) Q2 A1"
      "\<forall>x. x \<noteq> it \<longrightarrow> core (store e2 x) = core (store e1 x)"
      "core (store e2 it) = stored_item e1 (core (store e1 it))" "env_same e1 e2"
      using do_item_link_ok [OF e1(2) A1 nr k1 refl] unfolding stored_item_core by blast
    have run: "do_store_item e it op = Some (e2, st, Some (item_get_cas (store e2 it)))"
      using True e2(1) by (auto simp: do_store_item_def get link_or_replace_def finish_store_def S)
    have "core (store e2 it) = core (stored_item e (store e it))"
      using e2(4) ci stored_item_env [OF env e1(6)] by (simp add: core_stored)
    moreover have "same_except (insert it (set_option (M k))) e e2"
      using e1(5) e2(3,5) env_same_trans by (auto simp: same_except_def)
    moreover have "(M(k := None))(k \<mapsto> it) = M(k \<mapsto> it)" by simp
    ultimately show ?thesis unfolding store_post_def
      using run e2(2) A1 e1(3,4) S k by (intro exI [of _ e2] exI [of _ Q2] exI [of _ A1]) simp
  next
    case False
    then have S: "st \<noteq> ENGINE_SUCCESS" "op = OPERATION_REPLACE \<or> op = OPERATION_CAS" using st op by (cases op; auto)+
    have run: "do_store_item e it op = Some (e1, st, None)"
      using S(2) st by (auto simp: do_store_item_def get finish_store_def)
    have "same_except (insert it (set_option (M k))) e e1"
      using e1(5) by (auto simp: same_except_def)
    then show ?thesis unfolding store_post_def
      using run e1(2,3,4) A1 ci S k by (intro exI [of _ e1] exI [of _ Q1] exI [of _ A1]) simp
  qed
qed

lemma store_hit:
  assumes inv: "cache_inv e M Q A" and it: "it \<in> A" "it \<notin> ran M" "nbytes (store e it) < 1024 * 1024"
    and k: "k = key_of (store e it)" and l: "live e M k = Some old" and op: "op \<notin> {OPERATION_APPEND, OPERATION_PREPEND}"
    and rc: "refcount (store e old) \<noteq> 65535"
    and st: "st = store_status op True (item_get_cas (store e it) = item_get_cas (store e old))"
  shows "store_post e it M A st (if st = ENGINE_SUCCESS then M(k \<mapsto> it) else M) (do_store_item e it op)"
proof -
  have old: "M k = Some old" using l by (auto simp: live_def split: option.splits if_splits)
  have oA: "old \<in> A" "old \<noteq> it" "old \<noteq> NULL"
    using cache_inv_key [OF inv old] ranI [of M k old] old it(2) by metis+
  obtain e1 Q1 t where e1: "do_item_get e k = Some (e1, old)" "cache_inv e1 M Q1 A" "same_except {old} e e1" "cas_id e1 = cas_id e"
    "core (store e1 old) = (core (store e old))\<lparr>it_time := t, refcount := refcount (store e old) + 1\<rparr>"
    using do_item_get_ok [OF inv, of k] l old by auto
  have ci: "core (store e1 it) = core (store e it)" using e1(3) oA by (simp add: same_except_def)
  note cf = core_fields [OF ci] and ck = core_key [OF ci]
  have env: "env_same e e1" using e1(3) by (simp add: same_except_def)
  have get: "do_item_get e (key_of (store e it)) = Some (e1, old)" using e1(1) k by simp
  have so: "iflag (core i) = iflag i" "it_cas (core i) = it_cas i" "refcount (core i) = refcount i" for i by (cases i; simp add: core_def)+
  have cas: "item_get_cas (store e1 old) = item_get_cas (store e old)"
    using arg_cong [OF e1(5), of iflag] arg_cong [OF e1(5), of it_cas] by (simp add: so item_get_cas_def)
  have casi: "item_get_cas (store e1 it) = item_get_cas (store e it)" by (rule item_get_cas_core [OF ci])
  have rc1: "refcount (store e1 old) \<noteq> 0"
  proof -
    have r1: "refcount (store e1 old) = refcount (store e old) + 1" using arg_cong [OF e1(5), of refcount] by (simp add: so)
    have "refcount (store e old) + 1 = 0 \<Longrightarrow> refcount (store e old) = 65535"
      by (simp add: eq_neg_iff_add_eq_0 [symmetric])
    then show ?thesis using r1 rc by auto
  qed
  let ?S = "insert it (set_option (M k))"
  have sub: "{old} \<subseteq> ?S" "{old, it} \<subseteq> ?S" using old by auto
  have fin: "store_post e it M A st N (finish_store e2 old NULL it st)"
    if f: "cache_inv e2 N Q2 A" "same_except ?S e e2" "core (store e2 it) = core (if st = ENGINE_SUCCESS then stored_item e (store e it) else store e it)"
    for e2 N Q2
  proof -
    obtain e3 A3 where e3: "finish_store e2 old NULL it st = Some (e3, st, if st = ENGINE_SUCCESS then Some (item_get_cas (store e2 it)) else None)"
      "cache_inv e3 N Q2 A3" "it \<in> A3" "A3 \<subseteq> A" "A - A3 \<subseteq> {old} - ran N" "same_except {old} e2 e3" "store e3 it = store e2 it"
      using finish_store_ok [OF f(1) oA it(1), of st] by blast
    have "same_except ?S e e3" by (rule same_except_trans [OF f(2) e3(6) subset_refl sub(1)])
    then show ?thesis unfolding store_post_def
      using e3 f(3) old k by (intro exI [of _ e3] exI [of _ Q2] exI [of _ A3]) auto
  qed
  have se1: "same_except ?S e e1" using e1(3) sub(1) by (auto simp: same_except_def)
  have replace: "\<exists>e2 Q2. do_item_replace e1 old it = Some e2 \<and> cache_inv e2 (M(k \<mapsto> it)) Q2 A \<and> same_except ?S e e2 \<and>
      core (store e2 it) = core (stored_item e (store e it))"
  proof -
    have k1: "key_of (store e1 it) = k" "nbytes (store e1 it) < 1024 * 1024" using it(3) cf ck k by simp_all
    obtain e2 Q2 where e2: "do_item_replace e1 old it = Some e2" "cache_inv e2 (M(k \<mapsto> it)) Q2 A" "same_except {old, it} e1 e2"
      "core (store e2 it) = stored_item e1 (core (store e1 it))"
      using do_item_replace_ok [OF e1(2) old rc1 it(1,2) k1] unfolding stored_item_core by blast
    have "core (store e2 it) = core (stored_item e (store e it))"
      using e2(4) ci stored_item_env [OF env e1(4)] by (simp add: core_stored)
    then show ?thesis using e2 same_except_trans [OF se1 e2(3) subset_refl sub(2)] by blast
  qed
  have keep: "store_post e it M A st M (finish_store e1 old NULL it st)" if "st \<noteq> ENGINE_SUCCESS"
    using that fin [OF e1(2) se1] ci by simp
  consider (add) "op = OPERATION_ADD" | (set) "op = OPERATION_SET \<or> op = OPERATION_REPLACE" | (cas) "op = OPERATION_CAS"
    using op by (cases op) auto
  then show ?thesis
  proof cases
    case add
    obtain e2 Q2 where e2: "do_item_update e1 old = Some e2" "cache_inv e2 M Q2 A" "same_except {old} e1 e2"
      using do_item_update_ok [OF e1(2) oA(1)] by blast
    have "core (store e2 it) = core (store e it)" using e2(3) ci oA(2) by (simp add: same_except_def)
    then have "store_post e it M A st M (finish_store e2 old NULL it st)"
      using fin [OF e2(2) same_except_trans [OF se1 e2(3) subset_refl sub(1)]] add st by simp
    then show ?thesis using add st e2(1) oA(3) by (simp add: do_store_item_def get)
  next
    case set
    obtain e2 Q2 where e2: "do_item_replace e1 old it = Some e2" "cache_inv e2 (M(k \<mapsto> it)) Q2 A" "same_except ?S e e2"
      "core (store e2 it) = core (stored_item e (store e it))" using replace by blast
    have S: "st = ENGINE_SUCCESS" using set st by auto
    have "store_post e it M A st (M(k \<mapsto> it)) (finish_store e2 old NULL it st)" using fin [OF e2(2,3)] e2(4) S by simp
    then show ?thesis using set S e2(1) oA(3) by (auto simp: do_store_item_def get link_or_replace_def)
  next
    case cas
    show ?thesis
    proof (cases "item_get_cas (store e it) = item_get_cas (store e old)")
      case True
      obtain e2 Q2 where e2: "do_item_replace e1 old it = Some e2" "cache_inv e2 (M(k \<mapsto> it)) Q2 A" "same_except ?S e e2"
        "core (store e2 it) = core (stored_item e (store e it))" using replace by blast
      have S: "st = ENGINE_SUCCESS" using cas st True by auto
      have "store_post e it M A st (M(k \<mapsto> it)) (finish_store e2 old NULL it st)" using fin [OF e2(2,3)] e2(4) S by simp
      then show ?thesis using cas S e2(1) oA(3) True \<open>item_get_cas (store e1 old) = _\<close> casi by (simp add: do_store_item_def get)
    next
      case False
      then have S: "st = ENGINE_KEY_EEXISTS" using cas st by auto
      then show ?thesis using keep cas oA(3) False \<open>item_get_cas (store e1 old) = _\<close> casi by (simp add: do_store_item_def get)
    qed
  qed
qed

section \<open>Properties\<close>

text \<open>
  A sample cache: the tables and queues are empty, the slab class 1 has its first page in use for two
  items that a client holds.
\<close>

definition cache_item :: "u8 \<Rightarrow> u64 \<Rightarrow> bytes \<Rightarrow> hash_item" where
  "cache_item b cas d = \<lparr>it_next = NULL, it_prev = NULL, h_next = NULL, it_time = 0, exptime = 0, nbytes = of_nat (length d),
     it_flags = 0, nkey = 1, iflag = 1, refcount = 1, clsid = 1, it_cas = cas, it_key = [b], it_data = d\<rparr>"

definition cache_class :: slabclass_t where
  "cache_class = \<lparr>sc_size = 128, perslab = 8, slots = [], sl_total = 0, sl_curr = 0, end_page_ptr = 4096 + 256, end_page_free = 6,
     slabs_cnt = 1, slab_list = 4096 # replicate 15 NULL, list_size = 16, requested = 256\<rparr>"

definition cache_slabs :: slabs_st where
  "cache_slabs = \<lparr>slabclass = (replicate MAX_NUMBER_OF_SLAB_CLASSES cache_class)[1 := cache_class], mem_limit = 0, mem_malloced = 1024,
     power_largest = 1, mem_base = NULL, mem_current = NULL, mem_avail = 0, malloc_q = [], realloc_q = []\<rparr>"

definition cache_demo :: default_engine where
  "cache_demo = sample_engine\<lparr>
     store := (\<lambda>_. zero_item)(4096 := cache_item 7 5 [49, 48], 4224 := cache_item 7 9 [50, 48]),
     slabs := cache_slabs,
     items := \<lparr>heads = replicate POWER_LARGEST NULL, tails = replicate POWER_LARGEST NULL,
       itemstats = replicate POWER_LARGEST \<lparr>evicted = 0, evicted_nonzero = 0, evicted_time = 0, outofmemory = 0, tailrepairs = 0, st_reclaimed = 0\<rparr>,
       sizes = replicate POWER_LARGEST 0\<rparr>\<rparr>"

lemma cache_slabs_inv: "slabs_inv cache_slabs" "4096 \<in> used (slabclass cache_slabs ! 1)" "4224 \<in> used (slabclass cache_slabs ! 1)"
proof -
  have c1: "slabclass cache_slabs ! 1 = cache_class" by (simp add: cache_slabs_def MAX_NUMBER_OF_SLAB_CLASSES_def POWER_LARGEST_def)
  have up: "[0..<6] = [0, 1, 2, 3, 4, 5 :: nat]" by (simp add: upt_rec)
  have l8: "{..<8 :: nat} = {0, 1, 2, 3, 4, 5, 6, 7}" by auto
  have ch: "chunks cache_class = {4096, 4224, 4352, 4480, 4608, 4736, 4864, 4992}"
    by (simp add: chunks_def cache_class_def page_chunks_def l8)
  have fl: "free_list cache_class = [4352, 4480, 4608, 4736, 4864, 4992]"
    by (simp add: free_list_def cache_class_def up)
  have us: "used cache_class = {4096, 4224}" unfolding used_def ch fl by auto
  have "class_inv cache_class" unfolding class_inv_def ch fl by (simp add: cache_class_def)
  then show "slabs_inv cache_slabs"
    by (auto simp: slabs_inv_def cache_slabs_def MAX_NUMBER_OF_SLAB_CLASSES_def POWER_LARGEST_def POWER_SMALLEST_def nth_list_update nth_Cons')
  show "4096 \<in> used (slabclass cache_slabs ! 1)" "4224 \<in> used (slabclass cache_slabs ! 1)" unfolding c1 us by simp_all
qed

lemma cache_demo_inv: "cache_inv cache_demo Map.empty (\<lambda>_. []) {4096, 4224}"
proof (rule cache_invI)
  show "assoc_inv cache_demo Map.empty"
  proof (rule assoc_inv_fresh)
    show "slot_get (assoc cache_demo) s = NULL" if "slot_ok (assoc cache_demo) s" for s
      using that by (cases s) (simp_all add: cache_demo_def sample_engine_def hashsize_def)
  qed (simp_all add: cache_demo_def sample_engine_def tables_ok_def hashsize_def)
  show "lru_inv cache_demo (\<lambda>_. [])" by (simp add: lru_inv_def queue_def cache_demo_def)
  show "slabs_inv (slabs cache_demo)" using cache_slabs_inv(1) by (simp add: cache_demo_def)
  show "alloc_ok cache_demo x" if "x \<in> {4096, 4224}" for x
    using that cache_slabs_inv(2,3)
    by (auto simp: alloc_ok_def cache_demo_def cache_item_def item_ok_def cache_slabs_def POWER_SMALLEST_def POWER_LARGEST_def)
qed (auto simp: cache_demo_def zero_item_def cache_item_def sample_engine_def)

text \<open>
  C3. The storage commands.  For set, add, replace and cas on an item a client holds, whatever the
  state of the cache: no assertion fails; the status is the one the command prescribes for a key with
  or without a live item (and, for cas, for an equal or different CAS value); on success the key maps
  to the new item, which is marked linked, stamped with the current time and gets a fresh CAS value;
  otherwise the key keeps its live item, or is gone if its item had expired; no other item changes;
  at most the old item is freed; and the invariant of the whole cache holds afterwards.
\<close>

theorem store_item_semantics:
  assumes "cache_inv e M Q A" and "it \<in> A" and "it \<notin> ran M" and "nbytes (store e it) < 1024 * 1024"
    and "op \<notin> {OPERATION_APPEND, OPERATION_PREPEND}" and "k = key_of (store e it)"
    and "\<And>old. live e M k = Some old \<Longrightarrow> refcount (store e old) \<noteq> 65535"
    and "st = store_status op (live e M k \<noteq> None)
           (\<exists>old. live e M k = Some old \<and> item_get_cas (store e it) = item_get_cas (store e old))"
  shows "\<exists>e' Q' A'. store_item e it op =
       Some (e', st, if st = ENGINE_SUCCESS then Some (item_get_cas (store e' it)) else None) \<and>
     cache_inv e' (if st = ENGINE_SUCCESS then M(k \<mapsto> it) else if live e M k = None then M(k := None) else M) Q' A' \<and>
     it \<in> A' \<and> A' \<subseteq> A \<and> A - A' \<subseteq> set_option (M k) \<and>
     same_except (insert it (set_option (M k))) e e' \<and>
     core (store e' it) = core (if st = ENGINE_SUCCESS then stored_item e (store e it) else store e it)"
proof (cases "live e M k")
  case None
  have st: "st = store_status op False False" using assms(8) None by simp
  show ?thesis
    using store_miss [OF assms(1-4,6) None assms(5) st]
    unfolding store_post_def assms(6) [symmetric] store_item_def if_P [OF None] .
next
  case (Some old)
  have st: "st = store_status op True (item_get_cas (store e it) = item_get_cas (store e old))" using assms(8) Some by simp
  have ne: "live e M k \<noteq> None" using Some by simp
  show ?thesis
    using store_hit [OF assms(1-4,6) Some assms(5) assms(7) [OF Some] st]
    unfolding store_post_def assms(6) [symmetric] store_item_def if_not_P [OF ne] .
qed

theorem store_item_semantics_witness:
  "\<exists>e'. store_item cache_demo 4096 OPERATION_SET = Some (e', ENGINE_SUCCESS, Some (item_get_cas (store e' 4096)))"
proof -
  have "\<exists>e' Q' A'. store_item cache_demo 4096 OPERATION_SET =
       Some (e', ENGINE_SUCCESS, if ENGINE_SUCCESS = ENGINE_SUCCESS then Some (item_get_cas (store e' 4096)) else None) \<and>
     cache_inv e' (if ENGINE_SUCCESS = ENGINE_SUCCESS then Map.empty([7] \<mapsto> 4096) else if live cache_demo Map.empty [7] = None then Map.empty([7] := None) else Map.empty) Q' A' \<and>
     4096 \<in> A' \<and> A' \<subseteq> {4096, 4224} \<and> {4096, 4224} - A' \<subseteq> set_option (Map.empty [7]) \<and>
     same_except (insert 4096 (set_option (Map.empty [7]))) cache_demo e' \<and>
     core (store e' 4096) = core (if ENGINE_SUCCESS = ENGINE_SUCCESS then stored_item cache_demo (store cache_demo 4096) else store cache_demo 4096)"
    by (rule store_item_semantics [OF cache_demo_inv])
       (simp_all add: cache_demo_def cache_item_def key_of_def live_def)
  then show ?thesis by auto
qed



text \<open>A set of an item a client holds.\<close>

lemma store_set_ok:
  assumes "cache_inv e M Q A" and "it \<in> A" and "it \<notin> ran M" and "nbytes (store e it) < 1024 * 1024" and "k = key_of (store e it)"
    and "\<And>old. live e M k = Some old \<Longrightarrow> refcount (store e old) \<noteq> 65535"
  shows "\<exists>e1 Q1 A1. do_store_item e it OPERATION_SET = Some (e1, ENGINE_SUCCESS, Some (item_get_cas (store e1 it))) \<and>
    cache_inv e1 (M(k \<mapsto> it)) Q1 A1 \<and> env_same e e1 \<and> core (store e1 it) = core (stored_item e (store e it))"
proof (cases "live e M k")
  case None
  show ?thesis
    using store_miss [OF assms(1-5) None, of OPERATION_SET ENGINE_SUCCESS False]
    unfolding store_post_def same_except_def by auto
next
  case (Some old)
  show ?thesis
    using store_hit [OF assms(1-5) Some _ assms(6) [OF Some], of OPERATION_SET ENGINE_SUCCESS]
    unfolding store_post_def same_except_def by auto
qed

end
