(* ===== verification/ItemWalk.thy ===== *)
theory ItemWalk
  imports ItemsInv
begin

unbundle bit_operations_syntax

text \<open>
  Cursors in the queues (last part of \<open>default_engine/items.c\<close>): the scrubber, which removes expired
  items in the background, and the tap walker, which delivers every item to a connection.  A cursor is
  a queue element with neither key nor value; it moves towards the head by changing places with the
  element in front of it.
\<close>

section \<open>The code\<close>

text \<open>
  One turn of the loop of \<open>do_item_walk_cursor\<close> up to the call of the item function: the element the
  cursor has passed, and whether it was the head.  The code writes through \<open>ptr->prev\<close>, so \<open>NULL\<close>
  there is \<open>None\<close>.
\<close>

definition move_cursor :: "default_engine \<Rightarrow> addr \<Rightarrow> (default_engine \<times> addr \<times> bool) option" where
  "move_cursor e cursor = do {
     let ptr = it_prev (store e cursor);
     e \<leftarrow> item_unlink_q e cursor;
     if ptr = heads (items e) ! unat (clsid (store e cursor)) then
       Some (upd_item cursor (it_prev_update (\<lambda>_. NULL)) e, ptr, True)
     else do {
       let e = upd_item cursor (it_next_update (\<lambda>_. ptr)) e;
       let e = upd_item cursor (it_prev_update (\<lambda>_. it_prev (store e ptr))) e;
       let prv = it_prev (store e cursor);
       c_assert (prv \<noteq> NULL);
       let e = upd_item prv (it_next_update (\<lambda>_. cursor)) e;
       Some (upd_item ptr (it_prev_update (\<lambda>_. cursor)) e, ptr, False)
     }
   }"

type_synonym iterfunc = "default_engine \<Rightarrow> addr \<Rightarrow> (default_engine \<times> ENGINE_ERROR_CODE) option"

partial_function (option) walk_loop ::
  "iterfunc \<Rightarrow> nat \<Rightarrow> addr \<Rightarrow> nat \<Rightarrow> default_engine \<Rightarrow> (default_engine \<times> bool \<times> ENGINE_ERROR_CODE) option" where
  "walk_loop itemfunc steplength cursor ii e =
     (if it_prev (store e cursor) \<noteq> NULL \<and> ii < steplength then
        Option.bind (move_cursor e cursor) (\<lambda>r.
          case r of (e, ptr, done) \<Rightarrow>
            if nkey (store e ptr) = 0 \<and> nbytes (store e ptr) = 0 then
              if done then Some (e, False, ENGINE_SUCCESS) else walk_loop itemfunc steplength cursor ii e
            else
              Option.bind (itemfunc e ptr) (\<lambda>r.
                case r of (e, err) \<Rightarrow>
                  if err \<noteq> ENGINE_SUCCESS then Some (e, False, err)
                  else if done then Some (e, False, ENGINE_SUCCESS)
                  else walk_loop itemfunc steplength cursor (ii + 1) e))
      else Some (e, it_prev (store e cursor) \<noteq> NULL, ENGINE_SUCCESS))"

definition do_item_walk_cursor ::
  "default_engine \<Rightarrow> addr \<Rightarrow> nat \<Rightarrow> iterfunc \<Rightarrow> (default_engine \<times> bool \<times> ENGINE_ERROR_CODE) option" where
  "do_item_walk_cursor e cursor steplength itemfunc = walk_loop itemfunc steplength cursor 0 e"

definition upd_scrubber :: "(engine_scrubber \<Rightarrow> engine_scrubber) \<Rightarrow> default_engine \<Rightarrow> default_engine" where
  "upd_scrubber f e = e\<lparr>scrubber := f (scrubber e)\<rparr>"

definition item_scrub :: iterfunc where
  "item_scrub e it = do {
     let e = upd_scrubber (\<lambda>s. s\<lparr>visited := visited s + 1\<rparr>) e;
     if refcount (store e it) = 0 \<and> exptime (store e it) \<noteq> 0 \<and> exptime (store e it) < current_time e then do {
       e \<leftarrow> do_item_unlink e it;
       Some (upd_scrubber (\<lambda>s. s\<lparr>cleaned := cleaned s + 1\<rparr>) e, ENGINE_SUCCESS)
     } else Some (e, ENGINE_SUCCESS)
   }"

partial_function (option) item_scrub_class :: "addr \<Rightarrow> default_engine \<Rightarrow> default_engine option" where
  "item_scrub_class cursor e =
     Option.bind (do_item_walk_cursor e cursor 200 item_scrub) (\<lambda>r.
       case r of (e, go_on, ret) \<Rightarrow>
         if ret \<noteq> ENGINE_SUCCESS \<or> \<not> go_on then Some e else item_scrub_class cursor e)"

fun scrub_classes :: "nat list \<Rightarrow> addr \<Rightarrow> default_engine \<Rightarrow> default_engine option" where
  "scrub_classes [] cursor e = Some e"
| "scrub_classes (ii # is) cursor e =
     (if heads (items e) ! ii = NULL then scrub_classes is cursor e
      else do {
        e \<leftarrow> do_item_link_cursor e cursor ii;
        e \<leftarrow> item_scrub_class cursor e;
        scrub_classes is cursor e
      })"

text \<open>The scrubber thread; the cursor is a variable on its stack, \<open>now\<close> is \<open>time (NULL)\<close> at the end.\<close>

definition item_scubber_main :: "default_engine \<Rightarrow> addr \<Rightarrow> int \<Rightarrow> default_engine option" where
  "item_scubber_main e cursor now = do {
     let e = upd_item cursor (\<lambda>_. zero_item\<lparr>refcount := 1\<rparr>) e;
     e \<leftarrow> scrub_classes [0..<POWER_LARGEST] cursor e;
     Some (upd_scrubber (\<lambda>s. s\<lparr>stopped := now, running := False\<rparr>) e)
   }"

definition item_start_scrub :: "default_engine \<Rightarrow> int \<Rightarrow> default_engine \<times> bool" where
  "item_start_scrub e now =
     (if running (scrubber e) then (e, False)
      else
        let e = upd_scrubber (\<lambda>s. s\<lparr>started := now, stopped := 0, visited := 0, cleaned := 0, running := True\<rparr>) e
        in case thread_q e of
             True # q \<Rightarrow> (e\<lparr>thread_q := q\<rparr>, True)
           | _ \<Rightarrow> (upd_scrubber (\<lambda>s. s\<lparr>running := False\<rparr>) (e\<lparr>thread_q := tl (thread_q e)\<rparr>), False))"

section \<open>The tap walker\<close>

datatype tap_event_t = TAP_MUTATION | TAP_DELETION | TAP_FLUSH | TAP_OPAQUE | TAP_VBUCKET_SET | TAP_ACK | TAP_DISCONNECT
  | TAP_NOOP | TAP_PAUSE | TAP_CHECKPOINT_START | TAP_CHECKPOINT_END

definition item_tap_iterfunc :: "addr \<Rightarrow> iterfunc" where
  "item_tap_iterfunc client e it =
     Some (upd_item it (refcount_update (\<lambda>r. r + 1)) (e\<lparr>client_it := (client_it e)(client := it)\<rparr>), ENGINE_SUCCESS)"

definition next_class :: "default_engine \<Rightarrow> nat \<Rightarrow> nat option" where
  "next_class e c = List.find (\<lambda>ii. heads (items e) ! ii \<noteq> NULL) [c..<POWER_LARGEST]"

partial_function (option) tap_loop :: "addr \<Rightarrow> default_engine \<Rightarrow> default_engine option" where
  "tap_loop client e =
     Option.bind (do_item_walk_cursor e client 1 (item_tap_iterfunc client)) (\<lambda>r.
       case r of (e, go_on, _) \<Rightarrow>
         if go_on then if client_it e client = NULL then tap_loop client e else Some e
         else (case next_class e (unat (clsid (store e client)) + 1) of
             None \<Rightarrow> Some e
           | Some ii \<Rightarrow>
               Option.bind (do_item_link_cursor e client ii) (\<lambda>e.
                 if client_it e client = NULL then tap_loop client e else Some e)))"

definition do_item_tap_walker :: "default_engine \<Rightarrow> addr \<Rightarrow> (default_engine \<times> addr \<times> tap_event_t) option" where
  "do_item_tap_walker e cookie =
     (let client = engine_specific e cookie
      in if client = NULL then Some (e, NULL, TAP_DISCONNECT)
         else do {
           e \<leftarrow> tap_loop client (e\<lparr>client_it := (client_it e)(client := NULL)\<rparr>);
           let it = client_it e client;
           Some (e, it, if it = NULL then TAP_DISCONNECT else TAP_MUTATION)
         })"

definition item_tap_walker :: "default_engine \<Rightarrow> addr \<Rightarrow> (default_engine \<times> addr \<times> tap_event_t) option" where
  "item_tap_walker e cookie = do_item_tap_walker e cookie"

definition initialize_item_tap_walker :: "default_engine \<Rightarrow> addr \<Rightarrow> (default_engine \<times> bool) option" where
  "initialize_item_tap_walker e cookie =
     (case client_q e of
        [] \<Rightarrow> Some (e, False)
      | client # q \<Rightarrow>
          if client = NULL then Some (e\<lparr>client_q := q\<rparr>, False)
          else do {
            let e = upd_item client (\<lambda>_. zero_item\<lparr>refcount := 1\<rparr>) (e\<lparr>client_q := q\<rparr>);
            e \<leftarrow> (case next_class e 0 of None \<Rightarrow> Some e | Some ii \<Rightarrow> do_item_link_cursor e client ii);
            Some (e\<lparr>engine_specific := (engine_specific e)(cookie := client)\<rparr>, True)
          })"

section \<open>A step of a cursor\<close>

lemma chain_insert_before:
  assumes "chain nx h (as @ p # bs)" and "as \<noteq> []" and "x \<notin> set (as @ p # bs)" and "x \<noteq> NULL"
  shows "chain (nx(x := p, last as := x)) h (as @ x # p # bs)"
  using assms
proof (induction as arbitrary: h)
  case (Cons a as)
  have d: "distinct (a # as @ p # bs)" using chain_distinct [OF Cons.prems(1)] by simp
  show ?case
  proof (cases "as = []")
    case True
    have "chain (nx(x := p, a := x)) (nx p) bs = chain nx (nx p) bs"
      by (rule chain_cong) (use Cons.prems d True in auto)
    moreover have "(nx(x := p, a := x)) p = nx p" "(nx(x := p, a := x)) x = p" "(nx(x := p, a := x)) a = x"
      using Cons.prems d True by auto
    ultimately show ?thesis using Cons.prems True by (simp del: fun_upd_apply)
  next
    case False
    then have "last as \<noteq> a" using d by auto
    then show ?thesis using Cons.IH [of "nx a"] Cons.prems False by simp
  qed
qed simp

text \<open>
  The queue under a moving cursor.  When the cursor stands behind an element that is not the head,
  a step exchanges the two and leaves every other element in place, in both directions of the list;
  but the length the engine keeps for the class drops by one with every step.
\<close>

theorem cursor_step_loses_count:
  assumes q: "queue e c (as @ [p, cursor] @ bs)" and as: "as \<noteq> []" and c: "c < POWER_LARGEST"
    and len: "length (heads (items e)) = POWER_LARGEST" "length (tails (items e)) = POWER_LARGEST" "length (sizes (items e)) = POWER_LARGEST"
  shows "\<exists>e'. move_cursor e cursor = Some (e', p, False) \<and>
    chain (it_next \<circ> store e') (heads (items e') ! c) (as @ [cursor, p] @ bs) \<and>
    chain (it_prev \<circ> store e') (tails (items e') ! c) (rev (as @ [cursor, p] @ bs)) \<and>
    sizes (items e') ! c = of_nat (length (as @ [cursor, p] @ bs)) - 1"
proof -
  have q': "queue e c ((as @ [p]) @ cursor # bs)" using q by simp
  have d: "distinct ((as @ [p]) @ cursor # bs)" by (rule queue_distinct [OF q'])
  have prv: "it_prev (store e cursor) = p" using queue_neighbours(2) [OF q'] by simp
  have nn: "x \<noteq> NULL" if "x \<in> set ((as @ [p]) @ cursor # bs)" for x using queue_neq_NULL [OF q' that] .
  define e1 where "e1 = take_out e cursor c"
  have u: "item_unlink_q e cursor = Some e1" unfolding e1_def by (rule item_unlink_q_take [OF q' c])
  have q1: "queue e1 c (as @ p # bs)" unfolding e1_def using take_out_queue [OF q'] c len by simp
  have cls: "unat (clsid (store e1 cursor)) = c"
    using q' by (auto simp: e1_def queue_def take_out_def Let_def)
  have hd: "heads (items e1) ! c = hd as" using queue_head [OF q1] as by (simp add: hd_append)
  then have nh: "p \<noteq> heads (items e1) ! c" using d as hd_in_set [of as] by auto
  have pp: "it_prev (store e1 p) = last as" using queue_neighbours(2) [OF q1] as by simp
  have ln: "last as \<noteq> NULL" "last as \<noteq> cursor" "last as \<noteq> p" "cursor \<noteq> p" using nn d as last_in_set [of as] by auto
  define st where "st = (store e1)(cursor := (store e1 cursor)\<lparr>it_next := p, it_prev := last as\<rparr>,
     last as := (store e1 (last as))\<lparr>it_next := cursor\<rparr>, p := (store e1 p)\<lparr>it_prev := cursor\<rparr>)"
  have m: "move_cursor e cursor = Some (e1\<lparr>store := st\<rparr>, p, False)"
    using u nh pp ln by (simp add: move_cursor_def prv cls st_def fun_upd_twist Let_def)
  have ni: "cursor \<notin> set (as @ p # bs)" "cursor \<noteq> NULL" using d nn by auto
  have "chain ((it_next \<circ> store e1)(cursor := p, last as := cursor)) (heads (items e1) ! c) (as @ cursor # p # bs)"
    using chain_insert_before [OF _ as ni] q1 by (simp add: queue_def)
  moreover have "it_next \<circ> st = (it_next \<circ> store e1)(cursor := p, last as := cursor)"
    using ln by (auto simp: st_def fun_eq_iff)
  moreover have "chain ((it_prev \<circ> store e1)(cursor := last as, p := cursor)) (tails (items e1) ! c) (rev bs @ p # cursor # rev as)"
  proof -
    have "rev as = last as # tl (rev as)" using as by (simp add: hd_rev [symmetric])
    then obtain rs where rs: "rev as = last as # rs" by blast
    have "chain (it_prev \<circ> store e1) (tails (items e1) ! c) ((rev bs @ [p]) @ last as # rs)"
      using q1 rs by (simp add: queue_def)
    moreover have "cursor \<notin> set ((rev bs @ [p]) @ last as # rs)" using ni rs by (metis (no_types) Un_iff append.assoc append_Cons append_Nil rev_append rev.simps(2) set_append set_rev)
    ultimately show ?thesis
      using chain_insert_before [of "it_prev \<circ> store e1" "tails (items e1) ! c" "rev bs @ [p]" "last as" rs cursor] ni(2) unfolding rs by simp
  qed
  moreover have "it_prev \<circ> st = (it_prev \<circ> store e1)(cursor := last as, p := cursor)"
    using ln by (auto simp: st_def fun_eq_iff)
  moreover have "sizes (items e1) ! c = of_nat (length (as @ p # bs))" using q1 by (simp add: queue_def)
  ultimately show ?thesis using m by (intro exI [of _ "e1\<lparr>store := st\<rparr>"]) simp
qed

text \<open>A queue of three items and a cursor for the example.\<close>

definition walk_demo :: default_engine where
  "walk_demo = cache_demo\<lparr>
     store := (\<lambda>_. zero_item)(10 := (cache_item 1 0 [])\<lparr>it_next := 20\<rparr>, 20 := (cache_item 2 0 [])\<lparr>it_next := 30, it_prev := 10\<rparr>,
       30 := (cache_item 3 0 [])\<lparr>it_prev := 20\<rparr>),
     items := (items cache_demo)\<lparr>heads := (replicate POWER_LARGEST NULL)[1 := 10], tails := (replicate POWER_LARGEST NULL)[1 := 30],
       sizes := (replicate POWER_LARGEST 0)[1 := 3]\<rparr>\<rparr>"

lemma walk_demo_queue: "queue walk_demo 1 ([10] @ [20, 30] @ [])"
  by (simp add: queue_def walk_demo_def cache_item_def POWER_LARGEST_def)

lemma walk_demo_lengths: "(1 :: nat) < POWER_LARGEST" "length (heads (items walk_demo)) = POWER_LARGEST"
  "length (tails (items walk_demo)) = POWER_LARGEST" "length (sizes (items walk_demo)) = POWER_LARGEST"
  by (simp_all add: walk_demo_def POWER_LARGEST_def)

theorem cursor_step_loses_count_witness:
  "\<exists>e'. move_cursor walk_demo 30 = Some (e', 20, False) \<and> sizes (items e') ! 1 = 2"
proof -
  have n: "[10 :: addr] \<noteq> []" by simp
  have "of_nat (length ([10] @ [30, 20] @ [] :: addr list)) - 1 = (2 :: u32)" by simp
  then show ?thesis
    using cursor_step_loses_count [OF walk_demo_queue n walk_demo_lengths] by metis
qed

end
