(* ===== verification/ConfigParser.thy ===== *)
theory ConfigParser
  imports Util
begin

text \<open>
  The configuration parser (\<open>memcached/utilities/config_parser.c\<close>): strings of the form
  \<open>key=value;key=value\<close>, typed values, and configuration files that are read recursively.

  A C string is the list of its bytes without the terminator, a pointer into it is a position; the
  terminator can be read, a read behind it is \<open>None\<close>.  \<open>strtof\<close> is a parameter: the value, the
  position of the end and whether \<open>errno\<close> is \<open>ERANGE\<close>; \<open>float\<close> is the type \<open>'f\<close>.  \<open>files\<close> gives the
  contents of the files that can be opened and \<open>fds\<close> the number of files the process may still open, so
  that a file which includes itself ends with a failing \<open>fopen\<close>.  Messages on the error stream are
  left out.
\<close>

section \<open>Items\<close>

datatype config_datatype = DT_SIZE | DT_FLOAT | DT_BOOL | DT_STRING | DT_CONFIGFILE

text \<open>The variable an item points to; an entry for a configuration file points to none.\<close>

datatype 'f config_value = Dt_size u64 | Dt_float 'f | Dt_bool bool | Dt_string bytes | Dt_none

record 'f config_item =
  ci_key :: bytes
  ci_datatype :: config_datatype
  ci_value :: "'f config_value"
  ci_found :: bool

section \<open>Strings\<close>

definition char_rd :: "bytes \<Rightarrow> nat \<Rightarrow> u8 option" where
  "char_rd str p = (if p < length str then Some (str ! p) else if p = length str then Some 0 else None)"

definition skip_space :: "bytes \<Rightarrow> nat \<Rightarrow> nat" where
  "skip_space str p = p + length (takeWhile isspace (drop p str))"

definition strchr :: "bytes \<Rightarrow> u8 \<Rightarrow> nat option" where
  "strchr str c = (if c \<in> set str then Some (length (takeWhile (\<lambda>b. b \<noteq> c) str)) else None)"

definition tolower :: "u8 \<Rightarrow> u8" where "tolower c = (if 65 \<le> c \<and> c \<le> 90 then c + 32 else c)"
definition toupper :: "u8 \<Rightarrow> u8" where "toupper c = (if 97 \<le> c \<and> c \<le> 122 then c - 32 else c)"

definition strcaseeq :: "bytes \<Rightarrow> bytes \<Rightarrow> bool" where
  "strcaseeq a b \<longleftrightarrow> map tolower a = map tolower b"

definition ascii :: "string \<Rightarrow> bytes" where "ascii s = map of_char s"

text \<open>
  The last character of \<open>trim_copy\<close>.  For an empty string the code starts in front of it and moves
  back onto the terminator.
\<close>

fun trim_last :: "bytes \<Rightarrow> nat \<Rightarrow> nat \<Rightarrow> nat" where
  "trim_last str src 0 = 0"
| "trim_last str src (Suc l) = (if Suc l > src \<and> isspace (str ! Suc l) then trim_last str src l else Suc l)"

definition find_last :: "bytes \<Rightarrow> nat \<Rightarrow> nat" where
  "find_last str src =
     (if src = length str then src
      else let l = trim_last str src (length str - 1) in if str ! l = 92 then l + 1 else l)"

text \<open>The copy loop; \<open>dest\<close> holds the characters written so far.\<close>

function trim_loop :: "bytes \<Rightarrow> nat \<Rightarrow> u8 \<Rightarrow> nat \<Rightarrow> nat \<Rightarrow> nat \<Rightarrow> bytes \<Rightarrow> (nat \<times> nat \<times> bytes) option" where
  "trim_loop str sz stop lastchar src n dest =
     (case char_rd str src of
        None \<Rightarrow> None
      | Some c \<Rightarrow>
          let escape = (c = 92); dest = (if escape then dest else dest @ [c])
          in if n + 1 = sz \<or> src + 1 > lastchar then Some (src + 1, n + 1, dest)
             else (case char_rd str (src + 1) of
                None \<Rightarrow> None
              | Some d \<Rightarrow>
                  if (d = stop \<and> \<not> escape) \<or> d = 0 then Some (src + 1, n + 1, dest)
                  else trim_loop str sz stop lastchar (src + 1) (n + 1) dest))"
  by pat_completeness auto
termination
  by (relation "measure (\<lambda>(str, sz, stop, lastchar, src, n, dest). length str + 1 - src)")
     (auto simp: char_rd_def split: if_splits)

declare trim_loop.simps [simp del]

text \<open>\<open>trim_copy\<close> from position \<open>p\<close>: the end position, the copied string and the result.\<close>

definition trim_copy :: "bytes \<Rightarrow> nat \<Rightarrow> nat \<Rightarrow> u8 \<Rightarrow> (nat \<times> bytes \<times> int) option" where
  "trim_copy str p sz stop = do {
     c_assert (p \<le> length str);
     let src = skip_space str p;
     let lastchar = find_last str src;
     c_assert (lastchar \<ge> src);
     (end_pos, n, dest) \<leftarrow> trim_loop str sz stop lastchar src 0 [];
     if n = sz then do {
       c_assert (dest \<noteq> []);
       Some (end_pos, c_string (butlast dest), -1)
     } else Some (end_pos, c_string dest, 0)
   }"

section \<open>Values\<close>

text \<open>
  The unit of a size.  The multiplier is an \<open>int\<close>; its overflow at the suffix \<open>t\<close> is written as
  wrap-around.
\<close>

fun size_suffix :: "bytes \<Rightarrow> u32 \<Rightarrow> bytes \<Rightarrow> u32 \<times> bytes" where
  "size_suffix [] m value = (1, value)"
| "size_suffix (p # sfx) m value =
     (let m = m * 1024
      in case (case strchr value p of None \<Rightarrow> strchr value (toupper p) | Some i \<Rightarrow> Some i) of
           Some i \<Rightarrow> (m, take i value)
         | None \<Rightarrow> size_suffix sfx m value)"

definition parse_size :: "bytes \<Rightarrow> u64 option" where
  "parse_size value =
     (case size_suffix (ascii ''kmgt'') 1 value of
        (multiplier, value) \<Rightarrow> map_option (\<lambda>val. val * scast multiplier) (safe_strtoull value))"

type_synonym 'f strtof_t = "bytes \<Rightarrow> 'f \<times> nat \<times> bool"

definition safe_strtof :: "'f strtof_t \<Rightarrow> bytes \<Rightarrow> 'f option" where
  "safe_strtof strtof str =
     (case strtof str of
        (l, p, erange) \<Rightarrow> if erange then None else if end_ok str p then Some l else None)"

definition parse_bool :: "bytes \<Rightarrow> bool option" where
  "parse_bool value =
     (if strcaseeq value (ascii ''true'') \<or> strcaseeq value (ascii ''on'') then Some True
      else if strcaseeq value (ascii ''false'') \<or> strcaseeq value (ascii ''off'') then Some False
      else None)"

section \<open>The parser\<close>

type_synonym 'f config_result = "('f config_item list \<times> int) option"
type_synonym 'f reader = "bytes \<Rightarrow> 'f config_item list \<Rightarrow> 'f config_result"

definition put_value :: "'f config_item list \<Rightarrow> nat \<Rightarrow> 'f config_value option \<Rightarrow> 'f config_result" where
  "put_value items ii v =
     (case v of
        None \<Rightarrow> Some (items, -1)
      | Some v \<Rightarrow> Some (items[ii := (items ! ii)\<lparr>ci_value := v, ci_found := True\<rparr>], 0))"

definition store_value :: "'f strtof_t \<Rightarrow> 'f reader \<Rightarrow> 'f config_item list \<Rightarrow> nat \<Rightarrow> bytes \<Rightarrow> 'f config_result" where
  "store_value strtof read_file items ii value =
     (case ci_datatype (items ! ii) of
        DT_SIZE \<Rightarrow> put_value items ii (map_option Dt_size (parse_size value))
      | DT_FLOAT \<Rightarrow> put_value items ii (map_option Dt_float (safe_strtof strtof value))
      | DT_STRING \<Rightarrow> put_value items ii (Some (Dt_string value))
      | DT_BOOL \<Rightarrow> put_value items ii (map_option Dt_bool (parse_bool value))
      | DT_CONFIGFILE \<Rightarrow> read_file value items)"

definition find_item :: "'f config_item list \<Rightarrow> bytes \<Rightarrow> nat option" where
  "find_item items key = List.find (\<lambda>ii. ci_key (items ! ii) = key) [0..<length items]"

lemma trim_loop_end: "trim_loop str sz stop lastchar src n dest = Some (q, m, d) \<Longrightarrow> src < q"
proof (induction str sz stop lastchar src n dest rule: trim_loop.induct)
  case (1 str sz stop lastchar src n dest)
  then show ?case
    by (subst (asm) (2) trim_loop.simps) (fastforce simp: Let_def split: option.splits if_splits)
qed

lemma trim_copy_end: "trim_copy str p sz stop = Some (q, s, r) \<Longrightarrow> p < q"
  by (auto simp: trim_copy_def bind_eq_Some_iff skip_space_def Let_def dest!: trim_loop_end split: if_splits)

function parse_loop ::
  "'f strtof_t \<Rightarrow> 'f reader \<Rightarrow> bytes \<Rightarrow> nat \<Rightarrow> 'f config_item list \<Rightarrow> int \<Rightarrow> 'f config_result" where
  "parse_loop strtof read_file str ptr items ret =
     (case char_rd str ptr of
        None \<Rightarrow> None
      | Some c \<Rightarrow>
          if c = 0 then Some (items, ret)
          else
            let ptr = skip_space str ptr
            in if ptr = length str then Some (items, 0)
               else (case trim_copy str ptr 80 61 of
                  None \<Rightarrow> None
                | Some (end_pos, key, r) \<Rightarrow>
                    if r = -1 then Some (items, -1)
                    else (case trim_copy str (end_pos + 1) 1024 59 of
                       None \<Rightarrow> None
                     | Some (end_pos', value, r) \<Rightarrow>
                         if r = -1 then Some (items, -1)
                         else (case char_rd str end_pos' of
                            None \<Rightarrow> None
                          | Some c \<Rightarrow>
                              let ptr = (if c = 59 then end_pos' + 1 else end_pos')
                              in case find_item items key of
                                   None \<Rightarrow> parse_loop strtof read_file str ptr items 1
                                 | Some ii \<Rightarrow>
                                     (case store_value strtof read_file items ii value of
                                        None \<Rightarrow> None
                                      | Some (items, r) \<Rightarrow>
                                          let ret = (if r \<noteq> 0 then r else ret)
                                          in if ret = -1 then Some (items, -1)
                                             else parse_loop strtof read_file str ptr items ret)))))"
  by pat_completeness auto
termination
  by (relation "measure (\<lambda>(strtof, rf, str, ptr, items, ret). length str + 2 - ptr)")
     (auto simp: char_rd_def skip_space_def split: if_splits dest!: trim_copy_end)

declare parse_loop.simps [simp del]

text \<open>The lines of a file, as \<open>fgets\<close> with a buffer of 1024 bytes returns them.\<close>

definition fgets :: "bytes \<Rightarrow> bytes \<times> bytes" where
  "fgets bs =
     (let n = length (takeWhile (\<lambda>b. b \<noteq> 10) (take 1023 bs)) + 1
      in (take (min n 1023) bs, drop (min n 1023) bs))"

function fgets_lines :: "bytes \<Rightarrow> bytes list" where
  "fgets_lines bs = (if bs = [] then [] else case fgets bs of (line, rest) \<Rightarrow> c_string line # fgets_lines rest)"
  by pat_completeness auto
termination
  by (relation "measure length") (auto simp: fgets_def Let_def)

declare fgets_lines.simps [simp del]

primrec read_lines :: "'f reader \<Rightarrow> bytes list \<Rightarrow> 'f config_item list \<Rightarrow> int \<Rightarrow> 'f config_result" where
  "read_lines parse [] items ret = Some (items, ret)"
| "read_lines parse (line # lines) items ret =
     (if ret = -1 then Some (items, ret)
      else if char_at line 0 = 35 then read_lines parse lines items ret
      else (case parse line items of
              None \<Rightarrow> None
            | Some (items, r) \<Rightarrow> read_lines parse lines items (if r \<noteq> 0 then r else ret)))"

primrec read_config_file :: "'f strtof_t \<Rightarrow> (bytes \<rightharpoonup> bytes) \<Rightarrow> nat \<Rightarrow> 'f reader" where
  "read_config_file strtof files 0 = (\<lambda>fname items. Some (items, -1))"
| "read_config_file strtof files (Suc fds) = (\<lambda>fname items.
     case files fname of
       None \<Rightarrow> Some (items, -1)
     | Some content \<Rightarrow>
         read_lines (\<lambda>line items. parse_loop strtof (read_config_file strtof files fds) line 0 items 0)
           (fgets_lines content) items 0)"

definition parse_config :: "'f strtof_t \<Rightarrow> (bytes \<rightharpoonup> bytes) \<Rightarrow> nat \<Rightarrow> 'f reader" where
  "parse_config strtof files fds str items = parse_loop strtof (read_config_file strtof files fds) str 0 items 0"

section \<open>Types\<close>

text \<open>The value of an item has the type the item declares.\<close>

fun has_type :: "'f config_value \<Rightarrow> config_datatype \<Rightarrow> bool" where
  "has_type (Dt_size v) t = (t = DT_SIZE)"
| "has_type (Dt_float v) t = (t = DT_FLOAT)"
| "has_type (Dt_bool v) t = (t = DT_BOOL)"
| "has_type (Dt_string v) t = (t = DT_STRING)"
| "has_type Dt_none t = (t = DT_CONFIGFILE)"

definition well_typed :: "'f config_item list \<Rightarrow> bool" where
  "well_typed items = list_all (\<lambda>i. has_type (ci_value i) (ci_datatype i)) items"

text \<open>
  What reading a configuration may do to the items: keys and types stay, an item that was found stays
  found, and an item that has not been found is untouched.
\<close>

definition item_step :: "'f config_item \<Rightarrow> 'f config_item \<Rightarrow> bool" where
  "item_step i j \<longleftrightarrow> ci_key j = ci_key i \<and> ci_datatype j = ci_datatype i \<and>
     (has_type (ci_value i) (ci_datatype i) \<longrightarrow> has_type (ci_value j) (ci_datatype j)) \<and>
     (ci_found i \<longrightarrow> ci_found j) \<and> (\<not> ci_found j \<longrightarrow> j = i)"

definition evolves :: "'f config_item list \<Rightarrow> 'f config_item list \<Rightarrow> bool" where
  "evolves = list_all2 item_step"

lemma item_step_trans: "item_step i j \<Longrightarrow> item_step j k \<Longrightarrow> item_step i k"
  unfolding item_step_def by metis

lemma evolves_refl [simp]: "evolves items items"
  by (simp add: evolves_def list.rel_refl item_step_def)

lemma evolves_trans [trans]: "evolves xs ys \<Longrightarrow> evolves ys zs \<Longrightarrow> evolves xs zs"
  unfolding evolves_def by (rule list_all2_trans [OF item_step_trans])

lemma evolves_typed: "evolves xs ys \<Longrightarrow> well_typed xs \<Longrightarrow> well_typed ys"
  unfolding evolves_def well_typed_def by (induction rule: list_all2_induct) (auto simp: item_step_def)

lemma item_step_refl [simp]: "item_step i i"
  by (simp add: item_step_def)

lemma evolves_upd: "item_step (xs ! i) y \<Longrightarrow> evolves xs (xs[i := y])"
  unfolding evolves_def list_all2_conv_all_nth
  by (metis item_step_refl length_list_update nth_list_update_eq nth_list_update_neq)

definition config_code :: "int \<Rightarrow> bool" where
  "config_code r \<longleftrightarrow> r \<in> {-1, 0, 1}"

lemma config_code_simps [simp]: "config_code 0" "config_code 1" "config_code (-1)"
  by (simp_all add: config_code_def)

definition result_ok :: "'f config_item list \<Rightarrow> 'f config_result \<Rightarrow> bool" where
  "result_ok items res \<longleftrightarrow> (\<forall>items' r. res = Some (items', r) \<longrightarrow> evolves items items' \<and> config_code r)"

lemma result_ok_trans: "evolves items its \<Longrightarrow> result_ok its res \<Longrightarrow> result_ok items res"
  unfolding result_ok_def using evolves_trans by metis

lemma result_ok_Some: "result_ok items (Some (its, r)) \<longleftrightarrow> evolves items its \<and> config_code r"
  by (simp add: result_ok_def)

lemma put_value_ok:
  assumes "\<And>v. res = Some v \<Longrightarrow> has_type v (ci_datatype (items ! ii))"
  shows "result_ok items (put_value items ii res)"
  using assms by (auto simp: result_ok_def put_value_def item_step_def intro!: evolves_upd split: option.splits)

text \<open>One turn of the parser: it stops, skips an unknown key, or stores a value.\<close>

lemma parse_loop_setting:
  assumes "char_rd str ptr = Some c" "c \<noteq> 0" "skip_space str ptr \<noteq> length str"
    and "trim_copy str (skip_space str ptr) 80 61 = Some (e1, k, r1)" "r1 \<noteq> -1"
    and "trim_copy str (Suc e1) 1024 59 = Some (e2, v, r2)" "r2 \<noteq> -1"
    and "char_rd str e2 = Some d" and q: "q = (if d = 59 then e2 + 1 else e2)"
  shows "parse_loop strtof read_file str ptr items ret =
    (case find_item items k of
       None \<Rightarrow> parse_loop strtof read_file str q items 1
     | Some ii \<Rightarrow>
         (case store_value strtof read_file items ii v of
            None \<Rightarrow> None
          | Some (items, r) \<Rightarrow>
              if (if r \<noteq> 0 then r else ret) = -1 then Some (items, -1)
              else parse_loop strtof read_file str q items (if r \<noteq> 0 then r else ret)))"
  using assms(1-8) unfolding parse_loop.simps [of strtof read_file str ptr] q
  by (simp add: Let_def cong: option.case_cong)

lemma parse_loop_cases [consumes 1, case_names stop unknown known]:
  assumes pl: "parse_loop strtof read_file str ptr items ret = Some (items', r)"
    and stop: "items' = items \<Longrightarrow> r = ret \<or> r = 0 \<or> r = -1 \<Longrightarrow> P"
    and unknown: "\<And>q. length str + 2 - q < length str + 2 - ptr \<Longrightarrow>
      parse_loop strtof read_file str q items 1 = Some (items', r) \<Longrightarrow> P"
    and known: "\<And>q ii v its r3. length str + 2 - q < length str + 2 - ptr \<Longrightarrow>
      store_value strtof read_file items ii v = Some (its, r3) \<Longrightarrow>
      items' = its \<and> r = -1 \<or> parse_loop strtof read_file str q its (if r3 \<noteq> 0 then r3 else ret) = Some (items', r) \<Longrightarrow> P"
  shows P
proof -
  from pl obtain c where c: "char_rd str ptr = Some c" by (subst (asm) parse_loop.simps) (simp split: option.splits)
  let ?p = "skip_space str ptr"
  note simps = parse_loop.simps [of strtof read_file str ptr] Let_def c
  show P
  proof (cases "c = 0 \<or> ?p = length str")
    case True
    then show P using pl stop by (auto simp: simps split: if_splits)
  next
    case False
    then obtain e1 k r1 where t1: "trim_copy str ?p 80 61 = Some (e1, k, r1)"
      using pl by (cases "trim_copy str ?p 80 61") (auto simp: simps)
    show P
    proof (cases "r1 = -1")
      case True
      then show P using pl stop False t1 by (simp add: simps)
    next
      case r1: False
      then obtain e2 v r2 where t2: "trim_copy str (Suc e1) 1024 59 = Some (e2, v, r2)"
        using pl False t1 by (cases "trim_copy str (Suc e1) 1024 59") (auto simp: simps)
      show P
      proof (cases "r2 = -1")
        case True
        then show P using pl stop False t1 r1 t2 by (simp add: simps)
      next
        case r2: False
        then obtain d where d: "char_rd str e2 = Some d"
          using pl False t1 r1 t2 by (cases "char_rd str e2") (auto simp: simps)
        define q where "q = (if d = 59 then e2 + 1 else e2)"
        have lt: "length str + 2 - q < length str + 2 - ptr"
          using trim_copy_end [OF t1] trim_copy_end [OF t2] c by (auto simp: q_def skip_space_def char_rd_def split: if_splits)
        have "c \<noteq> 0" "?p \<noteq> length str" using False by simp_all
        note eq = pl [unfolded parse_loop_setting [OF c this t1 r1 t2 r2 d q_def]]
        show P
        proof (cases "find_item items k")
          case None
          then show P using eq unknown [OF lt] by simp
        next
          case (Some ii)
          then obtain its r3 where "store_value strtof read_file items ii v = Some (its, r3)"
            using eq by (cases "store_value strtof read_file items ii v") auto
          then show P using eq Some known [OF lt, of ii v its r3] by (auto split: if_splits)
        qed
      qed
    qed
  qed
qed

text \<open>
  The reader of configuration files as an interface of the parser: whatever it does to the items is
  one of these changes, and its result is one of the three codes.
\<close>

locale config_reader =
  fixes read_file :: "'f reader"
  assumes read_file_ok: "result_ok items (read_file fname items)"
begin

lemma store_value_ok: "result_ok items (store_value strtof read_file items ii value)"
  by (cases "ci_datatype (items ! ii)")
     (auto simp: store_value_def read_file_ok intro!: put_value_ok)

lemma parse_loop_ok: "config_code ret \<Longrightarrow> result_ok items (parse_loop strtof read_file str ptr items ret)"
proof (induction "length str + 2 - ptr" arbitrary: ptr items ret rule: less_induct)
  case less
  have "evolves items items' \<and> config_code r"
    if pl: "parse_loop strtof read_file str ptr items ret = Some (items', r)" for items' r
    using pl
  proof (cases rule: parse_loop_cases)
    case stop
    then show ?thesis using less.prems by auto
  next
    case (unknown q)
    then show ?thesis using less.hyps [of q 1 items] by (simp add: result_ok_def)
  next
    case (known q ii v its r3)
    then have its: "evolves items its" "config_code r3"
      using store_value_ok [of items strtof ii v] by (simp_all add: result_ok_def)
    then have "config_code (if r3 \<noteq> 0 then r3 else ret)" using less.prems by simp
    then show ?thesis
      using known its less.hyps [of q "if r3 \<noteq> 0 then r3 else ret" its] evolves_trans [OF its(1)]
      by (auto simp: result_ok_def simp del: split_paired_All)
  qed
  then show ?case by (simp add: result_ok_def)
qed

lemma read_lines_ok:
  "config_code ret \<Longrightarrow>
   result_ok items (read_lines (\<lambda>line items. parse_loop strtof read_file line 0 items 0) lines items ret)"
proof (induction lines arbitrary: items ret)
  case (Cons line lines)
  let ?p = "\<lambda>line items. parse_loop strtof read_file line 0 items 0"
  show ?case
  proof (cases "?p line items")
    case None
    then show ?thesis using Cons by (simp add: result_ok_def)
  next
    case (Some res)
    obtain its r where res: "res = (its, r)" by (cases res)
    have "evolves items its" "config_code r"
      using parse_loop_ok [of 0 items strtof line 0] Some res by (simp_all add: result_ok_def)
    then have "result_ok items (read_lines ?p lines its (if r \<noteq> 0 then r else ret))"
      using Cons.IH [of "if r \<noteq> 0 then r else ret" its] Cons.prems by (simp add: result_ok_trans)
    then show ?thesis using Cons.IH [of ret items] Cons.prems Some res by (simp add: result_ok_Some)
  qed
qed (simp add: result_ok_def)

end

lemma read_config_file_reader: "config_reader (read_config_file strtof files fds)"
proof (induction fds)
  case 0
  show ?case by unfold_locales (simp add: result_ok_def)
next
  case (Suc fds)
  show ?case
  proof
    show "result_ok items (read_config_file strtof files (Suc fds) fname items)" for items fname
      using config_reader.read_lines_ok [OF Suc, of 0 items strtof]
      by (simp add: result_ok_def split: option.splits)
  qed
qed

interpretation rcf: config_reader "read_config_file strtof files fds" for strtof files fds
  by (rule read_config_file_reader)

text \<open>
  C20. Types of the configuration.  Whatever the string, and whatever the files it includes, the items
  keep their keys and their declared types, every value still has the type its item declares, an item
  that is not marked as found has the value it had before, and the result is -1, 0 or 1.
\<close>

theorem parse_config_types:
  assumes "well_typed items" and "parse_config strtof files fds str items = Some (items', r)"
  shows "well_typed items' \<and> map ci_key items' = map ci_key items \<and> map ci_datatype items' = map ci_datatype items \<and>
    (\<forall>i j. (i, j) \<in> set (zip items items') \<and> \<not> ci_found j \<longrightarrow> j = i) \<and> r \<in> {-1, 0, 1}"
proof -
  have ev: "evolves items items'" and r: "config_code r"
    using rcf.parse_loop_ok [of 0 items strtof strtof files fds str 0] assms(2) by (simp_all add: parse_config_def result_ok_def)
  have "map ci_key items' = map ci_key items \<and> map ci_datatype items' = map ci_datatype items"
    using ev unfolding evolves_def by (induction rule: list_all2_induct) (auto simp: item_step_def)
  moreover have "\<forall>i j. (i, j) \<in> set (zip items items') \<and> \<not> ci_found j \<longrightarrow> j = i"
    using ev unfolding evolves_def by (auto simp: list_all2_iff item_step_def)
  ultimately show ?thesis using evolves_typed [OF ev assms(1)] r by (simp add: config_code_def)
qed

section \<open>Settings\<close>

text \<open>The characters \<open>trim_copy\<close> copies one by one: no terminator, stop character or backslash.\<close>

definition plain :: "u8 \<Rightarrow> bytes \<Rightarrow> bool" where
  "plain stop bs \<longleftrightarrow> (\<forall>c \<in> set bs. c \<noteq> 0 \<and> c \<noteq> stop \<and> c \<noteq> 92)"

lemma plain_Cons [simp]: "plain stop (c # bs) \<longleftrightarrow> c \<noteq> 0 \<and> c \<noteq> stop \<and> c \<noteq> 92 \<and> plain stop bs"
  by (auto simp: plain_def)

lemma c_string_plain: "plain stop bs \<Longrightarrow> c_string bs = bs"
  by (simp add: c_string_def plain_def takeWhile_eq_all_conv)

lemma char_rd_drop: "drop p str = c # r \<Longrightarrow> char_rd str p = Some c"
  by (metis char_rd_def drop_eq_Nil list.sel(1) list.simps(3) hd_drop_conv_nth linorder_not_le)

lemma char_rd_end: "drop p str = [] \<Longrightarrow> p \<le> length str \<Longrightarrow> char_rd str p = Some 0"
  by (simp add: char_rd_def)

lemma drop_Suc_tl: "drop p str = c # r \<Longrightarrow> drop (Suc p) str = r"
  by (metis drop_Suc list.sel(3) tl_drop)

lemma skip_space_none: "drop p str = c # r \<Longrightarrow> \<not> isspace c \<Longrightarrow> skip_space str p = p"
  by (simp add: skip_space_def)

lemma trim_last_ge: "src \<le> q \<Longrightarrow> q \<le> l \<Longrightarrow> \<not> isspace (str ! q) \<Longrightarrow> q \<le> trim_last str src l"
  by (induction l) (auto simp: le_Suc_eq)

lemma trim_last_le: "trim_last str src l \<le> l"
  by (induction l) auto

lemma find_last_ge:
  assumes "p \<le> q" "q < length str" "\<not> isspace (str ! q)"
  shows "q \<le> find_last str p"
proof -
  have "q \<le> length str - 1" using assms(2) by simp
  then have "q \<le> trim_last str p (length str - 1)" using trim_last_ge assms by blast
  then show ?thesis using assms by (auto simp: find_last_def Let_def simp del: One_nat_def)
qed

text \<open>Copying a run of plain characters that is followed by the stop character or the end.\<close>

lemma trim_loop_run:
  assumes "drop src str = c # body @ rest" "c \<noteq> 92" "plain stop body" "n + Suc (length body) < sz"
    and "rest = [] \<and> length str \<le> lastchar + 1 \<or> rest \<noteq> [] \<and> hd rest = stop \<and> src + Suc (length body) \<le> lastchar"
  shows "trim_loop str sz stop lastchar src n dest = Some (src + Suc (length body), n + Suc (length body), dest @ c # body)"
  using assms
proof (induction body arbitrary: src n dest c)
  case Nil
  have c: "char_rd str src = Some c" using Nil.prems(1) by (simp add: char_rd_drop)
  have d: "drop (Suc src) str = rest" using drop_Suc_tl [OF Nil.prems(1)] by simp
  have le: "Suc src \<le> length str" using Nil.prems(1) by (metis Suc_leI drop_eq_Nil list.simps(3) linorder_not_le)
  have "char_rd str (Suc src) = Some (if rest = [] then 0 else hd rest)"
    using char_rd_end [of "Suc src" str] d le char_rd_drop [of "Suc src" str "hd rest" "tl rest"] by (cases rest) auto
  then show ?case using Nil.prems c by (subst trim_loop.simps) (auto simp: Let_def)
next
  case (Cons b body)
  have c: "char_rd str src = Some c" using Cons.prems(1) by (simp add: char_rd_drop)
  have d: "drop (Suc src) str = b # body @ rest" using drop_Suc_tl [OF Cons.prems(1)] by simp
  have len: "length str - Suc src = Suc (length body + length rest)" using arg_cong [OF d, of length] by simp
  have b: "char_rd str (Suc src) = Some b" using d by (rule char_rd_drop)
  have ih: "trim_loop str sz stop lastchar (Suc src) (Suc n) (dest @ [c]) =
      Some (Suc src + Suc (length body), Suc n + Suc (length body), (dest @ [c]) @ b # body)"
    by (rule Cons.IH [OF d]) (use Cons.prems in auto)
  have "\<not> Suc src > lastchar" using Cons.prems(5) len by auto
  then show ?case using ih Cons.prems c b by (subst trim_loop.simps) (simp add: Let_def)
qed

lemma trim_copy_run:
  assumes d: "drop p str = c # body @ rest" and c: "c \<noteq> 0" "c \<noteq> 92" "\<not> isspace c" and "plain stop body"
    and "Suc (length body) < sz" and stop: "\<not> isspace stop"
    and "rest = [] \<and> (c # body = cs @ [l]) \<and> \<not> isspace l \<or> rest \<noteq> [] \<and> hd rest = stop"
  shows "trim_copy str p sz stop = Some (p + Suc (length body), c # body, 0)"
proof -
  have len: "length str - p = Suc (length body + length rest)" using arg_cong [OF d, of length] by simp
  then have le: "p \<le> length str" by simp
  have nth: "str ! (p + i) = (c # body @ rest) ! i" if "i \<le> length body + length rest" for i
    using d le by (metis nth_drop)
  let ?l = "find_last str p"
  have "rest = [] \<and> length str \<le> ?l + 1 \<or> rest \<noteq> [] \<and> hd rest = stop \<and> p + Suc (length body) \<le> ?l"
  proof (cases "rest = []")
    case True
    then have cs: "c # body = cs @ [l]" "\<not> isspace l" using assms(8) by auto
    have "str ! (p + length body) = (c # body) ! length body" using nth [of "length body"] True by simp
    also have "\<dots> = l" using cs(1) by (metis append_eq_append_conv2 length_Cons length_append_singleton nat.inject nth_append_length)
    finally have "p + length body \<le> ?l" using cs len True by (intro find_last_ge) simp_all
    then show ?thesis using len le True by simp
  next
    case False
    then have h: "hd rest = stop" using assms(8) by auto
    have "str ! (p + Suc (length body)) = stop" using nth [of "Suc (length body)"] False h by (simp add: nth_append hd_conv_nth Suc_le_eq)
    then show ?thesis using find_last_ge [of p "p + Suc (length body)" str] stop len False h by (cases rest) auto
  qed
  then have "trim_loop str sz stop ?l p 0 [] = Some (p + Suc (length body), Suc (length body), c # body)"
    using trim_loop_run [OF d c(2) assms(5), of 0 sz ?l "[]"] assms(6) by simp
  moreover have "skip_space str p = p" using skip_space_none [OF d c(3)] .
  moreover have "p \<le> ?l" using calculation(1) find_last_ge [of p p str] nth [of 0] c(3) len by simp
  moreover have "c_string (c # body) = c # body" using c_string_plain [OF assms(5)] c(1) by (simp add: c_string_def)
  ultimately show ?thesis using le assms(6) by (simp add: trim_copy_def)
qed

text \<open>A configuration string written from a list of settings, and the direct assignment of the settings.\<close>

definition plain_key :: "bytes \<Rightarrow> bool" where
  "plain_key k \<longleftrightarrow> k \<noteq> [] \<and> length k < 80 \<and> plain 61 k \<and> (\<forall>c \<in> set k. \<not> isspace c)"

definition plain_value :: "bytes \<Rightarrow> bool" where
  "plain_value v \<longleftrightarrow> v \<noteq> [] \<and> length v < 1024 \<and> plain 59 v \<and> \<not> isspace (hd v)"

primrec render :: "(bytes \<times> bytes) list \<Rightarrow> bytes" where
  "render [] = []"
| "render (kv # kvs) = fst kv @ 61 # snd kv @ 59 # render kvs"

fun assign :: "'f strtof_t \<Rightarrow> 'f reader \<Rightarrow> (bytes \<times> bytes) list \<Rightarrow> 'f config_item list \<Rightarrow> int \<Rightarrow> 'f config_result" where
  "assign strtof rd [] items ret = Some (items, ret)"
| "assign strtof rd ((k, v) # kvs) items ret =
     (case find_item items k of
        None \<Rightarrow> assign strtof rd kvs items 1
      | Some ii \<Rightarrow>
          (case store_value strtof rd items ii v of
             None \<Rightarrow> None
           | Some (items, r) \<Rightarrow>
               if (if r \<noteq> 0 then r else ret) = -1 then Some (items, -1)
               else assign strtof rd kvs items (if r \<noteq> 0 then r else ret)))"

lemma no_space: "\<not> isspace 61" "\<not> isspace 59" "\<not> isspace 0"
  by (simp_all add: isspace_def)

lemma parse_loop_one:
  assumes d: "drop ptr str = k @ 61 # c # v @ rest" and k: "plain_key k" and c: "c \<noteq> 0" "c \<noteq> 92" "\<not> isspace c"
    and v: "plain 59 v" "Suc (length v) < 1024" and rest: "rest \<noteq> []" "hd rest = 59"
  shows "parse_loop strtof rd str ptr items ret =
    (case find_item items k of
       None \<Rightarrow> parse_loop strtof rd str (ptr + length k + length v + 3) items 1
     | Some ii \<Rightarrow>
         (case store_value strtof rd items ii (c # v) of
            None \<Rightarrow> None
          | Some (items, r) \<Rightarrow>
              if (if r \<noteq> 0 then r else ret) = -1 then Some (items, -1)
              else parse_loop strtof rd str (ptr + length k + length v + 3) items (if r \<noteq> 0 then r else ret)))"
proof -
  obtain a k' where ak: "k = a # k'" using k by (cases k) (auto simp: plain_key_def)
  then have a: "a \<noteq> 0" "a \<noteq> 92" "\<not> isspace a" "plain 61 k'" "Suc (length k') < 80" using k by (auto simp: plain_key_def)
  have d1: "drop ptr str = a # k' @ 61 # c # v @ rest" using d ak by simp
  have t1: "trim_copy str ptr 80 61 = Some (ptr + length k, k, 0)"
    using trim_copy_run [OF d1 a(1-5) no_space(1), of "[]" 0] ak by simp
  have d2: "drop (Suc (ptr + length k)) str = c # v @ rest"
    using arg_cong [OF d, of "drop (Suc (length k))"] by (simp add: add.commute)
  have t2: "trim_copy str (Suc (ptr + length k)) 1024 59 = Some (ptr + length k + length v + 2, c # v, 0)"
    using trim_copy_run [OF d2 c v no_space(2), of "[]" 0] rest by simp
  have d3: "drop (ptr + length k + length v + 2) str = rest"
    using arg_cong [OF d2, of "drop (Suc (length v))"] by (simp add: add.commute add.left_commute)
  have e: "char_rd str (ptr + length k + length v + 2) = Some 59"
    using char_rd_drop [of _ str 59 "tl rest"] d3 rest by (cases rest) auto
  have sk: "skip_space str ptr = ptr" using skip_space_none [OF d1 a(3)] .
  have ne: "skip_space str ptr \<noteq> length str" using d1 sk by auto
  have q: "ptr + length k + length v + 3 = (if (59 :: u8) = 59 then ptr + length k + length v + 2 + 1 else ptr + length k + length v + 2)"
    by simp
  have "trim_copy str (skip_space str ptr) 80 61 = Some (ptr + length k, k, 0)" using t1 sk by simp
  note parse_loop_setting [OF char_rd_drop [OF d1] a(1) ne this _ t2 _ e q, of strtof rd items ret]
  then show ?thesis by simp
qed

lemma parse_render:
  "list_all (\<lambda>(k, v). plain_key k \<and> plain_value v) kvs \<Longrightarrow> drop ptr str = render kvs \<Longrightarrow> ptr \<le> length str \<Longrightarrow>
   parse_loop strtof rd str ptr items ret = assign strtof rd kvs items ret"
proof (induction kvs arbitrary: ptr items ret)
  case Nil
  then have "char_rd str ptr = Some 0" by (simp add: char_rd_end)
  then show ?case by (simp add: parse_loop.simps [of strtof rd str ptr])
next
  case (Cons kv kvs)
  obtain k c v where kv: "kv = (k, c # v)" using Cons.prems(1) by (cases kv; cases "snd kv") (auto simp: plain_value_def)
  then have k: "plain_key k" and v: "c \<noteq> 0" "c \<noteq> 92" "\<not> isspace c" "plain 59 v" "Suc (length v) < 1024"
    using Cons.prems(1) by (auto simp: plain_value_def)
  let ?q = "ptr + length k + length v + 3"
  have d: "drop ptr str = k @ 61 # c # v @ 59 # render kvs" using Cons.prems(2) kv by simp
  have "length str - ptr = length k + length v + 3 + length (render kvs)" using arg_cong [OF d, of length] by simp
  then have q: "?q \<le> length str" using Cons.prems(3) by simp
  have "drop ?q str = drop (length k + length v + 3) (drop ptr str)" by (simp add: add.commute add.left_commute)
  also have "\<dots> = render kvs" unfolding d by (simp add: numeral_3_eq_3)
  finally have ih: "parse_loop strtof rd str ?q items ret = assign strtof rd kvs items ret" for items ret
    using Cons.IH Cons.prems(1) q by simp
  show ?case
    using parse_loop_one [OF d k v, of strtof rd items ret] by (simp add: kv ih split: option.split prod.split)
qed


text \<open>
  C40. Settings without a value.  A key without \<open>=\<close> at the end of the string makes the parser read behind
  the terminator.  An empty value takes in the setting that follows: \<open>k=;l=w;\<close> is read as the single
  setting of \<open>k\<close> to \<open>;l=w\<close>.
\<close>

theorem parse_config_empty_value:
  assumes k: "plain_key k" and l: "plain_key l" and w: "plain_value w" and "59 \<notin> set l" and len: "length l + length w < 1022"
  shows "parse_config strtof files fds k items = None \<and>
    parse_config strtof files fds (k @ 61 # 59 # l @ 61 # w @ [59]) items =
    assign strtof (read_config_file strtof files fds) [(k, 59 # l @ 61 # w)] items 0"
proof
  obtain c b where cb: "k = c # b" using k by (cases k) (auto simp: plain_key_def)
  then have c: "c \<noteq> 0" "c \<noteq> 92" "\<not> isspace c" "plain 61 b" "Suc (length b) < 80" using k by (auto simp: plain_key_def)
  have "\<not> isspace (last k)" "k = butlast k @ [last k]" using k by (auto simp: plain_key_def)
  then have t: "trim_copy k 0 80 61 = Some (length k, k, 0)"
    using trim_copy_run [of 0 k c b "[]" 61 80 "butlast k" "last k"] c cb no_space by simp
  have sk: "skip_space k 0 = 0" using skip_space_none [of 0 k c b] cb c by simp
  have "trim_copy k (Suc (length k)) 1024 59 = None" by (simp add: trim_copy_def)
  moreover have "char_rd k 0 = Some c" by (simp add: cb char_rd_def)
  ultimately show "parse_config strtof files fds k items = None"
    using t sk c cb unfolding parse_config_def parse_loop.simps [of strtof _ k 0] by simp
  let ?str = "k @ 61 # 59 # l @ 61 # w @ [59]"
  let ?q = "0 + length k + length (l @ 61 # w) + 3"
  have p: "plain 59 (l @ 61 # w)" using l w assms(4) by (auto simp: plain_key_def plain_value_def plain_def)
  have d: "drop 0 ?str = k @ 61 # 59 # (l @ 61 # w) @ [59]" by simp
  have "drop ?q ?str = render []" by simp
  then have e: "parse_loop strtof rd ?str ?q items ret = Some (items, ret)" for rd items ret
    using parse_render [of "[]" ?q ?str strtof rd items ret] by simp
  show "parse_config strtof files fds ?str items =
      assign strtof (read_config_file strtof files fds) [(k, 59 # l @ 61 # w)] items 0"
    using parse_loop_one [OF d k _ _ no_space(2) p, of strtof "read_config_file strtof files fds" items 0] len e
    by (simp add: parse_config_def split: option.split prod.split)
qed

text \<open>The items and the settings of the examples: \<open>size=7k;\<close> and \<open>name=x;\<close>.\<close>

definition demo_items :: "nat config_item list" where
  "demo_items =
     [\<lparr>ci_key = ascii ''size'', ci_datatype = DT_SIZE, ci_value = Dt_size 0, ci_found = False\<rparr>,
      \<lparr>ci_key = ascii ''name'', ci_datatype = DT_STRING, ci_value = Dt_string [], ci_found = False\<rparr>]"

definition demo_strtof :: "nat strtof_t" where "demo_strtof str = (0, 0, False)"

lemma demo_plain:
  "plain_key (ascii ''size'')" "plain_key (ascii ''name'')" "plain_key (ascii ''other'')"
  "plain_value (ascii ''7k'')" "plain_value (ascii ''x'')"
  by (simp_all add: plain_key_def plain_value_def ascii_def plain_def isspace_def)

lemma demo_size: "parse_size (ascii ''7k'') = Some 7168"
  by (simp add: parse_size_def ascii_def strchr_def safe_strtoull_def strtoull_def scan_number_def isspace_def
      isdigit_def digits_value_def end_ok_def char_at_def)

definition demo_sized :: "nat config_item list" where
  "demo_sized = [(demo_items ! 0)\<lparr>ci_value := Dt_size 7168, ci_found := True\<rparr>, demo_items ! 1]"

definition demo_named :: "nat config_item list" where
  "demo_named = [demo_items ! 0, (demo_items ! 1)\<lparr>ci_value := Dt_string (ascii '';size=x''), ci_found := True\<rparr>]"

lemma demo_find:
  "find_item demo_items (ascii ''size'') = Some 0" "find_item demo_items (ascii ''name'') = Some 1"
  "find_item demo_items (ascii ''other'') = None"
  by (simp_all add: find_item_def demo_items_def upt_conv_Cons ascii_def)

lemma demo_store:
  "store_value demo_strtof rd demo_items 0 (ascii ''7k'') = Some (demo_sized, 0)"
  "store_value demo_strtof rd demo_items 1 (ascii '';size=x'') = Some (demo_named, 0)"
  by (simp_all add: store_value_def put_value_def demo_items_def demo_size demo_sized_def demo_named_def)

theorem parse_config_types_witness:
  "parse_config demo_strtof Map.empty 0 (render [(ascii ''size'', ascii ''7k'')]) demo_items = Some (demo_sized, 0) \<and>
   well_typed demo_sized"
proof -
  let ?kvs = "[(ascii ''size'', ascii ''7k'')]"
  have p: "parse_config demo_strtof Map.empty 0 (render ?kvs) demo_items = Some (demo_sized, 0)"
    using parse_render [of ?kvs 0 "render ?kvs" demo_strtof _ demo_items 0] demo_plain demo_find(1) demo_store(1)
    by (simp add: parse_config_def del: render.simps)
  have "well_typed demo_items" by (simp add: well_typed_def demo_items_def)
  from parse_config_types [OF this p] p show ?thesis by blast
qed


theorem parse_config_empty_value_witness:
  "parse_config demo_strtof Map.empty 0 (ascii ''name'') demo_items = None \<and>
   parse_config demo_strtof Map.empty 0 (ascii ''name=;size=x;'') demo_items = Some (demo_named, 0)"
proof -
  have "length (ascii ''size'') + length (ascii ''x'') < 1022" "59 \<notin> set (ascii ''size'')" by (simp_all add: ascii_def)
  from parse_config_empty_value [OF demo_plain(2) demo_plain(1) demo_plain(5) this(2) this(1), of demo_strtof Map.empty 0 demo_items]
  have "parse_config demo_strtof Map.empty 0 (ascii ''name'') demo_items = None \<and>
    parse_config demo_strtof Map.empty 0 (ascii ''name=;size=x;'') demo_items =
    assign demo_strtof (read_config_file demo_strtof Map.empty 0) [(ascii ''name'', ascii '';size=x'')] demo_items 0"
    by (simp only: ascii_def) simp
  then show ?thesis using demo_find(2) demo_store(2) by simp
qed

text \<open>
  Unknown keys.  The result 1 that announces an unknown key is lost when white space follows the setting, as
  the line end does in every line of a configuration file: the result is 0.
\<close>

theorem parse_config_unknown_lost:
  assumes k: "plain_key k" and v: "plain_value v" and "find_item items k = None"
  shows "parse_config strtof files fds (render [(k, v)]) items = Some (items, 1) \<and>
    parse_config strtof files fds (render [(k, v)] @ [10]) items = Some (items, 0)"
proof
  let ?rd = "read_config_file strtof files fds"
  show "parse_config strtof files fds (render [(k, v)]) items = Some (items, 1)"
    using parse_render [of "[(k, v)]" 0 "render [(k, v)]" strtof ?rd items 0] assms by (simp add: parse_config_def)
  obtain c w where cw: "v = c # w" using v by (cases v) (auto simp: plain_value_def)
  then have c: "c \<noteq> 0" "c \<noteq> 92" "\<not> isspace c" "plain 59 w" "Suc (length w) < 1024" using v by (auto simp: plain_value_def)
  let ?str = "k @ 61 # c # w @ [59, 10]" and ?q = "0 + length k + length w + 3"
  have d: "drop 0 ?str = k @ 61 # c # w @ [59, 10]" by simp
  have d10: "drop ?q ?str = [10]" by (simp add: numeral_3_eq_3)
  then have "char_rd ?str ?q = Some 10" "skip_space ?str ?q = length ?str"
    using char_rd_drop [OF d10] by (simp_all only: skip_space_def) (simp add: isspace_def)
  then have "parse_loop strtof ?rd ?str ?q items 1 = Some (items, 0)"
    by (simp only: parse_loop.simps [of strtof ?rd ?str ?q]) simp
  then show "parse_config strtof files fds (render [(k, v)] @ [10]) items = Some (items, 0)"
    using parse_loop_one [OF d k c, of strtof ?rd items 0] assms(3) by (simp add: parse_config_def cw)
qed

theorem parse_config_unknown_lost_witness:
  "parse_config demo_strtof Map.empty 0 (render [(ascii ''other'', ascii ''x'')] @ [10]) demo_items = Some (demo_items, 0)"
  using parse_config_unknown_lost [OF demo_plain(3,5) demo_find(3)] by blast

text \<open>
  Sizes.  A number that fits 64 bits is read as itself, with the suffix \<open>k\<close>, \<open>m\<close> or \<open>g\<close> multiplied by the
  power of 1024 modulo \<open>2 ^ 64\<close>, also when the suffix is a capital; with the suffix \<open>t\<close> the result is always 0.
\<close>

theorem parse_size_units:
  assumes "n < 2 ^ 64"
  shows "parse_size (dec_bytes n) = Some (of_nat n) \<and>
    parse_size (dec_bytes n @ ascii ''k'') = Some (of_nat n * 2 ^ 10) \<and> parse_size (dec_bytes n @ ascii ''K'') = Some (of_nat n * 2 ^ 10) \<and>
    parse_size (dec_bytes n @ ascii ''m'') = Some (of_nat n * 2 ^ 20) \<and> parse_size (dec_bytes n @ ascii ''M'') = Some (of_nat n * 2 ^ 20) \<and>
    parse_size (dec_bytes n @ ascii ''g'') = Some (of_nat n * 2 ^ 30) \<and> parse_size (dec_bytes n @ ascii ''G'') = Some (of_nat n * 2 ^ 30) \<and>
    parse_size (dec_bytes n @ ascii ''t'') = Some 0 \<and> parse_size (dec_bytes n @ ascii ''T'') = Some 0"
proof -
  have dig: "c \<in> set (dec_bytes n) \<Longrightarrow> c \<le> 57" for c using dec_bytes_digits [of n] by (auto simp: isdigit_def)
  have notin: "c \<notin> set (dec_bytes n)" if "57 < c" for c using dig [of c] that by force
  have tw: "takeWhile (\<lambda>b. b \<noteq> c) (dec_bytes n @ [c]) = dec_bytes n" if "57 < c" for c
    using notin [OF that] by (subst takeWhile_append2) auto
  have num: "safe_strtoull (dec_bytes n) = Some (of_nat n)" using assms by (simp add: safe_strtoull_def strtoull_dec end_ok_dec no_minus_dec)
  show ?thesis
    using notin tw by (simp add: parse_size_def ascii_def strchr_def toupper_def num)
qed

theorem parse_size_units_witness: "parse_size (dec_bytes 7 @ ascii ''k'') = Some 7168 \<and> parse_size (dec_bytes 7 @ ascii ''t'') = Some 0"
  using parse_size_units [of 7] by simp

end
