(* ===== verification/DefaultEngine.thy ===== *)
theory DefaultEngine
  imports ItemWalk ConfigParser
begin

unbundle bit_operations_syntax

text \<open>
  The entry points of the default engine (\<open>default_engine/default_engine.c\<close>): creation and
  initialisation, the operations the server calls, vbucket states, the commands of the binary
  protocol the engine handles itself, and tap connections.

  A request is the byte sequence of its packet, so that \<open>ntohs\<close> and \<open>ntohl\<close> of a header field are
  big-endian reads at its offset; a read outside of the packet is \<open>None\<close>.  A response is the value the
  handler passes to the response function of the server; that function is the parameter \<open>respond\<close>,
  which says whether the response was sent.  Statistics are the list of the pairs given to
  \<open>add_stat\<close>.  Log messages and the registration of the disconnect callback have no effect on the
  engine.
\<close>

section \<open>Vbucket states\<close>

type_synonym vbucket_state_t = u32

definition vbucket_state_active :: vbucket_state_t where "vbucket_state_active = 1"
definition vbucket_state_replica :: vbucket_state_t where "vbucket_state_replica = 2"
definition vbucket_state_pending :: vbucket_state_t where "vbucket_state_pending = 3"
definition vbucket_state_dead :: vbucket_state_t where "vbucket_state_dead = 4"
definition NUM_VBUCKETS :: nat where "NUM_VBUCKETS = 65536"

definition is_valid_vbucket_state_t :: "vbucket_state_t \<Rightarrow> bool" where
  "is_valid_vbucket_state_t s \<longleftrightarrow>
     s = vbucket_state_active \<or> s = vbucket_state_replica \<or> s = vbucket_state_pending \<or> s = vbucket_state_dead"

text \<open>
  The state is kept in the field \<open>int state : 2\<close> of the byte of the vbucket.  Writing it keeps the low
  two bits; reading it extends the sign.
\<close>

definition set_vbucket_state :: "default_engine \<Rightarrow> u16 \<Rightarrow> vbucket_state_t \<Rightarrow> default_engine" where
  "set_vbucket_state e vbid to =
     (let c = vbucket_infos e ! unat vbid
      in e\<lparr>vbucket_infos := (vbucket_infos e)[unat vbid := (c AND NOT 3) OR (ucast to AND 3)]\<rparr>)"

definition get_vbucket_state :: "default_engine \<Rightarrow> u16 \<Rightarrow> vbucket_state_t" where
  "get_vbucket_state e vbid = scast (ucast (vbucket_infos e ! unat vbid) :: 2 word)"

definition handled_vbucket :: "default_engine \<Rightarrow> u16 \<Rightarrow> bool" where
  "handled_vbucket e vbid \<longleftrightarrow> ignore_vbucket (config e) \<or> get_vbucket_state e vbid = vbucket_state_active"

definition vbucket_state_name :: "vbucket_state_t \<Rightarrow> bytes" where
  "vbucket_state_name s =
     (if is_valid_vbucket_state_t s then
        ascii (if s = vbucket_state_active then ''active'' else if s = vbucket_state_replica then ''replica''
               else if s = vbucket_state_pending then ''pending'' else ''dead'')
      else ascii ''Illegal vbucket state'')"

section \<open>Creation and initialisation\<close>

datatype engine_feature_t =
    ENGINE_FEATURE_CAS | ENGINE_FEATURE_PERSISTENT_STORAGE | ENGINE_FEATURE_SECONDARY_ENGINE
  | ENGINE_FEATURE_ACCESS_CONTROL | ENGINE_FEATURE_MULTI_TENANCY | ENGINE_FEATURE_LRU | ENGINE_FEATURE_VBUCKET

text \<open>
  The instance: the state of \<open>Engine\<close> and the members only these functions use.  The floating-point
  operations are parameters: reading a number, \<open>size *= factor\<close> and the test
  \<open>size <= item_size_max / factor\<close>.
\<close>

record 'f float_ops =
  f_strtof :: "'f strtof_t"
  f_scale :: "'f \<Rightarrow> nat \<Rightarrow> nat"
  f_fits :: "'f \<Rightarrow> nat \<Rightarrow> nat \<Rightarrow> bool"

record 'f handle =
  engine :: default_engine
  initialized :: bool
  factor :: 'f
  features :: "engine_feature_t list"

definition zero_stats :: itemstats_t where
  "zero_stats = \<lparr>evicted = 0, evicted_nonzero = 0, evicted_time = 0, outofmemory = 0, tailrepairs = 0, st_reclaimed = 0\<rparr>"

text \<open>
  \<open>create_instance\<close>; \<open>f125\<close> is the constant 1.25, \<open>api\<close> says whether the server interface is there,
  \<open>malloc_ok\<close> whether the instance can be allocated, and \<open>env\<close> gives the memory, the server functions and
  the outcomes of later library calls.
\<close>

definition create_instance :: "'f \<Rightarrow> u64 \<Rightarrow> bool \<Rightarrow> bool \<Rightarrow> default_engine \<Rightarrow> ENGINE_ERROR_CODE + 'f handle" where
  "create_instance f125 interface api malloc_ok env =
     (if interface \<noteq> 1 \<or> \<not> api then Inl ENGINE_ENOTSUP
      else if \<not> malloc_ok then Inl ENGINE_ENOMEM
      else
        let e = env\<lparr>
          assoc := \<lparr>hashpower = 16, primary_hashtable = [], old_hashtable = [], hash_items = 0, expanding = False, expand_bucket = 0\<rparr>,
          slabs := \<lparr>slabclass = replicate MAX_NUMBER_OF_SLAB_CLASSES empty_class, mem_limit = 0, mem_malloced = 0, power_largest = 0,
                    mem_base = NULL, mem_current = NULL, mem_avail = 0, malloc_q = malloc_q (slabs env), realloc_q = realloc_q (slabs env)\<rparr>,
          items := \<lparr>heads = replicate POWER_LARGEST NULL, tails = replicate POWER_LARGEST NULL,
                    itemstats = replicate POWER_LARGEST zero_stats, sizes = replicate POWER_LARGEST 0\<rparr>,
          config := \<lparr>use_cas = True, verbose = 0, oldest_live = 0, evict_to_free = True, maxbytes = 64 * 1024 * 1024, preallocate = False,
                     chunk_size = 48, item_size_max = 1024 * 1024, ignore_vbucket = False, vb0 = False\<rparr>,
          stats := \<lparr>evictions = 0, reclaimed = 0, curr_bytes = 0, curr_items = 0, total_items = 0\<rparr>,
          scrubber := \<lparr>running = False, visited = 0, cleaned = 0, started = 0, stopped = 0\<rparr>,
          vbucket_infos := replicate NUM_VBUCKETS 0\<rparr>
        in case calloc_q env of
             True # q \<Rightarrow>
               Inr \<lparr>engine = e\<lparr>tap_clients := replicate 10 NULL, calloc_q := q\<rparr>, initialized = True, factor = f125,
                    features = [ENGINE_FEATURE_LRU]\<rparr>
           | _ \<Rightarrow> Inl ENGINE_ENOMEM)"

definition default_get_info :: "'f handle \<Rightarrow> engine_feature_t list" where
  "default_get_info h = features h"

text \<open>The table of settings, pointing into the configuration, and the configuration after parsing.\<close>

definition config_items :: "'f \<Rightarrow> config_st \<Rightarrow> 'f config_item list" where
  "config_items fac c =
     (let i = (\<lambda>key t v. \<lparr>ci_key = ascii key, ci_datatype = t, ci_value = v, ci_found = False\<rparr>)
      in [i ''use_cas'' DT_BOOL (Dt_bool (use_cas c)),
          i ''verbose'' DT_SIZE (Dt_size (of_nat (verbose c))),
          i ''eviction'' DT_BOOL (Dt_bool (evict_to_free c)),
          i ''cache_size'' DT_SIZE (Dt_size (of_nat (maxbytes c))),
          i ''preallocate'' DT_BOOL (Dt_bool (preallocate c)),
          i ''factor'' DT_FLOAT (Dt_float fac),
          i ''chunk_size'' DT_SIZE (Dt_size (of_nat (chunk_size c))),
          i ''item_size_max'' DT_SIZE (Dt_size (of_nat (item_size_max c))),
          i ''ignore_vbucket'' DT_BOOL (Dt_bool (ignore_vbucket c)),
          i ''vb0'' DT_BOOL (Dt_bool (vb0 c)),
          i ''config_file'' DT_CONFIGFILE Dt_none])"

fun size_of :: "'f config_value \<Rightarrow> nat" where
  "size_of (Dt_size v) = unat v"
| "size_of _ = 0"

fun bool_of :: "'f config_value \<Rightarrow> bool" where
  "bool_of (Dt_bool b) = b"
| "bool_of _ = False"

fun float_of :: "'f \<Rightarrow> 'f config_value \<Rightarrow> 'f" where
  "float_of f (Dt_float g) = g"
| "float_of f _ = f"

definition config_of :: "'f config_item list \<Rightarrow> config_st \<Rightarrow> config_st" where
  "config_of cis c =
     (let v = (\<lambda>i. ci_value (cis ! i))
      in c\<lparr>use_cas := bool_of (v 0), verbose := size_of (v 1), evict_to_free := bool_of (v 2), maxbytes := size_of (v 3),
           preallocate := bool_of (v 4), chunk_size := size_of (v 6), item_size_max := size_of (v 7),
           ignore_vbucket := bool_of (v 8), vb0 := bool_of (v 9)\<rparr>)"

definition initalize_configuration ::
  "'f float_ops \<Rightarrow> (bytes \<rightharpoonup> bytes) \<Rightarrow> nat \<Rightarrow> 'f handle \<Rightarrow> bytes option \<Rightarrow> ('f handle \<times> ENGINE_ERROR_CODE) option" where
  "initalize_configuration F files fds se cfg_str = do {
     let c = (config (engine se))\<lparr>vb0 := True\<rparr>;
     (c, fac) \<leftarrow>
       (case cfg_str of
          None \<Rightarrow> Some (c, factor se)
        | Some str \<Rightarrow> do {
            (cis, ret) \<leftarrow> parse_config (f_strtof F) files fds str (config_items (factor se) c);
            Some (config_of cis c, float_of (factor se) (ci_value (cis ! 5)))
          });
     let e = (engine se)\<lparr>config := c\<rparr>;
     let e = (if vb0 c then set_vbucket_state e 0 vbucket_state_active else e);
     Some (se\<lparr>engine := e, factor := fac\<rparr>, ENGINE_SUCCESS)
   }"

definition default_initialize ::
  "'f float_ops \<Rightarrow> (bytes \<rightharpoonup> bytes) \<Rightarrow> nat \<Rightarrow> 'f handle \<Rightarrow> bytes option \<Rightarrow> ('f handle \<times> ENGINE_ERROR_CODE) option" where
  "default_initialize F files fds se config_str = do {
     (se, ret) \<leftarrow> initalize_configuration F files fds se config_str;
     if ret \<noteq> ENGINE_SUCCESS then Some (se, ret)
     else
       let c = config (engine se);
           se = (if use_cas c then se\<lparr>features := features se @ [ENGINE_FEATURE_CAS]\<rparr> else se)
       in case assoc_init (engine se) of
            None \<Rightarrow> Some (se, ENGINE_ENOMEM)
          | Some e \<Rightarrow>
              (case slabs_init (f_scale F (factor se)) (f_fits F (factor se) (item_size_max c)) (item_size_max c)
                      ((sizeof_hash_item + chunk_size c) mod 2 ^ 32) (maxbytes c) (preallocate c) (slabs e) of
                 None \<Rightarrow> Some (se\<lparr>engine := e\<rparr>, ENGINE_ENOMEM)
               | Some s \<Rightarrow> Some (se\<lparr>engine := e\<lparr>slabs := s\<rparr>\<rparr>, ENGINE_SUCCESS))
   }"

definition default_destroy :: "'f handle \<Rightarrow> 'f handle" where
  "default_destroy se = (if initialized se then se\<lparr>initialized := False\<rparr> else se)"

section \<open>Operations\<close>

definition default_item_allocate ::
  "default_engine \<Rightarrow> bytes \<Rightarrow> nat \<Rightarrow> u32 \<Rightarrow> u32 \<Rightarrow> (default_engine \<times> ENGINE_ERROR_CODE \<times> addr) option" where
  "default_item_allocate e key nb flags exp = do {
     let ntotal = (sizeof_hash_item + length key + nb + (if use_cas (config e) then 8 else 0)) mod 2 ^ 64;
     if slabs_clsid (slabs e) ntotal = 0 then Some (e, ENGINE_E2BIG, NULL)
     else do {
       (e, it) \<leftarrow> item_alloc e key flags (srv_realtime e (uint exp)) (of_nat nb);
       Some (e, if it \<noteq> NULL then ENGINE_SUCCESS else ENGINE_ENOMEM, it)
     }
   }"

definition default_item_delete ::
  "default_engine \<Rightarrow> bytes \<Rightarrow> u64 \<Rightarrow> u16 \<Rightarrow> (default_engine \<times> ENGINE_ERROR_CODE) option" where
  "default_item_delete e key cas vbucket =
     (if \<not> handled_vbucket e vbucket then Some (e, ENGINE_NOT_MY_VBUCKET)
      else do {
        (e, it) \<leftarrow> item_get e key;
        if it = NULL then Some (e, ENGINE_KEY_ENOENT)
        else if cas = 0 \<or> cas = item_get_cas (store e it) then do {
          e \<leftarrow> item_unlink e it;
          e \<leftarrow> item_release e it;
          Some (e, ENGINE_SUCCESS)
        }
        else Some (e, ENGINE_KEY_EEXISTS)
      })"

definition default_item_release :: "default_engine \<Rightarrow> addr \<Rightarrow> default_engine option" where
  "default_item_release e it = item_release e it"

definition default_get :: "default_engine \<Rightarrow> bytes \<Rightarrow> u16 \<Rightarrow> (default_engine \<times> ENGINE_ERROR_CODE \<times> addr) option" where
  "default_get e key vbucket =
     (if \<not> handled_vbucket e vbucket then Some (e, ENGINE_NOT_MY_VBUCKET, NULL)
      else do {
        (e, it) \<leftarrow> item_get e key;
        Some (e, if it \<noteq> NULL then ENGINE_SUCCESS else ENGINE_KEY_ENOENT, it)
      })"

definition default_store ::
  "default_engine \<Rightarrow> addr \<Rightarrow> ENGINE_STORE_OPERATION \<Rightarrow> u16 \<Rightarrow> (default_engine \<times> ENGINE_ERROR_CODE \<times> u64 option) option" where
  "default_store e it operation vbucket =
     (if \<not> handled_vbucket e vbucket then Some (e, ENGINE_NOT_MY_VBUCKET, None)
      else store_item e it operation)"

definition default_arithmetic ::
  "default_engine \<Rightarrow> bytes \<Rightarrow> bool \<Rightarrow> bool \<Rightarrow> u64 \<Rightarrow> u64 \<Rightarrow> u32 \<Rightarrow> u16 \<Rightarrow>
   (default_engine \<times> ENGINE_ERROR_CODE \<times> u64 \<times> u64) option" where
  "default_arithmetic e key increment create delta initial exp vbucket =
     (if \<not> handled_vbucket e vbucket then Some (e, ENGINE_NOT_MY_VBUCKET, 0, 0)
      else arithmetic e key increment create delta initial (srv_realtime e (uint exp)))"

definition default_flush :: "default_engine \<Rightarrow> int \<Rightarrow> (default_engine \<times> ENGINE_ERROR_CODE) option" where
  "default_flush e when = map_option (\<lambda>e. (e, ENGINE_SUCCESS)) (item_flush_expired e when)"

definition default_reset_stats :: "default_engine \<Rightarrow> default_engine" where
  "default_reset_stats e = upd_stats (\<lambda>s. s\<lparr>evictions := 0, reclaimed := 0, total_items := 0\<rparr>) (item_stats_reset e)"

record item_info =
  ii_cas :: u64
  ii_exptime :: u32
  ii_nbytes :: u32
  ii_flags :: u32
  ii_clsid :: u8
  ii_nkey :: u16
  ii_key :: bytes
  ii_value :: bytes

text \<open>The key and the value are pointers into the item; the record has the bytes they point to.\<close>

definition get_item_info :: "default_engine \<Rightarrow> addr \<Rightarrow> u16 \<Rightarrow> item_info option" where
  "get_item_info e a nvalue =
     (let it = store e a
      in if nvalue < 1 then None
         else Some \<lparr>ii_cas = item_get_cas it, ii_exptime = exptime it, ii_nbytes = nbytes it, ii_flags = it_flags it,
                    ii_clsid = clsid it, ii_nkey = nkey it, ii_key = key_of it, ii_value = item_data it\<rparr>)"

section \<open>Statistics\<close>

type_synonym stat = "bytes \<times> bytes"

definition add_statistics :: "string option \<Rightarrow> int \<Rightarrow> string \<Rightarrow> nat \<Rightarrow> stat" where
  "add_statistics prefix num key val =
     ((case prefix of None \<Rightarrow> [] | Some p \<Rightarrow> ascii p @ [58]) @
      (if num \<noteq> -1 then dec_bytes (nat num) @ [58] else []) @ ascii key, dec_bytes val)"

text \<open>The counters are \<open>unsigned int\<close>: the number of used chunks is computed modulo \<open>2 ^ 32\<close>.\<close>

definition slab_class_stats :: "nat \<Rightarrow> slabclass_t \<Rightarrow> stat list" where
  "slab_class_stats i p =
     (let st = (\<lambda>key v. add_statistics None (int i) key v);
          total = (slabs_cnt p * perslab p) mod 2 ^ 32
      in [st ''chunk_size'' (sc_size p), st ''chunks_per_page'' (perslab p), st ''total_pages'' (slabs_cnt p),
          st ''total_chunks'' total,
          st ''used_chunks'' (nat ((int total - int (sl_curr p) - int (end_page_free p)) mod 2 ^ 32)),
          st ''free_chunks'' (sl_curr p), st ''free_chunks_end'' (end_page_free p),
          st ''mem_requested'' (unat (requested p))])"

definition do_slabs_stats :: "slabs_st \<Rightarrow> stat list" where
  "do_slabs_stats s =
     (let used_classes = filter (\<lambda>i. slabs_cnt (slabclass s ! i) \<noteq> 0) [POWER_SMALLEST..<Suc (power_largest s)]
      in concat (map (\<lambda>i. slab_class_stats i (slabclass s ! i)) used_classes) @
         [add_statistics None (-1) ''active_slabs'' (length used_classes),
          add_statistics None (-1) ''total_malloced'' (mem_malloced s)])"

definition slabs_stats :: "default_engine \<Rightarrow> stat list" where
  "slabs_stats e = do_slabs_stats (slabs e)"

definition stats_vbucket :: "default_engine \<Rightarrow> stat list" where
  "stats_vbucket e =
     map (\<lambda>i. (ascii ''vb_'' @ dec_bytes i, vbucket_state_name (get_vbucket_state e (of_nat i))))
       (filter (\<lambda>i. get_vbucket_state e (of_nat i) \<noteq> vbucket_state_dead) [0..<NUM_VBUCKETS])"

definition num_stat :: "string \<Rightarrow> u64 \<Rightarrow> stat" where
  "num_stat key v = (ascii key, dec_bytes (unat v))"

definition engine_counters :: "default_engine \<Rightarrow> stat list" where
  "engine_counters e =
     (let s = stats e
      in [num_stat ''evictions'' (evictions s), num_stat ''curr_items'' (curr_items s), num_stat ''total_items'' (total_items s),
          num_stat ''bytes'' (curr_bytes s), num_stat ''reclaimed'' (reclaimed s),
          num_stat ''engine_maxbytes'' (of_nat (maxbytes (config e)))])"

definition scrub_stats :: "engine_scrubber \<Rightarrow> stat list" where
  "scrub_stats s =
     [(ascii ''scrubber:status'', ascii (if running s then ''running'' else ''stopped''))] @
     (if started s \<noteq> 0 then
        (if stopped s \<noteq> 0 then [num_stat ''scrubber:last_run'' (word_of_int (started s - stopped s))] else []) @
        [num_stat ''scrubber:visited'' (visited s), num_stat ''scrubber:cleaned'' (cleaned s)]
      else [])"

text \<open>\<open>strncmp (stat_key, name, n) == 0\<close> with the length of the name.\<close>

definition key_is :: "string \<Rightarrow> bytes \<Rightarrow> bool" where
  "key_is name key \<longleftrightarrow> take (length name) key = ascii name"

definition default_get_stats :: "default_engine \<Rightarrow> bytes option \<Rightarrow> (default_engine \<times> ENGINE_ERROR_CODE \<times> stat list) option" where
  "default_get_stats e stat_key =
     (case stat_key of
        None \<Rightarrow> Some (e, ENGINE_SUCCESS, engine_counters e)
      | Some key \<Rightarrow>
          if key_is ''slabs'' key then Some (e, ENGINE_SUCCESS, slabs_stats e)
          else if key_is ''items'' key then
            map_option (\<lambda>(e, out). (e, ENGINE_SUCCESS, map (\<lambda>(i, k, v). add_statistics (Some ''items'') (int i) k (unat v)) out))
              (item_stats e)
          else if key_is ''sizes'' key then
            map_option (\<lambda>out. (e\<lparr>calloc_q := tl (calloc_q e)\<rparr>, ENGINE_SUCCESS, out)) (do_item_stats_sizes e)
          else if key_is ''vbucket'' key then Some (e, ENGINE_SUCCESS, stats_vbucket e)
          else if key_is ''scrub'' key then Some (e, ENGINE_SUCCESS, scrub_stats (scrubber e))
          else Some (e, ENGINE_KEY_ENOENT, []))"

section \<open>Commands of the binary protocol\<close>

definition pkt_u8 :: "bytes \<Rightarrow> nat \<Rightarrow> u8 option" where
  "pkt_u8 p i = (if i < length p then Some (p ! i) else None)"

definition pkt_u16 :: "bytes \<Rightarrow> nat \<Rightarrow> u16 option" where
  "pkt_u16 p i = do {
     a \<leftarrow> pkt_u8 p i;
     b \<leftarrow> pkt_u8 p (i + 1);
     Some (push_bit 8 (ucast a) OR ucast b)
   }"

definition pkt_u32 :: "bytes \<Rightarrow> nat \<Rightarrow> u32 option" where
  "pkt_u32 p i = do {
     a \<leftarrow> pkt_u16 p i;
     b \<leftarrow> pkt_u16 p (i + 2);
     Some (push_bit 16 (ucast a) OR ucast b)
   }"

text \<open>The bytes of a 32-bit variable in memory, and in network order.\<close>

definition le_bytes :: "u32 \<Rightarrow> bytes" where
  "le_bytes w = [ucast w, ucast (drop_bit 8 w), ucast (drop_bit 16 w), ucast (drop_bit 24 w)]"

definition be_bytes :: "u32 \<Rightarrow> bytes" where "be_bytes w = rev (le_bytes w)"

definition pkt_opcode :: "bytes \<Rightarrow> u8 option" where "pkt_opcode p = pkt_u8 p 1"
definition pkt_keylen :: "bytes \<Rightarrow> u16 option" where "pkt_keylen p = pkt_u16 p 2"
definition pkt_extlen :: "bytes \<Rightarrow> u8 option" where "pkt_extlen p = pkt_u8 p 4"
definition pkt_vbucket :: "bytes \<Rightarrow> u16 option" where "pkt_vbucket p = pkt_u16 p 6"
definition pkt_bodylen :: "bytes \<Rightarrow> u32 option" where "pkt_bodylen p = pkt_u32 p 8"

datatype response_status =
    PROTOCOL_BINARY_RESPONSE_SUCCESS | PROTOCOL_BINARY_RESPONSE_KEY_ENOENT | PROTOCOL_BINARY_RESPONSE_KEY_EEXISTS
  | PROTOCOL_BINARY_RESPONSE_E2BIG | PROTOCOL_BINARY_RESPONSE_EINVAL | PROTOCOL_BINARY_RESPONSE_NOT_STORED
  | PROTOCOL_BINARY_RESPONSE_DELTA_BADVAL | PROTOCOL_BINARY_RESPONSE_NOT_MY_VBUCKET | PROTOCOL_BINARY_RESPONSE_AUTH_ERROR
  | PROTOCOL_BINARY_RESPONSE_AUTH_CONTINUE | PROTOCOL_BINARY_RESPONSE_UNKNOWN_COMMAND | PROTOCOL_BINARY_RESPONSE_ENOMEM
  | PROTOCOL_BINARY_RESPONSE_NOT_SUPPORTED | PROTOCOL_BINARY_RESPONSE_EINTERNAL | PROTOCOL_BINARY_RESPONSE_EBUSY
  | PROTOCOL_BINARY_RESPONSE_ETMPFAIL

record response =
  rs_ext :: bytes
  rs_body :: bytes
  rs_status :: response_status
  rs_cas :: u64

definition reply :: "bytes \<Rightarrow> response_status \<Rightarrow> response" where
  "reply body status = \<lparr>rs_ext = [], rs_body = body, rs_status = status, rs_cas = 0\<rparr>"

definition set_vbucket :: "default_engine \<Rightarrow> bytes \<Rightarrow> (default_engine \<times> response) option" where
  "set_vbucket e req = do {
     len \<leftarrow> pkt_bodylen req;
     keylen \<leftarrow> pkt_keylen req;
     if len - ucast keylen \<noteq> 4 then
       Some (e, reply (ascii ''Incorrect packet format'') PROTOCOL_BINARY_RESPONSE_EINVAL)
     else do {
       state \<leftarrow> pkt_u32 req 24;
       if \<not> is_valid_vbucket_state_t state then
         Some (e, reply (ascii ''Invalid vbucket state'') PROTOCOL_BINARY_RESPONSE_EINVAL)
       else do {
         vb \<leftarrow> pkt_vbucket req;
         Some (set_vbucket_state e vb state, reply (le_bytes state) PROTOCOL_BINARY_RESPONSE_SUCCESS)
       }
     }
   }"

definition get_vbucket :: "default_engine \<Rightarrow> bytes \<Rightarrow> (default_engine \<times> response) option" where
  "get_vbucket e req = do {
     vb \<leftarrow> pkt_vbucket req;
     Some (e, reply (be_bytes (get_vbucket_state e vb)) PROTOCOL_BINARY_RESPONSE_SUCCESS)
   }"

definition rm_vbucket :: "default_engine \<Rightarrow> bytes \<Rightarrow> (default_engine \<times> response) option" where
  "rm_vbucket e req = do {
     vb \<leftarrow> pkt_vbucket req;
     Some (set_vbucket_state e vb vbucket_state_dead, reply [] PROTOCOL_BINARY_RESPONSE_SUCCESS)
   }"

definition scrub_cmd :: "default_engine \<Rightarrow> int \<Rightarrow> default_engine \<times> response" where
  "scrub_cmd e now =
     (case item_start_scrub e now of
        (e, ok) \<Rightarrow> (e, reply [] (if ok then PROTOCOL_BINARY_RESPONSE_SUCCESS else PROTOCOL_BINARY_RESPONSE_EBUSY)))"

definition PROTOCOL_BINARY_CMD_TOUCH :: u8 where "PROTOCOL_BINARY_CMD_TOUCH = 0x1c"
definition PROTOCOL_BINARY_CMD_GAT :: u8 where "PROTOCOL_BINARY_CMD_GAT = 0x1d"
definition PROTOCOL_BINARY_CMD_GATQ :: u8 where "PROTOCOL_BINARY_CMD_GATQ = 0x1e"
definition PROTOCOL_BINARY_CMD_SET_VBUCKET :: u8 where "PROTOCOL_BINARY_CMD_SET_VBUCKET = 0x3d"
definition PROTOCOL_BINARY_CMD_GET_VBUCKET :: u8 where "PROTOCOL_BINARY_CMD_GET_VBUCKET = 0x3e"
definition PROTOCOL_BINARY_CMD_DEL_VBUCKET :: u8 where "PROTOCOL_BINARY_CMD_DEL_VBUCKET = 0x3f"
definition PROTOCOL_BINARY_CMD_SCRUB :: u8 where "PROTOCOL_BINARY_CMD_SCRUB = 0xf0"

text \<open>The result has no response when the request is a quiet one that missed.\<close>

definition touch :: "default_engine \<Rightarrow> bytes \<Rightarrow> (default_engine \<times> response option) option" where
  "touch e req = do {
     opcode \<leftarrow> pkt_opcode req;
     extlen \<leftarrow> pkt_extlen req;
     nk \<leftarrow> pkt_keylen req;
     if extlen \<noteq> 4 \<or> nk = 0 then Some (e, Some (reply [] PROTOCOL_BINARY_RESPONSE_EINVAL))
     else do {
       exp \<leftarrow> pkt_u32 req 24;
       c_assert (28 + unat nk \<le> length req);
       let key = take (unat nk) (drop 28 req);
       (e, item) \<leftarrow> touch_item e key (srv_realtime e (uint exp));
       if item = NULL then
         Some (e, if opcode = PROTOCOL_BINARY_CMD_GATQ then None
                  else Some (reply [] PROTOCOL_BINARY_RESPONSE_KEY_ENOENT))
       else do {
         let it = store e item;
         let r = (if opcode = PROTOCOL_BINARY_CMD_TOUCH then reply [] PROTOCOL_BINARY_RESPONSE_SUCCESS
                  else \<lparr>rs_ext = le_bytes (it_flags it), rs_body = item_data it,
                        rs_status = PROTOCOL_BINARY_RESPONSE_SUCCESS, rs_cas = item_get_cas it\<rparr>);
         e \<leftarrow> item_release e item;
         Some (e, Some r)
       }
     }
   }"

definition default_unknown_command ::
  "(response \<Rightarrow> bool) \<Rightarrow> int \<Rightarrow> default_engine \<Rightarrow> bytes \<Rightarrow> (default_engine \<times> ENGINE_ERROR_CODE \<times> response option) option" where
  "default_unknown_command respond now e req = do {
     opcode \<leftarrow> pkt_opcode req;
     (e, r) \<leftarrow>
       (if opcode = PROTOCOL_BINARY_CMD_SCRUB then (case scrub_cmd e now of (e, r) \<Rightarrow> Some (e, Some r))
        else if opcode = PROTOCOL_BINARY_CMD_DEL_VBUCKET then map_option (map_prod id Some) (rm_vbucket e req)
        else if opcode = PROTOCOL_BINARY_CMD_SET_VBUCKET then map_option (map_prod id Some) (set_vbucket e req)
        else if opcode = PROTOCOL_BINARY_CMD_GET_VBUCKET then map_option (map_prod id Some) (get_vbucket e req)
        else if opcode = PROTOCOL_BINARY_CMD_TOUCH \<or> opcode = PROTOCOL_BINARY_CMD_GAT \<or> opcode = PROTOCOL_BINARY_CMD_GATQ
        then touch e req
        else Some (e, Some (reply [] PROTOCOL_BINARY_RESPONSE_UNKNOWN_COMMAND)));
     let sent = (case r of None \<Rightarrow> True | Some r \<Rightarrow> respond r);
     Some (e, if sent then ENGINE_SUCCESS else ENGINE_FAILED, r)
   }"

section \<open>Tap\<close>

definition TAP_CONNECT_FLAG_TAKEOVER_VBUCKETS :: u32 where "TAP_CONNECT_FLAG_TAKEOVER_VBUCKETS = 8"

text \<open>The item of a tap mutation: the one kept for the connection, or a new one.\<close>

definition tap_mutation ::
  "default_engine \<Rightarrow> addr \<Rightarrow> bytes \<Rightarrow> u32 \<Rightarrow> u32 \<Rightarrow> u64 \<Rightarrow> bytes \<Rightarrow> u16 \<Rightarrow> (default_engine \<times> ENGINE_ERROR_CODE) option" where
  "tap_mutation e cookie key flags exp cas data vbucket = do {
     let it = engine_specific e cookie;
     (e, ret, it) \<leftarrow>
       (if it = NULL then default_item_allocate e key (length data) flags exp else Some (e, ENGINE_SUCCESS, it));
     if ret = ENGINE_ENOMEM then Some (e, ENGINE_TMPFAIL)
     else if ret \<noteq> ENGINE_SUCCESS then Some (e, ret)
     else do {
       let e = write_data e it 0 data;
       let e = e\<lparr>engine_specific := (engine_specific e)(cookie := NULL)\<rparr>;
       let e = item_set_cas e it cas;
       (e, ret, cas) \<leftarrow> default_store e it OPERATION_SET vbucket;
       if ret = ENGINE_EWOULDBLOCK then Some (e\<lparr>engine_specific := (engine_specific e)(cookie := it)\<rparr>, ret)
       else do {
         e \<leftarrow> item_release e it;
         Some (e, ret)
       }
     }
   }"

definition default_tap_notify ::
  "default_engine \<Rightarrow> addr \<Rightarrow> bytes \<Rightarrow> tap_event_t \<Rightarrow> bytes \<Rightarrow> u32 \<Rightarrow> u32 \<Rightarrow> u64 \<Rightarrow> bytes \<Rightarrow> u16 \<Rightarrow>
   (default_engine \<times> ENGINE_ERROR_CODE) option" where
  "default_tap_notify e cookie specific event key flags exp cas data vbucket =
     (case event of
        TAP_ACK \<Rightarrow> None
      | TAP_FLUSH \<Rightarrow> default_flush e 0
      | TAP_DELETION \<Rightarrow> default_item_delete e key cas vbucket
      | TAP_MUTATION \<Rightarrow> tap_mutation e cookie key flags exp cas data vbucket
      | TAP_VBUCKET_SET \<Rightarrow>
          if length specific \<noteq> 4 then Some (e, ENGINE_DISCONNECT)
          else do {
            state \<leftarrow> pkt_u32 specific 0;
            if \<not> is_valid_vbucket_state_t state then Some (e, ENGINE_DISCONNECT)
            else Some (set_vbucket_state e vbucket state, ENGINE_SUCCESS)
          }
      | _ \<Rightarrow> Some (e, ENGINE_SUCCESS))"

definition set_client :: "nat \<Rightarrow> addr \<Rightarrow> default_engine \<Rightarrow> default_engine" where
  "set_client ii cookie e = e\<lparr>tap_clients := (tap_clients e)[ii := cookie]\<rparr>"

text \<open>The result says whether the connection gets an iterator.\<close>

definition default_get_tap_iterator :: "default_engine \<Rightarrow> addr \<Rightarrow> u32 \<Rightarrow> (default_engine \<times> bool) option" where
  "default_get_tap_iterator e cookie flags =
     (if flags AND TAP_CONNECT_FLAG_TAKEOVER_VBUCKETS \<noteq> 0 then Some (e, False)
      else case List.find (\<lambda>ii. tap_clients e ! ii = NULL) [0..<length (tap_clients e)] of
             None \<Rightarrow> Some (e, False)
           | Some ii \<Rightarrow> do {
               (e, ok) \<leftarrow> initialize_item_tap_walker (set_client ii cookie e) cookie;
               Some (if ok then e else set_client ii NULL e, ok)
             })"

text \<open>The memory \<open>default_handle_disconnect\<close> frees: the client of the connection, if it has a slot.\<close>

definition default_handle_disconnect :: "default_engine \<Rightarrow> addr \<Rightarrow> default_engine \<times> addr option" where
  "default_handle_disconnect e cookie =
     (case List.find (\<lambda>ii. tap_clients e ! ii = cookie) [0..<length (tap_clients e)] of
        None \<Rightarrow> (e, None)
      | Some ii \<Rightarrow> (e, Some (engine_specific e cookie)))"

section \<open>Vbuckets\<close>

text \<open>What the two bits make of the four states.\<close>

definition stored_state :: "vbucket_state_t \<Rightarrow> vbucket_state_t" where
  "stored_state s = scast (ucast s :: 2 word)"

lemma low_bits_put: "ucast ((c AND NOT 3) OR (ucast s AND 3)) = (ucast s :: 2 word)" for c :: u8 and s :: u32
proof (rule bit_word_eqI)
  fix n assume "n < LENGTH(2)"
  then have n: "n < 2" by simp
  have three: "(3 :: u8) = mask 2" by (simp add: mask_eq_exp_minus_1)
  show "bit (ucast ((c AND NOT 3) OR (ucast s AND 3)) :: 2 word) n = bit (ucast s :: 2 word) n"
    using n unfolding three by (simp add: bit_simps)
qed

lemma vbid_less: "unat v < NUM_VBUCKETS" for v :: u16
proof -
  have "unat v < 2 ^ LENGTH(16)" by (rule unsigned_less)
  then show ?thesis by (simp add: NUM_VBUCKETS_def)
qed

lemma get_set_vbucket_state:
  assumes "length (vbucket_infos e) = NUM_VBUCKETS"
  shows "get_vbucket_state (set_vbucket_state e v s) w = (if w = v then stored_state s else get_vbucket_state e w)"
proof (cases "w = v")
  case True
  then show ?thesis
    using assms vbid_less [of v] by (simp add: get_vbucket_state_def set_vbucket_state_def Let_def low_bits_put [simplified] stored_state_def)
next
  case False
  then have "unat w \<noteq> unat v" by (simp add: word_unat_eq_iff)
  then show ?thesis using False by (simp add: get_vbucket_state_def set_vbucket_state_def Let_def)
qed

lemma stored_state_cases:
  "stored_state vbucket_state_active = vbucket_state_active" "stored_state vbucket_state_replica = - 2"
  "stored_state vbucket_state_pending = - 1" "stored_state vbucket_state_dead = 0"
  by (simp_all add: stored_state_def vbucket_state_active_def vbucket_state_replica_def vbucket_state_pending_def vbucket_state_dead_def)


lemma valid_states:
  "is_valid_vbucket_state_t s \<longleftrightarrow> s = 1 \<or> s = 2 \<or> s = 3 \<or> s = 4"
  by (simp add: is_valid_vbucket_state_t_def vbucket_state_active_def vbucket_state_replica_def vbucket_state_pending_def vbucket_state_dead_def)

lemma stored_state_values: "stored_state 1 = 1" "stored_state 2 = - 2" "stored_state 3 = - 1" "stored_state 4 = 0"
  by (simp_all add: stored_state_def)

text \<open>
  States of a vbucket.  Setting the state of a vbucket leaves the others alone, and the vbucket is served
  exactly when the state is active.  Of the four states only active can be read back: replica reads as -2,
  pending as -1 and dead as 0, none of which is a valid state.
\<close>

theorem vbucket_state_kept:
  assumes "length (vbucket_infos e) = NUM_VBUCKETS" and "is_valid_vbucket_state_t s"
  shows "(handled_vbucket (set_vbucket_state e v s) v \<longleftrightarrow> ignore_vbucket (config e) \<or> s = vbucket_state_active) \<and>
    (is_valid_vbucket_state_t (get_vbucket_state (set_vbucket_state e v s) v) \<longleftrightarrow> s = vbucket_state_active) \<and>
    get_vbucket_state (set_vbucket_state e v s) v =
      (if s = vbucket_state_active then vbucket_state_active else if s = vbucket_state_replica then - 2
       else if s = vbucket_state_pending then - 1 else 0) \<and>
    (w \<noteq> v \<longrightarrow> get_vbucket_state (set_vbucket_state e v s) w = get_vbucket_state e w)"
proof -
  have c: "config (set_vbucket_state e v s) = config e" by (simp add: set_vbucket_state_def Let_def)
  from assms(2) consider "s = 1" | "s = 2" | "s = 3" | "s = 4" unfolding valid_states by blast
  then have "(stored_state s = 1 \<longleftrightarrow> s = 1) \<and> (is_valid_vbucket_state_t (stored_state s) \<longleftrightarrow> s = 1) \<and>
     stored_state s = (if s = 1 then 1 else if s = 2 then - 2 else if s = 3 then - 1 else 0)"
    by cases (simp_all add: stored_state_values valid_states)
  then show ?thesis
    unfolding handled_vbucket_def get_set_vbucket_state [OF assms(1)] c vbucket_state_active_def vbucket_state_replica_def
      vbucket_state_pending_def by (simp add: valid_states)
qed

theorem vbucket_state_kept_witness:
  "get_vbucket_state (set_vbucket_state sample_engine 3 vbucket_state_replica) 3 = - 2 \<and>
   \<not> is_valid_vbucket_state_t (get_vbucket_state (set_vbucket_state sample_engine 3 vbucket_state_replica) 3)"
proof -
  have "length (vbucket_infos sample_engine) = NUM_VBUCKETS" by (simp add: sample_engine_def NUM_VBUCKETS_def)
  from vbucket_state_kept [OF this, of vbucket_state_replica 3 0] show ?thesis
    by (simp add: valid_states vbucket_state_active_def vbucket_state_replica_def)
qed

lemma pkt_u32_be: "pkt_u32 (be_bytes w) 0 = Some w"
proof -
  have "push_bit 16 (ucast (push_bit 8 (ucast (ucast (drop_bit 24 w) :: u8)) OR ucast (ucast (drop_bit 16 w) :: u8) :: u16)) OR
    ucast (push_bit 8 (ucast (ucast (drop_bit 8 w) :: u8)) OR ucast (ucast w :: u8) :: u16) = w"
    (is "?l = w")
  proof (rule bit_word_eqI)
    fix n assume "n < LENGTH(32)"
    then have n: "n < 32" by simp
    consider "n < 8" | "8 \<le> n" "n < 16" | "16 \<le> n" "n < 24" | "24 \<le> n" by linarith
    then show "bit ?l n = bit w n" using n by cases (auto simp: bit_simps)
  qed
  then show ?thesis by (simp add: pkt_u32_def pkt_u16_def pkt_u8_def be_bytes_def le_bytes_def)
qed

lemma pkt_u32_append: "length p = i \<Longrightarrow> pkt_u32 (p @ b) i = pkt_u32 b 0"
  by (simp add: pkt_u32_def pkt_u16_def pkt_u8_def nth_append eval_nat_numeral)

text \<open>A request for a vbucket, without key and extras.\<close>

definition vb_request :: "u8 \<Rightarrow> u16 \<Rightarrow> bytes \<Rightarrow> bytes" where
  "vb_request opcode v body =
     [0x80, opcode, 0, 0, 0, 0, ucast (drop_bit 8 v), ucast v] @ be_bytes (of_nat (length body)) @ replicate 12 0 @ body"

lemma vb_request_fields:
  "pkt_opcode (vb_request opcode v body) = Some opcode" "pkt_keylen (vb_request opcode v body) = Some 0"
  "pkt_vbucket (vb_request opcode v body) = Some v"
  "pkt_bodylen (vb_request opcode v body) = Some (of_nat (length body))"
  "pkt_u32 (vb_request opcode v body) 24 = pkt_u32 body 0"
proof -
  have "push_bit 8 (ucast (ucast (drop_bit 8 v) :: u8)) OR ucast (ucast v :: u8) = v"
    (is "?l = v")
  proof (rule bit_word_eqI)
    fix n assume "n < LENGTH(16)"
    then have n: "n < 16" by simp
    consider "n < 8" | "8 \<le> n" by linarith
    then show "bit ?l n = bit v n" using n by cases (auto simp: bit_simps)
  qed
  then show "pkt_vbucket (vb_request opcode v body) = Some v"
    by (simp add: pkt_vbucket_def pkt_u16_def pkt_u8_def vb_request_def)
  show "pkt_opcode (vb_request opcode v body) = Some opcode" "pkt_keylen (vb_request opcode v body) = Some 0"
    by (simp_all add: pkt_opcode_def pkt_keylen_def pkt_u16_def pkt_u8_def vb_request_def)
  let ?h = "[0x80, opcode, 0, 0, 0, 0, ucast (drop_bit 8 v), ucast v]"
  have "pkt_u32 (be_bytes w @ b) 0 = Some w" for w b
    using pkt_u32_be [of w] by (simp add: pkt_u32_def pkt_u16_def pkt_u8_def be_bytes_def le_bytes_def)
  then show "pkt_bodylen (vb_request opcode v body) = Some (of_nat (length body))"
    using pkt_u32_append [of ?h 8 "be_bytes (of_nat (length body)) @ replicate 12 0 @ body"]
    by (simp add: pkt_bodylen_def vb_request_def)
  have "vb_request opcode v body = (?h @ be_bytes (of_nat (length body)) @ replicate 12 0) @ body" by (simp add: vb_request_def)
  then show "pkt_u32 (vb_request opcode v body) 24 = pkt_u32 body 0"
    using pkt_u32_append [of "?h @ be_bytes (of_nat (length body)) @ replicate 12 0" 24 body] by (simp add: be_bytes_def le_bytes_def)
qed

text \<open>
  Setting and asking for a state over the protocol.  A request that sets a valid state is carried out and
  answered with the state in host byte order; the request that asks for the state afterwards is answered in network
  byte order with the value of the two-bit field, so with the state that was set only if that is active.
\<close>

theorem set_then_get_vbucket:
  assumes "length (vbucket_infos e) = NUM_VBUCKETS" and "is_valid_vbucket_state_t s"
  shows "\<exists>e'. default_unknown_command (\<lambda>_. True) now e (vb_request PROTOCOL_BINARY_CMD_SET_VBUCKET v (be_bytes s)) =
      Some (e', ENGINE_SUCCESS, Some (reply (le_bytes s) PROTOCOL_BINARY_RESPONSE_SUCCESS)) \<and>
    default_unknown_command (\<lambda>_. True) now e' (vb_request PROTOCOL_BINARY_CMD_GET_VBUCKET v []) =
      Some (e', ENGINE_SUCCESS, Some (reply
        (if s = vbucket_state_active then [0, 0, 0, 1] else if s = vbucket_state_replica then [255, 255, 255, 254]
         else if s = vbucket_state_pending then [255, 255, 255, 255] else [0, 0, 0, 0]) PROTOCOL_BINARY_RESPONSE_SUCCESS))"
proof (intro exI [of _ "set_vbucket_state e v s"] conjI)
  have len: "length (be_bytes s) = 4" by (simp add: be_bytes_def le_bytes_def)
  show "default_unknown_command (\<lambda>_. True) now e (vb_request PROTOCOL_BINARY_CMD_SET_VBUCKET v (be_bytes s)) =
      Some (set_vbucket_state e v s, ENGINE_SUCCESS, Some (reply (le_bytes s) PROTOCOL_BINARY_RESPONSE_SUCCESS))"
    using assms(2) by (simp add: default_unknown_command_def vb_request_fields set_vbucket_def len pkt_u32_be
        PROTOCOL_BINARY_CMD_SET_VBUCKET_def PROTOCOL_BINARY_CMD_SCRUB_def PROTOCOL_BINARY_CMD_DEL_VBUCKET_def)
  from assms(2) consider "s = 1" | "s = 2" | "s = 3" | "s = 4" unfolding valid_states by blast
  then have "be_bytes (stored_state s) =
      (if s = vbucket_state_active then [0, 0, 0, 1] else if s = vbucket_state_replica then [255, 255, 255, 254]
       else if s = vbucket_state_pending then [255, 255, 255, 255] else [0, 0, 0, 0])"
    by cases (simp_all add: stored_state_values be_bytes_def le_bytes_def vbucket_state_active_def vbucket_state_replica_def
        vbucket_state_pending_def unsigned_minus_1_eq_mask mask_eq_exp_minus_1)
  then show "default_unknown_command (\<lambda>_. True) now (set_vbucket_state e v s) (vb_request PROTOCOL_BINARY_CMD_GET_VBUCKET v []) =
      Some (set_vbucket_state e v s, ENGINE_SUCCESS, Some (reply
        (if s = vbucket_state_active then [0, 0, 0, 1] else if s = vbucket_state_replica then [255, 255, 255, 254]
         else if s = vbucket_state_pending then [255, 255, 255, 255] else [0, 0, 0, 0]) PROTOCOL_BINARY_RESPONSE_SUCCESS))"
    by (simp add: default_unknown_command_def vb_request_fields get_vbucket_def get_set_vbucket_state [OF assms(1)]
        PROTOCOL_BINARY_CMD_SET_VBUCKET_def PROTOCOL_BINARY_CMD_SCRUB_def PROTOCOL_BINARY_CMD_DEL_VBUCKET_def PROTOCOL_BINARY_CMD_GET_VBUCKET_def)
qed

theorem set_then_get_vbucket_witness:
  "\<exists>e'. default_unknown_command (\<lambda>_. True) 0 e' (vb_request PROTOCOL_BINARY_CMD_GET_VBUCKET 3 []) =
     Some (e', ENGINE_SUCCESS, Some (reply [255, 255, 255, 254] PROTOCOL_BINARY_RESPONSE_SUCCESS))"
proof -
  have "length (vbucket_infos sample_engine) = NUM_VBUCKETS" by (simp add: sample_engine_def NUM_VBUCKETS_def)
  from set_then_get_vbucket [OF this, of vbucket_state_replica 0 3] show ?thesis
    by (auto simp: is_valid_vbucket_state_t_def vbucket_state_active_def vbucket_state_replica_def)
qed

text \<open>
  C34. The vbucket guard.  In a vbucket that is not served, get, store, delete and arithmetic refuse the request and
  leave the engine as it is.  The touch commands do not have the guard: their effect and their response do not
  depend on the vbucket of the request.
\<close>

theorem vbucket_guard:
  assumes "\<not> handled_vbucket e v"
  shows "default_get e key v = Some (e, ENGINE_NOT_MY_VBUCKET, NULL) \<and>
    default_store e it op v = Some (e, ENGINE_NOT_MY_VBUCKET, None) \<and>
    default_item_delete e key cas v = Some (e, ENGINE_NOT_MY_VBUCKET) \<and>
    default_arithmetic e key inc create delta initial exp v = Some (e, ENGINE_NOT_MY_VBUCKET, 0, 0) \<and>
    touch e (req[6 := a, 7 := b]) = touch e req"
proof -
  have "pkt_u8 (req[6 := a, 7 := b]) i = pkt_u8 req i" if "i \<noteq> 6" "i \<noteq> 7" for i using that by (simp add: pkt_u8_def)
  then have "pkt_opcode (req[6 := a, 7 := b]) = pkt_opcode req" "pkt_extlen (req[6 := a, 7 := b]) = pkt_extlen req"
    "pkt_keylen (req[6 := a, 7 := b]) = pkt_keylen req" "pkt_u32 (req[6 := a, 7 := b]) 24 = pkt_u32 req 24"
    by (simp_all add: pkt_opcode_def pkt_extlen_def pkt_keylen_def pkt_u32_def pkt_u16_def)
  moreover have "drop 28 (req[6 := a, 7 := b]) = drop 28 req" by simp
  ultimately have "touch e (req[6 := a, 7 := b]) = touch e req" by (simp only: touch_def length_list_update)
  then show ?thesis using assms by (simp add: default_get_def default_store_def default_item_delete_def default_arithmetic_def)
qed

theorem vbucket_guard_witness: "default_get sample_engine [7] 5 = Some (sample_engine, ENGINE_NOT_MY_VBUCKET, NULL)"
proof -
  have "\<not> handled_vbucket sample_engine 5"
    by (simp add: handled_vbucket_def get_vbucket_state_def sample_engine_def vbucket_state_active_def)
  from vbucket_guard [OF this] show ?thesis by blast
qed

section \<open>Deletion\<close>

text \<open>Unlinking the item a lookup returned and giving up the reference of the lookup.\<close>

lemma unlink_then_release:
  assumes inv: "cache_inv e M Q A" and k: "M k = Some x" and nz: "refcount (store e x) \<noteq> 0"
  shows "\<exists>e1 e2 Q'. do_item_unlink e x = Some e1 \<and> do_item_release e1 x = Some e2 \<and>
    cache_inv e2 (M(k := None)) Q' (if refcount (store e x) \<le> 1 then A - {x} else A)"
proof -
  obtain e1 where e1: "do_item_unlink e x = Some e1" "cache_inv e1 (M(k := None)) (drop_item (cls e x) x Q) A"
    "core (store e1 x) = unlinked_item (core (store e x))"
    using do_item_unlink_ok [OF inv k] nz by auto
  have r1: "refcount (store e1 x) = refcount (store e x)"
    using arg_cong [OF e1(3), of refcount] nz by (simp add: core_def unlinked_item_def)
  have xA: "x \<in> A" using cache_inv_key [OF inv k] by simp
  have "x \<notin> ran (M(k := None))" using cache_inv_key [OF inv] k by (auto simp: ran_def split: if_splits)
  then show ?thesis using e1(1) do_item_release_ok [OF e1(2) xA] r1 by auto
qed

lemma refcount_next: "r < 65535 \<Longrightarrow> r + 1 \<noteq> 0 \<and> (r + 1 \<le> 1 \<longleftrightarrow> r = 0)" for r :: u16
proof -
  assume "r < 65535"
  then have "unat (r + 1) = unat r + 1" by (simp add: unat_word_ariths word_less_nat_alt)
  then show ?thesis unfolding word_le_nat_alt word_unat_eq_iff by simp
qed

text \<open>
  C23. Deletion.  For a key of a served vbucket whose item has less than 65535 references: the status says whether the key
  has a live item and whether the CAS value of the request fits; on success and for a dead item the key is gone, and
  the item is given back when nobody else holds a reference.  When the CAS value does not fit, the key stays, but
  the reference the lookup took is never released: the count of the item has grown by one.
\<close>

theorem item_delete_semantics:
  assumes inv: "cache_inv e M Q A" and vb: "handled_vbucket e v"
    and ref: "\<And>x. M k = Some x \<Longrightarrow> refcount (store e x) < 65535"
  shows "\<exists>e' M' Q' A' st. default_item_delete e k cas v = Some (e', st) \<and> cache_inv e' M' Q' A' \<and>
    st = (case live e M k of None \<Rightarrow> ENGINE_KEY_ENOENT
          | Some x \<Rightarrow> if cas = 0 \<or> cas = item_get_cas (store e x) then ENGINE_SUCCESS else ENGINE_KEY_EEXISTS) \<and>
    M' = (if st = ENGINE_KEY_EEXISTS then M else M(k := None)) \<and>
    (st = ENGINE_SUCCESS \<longrightarrow> A' = A - {x. M k = Some x \<and> refcount (store e x) = 0}) \<and>
    (st = ENGINE_KEY_EEXISTS \<longrightarrow> A' = A \<and> (\<forall>x. M k = Some x \<longrightarrow> refcount (store e' x) = refcount (store e x) + 1))"
proof -
  obtain e1 Q1 A1 where g: "do_item_get e k = Some (e1, case live e M k of None \<Rightarrow> NULL | Some x \<Rightarrow> x)"
    "cache_inv e1 (if live e M k = None then M(k := None) else M) Q1 A1" "live e M k \<noteq> None \<longrightarrow> A1 = A"
    "\<forall>x. live e M k = Some x \<longrightarrow> core (store e1 x) = (core (store e x))\<lparr>it_time := touched_time e (store e x), refcount := refcount (store e x) + 1\<rparr>"
    using do_item_get_ok [OF inv, of k] by blast
  note run = default_item_delete_def item_get_def item_unlink_def item_release_def vb
  show ?thesis
  proof (cases "live e M k")
    case None
    then have "default_item_delete e k cas v = Some (e1, ENGINE_KEY_ENOENT)" using g(1) by (simp add: run)
    then show ?thesis using None g(2)
      by (intro exI [of _ e1] exI [of _ "M(k := None)"] exI [of _ Q1] exI [of _ A1] exI [of _ ENGINE_KEY_ENOENT]) simp
  next
    case (Some x)
    then have k: "M k = Some x" by (auto simp: live_def split: option.splits if_splits)
    have x: "x \<noteq> NULL" using cache_inv_key [OF inv k] by simp
    have i1: "cache_inv e1 M Q1 A" using g(2,3) Some by simp
    obtain t where t: "core (store e1 x) = (core (store e x))\<lparr>it_time := t, refcount := refcount (store e x) + 1\<rparr>"
      using g(4) Some by blast
    have c1: "refcount (store e1 x) = refcount (store e x) + 1" "item_get_cas (store e1 x) = item_get_cas (store e x)"
      using arg_cong [OF t, of refcount] arg_cong [OF t, of iflag] arg_cong [OF t, of it_cas] by (simp_all add: core_def item_get_cas_def)
    show ?thesis
    proof (cases "cas = 0 \<or> cas = item_get_cas (store e x)")
      case False
      then have "default_item_delete e k cas v = Some (e1, ENGINE_KEY_EEXISTS)" using g(1) Some x c1 by (simp add: run)
      then show ?thesis using Some False i1 k c1
        by (intro exI [of _ e1] exI [of _ M] exI [of _ Q1] exI [of _ A] exI [of _ ENGINE_KEY_EEXISTS]) simp
    next
      case True
      note nz = refcount_next [OF ref [OF k], folded c1(1)]
      obtain e2 e3 Q' where e3: "do_item_unlink e1 x = Some e2" "do_item_release e2 x = Some e3"
        "cache_inv e3 (M(k := None)) Q' (if refcount (store e1 x) \<le> 1 then A - {x} else A)"
        using unlink_then_release [OF i1 k] nz by blast
      have "default_item_delete e k cas v = Some (e3, ENGINE_SUCCESS)"
        using g(1) Some x c1 True e3(1,2) by (auto simp: run)
      moreover have "(if refcount (store e1 x) \<le> 1 then A - {x} else A) = A - {x. M k = Some x \<and> refcount (store e x) = 0}"
        using nz k by auto
      ultimately show ?thesis using Some True e3(3)
        by (intro exI [of _ e3] exI [of _ "M(k := None)"] exI [of _ Q']
            exI [of _ "A - {x. M k = Some x \<and> refcount (store e x) = 0}"] exI [of _ ENGINE_SUCCESS]) simp
    qed
  qed
qed

text \<open>The sample cache with vbuckets ignored and its first item linked.\<close>

definition open_demo :: default_engine where
  "open_demo = cache_demo\<lparr>config := (config cache_demo)\<lparr>ignore_vbucket := True\<rparr>\<rparr>"

lemma open_demo_linked:
  "\<exists>e Q. cache_inv e [[7] \<mapsto> 4096] Q {4096, 4224} \<and> handled_vbucket e 0 \<and> live e [[7] \<mapsto> 4096] [7] = Some 4096 \<and>
     refcount (store e 4096) = 1 \<and> item_get_cas (store e 4096) = 1"
proof -
  have inv: "cache_inv open_demo Map.empty (\<lambda>_. []) {4096, 4224}"
    by (rule cache_inv_touch [OF cache_demo_inv, where it = 4096 and i = "store cache_demo 4096"]) (simp_all add: open_demo_def)
  have k: "[7] = key_of (store open_demo 4096)" by (simp add: open_demo_def cache_demo_def cache_item_def key_of_def)
  have nb: "nbytes (store open_demo 4096) < 1024 * 1024" by (simp add: open_demo_def cache_demo_def cache_item_def)
  obtain e Q where e: "cache_inv e [[7] \<mapsto> 4096] Q {4096, 4224}" "env_same open_demo e"
    "core (store e 4096) = (core (store open_demo 4096))\<lparr>iflag := iflag (store open_demo 4096) OR ITEM_LINKED, it_time := current_time open_demo,
      it_cas := if bit (iflag (store open_demo 4096)) 0 then cas_id open_demo + 1 else it_cas (store open_demo 4096)\<rparr>"
    using do_item_link_ok [OF inv _ _ k _ nb refl] by auto
  have f: "refcount (store e 4096) = 1" "exptime (store e 4096) = 0" "iflag (store e 4096) = 257" "it_cas (store e 4096) = 1"
    using arg_cong [OF e(3), of refcount] arg_cong [OF e(3), of exptime] arg_cong [OF e(3), of iflag] arg_cong [OF e(3), of it_cas]
    by (simp_all add: core_def open_demo_def cache_demo_def cache_item_def sample_engine_def ITEM_LINKED_def)
  then have "item_get_cas (store e 4096) = 1" by (simp add: item_get_cas_def ITEM_WITH_CAS_def)
  moreover have "oldest_live (config e) = 0" "ignore_vbucket (config e)"
    using e(2) by (simp_all add: env_same_def open_demo_def cache_demo_def sample_engine_def)
  ultimately show ?thesis using e(1) f by (intro exI [of _ e] exI [of _ Q]) (simp add: handled_vbucket_def live_def dead_def flushed_def)
qed

theorem item_delete_semantics_witness:
  "\<exists>e e'. refcount (store e 4096) = 1 \<and> default_item_delete e [7] 99 0 = Some (e', ENGINE_KEY_EEXISTS) \<and> refcount (store e' 4096) = 2"
proof -
  obtain e Q where e: "cache_inv e [[7] \<mapsto> 4096] Q {4096, 4224}" "handled_vbucket e 0" "live e [[7] \<mapsto> 4096] [7] = Some 4096"
    "refcount (store e 4096) = 1" "item_get_cas (store e 4096) = 1"
    using open_demo_linked by blast
  have "refcount (store e x) < 65535" if "[[7] \<mapsto> 4096] [7] = Some x" for x using that e(4) by simp
  from item_delete_semantics [where k = "[7]" and cas = 99, OF e(1,2) this]
  obtain e' where "default_item_delete e [7] 99 0 = Some (e', ENGINE_KEY_EEXISTS)" "refcount (store e' 4096) = 2"
    using e(3-5) by auto
  then show ?thesis using e(4) by blast
qed

section \<open>Start\<close>

definition configured :: "config_st \<Rightarrow> default_engine \<Rightarrow> default_engine" where
  "configured c e = (if vb0 c then set_vbucket_state (e\<lparr>config := c\<rparr>) 0 vbucket_state_active else e\<lparr>config := c\<rparr>)"

lemma configured_frame [simp]:
  "store (configured c e) = store e" "assoc (configured c e) = assoc e" "slabs (configured c e) = slabs e"
  "items (configured c e) = items e" "config (configured c e) = c" "stats (configured c e) = stats e"
  "tap_clients (configured c e) = tap_clients e" "calloc_q (configured c e) = calloc_q e" "srv_hash (configured c e) = srv_hash e"
  by (simp_all add: configured_def set_vbucket_state_def Let_def)

lemma initalize_configuration_frame:
  assumes "initalize_configuration F files fds se cfg = Some (se', r)"
  shows "r = ENGINE_SUCCESS \<and> (\<exists>c fac. se' = se\<lparr>engine := configured c (engine se), factor := fac\<rparr>)"
proof -
  obtain c fac where "Some (se\<lparr>engine := configured c (engine se), factor := fac\<rparr>, ENGINE_SUCCESS) = Some (se', r)"
    using assms unfolding initalize_configuration_def Let_def bind_eq_Some_iff configured_def [symmetric] by (auto simp: split_beta)
  then show ?thesis by auto
qed

text \<open>The state \<open>create_instance\<close> leaves for the initialisation.\<close>

definition fresh_engine :: "default_engine \<Rightarrow> bool" where
  "fresh_engine e \<longleftrightarrow> \<not> expanding (assoc e) \<and> hash_items (assoc e) = 0 \<and> mem_base (slabs e) = NULL \<and>
     items e = \<lparr>heads = replicate POWER_LARGEST NULL, tails = replicate POWER_LARGEST NULL,
                itemstats = replicate POWER_LARGEST zero_stats, sizes = replicate POWER_LARGEST 0\<rparr> \<and>
     curr_items (stats e) = 0 \<and> vbucket_infos e = replicate NUM_VBUCKETS 0 \<and> tap_clients e = replicate 10 NULL"

lemma create_instance_fresh:
  assumes "create_instance f125 interface api mok env = Inr se"
  shows "fresh_engine (engine se) \<and> store (engine se) = store env \<and> features se = [ENGINE_FEATURE_LRU]"
  using assms by (auto simp: create_instance_def fresh_engine_def Let_def split: if_splits list.splits bool.splits)

lemma fresh_handled:
  assumes "vbucket_infos e = replicate NUM_VBUCKETS 0"
  shows "handled_vbucket (configured c e) v \<longleftrightarrow> ignore_vbucket c \<or> (v = 0 \<and> vb0 c)"
proof -
  have z: "get_vbucket_state (e\<lparr>config := c\<rparr>) w = 0" for w
    using assms vbid_less [of w] by (simp add: get_vbucket_state_def)
  have "length (vbucket_infos (e\<lparr>config := c\<rparr>)) = NUM_VBUCKETS" using assms by simp
  from get_set_vbucket_state [OF this] z show ?thesis
    by (auto simp: handled_vbucket_def configured_def stored_state_cases) (simp_all add: vbucket_state_active_def set_vbucket_state_def Let_def)
qed

lemma default_initialize_steps:
  assumes init: "default_initialize F files fds se cfg = Some (se', ENGINE_SUCCESS)"
  shows "\<exists>c fac e2 s. assoc_init (configured c (engine se)) = Some e2 \<and>
    slabs_init (f_scale F fac) (f_fits F fac (item_size_max c)) (item_size_max c)
      ((sizeof_hash_item + chunk_size c) mod 2 ^ 32) (maxbytes c) (preallocate c) (slabs e2) = Some s \<and>
    engine se' = e2\<lparr>slabs := s\<rparr> \<and> factor se' = fac \<and>
    features se' = features se @ (if use_cas c then [ENGINE_FEATURE_CAS] else [])"
proof -
  obtain se1 r where i1: "initalize_configuration F files fds se cfg = Some (se1, r)"
    using init by (auto simp: default_initialize_def bind_eq_Some_iff)
  obtain c fac where s1: "r = ENGINE_SUCCESS" "se1 = se\<lparr>engine := configured c (engine se), factor := fac\<rparr>"
    using initalize_configuration_frame [OF i1] by blast
  note run = init [unfolded default_initialize_def i1 s1 Let_def]
  obtain e2 where ai: "assoc_init (configured c (engine se)) = Some e2"
    using run by (cases "assoc_init (configured c (engine se))") (auto split: if_splits)
  obtain s where si: "slabs_init (f_scale F fac) (f_fits F fac (item_size_max c)) (item_size_max c)
      ((sizeof_hash_item + chunk_size c) mod 2 ^ 32) (maxbytes c) (preallocate c) (slabs e2) = Some s"
    using run ai by (auto split: if_splits option.splits)
  show ?thesis
    using run ai si by (intro exI [of _ c] exI [of _ fac] exI [of _ e2] exI [of _ s]) (auto split: if_splits)
qed

lemma assoc_init_D:
  assumes "assoc_init e = Some e'"
  shows "\<exists>q. calloc_q e = True # q \<and> e' = e\<lparr>assoc := (assoc e)\<lparr>primary_hashtable := replicate (hashsize (hashpower (assoc e))) NULL\<rparr>, calloc_q := q\<rparr>"
  using assms by (auto simp: assoc_init_def split: list.splits bool.splits)

lemma engine_start_ok:
  assumes create: "create_instance f125 interface api mok env = Inr se"
    and init: "default_initialize F files fds se cfg = Some (se', ENGINE_SUCCESS)"
    and mem: "\<And>x. clsid (store env x) = 0" "\<And>x. \<not> linked env x"
    and c: "c = config (engine se')" and m: "0 < item_size_max c" "0 < (sizeof_hash_item + chunk_size c) mod 2 ^ 32"
    and fits: "\<And>z. f_fits F (factor se') (item_size_max c) z \<Longrightarrow> align_up z \<le> item_size_max c"
    and scale: "\<And>z. 0 < z \<Longrightarrow> 0 < f_scale F (factor se') z"
  shows "cache_inv (engine se') Map.empty (\<lambda>_. []) {} \<and> POWER_SMALLEST \<le> power_largest (slabs (engine se')) \<and>
    (\<forall>v. handled_vbucket (engine se') v \<longleftrightarrow> ignore_vbucket c \<or> (v = 0 \<and> vb0 c)) \<and>
    tap_clients (engine se') = replicate 10 NULL \<and>
    features se' = ENGINE_FEATURE_LRU # (if use_cas c then [ENGINE_FEATURE_CAS] else [])"
proof -
  note fr = create_instance_fresh [OF create, unfolded fresh_engine_def]
  obtain c1 e2 s where ai: "assoc_init (configured c1 (engine se)) = Some e2"
    and si: "slabs_init (f_scale F (factor se')) (f_fits F (factor se') (item_size_max c1)) (item_size_max c1)
      ((sizeof_hash_item + chunk_size c1) mod 2 ^ 32) (maxbytes c1) (preallocate c1) (slabs e2) = Some s"
    and se': "engine se' = e2\<lparr>slabs := s\<rparr>" "features se' = features se @ (if use_cas c1 then [ENGINE_FEATURE_CAS] else [])"
    using default_initialize_steps [OF init] by blast
  obtain q where q: "calloc_q (configured c1 (engine se)) = True # q" and e2: "e2 = (configured c1 (engine se))\<lparr>assoc :=
      (assoc (engine se))\<lparr>primary_hashtable := replicate (hashsize (hashpower (assoc (engine se)))) NULL\<rparr>, calloc_q := q\<rparr>"
    using assoc_init_D [OF ai] by auto
  have cc: "c = c1" by (simp add: c se' e2)
  have a: "assoc_inv e2 Map.empty" using assoc_init_inv [OF _ _ q] ai fr by auto
  have "mem_base (slabs e2) = NULL" using fr by (simp add: e2)
  from slabs_init_ok [OF fits scale m this si [folded cc]] have s: "slabs_inv s" "POWER_SMALLEST \<le> power_largest s" by blast+
  have "cache_inv (engine se') Map.empty (\<lambda>_. []) {}"
  proof (rule cache_invI)
    show "assoc_inv (engine se') Map.empty" by (rule assoc_inv_cong [OF a]) (simp_all add: se')
    show "lru_inv (engine se') (\<lambda>_. [])" using fr by (simp add: lru_inv_def queue_def se' e2)
    show "slabs_inv (slabs (engine se'))" using s(1) by (simp add: se')
    show "clsid (store (engine se') x) = 0" if "x \<notin> {}" for x using mem(1) fr by (simp add: se' e2)
    show "linked (engine se') x \<longleftrightarrow> x \<in> ran Map.empty" for x using mem(2) [of x] fr by (simp add: se' e2)
    show "curr_items (stats (engine se')) = of_nat (card (dom Map.empty))" using fr by (simp add: se' e2)
  qed simp_all
  moreover have "handled_vbucket (engine se') v = handled_vbucket (configured c1 (engine se)) v" for v
    by (simp add: handled_vbucket_def get_vbucket_state_def se' e2)
  ultimately show ?thesis using fresh_handled [of "engine se" c1] fr s(2) by (simp add: se' cc e2)
qed


definition start_env :: default_engine where
  "start_env = sample_engine\<lparr>store := \<lambda>_. zero_item, calloc_q := [True, True]\<rparr>"

definition demo_floats :: "nat float_ops" where
  "demo_floats = \<lparr>f_strtof = demo_strtof, f_scale = \<lambda>_. demo_scale, f_fits = \<lambda>_ _. demo_fits\<rparr>"

lemma slabs_init_total: "\<exists>s'. slabs_init scale fits m z limit False s = Some s'"
  by (simp add: slabs_init_def Let_def split_beta)

lemma start_demo:
  "\<exists>se se' c s0. create_instance f 1 True True start_env = Inr se \<and>
     default_initialize F Map.empty 0 se None = Some (se', ENGINE_SUCCESS) \<and> config (engine se') = c \<and>
     item_size_max c = 1024 * 1024 \<and> chunk_size c = 48 \<and> vb0 c \<and> \<not> ignore_vbucket c \<and> current_time (engine se') = 100 \<and>
     slabs_init (f_scale F (factor se')) (f_fits F (factor se') (1024 * 1024)) (1024 * 1024) ((sizeof_hash_item + 48) mod 2 ^ 32) (64 * 1024 * 1024) False s0 =
       Some (slabs (engine se'))"
proof -
  obtain se :: "'a handle" where se: "create_instance f 1 True True start_env = Inr se"
    "config (engine se) = \<lparr>use_cas = True, verbose = 0, oldest_live = 0, evict_to_free = True, maxbytes = 64 * 1024 * 1024, preallocate = False,
       chunk_size = 48, item_size_max = 1024 * 1024, ignore_vbucket = False, vb0 = False\<rparr>" "calloc_q (engine se) = [True]" "current_time (engine se) = 100"
    by (simp add: create_instance_def start_env_def Let_def sample_engine_def)
  let ?c = "(config (engine se))\<lparr>vb0 := True\<rparr>"
  have ic: "initalize_configuration F Map.empty 0 se None = Some (se\<lparr>engine := configured ?c (engine se), factor := factor se\<rparr>, ENGINE_SUCCESS)"
    by (simp add: initalize_configuration_def configured_def)
  obtain e2 where e2: "assoc_init (configured ?c (engine se)) = Some e2" "config e2 = ?c" "current_time e2 = 100"
    using se(3,4) by (simp add: assoc_init_def configured_def set_vbucket_state_def)
  obtain s where s: "slabs_init (f_scale F (factor se)) (f_fits F (factor se) (1024 * 1024)) (1024 * 1024) ((sizeof_hash_item + 48) mod 2 ^ 32) (64 * 1024 * 1024) False (slabs e2) = Some s"
    using slabs_init_total by blast
  have "\<exists>se'. default_initialize F Map.empty 0 se None = Some (se', ENGINE_SUCCESS) \<and> config (engine se') = ?c \<and> current_time (engine se') = 100 \<and>
      factor se' = factor se \<and> slabs (engine se') = s"
    using ic e2 s by (simp add: default_initialize_def Let_def se(2))
  then obtain se' where se': "default_initialize F Map.empty 0 se None = Some (se', ENGINE_SUCCESS)" "config (engine se') = ?c" "current_time (engine se') = 100"
    "factor se' = factor se" "slabs (engine se') = s" by blast
  show ?thesis
    by (rule exI [of _ se], rule exI [of _ se'], rule exI [of _ ?c], rule exI [of _ "slabs e2"]) (use se se' s in simp)
qed

lemma start_env_clear: "clsid (store start_env x) = 0" "\<not> linked start_env x"
  by (simp_all add: start_env_def zero_item_def)


section \<open>Tap connections\<close>

datatype tap_op = Connect addr u32 | Disconnect addr

text \<open>A sequence of connects and disconnects, with the number of iterators that were handed out.\<close>

fun tap_run :: "tap_op list \<Rightarrow> default_engine \<Rightarrow> (default_engine \<times> nat) option" where
  "tap_run [] e = Some (e, 0)"
| "tap_run (Connect cookie flags # ops) e = do {
     (e, ok) \<leftarrow> default_get_tap_iterator e cookie flags;
     (e, n) \<leftarrow> tap_run ops e;
     Some (e, if ok then n + 1 else n)
   }"
| "tap_run (Disconnect cookie # ops) e = tap_run ops (fst (default_handle_disconnect e cookie))"

definition free_slots :: "default_engine \<Rightarrow> nat" where
  "free_slots e = count_list (tap_clients e) NULL"

lemma link_cursor_clients: "do_item_link_cursor e cursor ii = Some e' \<Longrightarrow> tap_clients e' = tap_clients e"
  by (auto simp: do_item_link_cursor_def Let_def bind_eq_Some_iff split: if_splits)

lemma initialize_clients: "initialize_item_tap_walker e cookie = Some (e', ok) \<Longrightarrow> tap_clients e' = tap_clients e"
  by (auto simp: initialize_item_tap_walker_def bind_eq_Some_iff Let_def dest!: link_cursor_clients split: list.splits option.splits if_splits)

lemma count_list_update:
  "i < length xs \<Longrightarrow> count_list (xs[i := y]) a + (if xs ! i = a then 1 else 0) = count_list xs a + (if y = a then 1 else 0)"
proof (induction xs arbitrary: i)
  case (Cons x xs)
  show ?case
  proof (cases i)
    case (Suc j)
    then show ?thesis using Cons.IH [of j] Cons.prems by (cases "y = a"; cases "xs ! j = a") simp_all
  qed simp
qed simp

lemma get_tap_iterator_slots:
  assumes "default_get_tap_iterator e cookie flags = Some (e', ok)" "cookie \<noteq> NULL"
  shows "free_slots e' + (if ok then 1 else 0) = free_slots e"
proof (cases "flags AND TAP_CONNECT_FLAG_TAKEOVER_VBUCKETS \<noteq> 0 \<or>
    List.find (\<lambda>ii. tap_clients e ! ii = NULL) [0..<length (tap_clients e)] = None")
  case True
  then show ?thesis using assms(1) by (auto simp: default_get_tap_iterator_def split: option.splits if_splits)
next
  case False
  then obtain ii where f: "List.find (\<lambda>ii. tap_clients e ! ii = NULL) [0..<length (tap_clients e)] = Some ii" by blast
  then have ii: "ii < length (tap_clients e)" "tap_clients e ! ii = NULL" by (auto simp: find_Some_iff)
  obtain e1 where e1: "initialize_item_tap_walker (set_client ii cookie e) cookie = Some (e1, ok)"
    "e' = (if ok then e1 else set_client ii NULL e1)"
    using assms(1) False f by (auto simp: default_get_tap_iterator_def bind_eq_Some_iff)
  have c1: "tap_clients e1 = (tap_clients e)[ii := cookie]" using initialize_clients [OF e1(1)] by (simp add: set_client_def)
  have u: "count_list ((tap_clients e)[ii := cookie]) NULL + 1 = count_list (tap_clients e) NULL"
    using count_list_update [OF ii(1), of cookie NULL] ii(2) assms(2) by simp
  have "(tap_clients e)[ii := NULL] = tap_clients e" using ii by (metis list_update_id)
  then show ?thesis using e1(2) c1 u by (simp add: free_slots_def set_client_def)
qed

text \<open>
  C36. Tap slots are used up.  In every sequence of connects and disconnects each iterator that is handed out takes a
  slot for good: a disconnect frees the client but leaves its slot, so that the number of iterators an engine hands out
  during its life is bounded by the ten slots it starts with.
\<close>

theorem tap_slots_used_up:
  "tap_run ops e = Some (e', n) \<Longrightarrow> \<forall>cookie flags. Connect cookie flags \<in> set ops \<longrightarrow> cookie \<noteq> NULL \<Longrightarrow>
   free_slots e' + n = free_slots e"
proof (induction ops e arbitrary: e' n rule: tap_run.induct)
  case (2 cookie flags ops e)
  from "2.prems"(1) obtain e1 ok n1 where s: "default_get_tap_iterator e cookie flags = Some (e1, ok)"
    "tap_run ops e1 = Some (e', n1)" "n = (if ok then n1 + 1 else n1)"
    by (auto simp: bind_eq_Some_iff)
  have "free_slots e' + n1 = free_slots e1" using "2.IH" [OF s(1) refl s(2)] "2.prems"(2) by (meson list.set_intros(2))
  moreover have "free_slots e1 + (if ok then 1 else 0) = free_slots e"
    using get_tap_iterator_slots [OF s(1)] "2.prems"(2) by auto
  ultimately show ?case using s(3) by (cases ok) simp_all
next
  case (3 cookie ops e)
  have "fst (default_handle_disconnect e cookie) = e" by (simp add: default_handle_disconnect_def split: option.splits)
  then show ?case using 3 by simp
qed simp

definition tap_env :: default_engine where
  "tap_env = sample_engine\<lparr>store := \<lambda>_. zero_item, tap_clients := [NULL], client_q := [64, 128],
     items := \<lparr>heads = replicate POWER_LARGEST NULL, tails = replicate POWER_LARGEST NULL,
       itemstats = replicate POWER_LARGEST zero_stats, sizes = replicate POWER_LARGEST 0\<rparr>\<rparr>"

lemma next_class_empty: "heads (items e) = replicate POWER_LARGEST NULL \<Longrightarrow> next_class e c = None"
  by (simp add: next_class_def find_None_iff)

lemma tap_env_run: "\<exists>e'. tap_run [Connect 7 0, Disconnect 7, Connect 8 0] tap_env = Some (e', 1)"
  by (simp add: default_get_tap_iterator_def initialize_item_tap_walker_def next_class_empty tap_env_def set_client_def
      default_handle_disconnect_def Let_def)

theorem tap_slots_used_up_witness:
  "\<exists>e'. tap_run [Connect 7 0, Disconnect 7, Connect 8 0] tap_env = Some (e', 1) \<and> free_slots e' = 0"
proof -
  obtain e' where e': "tap_run [Connect 7 0, Disconnect 7, Connect 8 0] tap_env = Some (e', 1)" using tap_env_run by blast
  have "free_slots e' + 1 = free_slots tap_env" using tap_slots_used_up [OF e'] by simp
  then show ?thesis using e' by (simp add: free_slots_def tap_env_def)
qed

end
