(* ===== verification/ItemAlloc.thy ===== *)
theory ItemAlloc
  imports ItemsInv
begin

unbundle bit_operations_syntax

text \<open>
  Allocation of items (\<open>do_item_alloc\<close> of \<open>default_engine/items.c\<close>): stealing an expired item from the
  tail of a queue, taking a chunk from the slab allocator, evicting an item nobody uses, and the last
  resort of freeing an item that has been held for hours.  In every case the cache keeps its
  invariant; what may disappear from it is stated exactly.
\<close>

section \<open>Pages\<close>

text \<open>
  What the slab allocator leaves alone while it hands out no new page: the chunks, and the answers of
  the coming calls of \<open>malloc\<close>.
\<close>

definition slab_frame :: "slabs_st \<Rightarrow> slabs_st \<Rightarrow> bool" where
  "slab_frame s s' \<longleftrightarrow>
     (\<forall>i. chunks (slabclass s' ! i) = chunks (slabclass s ! i) \<and> sc_size (slabclass s' ! i) = sc_size (slabclass s ! i) \<and>
        perslab (slabclass s' ! i) = perslab (slabclass s ! i)) \<and>
     set (malloc_q s') \<subseteq> set (malloc_q s) \<and> power_largest s' = power_largest s"

lemma slab_frame_refl [simp]: "slab_frame s s"
  by (simp add: slab_frame_def)

lemma slab_frame_trans: "slab_frame s s' \<Longrightarrow> slab_frame s' s'' \<Longrightarrow> slab_frame s s''"
  unfolding slab_frame_def by auto

lemma nth_update_same: "f p = f (xs ! c) \<Longrightarrow> f (xs[c := p] ! i) = f (xs ! i)"
  by (cases "i = c"; cases "c < length xs") (simp_all add: list_update_beyond)

lemma upd_class_frame:
  assumes "chunks p = chunks (slabclass s ! c)" "sc_size p = sc_size (slabclass s ! c)" "perslab p = perslab (slabclass s ! c)"
  shows "slab_frame s (upd_class s c p)"
  unfolding slab_frame_def upd_class_def
  by (simp add: nth_update_same [of chunks, OF assms(1)] nth_update_same [of sc_size, OF assms(2)] nth_update_same [of perslab, OF assms(3)])

lemma chunks_upd [state_simps]:
  "chunks (p\<lparr>slots := a\<rparr>) = chunks p" "chunks (p\<lparr>sl_total := b\<rparr>) = chunks p" "chunks (p\<lparr>sl_curr := b\<rparr>) = chunks p"
  "chunks (p\<lparr>requested := q\<rparr>) = chunks p" "chunks (p\<lparr>end_page_ptr := b\<rparr>) = chunks p" "chunks (p\<lparr>end_page_free := b\<rparr>) = chunks p"
  by (simp_all add: chunks_def page_chunks_def)

lemma do_slabs_free_frame: "slab_frame s (do_slabs_free s ptr n c)"
proof -
  have q: "slab_frame s (s\<lparr>realloc_q := r\<rparr>)" for r by (simp add: slab_frame_def)
  show ?thesis
    unfolding do_slabs_free_def Let_def
    by (auto simp: state_simps intro!: q slab_frame_trans [OF q upd_class_frame] upd_class_frame)
qed

text \<open>
  The contract of \<open>malloc\<close> for the coming pages: the memory it returns has no address in common with the
  chunks handed out before.
\<close>

definition pages_fresh :: "slabs_st \<Rightarrow> nat \<Rightarrow> bool" where
  "pages_fresh s cid \<longleftrightarrow>
     (\<forall>a \<in> set (malloc_q s). a \<noteq> NULL \<longrightarrow>
        (\<forall>i. valid_class s i \<longrightarrow>
           {a ..< a + sc_size (slabclass s ! cid) * perslab (slabclass s ! cid)} \<inter> chunks (slabclass s ! i) = {}))"

lemma pages_fresh_frame: "pages_fresh s cid \<Longrightarrow> slab_frame s s' \<Longrightarrow> pages_fresh s' cid"
  unfolding pages_fresh_def slab_frame_def by (simp add: subset_iff)

lemma next_malloc_in: "next_malloc s \<noteq> NULL \<Longrightarrow> next_malloc s \<in> set (malloc_q s)"
  by (auto simp: next_malloc_def split: list.splits)

lemma pages_fresh_malloc:
  assumes "slabs_inv s" "pages_fresh s cid" "valid_class s cid"
  shows "malloc_fresh s cid"
proof -
  have "0 < sc_size (slabclass s ! cid)" using slabs_inv_nth [OF assms(1,3)] by (simp add: class_inv_def)
  then have "page_chunks (slabclass s ! cid) a \<subseteq> {a ..< a + sc_size (slabclass s ! cid) * perslab (slabclass s ! cid)}" for a
    using page_chunks_bound [of _ "slabclass s ! cid" a] by (auto simp: page_chunks_def)
  then show ?thesis
    using assms(2) next_malloc_in [of s] unfolding pages_fresh_def malloc_fresh_def by blast
qed

text \<open>The page a call of the allocator adds, if it adds one.\<close>

lemma grow_slab_list_frame:
  assumes "grow_slab_list s cid = (s', g)"
  shows "malloc_q s' = malloc_q s \<and> mem_base s' = mem_base s \<and> mem_current s' = mem_current s \<and> power_largest s' = power_largest s \<and>
    sc_size (slabclass s' ! i) = sc_size (slabclass s ! i) \<and> perslab (slabclass s' ! i) = perslab (slabclass s ! i) \<and>
    slabs_cnt (slabclass s' ! i) = slabs_cnt (slabclass s ! i) \<and> length (slabclass s') = length (slabclass s) \<and> mem_limit s' = mem_limit s \<and>
    mem_avail s' = mem_avail s \<and> mem_malloced s' = mem_malloced s"
  using assms unfolding grow_slab_list_def
  by (auto simp: Let_def upd_class_def nth_update_same [of sc_size] nth_update_same [of perslab] nth_update_same [of slabs_cnt] split: if_splits)

lemma set_tl_le: "x \<in> set (tl xs) \<Longrightarrow> x \<in> set xs"
  by (cases xs) auto

lemma newslab_page:
  assumes n: "do_slabs_newslab s cid = (s', ok)" and p: "p = slabclass s ! cid" "p' = slabclass s' ! cid" and "slabs_inv s" "valid_class s cid"
  shows "if ok then slabs_cnt p' = Suc (slabs_cnt p) \<and> slab_list p' ! slabs_cnt p \<noteq> NULL \<and>
      (mem_base s \<noteq> NULL \<and> slab_list p' ! slabs_cnt p = mem_current s \<or> mem_base s = NULL \<and> slab_list p' ! slabs_cnt p = next_malloc s)
    else slab_frame s s' \<and> slabs_cnt p' = slabs_cnt p"
proof -
  obtain s1 g where g: "grow_slab_list s cid = (s1, g)" by force
  note gr = grow_slab_list_ok [OF assms(4,5) g] and fr = grow_slab_list_frame [OF g]
  have f1: "slab_frame s s1" using fr gr(3) by (simp add: slab_frame_def)
  let ?p = "slabclass s1 ! cid" and ?len = "sc_size p * perslab p"
  obtain s2 ptr where m: "memory_allocate s1 ?len = (s2, ptr)" by force
  have mm: "slabclass s2 = slabclass s1 \<and> power_largest s2 = power_largest s1 \<and> set (malloc_q s2) \<subseteq> set (malloc_q s1) \<and>
    (ptr = NULL \<or> mem_base s1 \<noteq> NULL \<and> ptr = mem_current s1 \<or> mem_base s1 = NULL \<and> ptr = next_malloc s1)"
    using m set_tl_le unfolding memory_allocate_def by (auto simp: Let_def split: if_splits)
  have nm: "next_malloc s1 = next_malloc s" using fr by (simp add: next_malloc_def)
  have f2: "slab_frame s s2" using slab_frame_trans [OF f1, of s2] mm by (simp add: slab_frame_def)
  consider (lim) "s' = s" "\<not> ok" | (nogrow) "s' = s1" "\<not> ok" | (nomem) "s' = s2" "\<not> ok"
    | (page) "g" "ptr \<noteq> NULL" "ok"
       "s' = upd_class (s2\<lparr>mem_malloced := mem_malloced s2 + ?len\<rparr>) cid
          ((slabclass s2 ! cid)\<lparr>end_page_ptr := ptr, end_page_free := perslab (slabclass s2 ! cid),
             slab_list := (slab_list (slabclass s2 ! cid))[slabs_cnt (slabclass s2 ! cid) := ptr],
             slabs_cnt := slabs_cnt (slabclass s2 ! cid) + 1\<rparr>)"
    using n g m p(1) by (cases g) (auto simp: do_slabs_newslab_def Let_def split: if_splits)
  then show ?thesis
  proof cases
    case page
    have v1: "valid_class s1 cid" using assms(5) fr by simp
    note nth = slabs_inv_nth [OF gr(1) v1]
    have "slabs_cnt ?p < length (slab_list ?p)" using gr(2) [OF page(1)] nth(2) by (simp add: class_inv_def)
    moreover have "p' = ?p\<lparr>end_page_ptr := ptr, end_page_free := perslab ?p, slab_list := (slab_list ?p)[slabs_cnt ?p := ptr],
        slabs_cnt := slabs_cnt ?p + 1\<rparr>"
      using page(4) mm nth(1) p(2) by (simp add: upd_class_def)
    moreover have "slabs_cnt ?p = slabs_cnt p" using fr p(1) by simp
    ultimately show ?thesis using page(2,3) mm fr nm by auto
  qed (use f1 f2 fr mm p in auto)
qed

text \<open>A call of the allocator that adds no page keeps the frame.\<close>

lemma take_chunk_frame:
  "take_chunk p = Some (p', r) \<Longrightarrow> chunks p' = chunks p \<and> sc_size p' = sc_size p \<and> perslab p' = perslab p \<and>
     slabs_cnt p' = slabs_cnt p \<and> slab_list p' = slab_list p"
  by (auto simp: take_chunk_def state_simps bind_eq_Some_iff split: if_splits)

lemma do_slabs_alloc_page:
  assumes a: "do_slabs_alloc s sz cid = Some (s', r)" and p: "p = slabclass s ! cid" "p' = slabclass s' ! cid" and inv: "slabs_inv s" "valid_class s cid"
    and fresh: "malloc_fresh s cid"
  shows "if slabs_cnt p < slabs_cnt p'
    then r \<noteq> NULL \<and> slab_list p' ! slabs_cnt p \<noteq> NULL \<and>
      (mem_base s \<noteq> NULL \<and> slab_list p' ! slabs_cnt p = mem_current s \<or> mem_base s = NULL \<and> slab_list p' ! slabs_cnt p = next_malloc s)
    else slab_frame s s'"
proof -
  define s1 ok where "s1 = fst (if end_page_ptr p \<noteq> NULL \<or> sl_curr p \<noteq> 0 then (s, True) else do_slabs_newslab s cid)"
    and "ok = snd (if end_page_ptr p \<noteq> NULL \<or> sl_curr p \<noteq> 0 then (s, True) else do_slabs_newslab s cid)"
  have unf: "do_slabs_alloc s sz cid = (if \<not> ok then Some (s1, NULL)
      else do {
        (p, ret) \<leftarrow> take_chunk (slabclass s1 ! cid);
        Some (upd_class s1 cid (if ret \<noteq> NULL then p\<lparr>requested := requested p + of_nat sz\<rparr> else p), ret)
      })"
    using inv(2) by (simp add: do_slabs_alloc_def s1_def ok_def Let_def split_beta p(1))
  have il: "cid < length (slabclass s)" by (rule slabs_inv_nth(1) [OF inv])
  have up: "slab_frame s1 s' \<and> slabs_cnt p' = slabs_cnt (slabclass s1 ! cid) \<and> slab_list p' = slab_list (slabclass s1 ! cid)"
  proof (cases ok)
    case False
    then show ?thesis using a unf p(2) by simp
  next
    case True
    then obtain q where q: "take_chunk (slabclass s1 ! cid) = Some (q, r)"
      "s' = upd_class s1 cid (if r \<noteq> NULL then q\<lparr>requested := requested q + of_nat sz\<rparr> else q)"
      using a unf by (auto simp: bind_eq_Some_iff)
    then show ?thesis
      using take_chunk_frame [OF q(1)] p(2) nth_update_same [of slabs_cnt _ "slabclass s1" cid cid] nth_update_same [of slab_list _ "slabclass s1" cid cid]
      by (auto intro!: upd_class_frame simp: state_simps) (simp_all add: upd_class_def)
  qed
  show ?thesis
  proof (cases "end_page_ptr p \<noteq> NULL \<or> sl_curr p \<noteq> 0")
    case True
    then have "s1 = s" by (simp add: s1_def)
    then show ?thesis using up p by simp
  next
    case False
    then have n: "do_slabs_newslab s cid = (s1, ok)" by (simp add: s1_def ok_def)
    have fl: "free_list (slabclass s ! cid) = []"
      using False free_list_empty_iff [OF slabs_inv_nth(2) [OF inv]] p(1) by simp
    note nw = do_slabs_newslab_ok [OF inv fresh fl n] and pg = newslab_page [OF n p(1) refl inv]
    show ?thesis
    proof (cases ok)
      case True
      have v1: "valid_class s1 cid" using nw(2) inv(2) by (simp add: same_used_def)
      obtain q r' where t: "take_chunk (slabclass s1 ! cid) = Some (q, r')" "r' \<in> set (free_list (slabclass s1 ! cid))"
        using take_chunk_ok [OF slabs_inv_nth(2) [OF nw(1) v1] nw(3) [OF True]] by blast
      have "r' \<noteq> NULL" using t(2) slabs_inv_nth(2) [OF nw(1) v1] by (auto simp: class_inv_def dest: subsetD)
      moreover have "r = r'" using a unf True t(1) by (simp add: bind_eq_Some_iff)
      ultimately show ?thesis using pg True up by simp
    next
      case no: False
      then show ?thesis using pg up slab_frame_trans by auto
    qed
  qed
qed

section \<open>Chunks for items\<close>

text \<open>Items that are not in the cache may change freely, as long as they are neither linked nor of a class.\<close>

lemma cache_inv_outside:
  assumes inv: "cache_inv e M Q A" and same: "\<And>x. x \<in> A \<Longrightarrow> store e' x = store e x"
    and out: "\<And>x. x \<notin> A \<Longrightarrow> clsid (store e' x) = 0 \<and> \<not> linked e' x"
    and e: "assoc e' = assoc e" "heads (items e') = heads (items e)" "tails (items e') = tails (items e)" "sizes (items e') = sizes (items e)"
      "length (itemstats (items e')) = length (itemstats (items e))" "srv_hash e' = srv_hash e" "curr_items (stats e') = curr_items (stats e)"
    and s: "slabs_inv (slabs e')" "power_largest (slabs e') = power_largest (slabs e)"
      "\<And>x i. x \<in> A \<Longrightarrow> x \<in> used (slabclass (slabs e) ! i) \<Longrightarrow> x \<in> used (slabclass (slabs e') ! i)"
  shows "cache_inv e' M Q A"
proof (rule cache_invI)
  note D = cache_inv_D [OF inv]
  have M: "x \<in> A" if "M k = Some x" for k x using D(5) that by (metis ranI subsetD)
  have Qs: "x \<in> A" if "c < POWER_LARGEST" "x \<in> set (Q c)" for c x using D(4,5) that by blast
  show "assoc_inv e' M"
  proof -
    have "bucket_rel e' M b xs" if "bucket_rel e M b xs" for b xs
    proof -
      have "chain (h_next \<circ> store e') p xs = chain (h_next \<circ> store e) p xs" for p
        by (rule chain_cong) (use that M same in \<open>auto simp: bucket_rel_def\<close>)
      then show ?thesis using that by (simp add: bucket_rel_def e)
    qed
    then have "\<exists>xs. bucket_rel e' M b xs" if "slot_ok (assoc e) b" for b using D(1) that unfolding assoc_inv_def by blast
    moreover have "keys_ok e' M" using D(1) M same by (simp add: assoc_inv_def keys_ok_def)
    ultimately show ?thesis using D(1) by (simp add: assoc_inv_def e)
  qed
  show "lru_inv e' Q"
  proof -
    have "queue e' c (Q c)" if c: "c < POWER_LARGEST" for c
      by (rule queue_cong [of e]) (use D(2) c Qs [OF c] same e in \<open>simp_all add: lru_inv_def\<close>)
    then show ?thesis using D(2) by (simp add: lru_inv_def e)
  qed
  show "alloc_ok e' x" if "x \<in> A" for x using D(6) [OF that] same [OF that] s(2,3) that by (auto simp: alloc_ok_def)
  show "linked e' x \<longleftrightarrow> x \<in> ran M" for x using D(5) D(8) [of x] same [of x] out [of x] by (cases "x \<in> A") auto
qed (use cache_inv_D [OF inv] s(1) out e in auto)

text \<open>The slab allocator gives the cache a chunk outside of the allocated items, or nothing.\<close>

lemma engine_slabs_alloc_ok:
  assumes inv: "cache_inv e M Q A" and fresh: "pages_fresh (slabs e) cid" and v: "valid_class (slabs e) cid"
  shows "\<exists>e' r. engine_slabs_alloc e sz cid = Some (e', r) \<and> cache_inv e' M Q A \<and> (\<forall>x \<in> A. store e' x = store e x) \<and>
    e' = e\<lparr>slabs := slabs e', store := store e'\<rparr> \<and> power_largest (slabs e') = power_largest (slabs e) \<and>
    (if r = NULL then slab_frame (slabs e) (slabs e') else r \<notin> A \<and> r \<in> used (slabclass (slabs e') ! cid))"
proof -
  note D = cache_inv_D [OF inv]
  note mf = pages_fresh_malloc [OF D(3) fresh v]
  obtain s' r where a: "do_slabs_alloc (slabs e) sz cid = Some (s', r)" "slabs_inv s'" "power_largest s' = power_largest (slabs e)"
    "if r = NULL then same_used (slabs e) s'
     else r \<in> chunks (slabclass s' ! cid) \<and> r \<notin> used (slabclass (slabs e) ! cid) \<and>
       used (slabclass s' ! cid) = insert r (used (slabclass (slabs e) ! cid)) \<and>
       (\<forall>i. i \<noteq> cid \<longrightarrow> used (slabclass s' ! i) = used (slabclass (slabs e) ! i))"
    using do_slabs_alloc_ok [OF D(3) mf, of sz] by (metis (no_types, lifting))
  let ?p = "slabclass (slabs e) ! cid" and ?p' = "slabclass s' ! cid"
  let ?page = "slab_list ?p' ! slabs_cnt ?p" and ?len = "sc_size ?p * perslab ?p"
  note pg = do_slabs_alloc_page [OF a(1) refl refl D(3) v mf]
  define st where "st = (if slabs_cnt ?p < slabs_cnt ?p' then (\<lambda>a. if ?page \<le> a \<and> a < ?page + ?len then zero_item else store e a) else store e)"
  have run: "engine_slabs_alloc e sz cid = Some (e\<lparr>slabs := s', store := st\<rparr>, r)"
    using a(1) by (simp add: engine_slabs_alloc_def slabs_alloc_def Let_def st_def)
  have used_chunk: "x \<in> chunks (slabclass (slabs e) ! cls e x) \<and> valid_class (slabs e) (cls e x)" if "x \<in> A" for x
    using D(6) [OF that] by (auto simp: alloc_ok_def used_def)
  have same: "st x = store e x" if x: "x \<in> A" for x
  proof (cases "slabs_cnt ?p < slabs_cnt ?p'")
    case True
    have "\<not> (?page \<le> x \<and> x < ?page + ?len)"
    proof (cases "mem_base (slabs e) = NULL")
      case m: True
      then have "?page \<in> set (malloc_q (slabs e))" "?page \<noteq> NULL" using pg True next_malloc_in [of "slabs e"] by auto
      then have "{?page ..< ?page + ?len} \<inter> chunks (slabclass (slabs e) ! cls e x) = {}"
        using fresh used_chunk [OF x] unfolding pages_fresh_def by blast
      then show ?thesis using used_chunk [OF x] by auto
    next
      case False
      then have "?page = mem_current (slabs e)" using pg True by simp
      moreover have "x < mem_current (slabs e)" using D(3) False used_chunk [OF x] unfolding slabs_inv_def by blast
      ultimately show ?thesis by simp
    qed
    then show ?thesis by (auto simp: st_def)
  qed (simp add: st_def)
  have used_mono: "x \<in> used (slabclass s' ! i)" if "x \<in> used (slabclass (slabs e) ! i)" for x i
    using a(4) that by (cases "i = cid") (auto simp: same_used_def split: if_splits)
  have "cache_inv (e\<lparr>slabs := s', store := st\<rparr>) M Q A"
    by (rule cache_inv_outside [OF inv])
       (use same a(2,3) used_mono D(5,7,8) in \<open>auto simp: st_def zero_item_def\<close>)
  moreover have "if r = NULL then slab_frame (slabs e) s' else r \<notin> A \<and> r \<in> used (slabclass s' ! cid)"
  proof (cases "r = NULL")
    case True
    then show ?thesis using pg by (simp split: if_splits)
  next
    case False
    have "r \<notin> A"
    proof
      assume "r \<in> A"
      then have u: "r \<in> used (slabclass (slabs e) ! cls e r)" "valid_class s' (cls e r)" using D(6) a(3) by (auto simp: alloc_ok_def)
      show False
      proof (cases "cls e r = cid")
        case True
        then show False using u(1) a(4) False by simp
      next
        case ne: False
        have "r \<in> chunks (slabclass s' ! cls e r)" using used_mono [OF u(1)] by (simp add: used_def)
        moreover have "r \<in> chunks (slabclass s' ! cid)" "valid_class s' cid" using a(3,4) False v by auto
        ultimately show False using a(2) u(2) ne unfolding slabs_inv_def by blast
      qed
    qed
    then show ?thesis using a(4) False by simp
  qed
  ultimately show ?thesis using run same a(3) by (intro exI [of _ "e\<lparr>slabs := s', store := st\<rparr>"] exI [of _ r]) simp
qed

text \<open>An item outside of the cache may be overwritten; it joins or leaves the allocated items.\<close>

lemma off_cache:
  assumes inv: "cache_inv e M Q A" and x: "x \<notin> ran M" and e': "e' = e\<lparr>store := (store e)(x := i)\<rparr>"
  shows "assoc_inv e' M \<and> lru_inv e' Q"
proof
  note D = cache_inv_D [OF inv]
  have M: "y \<noteq> x" if "M k = Some y" for k y using x that by (auto simp: ran_def)
  have Qs: "y \<noteq> x" if "d < POWER_LARGEST" "y \<in> set (Q d)" for d y using D(4) x that by auto
  have "bucket_rel e' M b xs" if "bucket_rel e M b xs" for b xs
  proof -
    have "chain (h_next \<circ> store e') p xs = chain (h_next \<circ> store e) p xs" for p
      by (rule chain_cong) (use that M in \<open>auto simp: bucket_rel_def e'\<close>)
    then show ?thesis using that by (simp add: bucket_rel_def e')
  qed
  then have "\<exists>xs. bucket_rel e' M b xs" if "slot_ok (assoc e) b" for b using D(1) that unfolding assoc_inv_def by blast
  moreover have "keys_ok e' M" using D(1) M by (simp add: assoc_inv_def keys_ok_def e')
  ultimately show "assoc_inv e' M" using D(1) by (simp add: assoc_inv_def e')
  have "queue e' d (Q d)" if d: "d < POWER_LARGEST" for d
    by (rule queue_cong [of e]) (use D(2) d Qs [OF d] in \<open>simp_all add: lru_inv_def e'\<close>)
  then show "lru_inv e' Q" using D(2) by (simp add: lru_inv_def e')
qed

lemma cache_inv_fill:
  assumes inv: "cache_inv e M Q A" and x: "x \<notin> ran M" "x \<noteq> NULL" and c: "valid_class (slabs e) c" "c < POWER_LARGEST"
    and u: "x \<in> used (slabclass (slabs e) ! c)"
    and e': "e' = e\<lparr>store := (store e)(x := i)\<rparr>" and i: "unat (clsid i) = c" "\<not> bit (iflag i) 8" "\<not> bit (iflag i) 9" "item_ok i"
  shows "cache_inv e' M Q (insert x A)"
proof (rule cache_invI)
  note D = cache_inv_D [OF inv]
  show "alloc_ok e' y" if "y \<in> insert x A" for y
    using that D(6) [of y] x(2) c u i by (cases "y = x") (auto simp: alloc_ok_def e')
  show "linked e' y \<longleftrightarrow> y \<in> ran M" for y using D(8) [of y] x(1) i by (simp add: e')
qed (use cache_inv_D [OF inv] off_cache [OF inv x(1) e'] e' in auto)

lemma cache_inv_drop:
  assumes inv: "cache_inv e M Q A" and x: "x \<notin> ran M" and e': "e' = e\<lparr>store := (store e)(x := i)\<rparr>"
    and i: "clsid i = 0" "\<not> bit (iflag i) 8"
  shows "cache_inv e' M Q (A - {x})"
proof (rule cache_invI)
  note D = cache_inv_D [OF inv]
  show "alloc_ok e' y" if "y \<in> A - {x}" for y using that D(6) [of y] by (auto simp: alloc_ok_def e')
  show "linked e' y \<longleftrightarrow> y \<in> ran M" for y using D(8) [of y] x i by (simp add: e')
qed (use cache_inv_D [OF inv] off_cache [OF inv x e'] e' x i in auto)

section \<open>Making room\<close>

text \<open>Taking an item out of the cache adds no page.\<close>

lemma pos_set_slabs [simp]: "slabs (pos_set b x e) = slabs e"
  by (cases b) simp_all

lemma assoc_delete_slabs: "assoc_delete e h k = Some e' \<Longrightarrow> slabs e' = slabs e"
  by (auto simp: assoc_delete_def bind_eq_Some_iff Let_def split: if_splits)

lemma item_unlink_q_slabs: "item_unlink_q e it = Some e' \<Longrightarrow> slabs e' = slabs e"
  by (auto simp: item_unlink_q_def bind_eq_Some_iff Let_def split: if_splits)

lemma item_free_frame: "item_free e it = Some e' \<Longrightarrow> slab_frame (slabs e) (slabs e')"
  by (auto simp: item_free_def bind_eq_Some_iff Let_def slabs_free_def do_slabs_free_frame split: if_splits)

lemma do_item_unlink_frame:
  assumes "do_item_unlink e it = Some e'"
  shows "slab_frame (slabs e) (slabs e')"
proof (cases "iflag (store e it) AND ITEM_LINKED \<noteq> 0")
  case True
  then obtain e1 e2 where e: "slabs e1 = slabs e" "item_unlink_q e1 it = Some e2"
    "(if refcount (store e2 it) = 0 then item_free e2 it else Some e2) = Some e'"
    using assms unfolding do_item_unlink_def Let_def
    by (auto simp: bind_eq_Some_iff upd_stats_def dest!: assoc_delete_slabs)
  then have "slabs e2 = slabs e" using item_unlink_q_slabs by simp
  then show ?thesis using e(3) item_free_frame [of e2 it e'] by (cases "refcount (store e2 it) = 0") simp_all
qed (use assms in \<open>simp add: do_item_unlink_def\<close>)

text \<open>The search from the tail of a queue.\<close>

lemma lru_search_chain: "chain (it_prev \<circ> h) p ys \<Longrightarrow> r = lru_search P h n p \<Longrightarrow> r \<noteq> NULL \<Longrightarrow> r \<in> set ys \<and> P (h r)"
proof (induction n arbitrary: p ys)
  case (Suc n)
  then show ?case by (cases ys) (auto split: if_splits)
qed simp

lemma lru_search_ok:
  assumes inv: "cache_inv e M Q A" and c: "c < POWER_LARGEST" and r: "r = lru_search P (store e) n (tails (items e) ! c)" "r \<noteq> NULL"
  shows "\<exists>k. M k = Some r \<and> cls e r = c \<and> P (store e r)"
proof -
  have q: "queue e c (Q c)" using cache_inv_D(2) [OF inv] c by (simp add: lru_inv_def)
  have "r \<in> set (Q c)" "P (store e r)" using q lru_search_chain [OF _ r, of "rev (Q c)"] by (auto simp: queue_def)
  moreover from this have "r \<in> ran M" using cache_inv_D(4) [OF inv] c by auto
  ultimately show ?thesis using q by (auto simp: queue_def ran_def)
qed

text \<open>
  The items an allocation may throw out: expired ones nobody uses, and with eviction enabled any
  one nobody uses or one that has been held since before the repair time.
\<close>

definition evictable :: "default_engine \<Rightarrow> hash_item \<Rightarrow> bool" where
  "evictable e it \<longleftrightarrow> refcount it = 0 \<and> exptime it \<noteq> 0 \<and> exptime it < current_time e \<or>
     evict_to_free (config e) \<and> (refcount it = 0 \<or> it_time it + TAIL_REPAIR_TIME < current_time e)"

text \<open>From one state to another exactly the items of the keys \<open>ks\<close> leave the cache.\<close>

definition evicts :: "bytes list \<Rightarrow> default_engine \<Rightarrow> (bytes \<rightharpoonup> addr) \<Rightarrow> addr set \<Rightarrow> default_engine \<Rightarrow> (bytes \<rightharpoonup> addr) \<Rightarrow> addr set \<Rightarrow> bool" where
  "evicts ks e M A e' M' A' \<longleftrightarrow>
     M' = M |` (- set ks) \<and> A' = A - {x. \<exists>k \<in> set ks. M k = Some x} \<and>
     (\<forall>k \<in> set ks. \<exists>x. M k = Some x \<and> evictable e (store e x)) \<and>
     (\<forall>x \<in> A'. core (store e' x) = core (store e x)) \<and> env_same e e' \<and> cas_id e' = cas_id e"

lemma evicts_refl: "evicts [] e M A e M A"
  by (simp add: evicts_def restrict_map_def)

lemma evictable_core: "core i = core j \<Longrightarrow> env_same e e' \<Longrightarrow> evictable e' i = evictable e j"
  using core_fields [of i j] by (simp add: evictable_def env_same_def)

lemma evicts_trans:
  assumes a: "evicts ks e M A e1 M1 A1" and b: "evicts ls e1 M1 A1 e2 M2 A2" and M: "ran M1 \<subseteq> A1"
  shows "evicts (ks @ ls) e M A e2 M2 A2"
proof -
  have M1: "M1 = M |` (- set ks)" and A1: "A1 = A - {x. \<exists>k \<in> set ks. M k = Some x}" and en: "env_same e e1"
    and s1: "core (store e1 x) = core (store e x)" if "x \<in> A1" for x using a that by (simp_all add: evicts_def)
  have ev: "\<exists>x. M k = Some x \<and> evictable e (store e x)" if k: "k \<in> set ls" for k
  proof -
    obtain x where x: "M1 k = Some x" "evictable e1 (store e1 x)" using b k unfolding evicts_def by blast
    then have "x \<in> A1" using M by (auto simp: ran_def)
    then have "evictable e (store e x)" using x(2) evictable_core [OF s1 en] by blast
    moreover have "M k = Some x" using x(1) a by (auto simp: evicts_def restrict_map_def split: if_splits)
    ultimately show ?thesis by blast
  qed
  have k1: "M1 k = Some x \<longleftrightarrow> M k = Some x \<and> k \<notin> set ks" for k x using a by (auto simp: evicts_def restrict_map_def)
  have "A2 = A - {x. \<exists>k \<in> set (ks @ ls). M k = Some x}"
    using a b k1 unfolding evicts_def by auto
  moreover have "M2 = M |` (- set (ks @ ls))" using a b unfolding evicts_def by (simp add: restrict_map_def fun_eq_iff)
  ultimately show ?thesis
    using a b ev env_same_trans [of e e1 e2] unfolding evicts_def by auto
qed

text \<open>Changes to the counters keep the cache.\<close>

lemma cache_inv_counters:
  assumes "cache_inv e M Q A" and "assoc e' = assoc e" "heads (items e') = heads (items e)" "tails (items e') = tails (items e)"
    "sizes (items e') = sizes (items e)" "length (itemstats (items e')) = length (itemstats (items e))" "srv_hash e' = srv_hash e"
    "curr_items (stats e') = curr_items (stats e)" "slabs e' = slabs e" "store e' = store e"
  shows "cache_inv e' M Q A"
  by (rule cache_inv_outside [OF assms(1)])
     (use assms cache_inv_D(3,5,7,8) [OF assms(1)] in auto)

text \<open>An item nobody uses leaves the cache and its chunk goes back to the slab allocator.\<close>

lemma unlink_evicts:
  assumes inv: "cache_inv e M Q A" and k: "M k = Some it" and rc: "refcount (store e it) = 0"
    and before: "\<forall>x. x \<noteq> it \<longrightarrow> store e x = store e0 x" "env_same e0 e" "cas_id e = cas_id e0" "slabs e = slabs e0"
    and ev: "evictable e0 (store e0 it)"
  shows "\<exists>e' Q'. do_item_unlink e it = Some e' \<and> cache_inv e' (M |` (- {k})) Q' (A - {it}) \<and>
    evicts [k] e0 M A e' (M |` (- {k})) (A - {it}) \<and> slab_frame (slabs e0) (slabs e')"
proof -
  obtain e' where e': "do_item_unlink e it = Some e'" "cache_inv e' (M(k := None)) (drop_item (cls e it) it Q) (A - {it})"
    "\<forall>x. x \<noteq> it \<longrightarrow> core (store e' x) = core (store e x)" "env_same e e'" "cas_id e' = cas_id e"
    using do_item_unlink_ok [OF inv k] rc by auto
  have M: "M(k := None) = M |` (- {k})" by (auto simp: restrict_map_def)
  have "evicts [k] e0 M A e' (M |` (- {k})) (A - {it})"
    using k e' before ev env_same_trans [OF before(2) e'(4)] unfolding evicts_def by auto
  then show ?thesis using e'(1,2) do_item_unlink_frame [OF e'(1)] before(4) unfolding M by auto
qed

lemma evict_one_ok:
  assumes inv: "cache_inv e M Q A" and k: "M k = Some it" and rc: "refcount (store e it) = 0" and ev: "evictable e (store e it)"
  shows "\<exists>e' Q'. evict_one e cid it = Some e' \<and> cache_inv e' (M |` (- {k})) Q' (A - {it}) \<and>
    evicts [k] e M A e' (M |` (- {k})) (A - {it}) \<and> slab_frame (slabs e) (slabs e')"
proof -
  obtain e1 where e1: "evict_one e cid it = do_item_unlink e1 it" "store e1 = store e" "slabs e1 = slabs e" "assoc e1 = assoc e"
    "heads (items e1) = heads (items e)" "tails (items e1) = tails (items e)" "sizes (items e1) = sizes (items e)"
    "length (itemstats (items e1)) = length (itemstats (items e))" "srv_hash e1 = srv_hash e" "curr_items (stats e1) = curr_items (stats e)"
    "env_same e e1" "cas_id e1 = cas_id e"
    by (rule that [of "if exptime (store e it) = 0 \<or> exptime (store e it) > current_time e then
                 upd_stats (\<lambda>s. s\<lparr>evictions := evictions s + 1\<rparr>)
                   (upd_itemstats cid (\<lambda>s. s\<lparr>evicted := evicted s + 1, evicted_time := current_time e - it_time (store e it),
                      evicted_nonzero := (if exptime (store e it) \<noteq> 0 then evicted_nonzero s + 1 else evicted_nonzero s)\<rparr>) e)
               else
                 upd_stats (\<lambda>s. s\<lparr>reclaimed := reclaimed s + 1\<rparr>)
                   (upd_itemstats cid (\<lambda>s. s\<lparr>st_reclaimed := st_reclaimed s + 1\<rparr>) e)"])
       (simp_all add: evict_one_def Let_def upd_stats_def upd_itemstats_def env_same_def)
  have "cache_inv e1 M Q A" by (rule cache_inv_counters [OF inv]) (simp_all add: e1)
  then show ?thesis unfolding e1(1)
    using unlink_evicts [of e1 M Q A k it e] k rc ev e1 by simp
qed

lemma tail_repair_ok:
  assumes inv: "cache_inv e M Q A" and c: "cid < POWER_LARGEST" and on: "evict_to_free (config e)"
  shows "\<exists>ks e' M' Q' A'. length ks \<le> 1 \<and> tail_repair e cid = Some e' \<and> cache_inv e' M' Q' A' \<and>
    evicts ks e M A e' M' A' \<and> slab_frame (slabs e) (slabs e')"
proof -
  define it where "it = lru_search (\<lambda>i. refcount i \<noteq> 0 \<and> it_time i + TAIL_REPAIR_TIME < current_time e) (store e) search_items (tails (items e) ! cid)"
  show ?thesis
  proof (cases "it = NULL")
    case True
    then have "tail_repair e cid = Some e" by (simp add: tail_repair_def it_def)
    then show ?thesis using inv evicts_refl [of e M A] by (intro exI [of _ "[]"] exI [of _ e] exI [of _ M] exI [of _ Q] exI [of _ A]) simp
  next
    case False
    obtain k where k: "M k = Some it" "it_time (store e it) + TAIL_REPAIR_TIME < current_time e"
      using lru_search_ok [OF inv c it_def False] by blast
    define e0 where "e0 = upd_itemstats cid (\<lambda>s. s\<lparr>tailrepairs := tailrepairs s + 1\<rparr>) e"
    define e1 where "e1 = upd_item it (refcount_update (\<lambda>_. 0)) e0"
    have o: "store e0 = store e" "env_same e e0" "cas_id e0 = cas_id e" "slabs e0 = slabs e" by (simp_all add: e0_def upd_itemstats_def env_same_def)
    have o1: "store e1 = (store e)(it := (store e it)\<lparr>refcount := 0\<rparr>)" "env_same e e1" "cas_id e1 = cas_id e" "slabs e1 = slabs e"
      using o by (simp_all add: e1_def env_same_def)
    have i0: "cache_inv e0 M Q A" by (rule cache_inv_counters [OF inv]) (simp_all add: e0_def upd_itemstats_def)
    have i1: "cache_inv e1 M Q A"
      by (rule cache_inv_touch [OF i0, of _ it "(store e it)\<lparr>refcount := 0\<rparr>"]) (simp_all add: o o1, simp_all add: e1_def)
    have "tail_repair e cid = do_item_unlink e1 it"
      using False unfolding tail_repair_def it_def [symmetric] by (simp add: e0_def e1_def)
    moreover have "evictable e (store e it)" using k(2) on by (simp add: evictable_def)
    ultimately show ?thesis
      using unlink_evicts [OF i1 k(1), of e] o1 by (intro exI [of _ "[k]"]) auto
  qed
qed

text \<open>The account of the requested memory does not matter to the allocator.\<close>

lemma requested_inv:
  assumes "slabs_inv s" "s' = upd_class s c ((slabclass s ! c)\<lparr>requested := q\<rparr>)"
  shows "slabs_inv s' \<and> used (slabclass s' ! i) = used (slabclass s ! i) \<and> power_largest s' = power_largest s"
proof -
  let ?p = "(slabclass s ! c)\<lparr>requested := q\<rparr>"
  have f: "chunks ?p = chunks (slabclass s ! c)" "free_list ?p = free_list (slabclass s ! c)" "class_inv ?p = class_inv (slabclass s ! c)"
    "used ?p = used (slabclass s ! c)"
    by (simp_all add: class_inv_def used_def free_list_def state_simps)
  have "class_inv (slabclass s' ! j) = class_inv (slabclass s ! j)" "chunks (slabclass s' ! j) = chunks (slabclass s ! j)"
    "used (slabclass s' ! j) = used (slabclass s ! j)" for j
    using nth_update_same [of class_inv ?p "slabclass s" c j] nth_update_same [of chunks ?p "slabclass s" c j]
      nth_update_same [of used ?p "slabclass s" c j] f by (simp_all add: assms(2) upd_class_def)
  then show ?thesis using assms(1) by (simp add: slabs_inv_def assms(2) upd_class_def)
qed

lemma steal_expired_ok:
  assumes inv: "cache_inv e M Q A" and k: "M k = Some it" and ev: "evictable e (store e it)"
  shows "\<exists>e' Q'. steal_expired e cid ntotal it = Some e' \<and> cache_inv e' (M |` (- {k})) Q' (A - {it}) \<and>
    evicts [k] e M A e' (M |` (- {k})) (A - {it}) \<and> it \<in> used (slabclass (slabs e') ! cls e it)"
proof -
  note D = cache_inv_D [OF inv]
  have A: "it \<in> A" using cache_inv_key [OF inv k] by simp
  have M: "M(k := None) = M |` (- {k})" by (auto simp: restrict_map_def)
  have out: "it \<notin> ran (M |` (- {k}))" using k cache_inv_key [OF inv] by (auto simp: ran_def restrict_map_def split: if_splits)
  let ?c = "cls e it" and ?i = "(store e it)\<lparr>refcount := 1\<rparr>"
  define s where "s = upd_class (slabs e) ?c ((slabclass (slabs e) ! ?c)\<lparr>requested :=
     requested (slabclass (slabs e) ! ?c) - of_nat (ITEM_ntotal e (store e it)) + of_nat ntotal\<rparr>)"
  note s = requested_inv [OF D(3) s_def]
  define e0 where "e0 = upd_itemstats cid (\<lambda>s. s\<lparr>st_reclaimed := st_reclaimed s + 1\<rparr>) (upd_stats (\<lambda>s. s\<lparr>reclaimed := reclaimed s + 1\<rparr>) e)"
  define e1 where "e1 = (upd_item it (\<lambda>i. i\<lparr>refcount := 1\<rparr>) e0)\<lparr>slabs := s\<rparr>"
  have o: "store e1 = (store e)(it := ?i)" "env_same e e1" "cas_id e1 = cas_id e" "slabs e1 = s"
    using s by (simp_all add: e0_def e1_def upd_itemstats_def upd_stats_def env_same_def)
  have "cache_inv (upd_item it (\<lambda>i. i\<lparr>refcount := 1\<rparr>) e) M Q A" by (rule cache_inv_touch [OF inv, of _ it ?i]) simp_all
  then have i1: "cache_inv e1 M Q A"
    by (rule cache_inv_outside) (use s D(5,7,8) A in \<open>auto simp: e1_def e0_def upd_itemstats_def upd_stats_def\<close>)
  have "valid_class (slabs e) ?c" using D(6) [OF A] by (simp add: alloc_ok_def)
  then have run: "steal_expired e cid ntotal it = do {
      e \<leftarrow> do_item_unlink e1 it;
      let e = upd_item it (clsid_update (\<lambda>_. 0)) e;
      Some (upd_item it (refcount_update (\<lambda>_. 0)) e) }"
    unfolding steal_expired_def Let_def
    by (simp add: slabs_adjust_mem_requested_def e1_def e0_def upd_stats_def upd_itemstats_def s_def Let_def ITEM_ntotal_def)
  obtain e2 Q' where e2: "do_item_unlink e1 it = Some e2" "cache_inv e2 (M |` (- {k})) Q' A"
    "\<forall>x. x \<noteq> it \<longrightarrow> core (store e2 x) = core (store e1 x)" "core (store e2 it) = unlinked_item (core (store e1 it))"
    "env_same e1 e2" "cas_id e2 = cas_id e1"
    using do_item_unlink_ok [OF i1 k] unfolding M by (auto simp: o)
  define e3 where "e3 = e2\<lparr>store := (store e2)(it := (store e2 it)\<lparr>clsid := 0, refcount := 0\<rparr>)\<rparr>"
  have i3: "cache_inv e3 (M |` (- {k})) Q' (A - {it})"
    by (rule cache_inv_drop [OF e2(2) out e3_def]) (use cache_inv_D(8) [OF e2(2), of it] out in simp_all)
  have "clsid (store e2 it) = clsid (store e it)"
    using arg_cong [OF e2(4), of clsid] by (simp add: o(1) core_def unlinked_item_def)
  then have "it \<in> used (slabclass (slabs e2) ! ?c)" using cache_inv_D(6) [OF e2(2) A] by (simp add: alloc_ok_def)
  moreover have "evicts [k] e M A e3 (M |` (- {k})) (A - {it})"
    using k ev e2(3) o env_same_trans [OF o(2) e2(5)] e2(6) by (auto simp: evicts_def e3_def env_same_def)
  moreover have "steal_expired e cid ntotal it = Some e3" unfolding run by (simp add: e2(1) e3_def)
  ultimately show ?thesis using i3 by (intro exI [of _ e3] exI [of _ Q']) (simp add: e3_def)
qed

section \<open>Allocating an item\<close>

text \<open>
  A chunk for an item of a class: either nothing, or a chunk of the class that no allocated item
  has; up to \<open>n\<close> items have left the cache.
\<close>

definition chunk_for :: "nat \<Rightarrow> nat \<Rightarrow> default_engine \<Rightarrow> (bytes \<rightharpoonup> addr) \<Rightarrow> addr set \<Rightarrow> default_engine \<Rightarrow> addr \<Rightarrow> bool" where
  "chunk_for n cid e M A e' r \<longleftrightarrow>
     (\<exists>ks M' Q' A'. length ks \<le> n \<and> evicts ks e M A e' M' A' \<and> cache_inv e' M' Q' A' \<and>
        (r \<noteq> NULL \<longrightarrow> r \<notin> A' \<and> r \<in> used (slabclass (slabs e') ! cid)))"

lemma chunk_forI:
  "length ks \<le> n \<Longrightarrow> evicts ks e M A e' M' A' \<Longrightarrow> cache_inv e' M' Q' A' \<Longrightarrow>
   (r \<noteq> NULL \<Longrightarrow> r \<notin> A' \<and> r \<in> used (slabclass (slabs e') ! cid)) \<Longrightarrow> chunk_for n cid e M A e' r"
  unfolding chunk_for_def by blast

lemma chunk_for_evicts:
  assumes "evicts ks e M A e1 M1 A1" "cache_inv e1 M1 Q1 A1" "chunk_for n cid e1 M1 A1 e' r" "length ks + n \<le> m"
  shows "chunk_for m cid e M A e' r"
proof -
  obtain ls M' Q' A' where c: "length ls \<le> n" "evicts ls e1 M1 A1 e' M' A'" "cache_inv e' M' Q' A'"
    "r \<noteq> NULL \<longrightarrow> r \<notin> A' \<and> r \<in> used (slabclass (slabs e') ! cid)"
    using assms(3) unfolding chunk_for_def by blast
  show ?thesis
    by (rule chunk_forI [OF _ evicts_trans [OF assms(1) c(2) cache_inv_D(5) [OF assms(2)]] c(3)]) (use assms(4) c in auto)
qed

lemma slabs_chunk:
  assumes inv: "cache_inv e M Q A" and "pages_fresh (slabs e) cid" and "valid_class (slabs e) cid"
  shows "\<exists>e' r. engine_slabs_alloc e sz cid = Some (e', r) \<and> chunk_for 0 cid e M A e' r \<and>
    (r = NULL \<longrightarrow> cache_inv e' M Q A \<and> evicts [] e M A e' M A \<and> slab_frame (slabs e) (slabs e'))"
proof -
  obtain e' r where a: "engine_slabs_alloc e sz cid = Some (e', r)" "cache_inv e' M Q A" "\<forall>x \<in> A. store e' x = store e x"
    "e' = e\<lparr>slabs := slabs e', store := store e'\<rparr>" "power_largest (slabs e') = power_largest (slabs e)"
    "if r = NULL then slab_frame (slabs e) (slabs e') else r \<notin> A \<and> r \<in> used (slabclass (slabs e') ! cid)"
    using engine_slabs_alloc_ok [OF assms] by blast
  have "env_same e e'" "cas_id e' = cas_id e" using a(5) by (subst a(4), simp add: env_same_def)+
  then have "evicts [] e M A e' M A" using a(3) by (simp add: evicts_def restrict_map_def)
  then show ?thesis using a(1,2,6) chunk_forI [of "[]" 0 e M A e' M A Q r cid] by (intro exI [of _ e'] exI [of _ r]) auto
qed

lemma repair_chunk:
  assumes inv: "cache_inv e M Q A" and fresh: "pages_fresh (slabs e) cid" and v: "valid_class (slabs e) cid"
    and c: "cid < POWER_LARGEST" and on: "evict_to_free (config e)"
  shows "\<exists>e' r. do { e \<leftarrow> tail_repair (upd_itemstats cid f e) cid; engine_slabs_alloc e sz cid } = Some (e', r) \<and>
    chunk_for 1 cid e M A e' r"
proof -
  define e0 where "e0 = upd_itemstats cid f e"
  have o: "store e0 = store e" "slabs e0 = slabs e" "env_same e e0" "cas_id e0 = cas_id e" by (simp_all add: e0_def upd_itemstats_def env_same_def)
  have i0: "cache_inv e0 M Q A" by (rule cache_inv_counters [OF inv]) (simp_all add: e0_def upd_itemstats_def)
  have e0: "evicts [] e M A e0 M A" using o by (simp add: evicts_def restrict_map_def)
  obtain ks e1 M1 Q1 A1 where t: "length ks \<le> 1" "tail_repair e0 cid = Some e1" "cache_inv e1 M1 Q1 A1"
    "evicts ks e0 M A e1 M1 A1" "slab_frame (slabs e0) (slabs e1)"
    using tail_repair_ok [OF i0 c] on o(3) by (auto simp: env_same_def)
  have "pages_fresh (slabs e1) cid" "valid_class (slabs e1) cid"
    using pages_fresh_frame [OF fresh] t(5) v o(2) by (simp_all add: slab_frame_def)
  then obtain e2 r where "engine_slabs_alloc e1 sz cid = Some (e2, r)" "chunk_for 0 cid e1 M1 A1 e2 r"
    using slabs_chunk [OF t(3)] by blast
  then show ?thesis
    using t(2) chunk_for_evicts [OF evicts_trans [OF e0 t(4) cache_inv_D(5) [OF i0]] t(3), of 0 cid e2 r 1] t(1) unfolding e0_def by simp
qed

lemma evict_chunk:
  assumes inv: "cache_inv e M Q A" and fresh: "pages_fresh (slabs e) cid" and v: "valid_class (slabs e) cid" and c: "cid < POWER_LARGEST"
  shows "\<exists>e' r. evict_alloc e cid sz = Some (e', r) \<and> chunk_for 2 cid e M A e' r"
proof (cases "\<not> evict_to_free (config e) \<or> tails (items e) ! cid = NULL")
  case True
  define e0 where "e0 = upd_itemstats cid (\<lambda>s. s\<lparr>outofmemory := outofmemory s + 1\<rparr>) e"
  have "cache_inv e0 M Q A" by (rule cache_inv_counters [OF inv]) (simp_all add: e0_def upd_itemstats_def)
  moreover have "evicts [] e M A e0 M A" by (simp add: evicts_def restrict_map_def e0_def upd_itemstats_def env_same_def)
  moreover have "evict_alloc e cid sz = Some (e0, NULL)" using True by (simp add: evict_alloc_def e0_def)
  ultimately show ?thesis using chunk_forI [of "[]" 2 e M A e0 M A Q NULL cid] by auto
next
  case False
  define it where "it = lru_search (\<lambda>i. refcount i = 0) (store e) search_items (tails (items e) ! cid)"
  obtain ks e1 M1 Q1 A1 where e1: "length ks \<le> 1" "(if it \<noteq> NULL then evict_one e cid it else Some e) = Some e1" "cache_inv e1 M1 Q1 A1"
    "evicts ks e M A e1 M1 A1" "slab_frame (slabs e) (slabs e1)"
  proof (cases "it = NULL")
    case True
    then show thesis using that [of "[]" e M Q A] inv evicts_refl by simp
  next
    case it: False
    obtain k where k: "M k = Some it" "refcount (store e it) = 0" using lru_search_ok [OF inv c it_def it] by blast
    have "evictable e (store e it)" using k(2) False by (simp add: evictable_def)
    then show thesis using evict_one_ok [OF inv k, of cid] that [of "[k]"] it by auto
  qed
  have fr: "pages_fresh (slabs e1) cid" "valid_class (slabs e1) cid"
    using pages_fresh_frame [OF fresh e1(5)] e1(5) v by (simp_all add: slab_frame_def)
  obtain e2 r where s: "engine_slabs_alloc e1 sz cid = Some (e2, r)" "chunk_for 0 cid e1 M1 A1 e2 r"
    "r = NULL \<longrightarrow> cache_inv e2 M1 Q1 A1 \<and> evicts [] e1 M1 A1 e2 M1 A1 \<and> slab_frame (slabs e1) (slabs e2)"
    using slabs_chunk [OF e1(3) fr] by blast
  have run: "evict_alloc e cid sz = (if r \<noteq> NULL then Some (e2, r)
      else do { e \<leftarrow> tail_repair (upd_itemstats cid (\<lambda>s. s\<lparr>outofmemory := outofmemory s + 1\<rparr>) e2) cid; engine_slabs_alloc e sz cid })"
    using False e1(2) s(1) unfolding evict_alloc_def it_def [symmetric] by simp
  show ?thesis
  proof (cases "r = NULL")
    case True
    have "evict_to_free (config e2)" using False e1(4) s(3) True by (simp add: evicts_def env_same_def)
    moreover have "pages_fresh (slabs e2) cid" "valid_class (slabs e2) cid"
      using pages_fresh_frame [OF fr(1)] fr(2) s(3) True by (simp_all add: slab_frame_def)
    ultimately obtain e3 r' where "evict_alloc e cid sz = Some (e3, r')" "chunk_for 1 cid e2 M1 A1 e3 r'"
      using repair_chunk [of e2 M1 Q1 A1 cid] s(3) c True unfolding run by simp blast
    then show ?thesis
      using chunk_for_evicts [OF evicts_trans [OF e1(4) _ cache_inv_D(5) [OF e1(3)]], of "[]" e2 M1 A1 Q1 1 cid e3 r' 2] s(3) True e1(1) by auto
  next
    case no: False
    then show ?thesis using run chunk_for_evicts [OF e1(4,3) s(2), of 2] e1(1) by simp
  qed
qed

lemma slabs_clsid_valid: "slabs_inv s \<Longrightarrow> POWER_SMALLEST \<le> power_largest s \<Longrightarrow> slabs_clsid s z \<noteq> 0 \<Longrightarrow> valid_class s (slabs_clsid s z)"
  using clsid_loop_ok [of s POWER_SMALLEST z] by (auto simp: slabs_clsid_def clsid_spec_def split: if_splits)

text \<open>The search for a chunk in \<open>do_item_alloc\<close>: an expired item, the slab allocator, eviction.\<close>

lemma alloc_chunk:
  assumes inv: "cache_inv e M Q A" and fresh: "pages_fresh (slabs e) cid" and v: "valid_class (slabs e) cid" and c: "cid < POWER_LARGEST"
    and it: "it = lru_search (\<lambda>i. refcount i = 0 \<and> exptime i \<noteq> 0 \<and> exptime i < current_time e) (store e) search_items (tails (items e) ! cid)"
  shows "\<exists>e' r. (if it \<noteq> NULL then map_option (\<lambda>e. (e, it)) (steal_expired e cid sz it)
          else do {
            (e, it) \<leftarrow> engine_slabs_alloc e sz cid;
            if it \<noteq> NULL then Some (e, it) else evict_alloc e cid sz
          }) = Some (e', r) \<and> chunk_for 2 cid e M A e' r"
proof (cases "it = NULL")
  case True
  obtain e1 r where s: "engine_slabs_alloc e sz cid = Some (e1, r)" "chunk_for 0 cid e M A e1 r"
    "r = NULL \<longrightarrow> cache_inv e1 M Q A \<and> evicts [] e M A e1 M A \<and> slab_frame (slabs e) (slabs e1)"
    using slabs_chunk [OF inv fresh v] by blast
  show ?thesis
  proof (cases "r = NULL")
    case r: True
    have "pages_fresh (slabs e1) cid" "valid_class (slabs e1) cid"
      using pages_fresh_frame [OF fresh] v s(3) r by (simp_all add: slab_frame_def)
    then obtain e2 r2 where "evict_alloc e1 cid sz = Some (e2, r2)" "chunk_for 2 cid e1 M A e2 r2"
      using evict_chunk [of e1 M Q A cid] s(3) r c by blast
    then show ?thesis using True r s chunk_for_evicts [of "[]" e M A e1 M A Q 2 cid e2 r2 2] by simp
  next
    case r: False
    then show ?thesis using True s chunk_for_evicts [OF evicts_refl inv s(2), of 2] by simp
  qed
next
  case False
  obtain k where k: "M k = Some it" "cls e it = cid" "refcount (store e it) = 0" "exptime (store e it) \<noteq> 0" "exptime (store e it) < current_time e"
    using lru_search_ok [OF inv c it False] by blast
  have "evictable e (store e it)" using k by (simp add: evictable_def)
  then obtain e' Q' where "steal_expired e cid sz it = Some e'" "cache_inv e' (M |` (- {k})) Q' (A - {it})"
    "evicts [k] e M A e' (M |` (- {k})) (A - {it})" "it \<in> used (slabclass (slabs e') ! cid)"
    using steal_expired_ok [OF inv k(1), of cid sz] k(2) by blast
  then show ?thesis using False chunk_forI [of "[k]" 2 e M A e' "M |` (- {k})" "A - {it}" Q' it cid] by auto
qed

text \<open>The item a client gets.\<close>

definition new_item :: "default_engine \<Rightarrow> bytes \<Rightarrow> u32 \<Rightarrow> u32 \<Rightarrow> u32 \<Rightarrow> hash_item \<Rightarrow> bool" where
  "new_item e key flags exp nb i \<longleftrightarrow> key_of i = key \<and> it_flags i = flags \<and> exptime i = exp \<and> nbytes i = nb \<and> refcount i = 1 \<and>
     iflag i = (if use_cas (config e) then ITEM_WITH_CAS else 0) \<and>
     unat (clsid i) = slabs_clsid (slabs e) (alloc_ntotal e (length key) nb)"

lemma POWER_LARGEST_u8: "c < POWER_LARGEST \<Longrightarrow> unat (of_nat c :: u8) = c"
  by (simp add: POWER_LARGEST_def unat_of_nat)

lemma do_item_alloc_ok:
  assumes inv: "cache_inv e M Q A" and fresh: "\<And>c. pages_fresh (slabs e) c" and key: "length key < 65536"
    and pl: "POWER_SMALLEST \<le> power_largest (slabs e)" "power_largest (slabs e) < POWER_LARGEST"
  shows "\<exists>e' r ks Q' A1. do_item_alloc e key flags exp nb = Some (e', r) \<and> length ks \<le> 2 \<and>
    evicts ks e M A e' (M |` (- set ks)) A1 \<and>
    cache_inv e' (M |` (- set ks)) Q' (if r = NULL then A1 else insert r A1) \<and>
    (r \<noteq> NULL \<longrightarrow> r \<notin> A1 \<and> new_item e key flags exp nb (store e' r))"
proof -
  define sz cid where "sz = alloc_ntotal e (length key) nb" and "cid = slabs_clsid (slabs e) sz"
  show ?thesis
  proof (cases "cid = 0")
    case True
    then have "do_item_alloc e key flags exp nb = Some (e, NULL)" by (simp add: do_item_alloc_def cid_def sz_def)
    then show ?thesis using inv evicts_refl [of e M A]
      by (intro exI [of _ e] exI [of _ NULL] exI [of _ "[]"] exI [of _ Q] exI [of _ A]) (simp add: restrict_map_def)
  next
    case False
    have v: "valid_class (slabs e) cid" using slabs_clsid_valid [OF cache_inv_D(3) [OF inv] pl(1)] False by (simp add: cid_def)
    then have c: "cid < POWER_LARGEST" using pl(2) by simp
    define it where "it = lru_search (\<lambda>i. refcount i = 0 \<and> exptime i \<noteq> 0 \<and> exptime i < current_time e) (store e) search_items (tails (items e) ! cid)"
    obtain e1 r where ch: "(if it \<noteq> NULL then map_option (\<lambda>e. (e, it)) (steal_expired e cid sz it)
          else do {
            (e, it) \<leftarrow> engine_slabs_alloc e sz cid;
            if it \<noteq> NULL then Some (e, it) else evict_alloc e cid sz
          }) = Some (e1, r)" "chunk_for 2 cid e M A e1 r"
      using alloc_chunk [OF inv fresh v c it_def] by blast
    obtain ks M1 Q1 A1 where k: "length ks \<le> 2" "evicts ks e M A e1 M1 A1" "cache_inv e1 M1 Q1 A1"
      "r \<noteq> NULL \<longrightarrow> r \<notin> A1 \<and> r \<in> used (slabclass (slabs e1) ! cid)"
      using ch(2) unfolding chunk_for_def by blast
    have M1: "M1 = M |` (- set ks)" and en: "env_same e e1" using k(2) by (simp_all add: evicts_def)
    define e2 where "e2 = upd_item r (init_item e1 key flags exp nb cid) e1"
    have run: "do_item_alloc e key flags exp nb = (if r = NULL then Some (e1, NULL)
        else do { c_assert (clsid (store e1 r) = 0); c_assert (r \<noteq> heads (items e1) ! cid); Some (e2, r) })"
      using False c ch(1) unfolding do_item_alloc_def Let_def sz_def [symmetric] cid_def [symmetric] it_def [symmetric] e2_def by simp
    show ?thesis
    proof (cases "r = NULL")
      case True
      then show ?thesis using run k unfolding M1 by (intro exI [of _ e1] exI [of _ r] exI [of _ ks] exI [of _ Q1] exI [of _ A1]) simp
    next
      case r: False
      note D = cache_inv_D [OF k(3)]
      have out: "r \<notin> ran M1" using k(4) r D(5) by blast
      have "queue e1 cid (Q1 cid)" using D(2) c by (simp add: lru_inv_def)
      moreover have "r \<notin> set (Q1 cid)" using D(4) c out by auto
      ultimately have hd: "r \<noteq> heads (items e1) ! cid" using queue_head [of e1 cid "Q1 cid"] r hd_in_set [of "Q1 cid"] by (cases "Q1 cid = []") auto
      let ?i = "init_item e1 key flags exp nb cid (store e1 r)"
      have u: "unat (of_nat cid :: u8) = cid" "unat (of_nat (length key) :: u16) = length key"
        using POWER_LARGEST_u8 [OF c] key by (simp_all add: unat_of_nat)
      have i: "unat (clsid ?i) = cid" "\<not> bit (iflag ?i) 8" "\<not> bit (iflag ?i) 9" "item_ok ?i" "new_item e key flags exp nb ?i"
        using u en unfolding new_item_def sz_def [symmetric] cid_def [symmetric]
        by (simp_all add: init_item_def item_ok_def ITEM_flags_exp bit_exp_iff key_of_def env_same_def)
      have "cache_inv e2 M1 Q1 (insert r A1)"
        by (rule cache_inv_fill [OF k(3) out r _ c, of e2 ?i]) (use k(4) r v en i in \<open>simp_all add: e2_def env_same_def\<close>)
      moreover have "evicts ks e M A e2 M1 A1" using k(2,4) r by (auto simp: evicts_def e2_def env_same_def)
      moreover have "do_item_alloc e key flags exp nb = Some (e2, r)" using run r hd D(7) [of r] k(4) by simp
      ultimately show ?thesis using k(1,4) r i(5) unfolding M1
        by (intro exI [of _ e2] exI [of _ r] exI [of _ ks] exI [of _ Q1] exI [of _ A1]) (simp add: e2_def)
    qed
  qed
qed

text \<open>A free chunk of the class is enough for the allocation to succeed.\<close>

lemma do_slabs_alloc_free:
  assumes "slabs_inv s" "valid_class s cid" "free_list (slabclass s ! cid) \<noteq> []" "do_slabs_alloc s sz cid = Some (s', r)"
  shows "r \<noteq> NULL"
proof -
  note ci = slabs_inv_nth(2) [OF assms(1,2)]
  have "end_page_ptr (slabclass s ! cid) \<noteq> NULL \<or> sl_curr (slabclass s ! cid) \<noteq> 0" using free_list_empty_iff [OF ci] assms(3) by auto
  moreover obtain p' r' where t: "take_chunk (slabclass s ! cid) = Some (p', r')" "r' \<in> set (free_list (slabclass s ! cid))"
    using take_chunk_ok [OF ci assms(3)] by blast
  ultimately have "r = r'" using assms(2,4) by (simp add: do_slabs_alloc_def Let_def)
  then show ?thesis using t(2) ci by (auto simp: class_inv_def dest: subsetD)
qed

lemma do_item_alloc_free:
  assumes "cache_inv e M Q A" "POWER_SMALLEST \<le> power_largest (slabs e)" "do_item_alloc e key flags exp nb = Some (e', r)"
    and cid: "cid = slabs_clsid (slabs e) (alloc_ntotal e (length key) nb)" "cid \<noteq> 0" "free_list (slabclass (slabs e) ! cid) \<noteq> []"
  shows "r \<noteq> NULL"
proof -
  have "valid_class (slabs e) cid" using slabs_clsid_valid [OF cache_inv_D(3) [OF assms(1)] assms(2)] cid(1,2) by simp
  note free = do_slabs_alloc_free [OF cache_inv_D(3) [OF assms(1)] this cid(3)]
  have "r' \<noteq> NULL" if "engine_slabs_alloc e sz cid = Some (e1, r')" for sz e1 r'
    using that free by (auto simp: engine_slabs_alloc_def slabs_alloc_def bind_eq_Some_iff Let_def)
  then show ?thesis using assms(3) cid(2) unfolding do_item_alloc_def Let_def cid(1) [symmetric]
    by (auto simp: bind_eq_Some_iff split: if_splits)
qed


lemma cache_demo_class: "slabs_clsid (slabs cache_demo) (alloc_ntotal cache_demo 1 5) = 1"
  "free_list (slabclass (slabs cache_demo) ! 1) \<noteq> []"
  by (simp_all add: cache_demo_def cache_slabs_def cache_class_def sample_engine_def slabs_clsid_def alloc_ntotal_def clsid_loop.simps
      MAX_NUMBER_OF_SLAB_CLASSES_def POWER_LARGEST_def POWER_SMALLEST_def sizeof_hash_item_def free_list_def)

lemma cache_demo_pages: "pages_fresh (slabs cache_demo) c" "POWER_SMALLEST \<le> power_largest (slabs cache_demo)"
  "power_largest (slabs cache_demo) < POWER_LARGEST"
  by (simp_all add: pages_fresh_def cache_demo_def cache_slabs_def POWER_SMALLEST_def POWER_LARGEST_def)


section \<open>A set, from the allocation to the lookup\<close>

text \<open>Writing the value of an item a client holds.\<close>

lemma write_data_inv: "cache_inv e M Q A \<Longrightarrow> cache_inv (write_data e it off d) M Q A"
  by (rule cache_inv_touch [of e M Q A _ it "it_data_update (\<lambda>b. take off b @ d @ drop (off + length d) b) (store e it)"])
     (simp_all add: write_data_def)

lemma write_data_frame: "env_same e (write_data e it off d)" "x \<noteq> it \<Longrightarrow> store (write_data e it off d) x = store e x"
  "store (write_data e it off d) it = it_data_update (\<lambda>b. take off b @ d @ drop (off + length d) b) (store e it)"
  "slabs (write_data e it off d) = slabs e" "cas_id (write_data e it off d) = cas_id e"
  by (simp_all add: write_data_def env_same_def)

text \<open>Giving up a reference to a live item of the cache and looking its key up.\<close>

lemma release_then_get:
  assumes inv: "cache_inv e M Q A" and k: "M k = Some r" and live: "\<not> dead e (store e r)"
  shows "\<exists>e1 e2. do_item_release e r = Some e1 \<and> do_item_get e1 k = Some (e2, r) \<and>
    item_data (store e2 r) = item_data (store e r) \<and> it_flags (store e2 r) = it_flags (store e r) \<and>
    exptime (store e2 r) = exptime (store e r)"
proof -
  have r: "r \<in> A" "r \<in> ran M" using cache_inv_key [OF inv k] k by (auto simp: ran_def)
  obtain e1 n where e1: "do_item_release e r = Some e1" "cache_inv e1 M Q A" "env_same e e1" "store e1 r = (store e r)\<lparr>refcount := n\<rparr>"
    using do_item_release_ok [OF inv r(1)] r(2) by auto
  have "live e1 M k = Some r" using e1(3,4) k live by (simp add: live_def dead_def flushed_def env_same_def)
  then obtain e2 t m where e2: "do_item_get e1 k = Some (e2, r)" "core (store e2 r) = (core (store e1 r))\<lparr>it_time := t, refcount := m\<rparr>"
    using do_item_get_ok [OF e1(2), of k] by auto
  have f: "nbytes (core i) = nbytes i" "it_data (core i) = it_data i" "it_flags (core i) = it_flags i" "exptime (core i) = exptime i" for i
    by (cases i; simp add: core_def)+
  show ?thesis
    using e1(1) e2(1) arg_cong [OF e2(2), of nbytes] arg_cong [OF e2(2), of it_data] arg_cong [OF e2(2), of it_flags] arg_cong [OF e2(2), of exptime]
    by (simp add: f item_data_def e1(4))
qed

text \<open>
  C11. What a client does for a set: allocate an item, write the value, store it, give up the reference;
  then look the key up.  If the allocation gave an item, every step succeeds, the lookup finds
  that item, and its value, flags and expiry are those of the set.
\<close>

theorem client_set_then_get:
  assumes "cache_inv e M Q A" and "\<And>c. pages_fresh (slabs e) c" and "length key < 65536"
    and "POWER_SMALLEST \<le> power_largest (slabs e)" "power_largest (slabs e) < POWER_LARGEST"
    and "\<And>x. x \<in> A \<Longrightarrow> refcount (store e x) \<noteq> 65535"
    and "length d = unat nb" "nb < 1024 * 1024" and "exp = 0 \<or> current_time e < exp"
    and "oldest_live (config e) = 0 \<or> oldest_live (config e) \<noteq> current_time e"
  shows "\<exists>e1 r. item_alloc e key flags exp nb = Some (e1, r) \<and>
    (r \<noteq> NULL \<longrightarrow> (\<exists>e2 cas e3 e4. store_item (write_data e1 r 0 d) r OPERATION_SET = Some (e2, ENGINE_SUCCESS, cas) \<and>
       item_release e2 r = Some e3 \<and> item_get e3 key = Some (e4, r) \<and>
       item_data (store e4 r) = d \<and> it_flags (store e4 r) = flags \<and> exptime (store e4 r) = exp))"
proof -
  obtain e1 r ks Q1 A1 where a: "do_item_alloc e key flags exp nb = Some (e1, r)" 
    "evicts ks e M A e1 (M |` (- set ks)) A1" "cache_inv e1 (M |` (- set ks)) Q1 (if r = NULL then A1 else insert r A1)"
    "r \<noteq> NULL \<longrightarrow> r \<notin> A1 \<and> new_item e key flags exp nb (store e1 r)"
    using do_item_alloc_ok [OF assms(1-5)] by blast
  define M1 where "M1 = M |` (- set ks)"
  have "\<exists>e2 cas e3 e4. do_store_item (write_data e1 r 0 d) r OPERATION_SET = Some (e2, ENGINE_SUCCESS, cas) \<and>
       do_item_release e2 r = Some e3 \<and> do_item_get e3 key = Some (e4, r) \<and>
       item_data (store e4 r) = d \<and> it_flags (store e4 r) = flags \<and> exptime (store e4 r) = exp" if r: "r \<noteq> NULL"
  proof -
    define ew where "ew = write_data e1 r 0 d"
    note w = write_data_frame [where e = e1 and it = r and off = 0 and d = d, folded ew_def]
    have n: "new_item e key flags exp nb (store e1 r)" and A1: "r \<notin> A1" "A1 \<subseteq> A" and i1: "cache_inv e1 M1 Q1 (insert r A1)"
      using a r by (auto simp: M1_def evicts_def)
    have out: "r \<notin> ran M1" using cache_inv_D(8) [OF i1, of r] n by (auto simp: new_item_def ITEM_flags_exp bit_exp_iff split: if_splits)
    have iw: "cache_inv ew M1 Q1 (insert r A1)" unfolding ew_def by (rule write_data_inv [OF i1])
    have env: "env_same e ew" using a(2) w(1) env_same_trans unfolding evicts_def by blast
    have sw: "key_of (store ew r) = key" "nbytes (store ew r) = nb" "item_data (store ew r) = d" "it_flags (store ew r) = flags" "exptime (store ew r) = exp"
      using n assms(7) by (simp_all add: w(3) new_item_def key_of_def item_data_def)
    have old: "refcount (store ew x) \<noteq> 65535" if "live ew M1 key = Some x" for x
    proof -
      have "M1 key = Some x" using that by (simp add: live_def split: option.splits if_splits)
      then have x: "x \<in> A1" "x \<noteq> r" using cache_inv_key [OF i1] out by (auto simp: ran_def)
      then have "refcount (store e1 x) = refcount (store e x)" using a(2) core_fields [of "store e1 x" "store e x"] by (simp add: evicts_def)
      then show ?thesis using assms(6) [of x] x A1(2) w(2) by auto
    qed
    obtain e2 Q2 A2 where e2: "do_store_item ew r OPERATION_SET = Some (e2, ENGINE_SUCCESS, Some (item_get_cas (store e2 r)))"
      "cache_inv e2 (M1(key \<mapsto> r)) Q2 A2" "env_same ew e2" "core (store e2 r) = core (stored_item ew (store ew r))"
      using store_set_ok [OF iw _ out, of key] sw(1,2) assms(8) old by auto
    note c = core_fields [OF e2(4)] core_key [OF e2(4)]
    have "it_time (store e2 r) = current_time e" "exptime (store e2 r) = exp" "it_flags (store e2 r) = flags" "item_data (store e2 r) = d"
      using c sw env stored_item_D(1-4) [of ew "store ew r"] by (simp_all add: stored_item_def env_same_def item_data_def)
    moreover from this have "\<not> dead e2 (store e2 r)"
      using env_same_trans [OF env e2(3)] assms(9,10) by (auto simp: dead_def flushed_def env_same_def)
    ultimately show ?thesis using e2(1) release_then_get [OF e2(2), of key r] unfolding ew_def by auto
  qed
  then show ?thesis using a(1) unfolding item_alloc_def store_item_def item_release_def item_get_def by blast
qed

theorem client_set_then_get_witness:
  "\<exists>e1 r e2 cas e3 e4. item_alloc cache_demo [9] 3 0 5 = Some (e1, r) \<and>
    store_item (write_data e1 r 0 [1, 2, 3, 4, 5]) r OPERATION_SET = Some (e2, ENGINE_SUCCESS, cas) \<and>
    item_release e2 r = Some e3 \<and> item_get e3 [9] = Some (e4, r) \<and> item_data (store e4 r) = [1, 2, 3, 4, 5]"
proof -
  have rc: "refcount (store cache_demo x) \<noteq> 65535" if "x \<in> {4096, 4224}" for x using that by (auto simp: cache_demo_def cache_item_def)
  have "oldest_live (config cache_demo) = 0" by (simp add: cache_demo_def sample_engine_def)
  then obtain e1 r where a: "item_alloc cache_demo [9] 3 0 5 = Some (e1, r)"
    "r \<noteq> NULL \<longrightarrow> (\<exists>e2 cas e3 e4. store_item (write_data e1 r 0 [1, 2, 3, 4, 5]) r OPERATION_SET = Some (e2, ENGINE_SUCCESS, cas) \<and>
       item_release e2 r = Some e3 \<and> item_get e3 [9] = Some (e4, r) \<and>
       item_data (store e4 r) = [1, 2, 3, 4, 5] \<and> it_flags (store e4 r) = 3 \<and> exptime (store e4 r) = 0)"
    using client_set_then_get [OF cache_demo_inv cache_demo_pages(1) _ cache_demo_pages(2,3) rc, of "[9]" "[1, 2, 3, 4, 5]" 5 0 3] by auto
  have "r \<noteq> NULL"
    by (rule do_item_alloc_free [OF cache_demo_inv cache_demo_pages(2) a(1) [unfolded item_alloc_def], of 1]) (use cache_demo_class in simp_all)
  then show ?thesis using a by blast
qed

end
