(* ===== verification/ItemKept.thy ===== *)
theory ItemKept
  imports ItemAlloc
begin

unbundle bit_operations_syntax

text \<open>
  What the commands that allocate on behalf of a key (append, prepend, increment, decrement) have in
  common: the lookup that takes a reference, the allocation that may evict items of other keys, the
  replacement and the release.  The item of the key is in use, so it is never the one that is evicted.
\<close>

section \<open>Recent items are not repaired\<close>

lemma recent_not_repaired:
  assumes "t \<le> now" "now < - 10800" "t' = (if t < now - 60 then now else t)"
  shows "\<not> (t' + 10800 < (now :: u32))"
proof -
  have n: "unat now < 4294956496" using assms(2) by (simp add: word_less_nat_alt)
  have t: "unat t \<le> unat now" using assms(1) by (simp add: word_le_nat_alt)
  have t': "unat t' \<le> unat now" using assms(3) t by simp
  have "unat (t' + 10800) = unat t' + 10800" by (subst unat_add_lem [THEN iffD1]) (use t' n in simp_all)
  moreover have "unat now \<le> unat t' + 60"
  proof (cases "now < 60 \<or> t < now - 60")
    case True
    then show ?thesis using assms(3) by (auto simp: word_less_nat_alt)
  next
    case False
    then have "60 \<le> now" "\<not> t < now - 60" by auto
    then have "unat (now - 60) = unat now - 60" "unat (now - 60) \<le> unat t" using unat_sub [of 60 now] by (simp_all add: word_le_nat_alt word_less_nat_alt)
    then show ?thesis using False assms(3) by simp
  qed
  ultimately show ?thesis by (simp add: word_less_nat_alt)
qed

lemma touched_not_evictable:
  assumes "it_time j \<le> current_time e" "current_time e < - TAIL_REPAIR_TIME" "it_time i = touched_time e j" "refcount i \<noteq> 0"
  shows "\<not> evictable e i"
  using assms recent_not_repaired [of "it_time j" "current_time e" "it_time i"]
  by (simp add: evictable_def touched_time_def TAIL_REPAIR_TIME_def ITEM_UPDATE_INTERVAL_def)

section \<open>Slabs during a lookup\<close>

lemma item_link_q_slabs: "item_link_q e it = Some e' \<Longrightarrow> slabs e' = slabs e"
  by (auto simp: item_link_q_def bind_eq_Some_iff Let_def split: if_splits)

lemma do_item_update_slabs: "do_item_update e it = Some e' \<Longrightarrow> slabs e' = slabs e"
  by (auto simp: do_item_update_def bind_eq_Some_iff Let_def dest!: item_link_q_slabs item_unlink_q_slabs split: if_splits)

lemma do_item_get_frame: "do_item_get e k = Some (e', r) \<Longrightarrow> slab_frame (slabs e) (slabs e')"
  by (auto simp: do_item_get_def bind_eq_Some_iff Let_def dest!: do_item_update_slabs do_item_unlink_frame split: if_splits
      intro: slab_frame_trans)

section \<open>The other keys\<close>

text \<open>
  An operation on \<open>key\<close> that makes room: at most \<open>n\<close> other items leave the cache, all of them evictable;
  every other key keeps its item, and the item is unchanged.
\<close>

definition kept :: "nat \<Rightarrow> bytes \<Rightarrow> default_engine \<Rightarrow> (bytes \<rightharpoonup> addr) \<Rightarrow> default_engine \<Rightarrow> (bytes \<rightharpoonup> addr) \<Rightarrow> bool" where
  "kept n key e M e' M' \<longleftrightarrow> env_same e e' \<and>
     (\<exists>ks. length ks \<le> n \<and> key \<notin> set ks \<and> (\<forall>k \<in> set ks. \<exists>x. M k = Some x \<and> evictable e (store e x)) \<and>
        (\<forall>j. j \<noteq> key \<longrightarrow> M' j = (if j \<in> set ks then None else M j))) \<and>
     (\<forall>j x. j \<noteq> key \<longrightarrow> M' j = Some x \<longrightarrow> core (store e' x) = core (store e x))"

lemma kept_sub: "kept n key e M e' M' \<Longrightarrow> j \<noteq> key \<Longrightarrow> M' j = Some x \<Longrightarrow> M j = Some x \<and> core (store e' x) = core (store e x)"
  unfolding kept_def by (metis option.distinct(1))

lemma kept_trans:
  assumes a: "kept n key e M e1 M1" and b: "kept m key e1 M1 e2 M2" and l: "n + m \<le> l"
  shows "kept l key e M e2 M2"
proof -
  obtain ks where ks: "length ks \<le> n" "key \<notin> set ks" "\<forall>k \<in> set ks. \<exists>x. M k = Some x \<and> evictable e (store e x)"
    "\<forall>j. j \<noteq> key \<longrightarrow> M1 j = (if j \<in> set ks then None else M j)" using a unfolding kept_def by blast
  obtain ls where ls: "length ls \<le> m" "key \<notin> set ls" "\<forall>k \<in> set ls. \<exists>x. M1 k = Some x \<and> evictable e1 (store e1 x)"
    "\<forall>j. j \<noteq> key \<longrightarrow> M2 j = (if j \<in> set ls then None else M1 j)" using b unfolding kept_def by blast
  have en: "env_same e e1" "env_same e1 e2" using a b by (simp_all add: kept_def)
  have "\<exists>x. M k = Some x \<and> evictable e (store e x)" if k: "k \<in> set ls" for k
  proof -
    obtain x where x: "M1 k = Some x" "evictable e1 (store e1 x)" using ls(3) k by blast
    have "k \<noteq> key" using k ls(2) by blast
    then show ?thesis using kept_sub [OF a _ x(1)] evictable_core [OF _ en(1)] x(2) by blast
  qed
  then have "\<forall>k \<in> set (ks @ ls). \<exists>x. M k = Some x \<and> evictable e (store e x)" using ks(3) by auto
  moreover have "\<forall>j. j \<noteq> key \<longrightarrow> M2 j = (if j \<in> set (ks @ ls) then None else M j)" using ks(4) ls(4) by simp
  moreover have "core (store e2 x) = core (store e x)" if "j \<noteq> key" "M2 j = Some x" for j x
    using kept_sub [OF b that] kept_sub [OF a that(1)] by auto
  ultimately show ?thesis
    using ks(1,2) ls(1,2) l env_same_trans [OF en] unfolding kept_def by (intro conjI exI [of _ "ks @ ls"]) auto
qed

lemma kept_same:
  assumes "same_except S e e'" "\<And>j. j \<noteq> key \<Longrightarrow> M' j = M j" "\<And>j x. j \<noteq> key \<Longrightarrow> M j = Some x \<Longrightarrow> x \<notin> S"
  shows "kept 0 key e M e' M'"
  using assms unfolding kept_def same_except_def by (intro conjI exI [of _ "[]"]) auto

lemma kept_evicts:
  assumes "evicts ks e M A e' M' A'" "ran M' \<subseteq> A'" "key \<notin> set ks"
  shows "kept (length ks) key e M e' M'"
proof -
  have "core (store e' x) = core (store e x)" if "M' j = Some x" for j x
    using assms(1,2) that by (auto simp: evicts_def ran_def)
  then show ?thesis using assms unfolding kept_def evicts_def by (intro conjI exI [of _ ks]) auto
qed

text \<open>An allocation for \<open>key\<close>, whose item, if there is one, is in use.\<close>

lemma alloc_kept:
  assumes inv: "cache_inv e M Q A" and fresh: "\<And>c. pages_fresh (slabs e) c" and key: "length key < 65536"
    and pl: "POWER_SMALLEST \<le> power_largest (slabs e)" "power_largest (slabs e) < POWER_LARGEST"
    and busy: "\<And>x. M key = Some x \<Longrightarrow> \<not> evictable e (store e x)"
  shows "\<exists>e' r M' Q' A'. do_item_alloc e key flags exp nb = Some (e', r) \<and> cache_inv e' M' Q' A' \<and> kept 2 key e M e' M' \<and>
    M' key = M key \<and> (\<forall>x. M key = Some x \<longrightarrow> core (store e' x) = core (store e x)) \<and>
    (\<forall>x \<in> A - ran M. x \<in> A' \<and> x \<notin> ran M' \<and> x \<noteq> r \<and> core (store e' x) = core (store e x)) \<and>
    (r \<noteq> NULL \<longrightarrow> r \<in> A' \<and> r \<notin> ran M' \<and> new_item e key flags exp nb (store e' r))"
proof -
  obtain e' r ks Q' A1 where a: "do_item_alloc e key flags exp nb = Some (e', r)" "length ks \<le> 2"
    "evicts ks e M A e' (M |` (- set ks)) A1" "cache_inv e' (M |` (- set ks)) Q' (if r = NULL then A1 else insert r A1)"
    "r \<noteq> NULL \<longrightarrow> r \<notin> A1 \<and> new_item e key flags exp nb (store e' r)"
    using do_item_alloc_ok [OF inv fresh key pl] by blast
  let ?M = "M |` (- set ks)"
  have k: "key \<notin> set ks" using a(3) busy unfolding evicts_def by blast
  have out: "r \<notin> ran ?M" if "r \<noteq> NULL"
    using cache_inv_D(8) [OF a(4), of r] a(5) that by (auto simp: new_item_def ITEM_flags_exp bit_exp_iff split: if_splits)
  have sub: "ran ?M \<subseteq> A1" using cache_inv_D(5) [OF a(4)] out by (auto split: if_splits)
  have "core (store e' x) = core (store e x)" if "M key = Some x" for x
  proof -
    have "x \<in> ran ?M" using that k by (intro ranI [of _ key]) simp
    then show ?thesis using a(3) sub unfolding evicts_def by blast
  qed
  moreover have "x \<in> (if r = NULL then A1 else insert r A1) \<and> x \<notin> ran ?M \<and> x \<noteq> r \<and> core (store e' x) = core (store e x)" if x: "x \<in> A - ran M" for x
  proof -
    have "x \<in> A1" using a(3) x by (auto simp: evicts_def ran_def)
    moreover have "x \<notin> ran ?M" using x by (auto simp: ran_def restrict_map_def split: if_splits)
    moreover have "x \<noteq> NULL" using cache_inv_D(6) [OF inv] x by (auto simp: alloc_ok_def)
    ultimately show ?thesis using a(3,5) by (auto simp: evicts_def)
  qed
  moreover have "?M key = M key" using k by simp
  moreover have "kept 2 key e M e' ?M" using kept_evicts [OF a(3) sub k] a(2) unfolding kept_def by (meson order_trans)
  ultimately show ?thesis using a out
    by (intro exI [of _ e'] exI [of _ r] exI [of _ ?M] exI [of _ Q'] exI [of _ "if r = NULL then A1 else insert r A1"]) simp
qed

section \<open>Steps of a command\<close>

lemma cache_inv_inj: "cache_inv e M Q A \<Longrightarrow> M k = Some x \<Longrightarrow> M j = Some x \<Longrightarrow> j = k"
  using cache_inv_key by metis

text \<open>Two items with the same value for a client.\<close>

definition same_value :: "hash_item \<Rightarrow> hash_item \<Rightarrow> bool" where
  "same_value a b \<longleftrightarrow> item_data a = item_data b \<and> nbytes a = nbytes b \<and> exptime a = exptime b \<and> it_flags a = it_flags b"

lemma same_value_core: "core a = core b \<Longrightarrow> same_value a b"
  using core_fields [of a b] by (simp add: same_value_def item_data_def)

lemma same_value_upd:
  assumes "core a = (core b)\<lparr>it_time := t, refcount := r\<rparr> \<or> core a = (core b)\<lparr>iflag := f, it_time := t, it_cas := c\<rparr>"
  shows "same_value a b"
  using assms by (cases a; cases b) (auto simp: core_def same_value_def item_data_def)

text \<open>The lookup at the start of a command: the item is in use afterwards and cannot be evicted.\<close>

lemma lookup_kept:
  assumes inv: "cache_inv e M Q A" and l: "live e M key = Some x"
    and rc: "refcount (store e x) \<noteq> 65535" and time: "it_time (store e x) \<le> current_time e" "current_time e < - TAIL_REPAIR_TIME"
  shows "\<exists>e1 Q1. do_item_get e key = Some (e1, x) \<and> cache_inv e1 M Q1 A \<and> kept 0 key e M e1 M \<and> same_except {x} e e1 \<and>
    \<not> evictable e1 (store e1 x) \<and> same_value (store e1 x) (store e x) \<and> item_get_cas (store e1 x) = item_get_cas (store e x) \<and>
    refcount (store e1 x) = refcount (store e x) + 1 \<and> refcount (store e1 x) \<noteq> 0"
proof -
  have x: "M key = Some x" using l by (simp add: live_def split: option.splits if_splits)
  obtain e1 Q1 where g: "do_item_get e key = Some (e1, x)" "cache_inv e1 M Q1 A" "same_except {x} e e1"
    "core (store e1 x) = (core (store e x))\<lparr>it_time := touched_time e (store e x), refcount := refcount (store e x) + 1\<rparr>"
    using do_item_get_ok [OF inv, of key] l x by auto
  have f: "it_time (core i) = it_time i" "refcount (core i) = refcount i" "iflag (core i) = iflag i" "it_cas (core i) = it_cas i" for i
    by (cases i; simp add: core_def)+
  have s1: "it_time (store e1 x) = touched_time e (store e x)" "refcount (store e1 x) = refcount (store e x) + 1"
    "item_get_cas (store e1 x) = item_get_cas (store e x)"
    using arg_cong [OF g(4), of it_time] arg_cong [OF g(4), of refcount] arg_cong [OF g(4), of iflag] arg_cong [OF g(4), of it_cas]
    by (simp_all add: f item_get_cas_def)
  have "(- 1 :: u16) = 65535" by simp
  then have rc1: "refcount (store e1 x) \<noteq> 0" using rc eq_neg_iff_add_eq_0 [of "refcount (store e x)" 1] unfolding s1(2) by metis
  have env: "env_same e e1" using g(3) by (simp add: same_except_def)
  have "\<not> evictable e1 (store e1 x)"
    using touched_not_evictable [OF time s1(1) rc1] evictable_core [OF refl env] by blast
  moreover have "kept 0 key e M e1 M" by (rule kept_same [OF g(3)]) (use cache_inv_inj [OF inv x] in auto)
  moreover have "same_value (store e1 x) (store e x)" using same_value_upd g(4) by blast
  ultimately show ?thesis using g(1-3) s1(2,3) rc1 by blast
qed

text \<open>The key gets a new item.\<close>

lemma replace_kept:
  assumes inv: "cache_inv e M Q A" and x: "M key = Some x" "refcount (store e x) \<noteq> 0" and r: "r \<in> A" "r \<notin> ran M"
    and n: "key_of (store e r) = key" "nbytes (store e r) < 1024 * 1024"
  shows "\<exists>e' Q'. do_item_replace e x r = Some e' \<and> cache_inv e' (M(key \<mapsto> r)) Q' A \<and> kept 0 key e M e' (M(key \<mapsto> r)) \<and>
    same_except {x, r} e e' \<and> same_value (store e' r) (store e r)"
proof -
  obtain e1 Q1 where e1: "do_item_replace e x r = Some e1" "cache_inv e1 (M(key \<mapsto> r)) Q1 A" "same_except {x, r} e e1"
    "core (store e1 r) = (core (store e r))\<lparr>iflag := iflag (store e r) OR ITEM_LINKED, it_time := current_time e,
      it_cas := if bit (iflag (store e r)) 0 then cas_id e + 1 else it_cas (store e r)\<rparr>"
    using do_item_replace_ok [OF inv x r n] by blast
  have "kept 0 key e M e1 (M(key \<mapsto> r))"
    by (rule kept_same [OF e1(3)]) (use r(2) cache_inv_inj [OF inv x(1)] in \<open>auto simp: ran_def\<close>)
  moreover have "same_value (store e1 r) (store e r)" using same_value_upd e1(4) by blast
  ultimately show ?thesis using e1(1-3) by blast
qed

text \<open>Giving up a reference.\<close>

lemma release_kept:
  assumes inv: "cache_inv e M Q A" and x: "x \<in> A" "\<And>j. j \<noteq> key \<Longrightarrow> M j \<noteq> Some x"
  shows "\<exists>e' A'. do_item_release e x = Some e' \<and> cache_inv e' M Q A' \<and> A - {x} \<subseteq> A' \<and> kept 0 key e M e' M \<and>
    (\<forall>y. y \<noteq> x \<longrightarrow> store e' y = store e y) \<and> (\<forall>y. M key = Some y \<longrightarrow> same_value (store e' y) (store e y) \<and>
      item_get_cas (store e' y) = item_get_cas (store e y))"
proof -
  obtain e' A' where e': "do_item_release e x = Some e'" "cache_inv e' M Q A'" "A - {x} \<subseteq> A'" "\<forall>y. y \<noteq> x \<longrightarrow> store e' y = store e y" "env_same e e'"
    "x \<in> ran M \<longrightarrow> (\<exists>n. store e' x = (store e x)\<lparr>refcount := n\<rparr>)"
    using do_item_release_ok [OF inv x(1)] by (auto split: if_splits)
  have "same_except {x} e e'" using e'(4,5) by (simp add: same_except_def)
  then have "kept 0 key e M e' M" by (rule kept_same) (use x(2) in auto)
  moreover have "same_value (store e' y) (store e y) \<and> item_get_cas (store e' y) = item_get_cas (store e y)" if "M key = Some y" for y
  proof (cases "y = x")
    case True
    have "x \<in> ran M" using that True by (intro ranI [of _ key]) simp
    then obtain n where "store e' x = (store e x)\<lparr>refcount := n\<rparr>" using e'(6) by blast
    then show ?thesis using True by (simp add: same_value_def item_data_def item_get_cas_def)
  qed (use e'(4) in \<open>simp add: same_value_def\<close>)
  ultimately show ?thesis using e'(1-4) by blast
qed

section \<open>A sample cache with a linked item\<close>

lemma assoc_insert_slabs: "assoc_insert e h it = Some e' \<Longrightarrow> slabs e' = slabs e"
  by (auto simp: assoc_insert_def assoc_expand_def bind_eq_Some_iff Let_def split: if_splits list.splits bool.splits)

lemma do_item_link_slabs: "do_item_link e it = Some e' \<Longrightarrow> slabs e' = slabs e"
  by (auto simp: do_item_link_def bind_eq_Some_iff Let_def get_cas_id_def item_set_cas_def upd_stats_def
      dest!: assoc_insert_slabs item_link_q_slabs split: if_splits)

lemma demo_linked:
  "\<exists>e1 Q1. do_item_link cache_demo 4096 = Some e1 \<and> cache_inv e1 [[7] \<mapsto> 4096] Q1 {4096, 4224} \<and> live e1 [[7] \<mapsto> 4096] [7] = Some 4096 \<and>
     slabs e1 = slabs cache_demo \<and> current_time e1 = 100 \<and> core (store e1 4224) = core (cache_item 7 9 [50, 48]) \<and>
     core (store e1 4096) = core (stored_item cache_demo (cache_item 7 5 [49, 48]))"
proof -
  have it: "store cache_demo 4096 = cache_item 7 5 [49, 48]" "store cache_demo 4224 = cache_item 7 9 [50, 48]" "current_time cache_demo = 100"
    "oldest_live (config cache_demo) = 0" by (simp_all add: cache_demo_def sample_engine_def)
  obtain e1 Q1 where e1: "do_item_link cache_demo 4096 = Some e1" "cache_inv e1 [[7] \<mapsto> 4096] Q1 {4096, 4224}"
    "\<forall>x. x \<noteq> 4096 \<longrightarrow> core (store e1 x) = core (store cache_demo x)"
    "core (store e1 4096) = stored_item cache_demo (core (store cache_demo 4096))" "env_same cache_demo e1"
    using do_item_link_ok [OF cache_demo_inv, of 4096 "[7]"] unfolding stored_item_core
    by (auto simp: it cache_item_def key_of_def)
  have c: "core (store e1 4096) = core (stored_item cache_demo (cache_item 7 5 [49, 48]))" using e1(4) by (simp add: core_stored it)
  have t: "current_time e1 = 100" "oldest_live (config e1) = 0" using e1(5) it(3,4) by (simp_all add: env_same_def)
  have "live e1 [[7] \<mapsto> 4096] [7] = Some 4096"
    using core_fields [OF c] t by (simp add: live_def dead_def flushed_def stored_item_def cache_item_def)
  then show ?thesis using e1(1-3) c t do_item_link_slabs [OF e1(1)] it(2) by (intro exI [of _ e1] exI [of _ Q1]) simp
qed

end
