(* ===== verification/ItemArith.thy ===== *)
theory ItemArith
  imports ItemKept
begin

unbundle bit_operations_syntax

text \<open>
  Counters (\<open>do_add_delta\<close>, \<open>do_arithmetic\<close> of \<open>default_engine/items.c\<close>): increments and decrements of an
  item whose value is a decimal number, and the creation of such an item, over the lookup, the
  allocation and the storage commands.
\<close>

section \<open>The text of a counter\<close>

lemma dec_bytes_length: "n < 10 ^ Suc k \<Longrightarrow> length (dec_bytes n) \<le> Suc k"
proof (induction k arbitrary: n)
  case 0
  then show ?case by (simp add: dec_bytes.simps [of n])
next
  case (Suc k)
  then have "n div 10 < 10 ^ Suc k" by (simp add: less_mult_imp_div_less)
  then have "length (dec_bytes (n div 10)) \<le> Suc k" by (rule Suc.IH)
  then show ?case by (simp add: dec_bytes.simps [of n])
qed

lemma dec_bytes_u64: "length (dec_bytes (unat (v :: u64))) \<le> 20"
proof -
  have "unat v < 2 ^ 64" using unsigned_less [of v] by simp
  then have "unat v < 10 ^ Suc 19" by simp
  then show ?thesis using dec_bytes_length by fastforce
qed

text \<open>Padding with blanks, as an update in place writes it, does not change the number.\<close>

lemma counter_text_reads:
  "safe_strtoull (c_string (dec_bytes (unat v) @ replicate n 32)) = Some v"
proof -
  let ?d = "dec_bytes (unat v)" and ?s = "dec_bytes (unat v) @ replicate n (32 :: u8)"
  have dig: "\<forall>c \<in> set ?d. isdigit c \<and> \<not> isspace c \<and> c \<noteq> 45 \<and> c \<noteq> 43" by (rule dec_bytes_digits)
  moreover have "\<not> isdigit 0" by (simp add: isdigit_def)
  ultimately have "c \<noteq> 0" if "c \<in> set ?s" for c using that by (cases "c \<in> set ?d") (auto simp: in_set_replicate)
  then have s: "c_string ?s = ?s" unfolding c_string_def by (intro takeWhile_eq_all_conv [THEN iffD2]) blast
  obtain c r where c: "?d = c # r" using dec_bytes_neq_Nil by (meson neq_Nil_conv)
  have tw: "takeWhile isdigit ?s = ?d"
    using dig by (subst takeWhile_append2) (cases n; simp add: isdigit_def)+
  have "\<not> isspace c" "c \<noteq> 45" "c \<noteq> 43" using dig c by auto
  then have "scan_number ?s = Some (False, unat v, length ?d)"
    using tw digits_value_dec [of "unat v"] by (simp add: scan_number_def c)
  moreover have "unat v < 2 ^ 64" using unsigned_less [of v] by simp
  ultimately have "strtoull ?s = (v, length ?d, False)" by (simp add: strtoull_def)
  moreover have "end_ok ?s (length ?d)" using dec_bytes_neq_Nil by (cases n) (simp_all add: end_ok_def char_at_def isspace_def)
  moreover have "45 \<notin> set ?s" using no_minus_dec by (auto simp: in_set_replicate)
  ultimately show ?thesis unfolding s safe_strtoull_def by simp
qed

text \<open>The number an item holds, if \<open>do_add_delta\<close> accepts it.\<close>

definition counter_of :: "hash_item \<Rightarrow> u64 option" where
  "counter_of it = (if 79 \<le> unat (nbytes it) then None else safe_strtoull (c_string (item_data it)))"

lemma counter_of_text:
  assumes "item_data it = dec_bytes (unat v) @ replicate n 32" "unat (nbytes it) < 79"
  shows "counter_of it = Some v"
  using assms counter_text_reads by (simp add: counter_of_def)

lemma counter_of_same: "same_value a b \<Longrightarrow> counter_of a = counter_of b"
  by (simp add: same_value_def counter_of_def)

lemma counter_of_core: "core a = core b \<Longrightarrow> counter_of a = counter_of b"
  using core_fields [of a b] by (simp add: counter_of_def item_data_def)

section \<open>Creating a counter\<close>

lemma create_counter_ok:
  assumes inv: "cache_inv e M Q A" and fresh: "\<And>c. pages_fresh (slabs e) c" and key: "length key < 65536"
    and pl: "POWER_SMALLEST \<le> power_largest (slabs e)" "power_largest (slabs e) < POWER_LARGEST" and none: "M key = None"
    and buf: "buf = dec_bytes (unat (initial :: u64))"
  shows "\<exists>e1 it. do_item_alloc e key 0 exp (of_nat (length buf)) = Some (e1, it) \<and>
    (if it = NULL then \<exists>M' Q' A'. cache_inv e1 M' Q' A' \<and> kept 2 key e M e1 M' \<and> M' key = None
     else \<exists>e2 cas e3 M' Q' A'. do_store_item (write_data e1 it 0 buf) it OPERATION_ADD = Some (e2, ENGINE_SUCCESS, cas) \<and>
       do_item_release e2 it = Some e3 \<and> cache_inv e3 M' Q' A' \<and> kept 2 key e M e3 M' \<and> M' key = Some it \<and>
       item_data (store e3 it) = buf \<and> nbytes (store e3 it) = of_nat (length buf) \<and> exptime (store e3 it) = exp \<and> it_flags (store e3 it) = 0)"
proof -
  let ?nb = "of_nat (length buf) :: u32"
  have len: "length buf \<le> 20" unfolding buf by (rule dec_bytes_u64)
  then have nb: "unat ?nb = length buf" by (simp add: unat_of_nat)
  then have small: "?nb < 1024 * 1024" using len by (simp add: word_less_nat_alt)
  obtain e1 r M1 Q1 A1 where a: "do_item_alloc e key 0 exp ?nb = Some (e1, r)" "cache_inv e1 M1 Q1 A1" "kept 2 key e M e1 M1"
    "M1 key = None" "r \<noteq> NULL \<longrightarrow> r \<in> A1 \<and> r \<notin> ran M1 \<and> new_item e key 0 exp ?nb (store e1 r)"
    using alloc_kept [OF inv fresh key pl, of 0 exp ?nb] none by auto
  show ?thesis
  proof (cases "r = NULL")
    case True
    then show ?thesis using a(1-4) by auto
  next
    case r: False
    define ew where "ew = write_data e1 r 0 buf"
    note w = write_data_frame [where e = e1 and it = r and off = 0 and d = buf, folded ew_def]
    have n: "new_item e key 0 exp ?nb (store e1 r)" and rA: "r \<in> A1" "r \<notin> ran M1" using a(5) r by auto
    have iw: "cache_inv ew M1 Q1 A1" unfolding ew_def by (rule write_data_inv [OF a(2)])
    have sw: "key_of (store ew r) = key" "nbytes (store ew r) = ?nb" "item_data (store ew r) = buf" "exptime (store ew r) = exp" "it_flags (store ew r) = 0"
      using n nb by (simp_all add: w(3) new_item_def key_of_def item_data_def)
    have "live ew M1 key = None" using a(4) by (simp add: live_def)
    then have "store_post ew r M1 A1 ENGINE_SUCCESS (M1(key \<mapsto> r)) (do_store_item ew r OPERATION_ADD)"
      using store_miss [OF iw rA, of key OPERATION_ADD ENGINE_SUCCESS False] sw(1,2) small by simp
    then obtain e2 Q2 A2 where e2: "do_store_item ew r OPERATION_ADD = Some (e2, ENGINE_SUCCESS, Some (item_get_cas (store e2 r)))"
      "cache_inv e2 (M1(key \<mapsto> r)) Q2 A2" "same_except {r} ew e2" "core (store e2 r) = core (stored_item ew (store ew r))"
      unfolding store_post_def sw(1) a(4) by auto
    have "r \<in> A2" "r \<in> ran (M1(key \<mapsto> r))" using cache_inv_key [OF e2(2), of key r] by (auto intro: ranI [of _ key])
    then obtain e3 m where e3: "do_item_release e2 r = Some e3" "cache_inv e3 (M1(key \<mapsto> r)) Q2 A2" "\<forall>x. x \<noteq> r \<longrightarrow> store e3 x = store e2 x"
      "env_same e2 e3" "store e3 r = (store e2 r)\<lparr>refcount := m\<rparr>"
      using do_item_release_ok [OF e2(2), of r] by auto
    have c: "item_data (store e3 r) = buf \<and> nbytes (store e3 r) = ?nb \<and> exptime (store e3 r) = exp \<and> it_flags (store e3 r) = 0"
      using core_fields [OF e2(4)] sw by (simp add: e3(5) stored_item_def item_data_def)
    have "same_except {r} e1 e3" using w(1,2) e2(3) e3(3,4) env_same_trans by (simp add: same_except_def) blast
    then have "kept 0 key e1 M1 e3 (M1(key \<mapsto> r))" by (rule kept_same) (use rA(2) in \<open>auto simp: ran_def\<close>)
    then have "kept 2 key e M e3 (M1(key \<mapsto> r))" using kept_trans [OF a(3), of 0] by simp
    moreover have "(M1(key \<mapsto> r)) key = Some r" by simp
    ultimately have "\<exists>e2 cas e3 M' Q' A'. do_store_item ew r OPERATION_ADD = Some (e2, ENGINE_SUCCESS, cas) \<and>
       do_item_release e2 r = Some e3 \<and> cache_inv e3 M' Q' A' \<and> kept 2 key e M e3 M' \<and> M' key = Some r \<and>
       item_data (store e3 r) = buf \<and> nbytes (store e3 r) = ?nb \<and> exptime (store e3 r) = exp \<and> it_flags (store e3 r) = 0"
      using e2(1) e3(1,2) c by blast
    then show ?thesis using a(1) r unfolding ew_def by auto
  qed
qed

section \<open>Changing a counter\<close>

lemma set_cas_ok:
  assumes "cache_inv e M Q A"
  shows "cache_inv (item_set_cas (e\<lparr>cas_id := c\<rparr>) it v) M Q A \<and> env_same e (item_set_cas (e\<lparr>cas_id := c\<rparr>) it v) \<and>
    (\<forall>y. \<exists>w. store (item_set_cas (e\<lparr>cas_id := c\<rparr>) it v) y = (store e y)\<lparr>it_cas := w\<rparr>) \<and>
    (\<forall>y. y \<noteq> it \<longrightarrow> store (item_set_cas (e\<lparr>cas_id := c\<rparr>) it v) y = store e y)"
proof -
  have i: "cache_inv (e\<lparr>cas_id := c\<rparr>) M Q A" by (rule cache_inv_counters [OF assms]) simp_all
  have "cache_inv (item_set_cas (e\<lparr>cas_id := c\<rparr>) it v) M Q A"
  proof (cases "iflag (store e it) AND ITEM_WITH_CAS \<noteq> 0")
    case True
    then show ?thesis
      by (intro cache_inv_touch [OF i, of _ it "(store e it)\<lparr>it_cas := v\<rparr>"]) (simp_all add: item_set_cas_def)
  qed (use i in \<open>simp add: item_set_cas_def\<close>)
  moreover have "\<exists>w. store (item_set_cas (e\<lparr>cas_id := c\<rparr>) it v) y = (store e y)\<lparr>it_cas := w\<rparr>" for y
    by (rule exI [of _ "if iflag (store e it) AND ITEM_WITH_CAS \<noteq> 0 \<and> y = it then v else it_cas (store e y)"]) (simp add: item_set_cas_def)
  moreover have "env_same e (item_set_cas (e\<lparr>cas_id := c\<rparr>) it v)" by (simp add: item_set_cas_def env_same_def)
  moreover have "y \<noteq> it \<Longrightarrow> store (item_set_cas (e\<lparr>cas_id := c\<rparr>) it v) y = store e y" for y by (simp add: item_set_cas_def)
  ultimately show ?thesis by blast
qed

text \<open>The number is written over the old one.\<close>

lemma in_place_ok:
  assumes inv: "cache_inv e M Q A" and x: "M key = Some x" and fits: "length buf \<le> unat (nbytes (store e x))"
    and e': "e' = item_set_cas ((write_data e x 0 (buf @ replicate (unat (nbytes (store e x)) - length buf) 32))\<lparr>cas_id := c\<rparr>) x v"
  shows "cache_inv e' M Q A \<and> kept 0 key e M e' M \<and>
    item_data (store e' x) = buf @ replicate (unat (nbytes (store e x)) - length buf) 32 \<and> nbytes (store e' x) = nbytes (store e x) \<and>
    exptime (store e' x) = exptime (store e x) \<and> it_flags (store e' x) = it_flags (store e x)"
proof -
  define d where "d = buf @ replicate (unat (nbytes (store e x)) - length buf) 32"
  define ew where "ew = write_data e x 0 d"
  note w = write_data_frame [where e = e and it = x and off = 0 and d = d, folded ew_def]
  have len: "length d = unat (nbytes (store e x))" using fits by (simp add: d_def)
  have iw: "cache_inv ew M Q A" unfolding ew_def by (rule write_data_inv [OF inv])
  have e'w: "e' = item_set_cas (ew\<lparr>cas_id := c\<rparr>) x v" unfolding e' ew_def d_def by simp
  note c = set_cas_ok [OF iw, of c x v, folded e'w]
  obtain u where "store e' x = (store ew x)\<lparr>it_cas := u\<rparr>" using c by blast
  then have "item_data (store e' x) = d \<and> nbytes (store e' x) = nbytes (store e x) \<and>
    exptime (store e' x) = exptime (store e x) \<and> it_flags (store e' x) = it_flags (store e x)"
    using len by (simp add: w(3) item_data_def)
  moreover have "env_same e e'" using c env_same_trans [OF w(1)] by blast
  then have "same_except {x} e e'" using c w(2) by (simp add: same_except_def)
  then have "kept 0 key e M e' M" by (rule kept_same) (use cache_inv_inj [OF inv x] in auto)
  ultimately show ?thesis using c unfolding d_def by blast
qed

text \<open>A new item takes the place of the old one.\<close>

lemma replace_counter_ok:
  assumes inv: "cache_inv e M Q A" and x: "M key = Some x" "refcount (store e x) \<noteq> 0" and r: "r \<in> A" "r \<notin> ran M"
    and n: "new_item e0 key fl ex nb (store e r)" "length buf = unat nb" "nb < 1024 * 1024"
  shows "\<exists>e1 e2 Q' A'. do_item_replace (write_data e r 0 buf) x r = Some e1 \<and> do_item_release e1 r = Some e2 \<and>
    cache_inv e2 (M(key \<mapsto> r)) Q' A' \<and> x \<in> A' \<and> kept 0 key e M e2 (M(key \<mapsto> r)) \<and>
    item_data (store e2 r) = buf \<and> nbytes (store e2 r) = nb \<and> exptime (store e2 r) = ex \<and> it_flags (store e2 r) = fl"
proof -
  define ew where "ew = write_data e r 0 buf"
  note w = write_data_frame [where e = e and it = r and off = 0 and d = buf, folded ew_def]
  have xr: "x \<noteq> r" using x(1) r(2) by (auto simp: ran_def)
  have iw: "cache_inv ew M Q A" unfolding ew_def by (rule write_data_inv [OF inv])
  have sw: "key_of (store ew r) = key" "nbytes (store ew r) = nb" "item_data (store ew r) = buf" "exptime (store ew r) = ex" "it_flags (store ew r) = fl"
    using n by (simp_all add: w(3) new_item_def key_of_def item_data_def)
  have rx: "refcount (store ew x) \<noteq> 0" using x(2) w(2) [OF xr] by simp
  obtain e1 Q1 where e1: "do_item_replace ew x r = Some e1" "cache_inv e1 (M(key \<mapsto> r)) Q1 A" "kept 0 key ew M e1 (M(key \<mapsto> r))"
    "same_value (store e1 r) (store ew r)"
    using replace_kept [OF iw x(1) rx r sw(1)] sw(2) n(3) by auto
  have only: "(M(key \<mapsto> r)) j \<noteq> Some r" if "j \<noteq> key" for j using r(2) that by (auto simp: ran_def)
  have kr: "(M(key \<mapsto> r)) key = Some r" by simp
  obtain e2 A2 where e2: "do_item_release e1 r = Some e2" "cache_inv e2 (M(key \<mapsto> r)) Q1 A2" "A - {r} \<subseteq> A2" "kept 0 key e1 (M(key \<mapsto> r)) e2 (M(key \<mapsto> r))"
    "same_value (store e2 r) (store e1 r)"
    using release_kept [OF e1(2) r(1), of key, OF only] kr by blast
  have "item_data (store e2 r) = buf \<and> nbytes (store e2 r) = nb \<and> exptime (store e2 r) = ex \<and> it_flags (store e2 r) = fl"
    using e1(4) e2(5) sw by (simp add: same_value_def)
  moreover have "same_except {r} e ew" using w(1,2) by (simp add: same_except_def)
  then have "kept 0 key e M ew M" by (rule kept_same) (use r(2) in \<open>auto simp: ran_def\<close>)
  then have "kept 0 key e M e2 (M(key \<mapsto> r))" using kept_trans [OF _ kept_trans [OF e1(3) e2(4), of 0], of 0 e M 0] by simp
  moreover have "x \<in> A2" using cache_inv_key [OF inv x(1)] e2(3) xr by blast
  ultimately show ?thesis using e1(1) e2(1,2) unfolding ew_def by blast
qed

text \<open>
  What \<open>do_add_delta\<close> leaves behind when the item \<open>x\<close> of \<open>key\<close> holds a number: the key has an item that reads
  as the new number, or there was no memory for a longer text and the key is gone.
\<close>

definition counter_post ::
  "bytes \<Rightarrow> default_engine \<Rightarrow> (bytes \<rightharpoonup> addr) \<Rightarrow> addr \<Rightarrow> u64 \<Rightarrow> (default_engine \<times> ENGINE_ERROR_CODE \<times> u64 \<times> u64) option \<Rightarrow> bool" where
  "counter_post key e M x res out \<longleftrightarrow>
     (\<exists>e' ret cas M' Q' A'. out = Some (e', ret, cas, res) \<and> cache_inv e' M' Q' A' \<and> x \<in> A' \<and> kept 2 key e M e' M' \<and>
        (ret = ENGINE_SUCCESS \<and> (\<exists>y. M' key = Some y \<and> counter_of (store e' y) = Some res \<and>
             exptime (store e' y) = exptime (store e x) \<and> it_flags (store e' y) = it_flags (store e x)) \<or>
         ret = ENGINE_ENOMEM \<and> M' key = None \<and>
           \<not> (refcount (store e x) = 1 \<and> length (dec_bytes (unat res)) \<le> unat (nbytes (store e x)))))"

lemma counter_post_in_place:
  assumes inv: "cache_inv e M Q A" and x: "M key = Some x" and v: "counter_of (store e x) = Some v" and res: "res = add_delta_value incr delta v"
    and fits: "refcount (store e x) = 1" "length (dec_bytes (unat res)) \<le> unat (nbytes (store e x))"
  shows "counter_post key e M x res (do_add_delta e x incr delta)"
proof -
  define buf where "buf = dec_bytes (unat res)"
  have nb: "unat (nbytes (store e x)) < 79" and st: "safe_strtoull (c_string (item_data (store e x))) = Some v"
    using v by (auto simp: counter_of_def split: if_splits)
  define e' where "e' = item_set_cas ((write_data e x 0 (buf @ replicate (unat (nbytes (store e x)) - length buf) 32))\<lparr>cas_id := cas_id e + 1\<rparr>) x (cas_id e + 1)"
  note p = in_place_ok [OF inv x fits(2) [folded buf_def] e'_def]
  have "do_add_delta e x incr delta = Some (e', ENGINE_SUCCESS, item_get_cas (store e' x), res)"
    using fits nb st unfolding do_add_delta_def
    by (simp add: Let_def res [symmetric] buf_def [symmetric] get_cas_id_def write_data_frame(5) e'_def)
  moreover have "counter_of (store e' x) = Some res" by (rule counter_of_text) (use p nb in \<open>simp_all add: buf_def\<close>)
  moreover have "kept 2 key e M e' M" using p unfolding kept_def by (meson le0 le_trans)
  moreover have "x \<in> A" using cache_inv_key [OF inv x] by simp
  ultimately show ?thesis unfolding counter_post_def using p x by blast
qed

lemma counter_post_new_item:
  assumes inv: "cache_inv e M Q A" and x: "M key = Some x" "refcount (store e x) \<noteq> 0" and busy: "\<not> evictable e (store e x)"
    and fresh: "\<And>c. pages_fresh (slabs e) c" and key: "length key < 65536"
    and pl: "POWER_SMALLEST \<le> power_largest (slabs e)" "power_largest (slabs e) < POWER_LARGEST"
    and v: "counter_of (store e x) = Some v" and res: "res = add_delta_value incr delta v" and buf: "buf = dec_bytes (unat res)"
    and longer: "\<not> (refcount (store e x) = 1 \<and> length buf \<le> unat (nbytes (store e x)))"
  shows "counter_post key e M x res (do_add_delta e x incr delta)"
proof -
  let ?fl = "it_flags (store e x)" and ?ex = "exptime (store e x)" and ?nb = "of_nat (length buf) :: u32"
  have kx: "key_of (store e x) = key" using cache_inv_key [OF inv x(1)] by simp
  have st: "unat (nbytes (store e x)) < 79" "safe_strtoull (c_string (item_data (store e x))) = Some v"
    using v by (auto simp: counter_of_def split: if_splits)
  have len: "length buf \<le> 20" unfolding buf by (rule dec_bytes_u64)
  obtain e1 r M1 Q1 A1 where a: "do_item_alloc e key ?fl ?ex ?nb = Some (e1, r)" "cache_inv e1 M1 Q1 A1" "kept 2 key e M e1 M1" "M1 key = Some x"
    "core (store e1 x) = core (store e x)" "r \<noteq> NULL \<longrightarrow> r \<in> A1 \<and> r \<notin> ran M1 \<and> new_item e key ?fl ?ex ?nb (store e1 r)"
    using alloc_kept [OF inv fresh key pl, of ?fl ?ex ?nb] x(1) busy by auto
  have rx: "refcount (store e1 x) \<noteq> 0" using core_fields [OF a(5)] x(2) by simp
  have run: "do_add_delta e x incr delta = (if r = NULL then do { e \<leftarrow> do_item_unlink e1 x; Some (e, ENGINE_ENOMEM, 0, res) }
    else do {
      e \<leftarrow> do_item_replace (write_data e1 r 0 buf) x r;
      let cas = item_get_cas (store e r);
      e \<leftarrow> do_item_release e r;
      Some (e, ENGINE_SUCCESS, cas, res)
    })"
    using st a(1) unfolding do_add_delta_def
    by (simp add: Let_def res [symmetric] buf [symmetric] kx if_not_P [OF longer])
  show ?thesis
  proof (cases "r = NULL")
    case True
    obtain e2 where e2: "do_item_unlink e1 x = Some e2" "cache_inv e2 (M1(key := None)) (drop_item (cls e1 x) x Q1) A1"
      "\<forall>y. y \<noteq> x \<longrightarrow> core (store e2 y) = core (store e1 y)" "env_same e1 e2"
      using do_item_unlink_ok [OF a(2,4)] rx by auto
    have "same_except {x} e1 e2" using e2(3,4) by (simp add: same_except_def)
    then have "kept 0 key e1 M1 e2 (M1(key := None))" by (rule kept_same) (use cache_inv_inj [OF a(2,4)] in auto)
    then have "kept 2 key e M e2 (M1(key := None))" using kept_trans [OF a(3), of 0] by simp
    moreover have "do_add_delta e x incr delta = Some (e2, ENGINE_ENOMEM, 0, res)" using run True e2(1) by simp
    moreover have "x \<in> A1" "(M1(key := None)) key = None" using cache_inv_key [OF a(2,4)] by simp_all
    ultimately show ?thesis unfolding counter_post_def using e2(2) longer buf by blast
  next
    case r: False
    have nb: "length buf = unat ?nb" "?nb < 1024 * 1024" using len by (simp_all add: unat_of_nat word_less_nat_alt)
    obtain e2 e3 Q' A' where e3: "do_item_replace (write_data e1 r 0 buf) x r = Some e2" "do_item_release e2 r = Some e3"
      "cache_inv e3 (M1(key \<mapsto> r)) Q' A'" "x \<in> A'" "kept 0 key e1 M1 e3 (M1(key \<mapsto> r))"
      "item_data (store e3 r) = buf" "nbytes (store e3 r) = ?nb" "exptime (store e3 r) = ?ex" "it_flags (store e3 r) = ?fl"
      using replace_counter_ok [OF a(2,4) rx _ _ _ nb] a(6) r by blast
    have "counter_of (store e3 r) = Some res"
      by (rule counter_of_text [of _ _ 0]) (use e3(6,7) nb(1) len buf in simp_all)
    moreover have "kept 2 key e M e3 (M1(key \<mapsto> r))" using kept_trans [OF a(3) e3(5)] by simp
    moreover have "do_add_delta e x incr delta = Some (e3, ENGINE_SUCCESS, item_get_cas (store e2 r), res)" using run r e3(1,2) by simp
    moreover have "(M1(key \<mapsto> r)) key = Some r" by simp
    ultimately show ?thesis unfolding counter_post_def using e3(3,4,8,9) by blast
  qed
qed

section \<open>Arithmetic commands\<close>

lemma arithmetic_miss:
  assumes inv: "cache_inv e M Q A" and fresh: "\<And>c. pages_fresh (slabs e) c" and key: "length key < 65536"
    and pl: "POWER_SMALLEST \<le> power_largest (slabs e)" "power_largest (slabs e) < POWER_LARGEST" and l: "live e M key = None"
  shows "\<exists>e' ret cas res M' Q' A'. do_arithmetic e key incr create delta initial exp = Some (e', ret, cas, res) \<and>
    cache_inv e' M' Q' A' \<and> kept 2 key e M e' M' \<and>
    (if create then ret = ENGINE_SUCCESS \<and> res = initial \<and>
         (\<exists>y. M' key = Some y \<and> counter_of (store e' y) = Some initial \<and> exptime (store e' y) = exp \<and> it_flags (store e' y) = 0) \<or>
       ret = ENGINE_ENOMEM \<and> M' key = None
     else ret = ENGINE_KEY_ENOENT \<and> M' = M(key := None))"
proof -
  obtain e1 Q1 A1 where g: "do_item_get e key = Some (e1, NULL)" "cache_inv e1 (M(key := None)) Q1 A1" "same_except (set_option (M key)) e e1"
    using do_item_get_ok [OF inv, of key] l by auto
  note fr = do_item_get_frame [OF g(1)]
  have k1: "kept 0 key e M e1 (M(key := None))" by (rule kept_same [OF g(3)]) (use cache_inv_inj [OF inv] in \<open>auto simp: elem_set\<close>)
  show ?thesis
  proof (cases create)
    case False
    have "kept 2 key e M e1 (M(key := None))" using k1 unfolding kept_def by (meson le0 le_trans)
    then show ?thesis using g(1,2) False by (auto simp: do_arithmetic_def)
  next
    case True
    define buf where "buf = dec_bytes (unat initial)"
    have nb: "unat (of_nat (length buf) :: u32) = length buf" "length buf < 79"
      using dec_bytes_u64 [of initial] by (simp_all add: buf_def unat_of_nat)
    have "\<And>c. pages_fresh (slabs e1) c" "POWER_SMALLEST \<le> power_largest (slabs e1)" "power_largest (slabs e1) < POWER_LARGEST"
      using pages_fresh_frame [OF fresh fr] fr pl by (simp_all add: slab_frame_def)
    from create_counter_ok [OF g(2) this(1) key this(2,3) _ buf_def, of exp]
    obtain e2 it where c: "do_item_alloc e1 key 0 exp (of_nat (length buf)) = Some (e2, it)"
      "if it = NULL then \<exists>M' Q' A'. cache_inv e2 M' Q' A' \<and> kept 2 key e1 (M(key := None)) e2 M' \<and> M' key = None
       else \<exists>e3 cas e4 M' Q' A'. do_store_item (write_data e2 it 0 buf) it OPERATION_ADD = Some (e3, ENGINE_SUCCESS, cas) \<and>
         do_item_release e3 it = Some e4 \<and> cache_inv e4 M' Q' A' \<and> kept 2 key e1 (M(key := None)) e4 M' \<and> M' key = Some it \<and>
         item_data (store e4 it) = buf \<and> nbytes (store e4 it) = of_nat (length buf) \<and> exptime (store e4 it) = exp \<and> it_flags (store e4 it) = 0"
      by auto
    show ?thesis
    proof (cases "it = NULL")
      case it: True
      then have "do_arithmetic e key incr create delta initial exp = Some (e2, ENGINE_ENOMEM, 0, 0)"
        using g(1) True c(1) by (simp add: do_arithmetic_def buf_def [symmetric])
      then show ?thesis using c(2) it True kept_trans [OF k1, of 2 e2 _ 2] by auto
    next
      case it: False
      then obtain e3 cas e4 M' Q' A' where e4: "do_store_item (write_data e2 it 0 buf) it OPERATION_ADD = Some (e3, ENGINE_SUCCESS, cas)"
         "do_item_release e3 it = Some e4" "cache_inv e4 M' Q' A'" "kept 2 key e1 (M(key := None)) e4 M'" "M' key = Some it"
         "item_data (store e4 it) = buf" "nbytes (store e4 it) = of_nat (length buf)" "exptime (store e4 it) = exp" "it_flags (store e4 it) = 0"
        using c(2) by auto
      have "do_arithmetic e key incr create delta initial exp = Some (e4, ENGINE_SUCCESS, item_get_cas (store e3 it), initial)"
        using g(1) True c(1) it e4(1,2) by (simp add: do_arithmetic_def buf_def [symmetric])
      moreover have "counter_of (store e4 it) = Some initial"
        by (rule counter_of_text [of _ _ 0]) (use e4(6,7) nb in \<open>simp_all add: buf_def\<close>)
      ultimately show ?thesis using e4(3,5,8,9) True kept_trans [OF k1 e4(4), of 2] by auto
    qed
  qed
qed

lemma arithmetic_hit:
  assumes inv: "cache_inv e M Q A" and fresh: "\<And>c. pages_fresh (slabs e) c" and key: "length key < 65536"
    and pl: "POWER_SMALLEST \<le> power_largest (slabs e)" "power_largest (slabs e) < POWER_LARGEST" and l: "live e M key = Some x"
    and rc: "refcount (store e x) \<noteq> 65535" and time: "it_time (store e x) \<le> current_time e" "current_time e < - TAIL_REPAIR_TIME"
  shows "\<exists>e' ret cas res M' Q' A'. do_arithmetic e key incr create delta initial exp = Some (e', ret, cas, res) \<and>
    cache_inv e' M' Q' A' \<and> kept 2 key e M e' M' \<and>
    (case counter_of (store e x) of None \<Rightarrow> ret = ENGINE_EINVAL \<and> M' = M
     | Some v \<Rightarrow> res = add_delta_value incr delta v \<and>
         (ret = ENGINE_SUCCESS \<and> (\<exists>y. M' key = Some y \<and> counter_of (store e' y) = Some res \<and>
             exptime (store e' y) = exptime (store e x) \<and> it_flags (store e' y) = it_flags (store e x)) \<or>
          ret = ENGINE_ENOMEM \<and> M' key = None \<and>
            \<not> (refcount (store e x) = 0 \<and> length (dec_bytes (unat res)) \<le> unat (nbytes (store e x)))))"
proof -
  have x: "M key = Some x" using l by (simp add: live_def split: option.splits if_splits)
  have xA: "x \<in> A" "x \<noteq> NULL" using cache_inv_key [OF inv x] by simp_all
  obtain e1 Q1 where g: "do_item_get e key = Some (e1, x)" "cache_inv e1 M Q1 A" "kept 0 key e M e1 M" and busy: "\<not> evictable e1 (store e1 x)"
    and sv: "same_value (store e1 x) (store e x)" and r1: "refcount (store e1 x) = refcount (store e x) + 1" "refcount (store e1 x) \<noteq> 0"
    using lookup_kept [OF inv l rc time] by blast
  have s1: "counter_of (store e1 x) = counter_of (store e x)" "nbytes (store e1 x) = nbytes (store e x)" "it_flags (store e1 x) = it_flags (store e x)"
      "exptime (store e1 x) = exptime (store e x)" "refcount (store e1 x) \<noteq> 0" "refcount (store e1 x) = 1 \<longleftrightarrow> refcount (store e x) = 0"
    using sv r1 counter_of_same [OF sv] by (simp_all add: same_value_def)
  note fr = do_item_get_frame [OF g(1)]
  have sl: "\<And>c. pages_fresh (slabs e1) c" "POWER_SMALLEST \<le> power_largest (slabs e1)" "power_largest (slabs e1) < POWER_LARGEST"
    using pages_fresh_frame [OF fresh fr] fr pl by (simp_all add: slab_frame_def)
  have other: "M' j \<noteq> Some x" if "kept n key e1 M e2 M'" "j \<noteq> key" for n e2 M' j
    using kept_sub [OF that] cache_inv_inj [OF inv x] that(2) by auto
  show ?thesis
  proof (cases "counter_of (store e x)")
    case None
    then have d: "do_add_delta e1 x incr delta = Some (e1, ENGINE_EINVAL, 0, 0)"
      using s1(1) by (simp add: counter_of_def do_add_delta_def split: if_splits)
    obtain e2 A2 where r: "do_item_release e1 x = Some e2" "cache_inv e2 M Q1 A2" "kept 0 key e1 M e2 M"
      using release_kept [OF g(2) xA(1), of key] cache_inv_inj [OF inv x] by blast
    have "do_arithmetic e key incr create delta initial exp = Some (e2, ENGINE_EINVAL, 0, 0)" using g(1) xA(2) d r(1) by (simp add: do_arithmetic_def)
    then show ?thesis using None r(2) kept_trans [OF g(3) r(3), of 2] by auto
  next
    case (Some v)
    define res where "res = add_delta_value incr delta v"
    have v1: "counter_of (store e1 x) = Some v" using s1(1) Some by simp
    have "counter_post key e1 M x res (do_add_delta e1 x incr delta)"
      using counter_post_in_place [OF g(2) x v1 res_def] counter_post_new_item [OF g(2) x s1(5) busy sl(1) key sl(2,3) v1 res_def refl] by blast
    then obtain e2 ret cas M' Q' A' where p: "do_add_delta e1 x incr delta = Some (e2, ret, cas, res)" "cache_inv e2 M' Q' A'" "x \<in> A'" "kept 2 key e1 M e2 M'"
      "ret = ENGINE_SUCCESS \<and> (\<exists>y. M' key = Some y \<and> counter_of (store e2 y) = Some res \<and>
             exptime (store e2 y) = exptime (store e x) \<and> it_flags (store e2 y) = it_flags (store e x)) \<or>
         ret = ENGINE_ENOMEM \<and> M' key = None \<and> \<not> (refcount (store e x) = 0 \<and> length (dec_bytes (unat res)) \<le> unat (nbytes (store e x)))"
      unfolding counter_post_def s1(2-4,6) by blast
    obtain e3 A3 where r: "do_item_release e2 x = Some e3" "cache_inv e3 M' Q' A3" "kept 0 key e2 M' e3 M'"
      "\<forall>y. M' key = Some y \<longrightarrow> same_value (store e3 y) (store e2 y)"
      using release_kept [OF p(2,3), of key, OF other [OF p(4)]] by blast
    have sv3: "\<forall>y. M' key = Some y \<longrightarrow> counter_of (store e3 y) = counter_of (store e2 y) \<and> exptime (store e3 y) = exptime (store e2 y) \<and>
        it_flags (store e3 y) = it_flags (store e2 y)"
      using r(4) counter_of_same unfolding same_value_def by blast
    have "do_arithmetic e key incr create delta initial exp = Some (e3, ret, cas, res)" using g(1) xA(2) p(1) r(1) by (simp add: do_arithmetic_def)
    moreover have "kept 2 key e M e3 M'" using kept_trans [OF g(3) kept_trans [OF p(4) r(3), of 2], of 2] by simp
    ultimately show ?thesis
      using r(2) sv3 p(5) Some by (intro exI [of _ e3] exI [of _ ret] exI [of _ cas] exI [of _ res] exI [of _ M'] exI [of _ Q'] exI [of _ A3]) (auto simp: res_def)
  qed
qed


lemma counter_10: "counter_of (cache_item b cas [49, 48]) = Some 10"
  using counter_of_text [of "cache_item b cas [49, 48]" 10 0] by (simp add: cache_item_def item_data_def dec_bytes.simps)


end
