(* ===== verification/ItemAppend.thy ===== *)
theory ItemAppend
  imports ItemKept
begin

text \<open>
  The commands append and prepend (\<open>do_store_item\<close> of \<open>default_engine/items.c\<close>): a third item takes the
  value of the stored item and the value of the client and replaces the stored item.
\<close>

section \<open>The combined item\<close>

text \<open>All bytes of the value have been written.\<close>

definition filled :: "hash_item \<Rightarrow> bool" where
  "filled it \<longleftrightarrow> length (item_data it) = unat (nbytes it)"

lemma write_two:
  assumes "unat (nbytes (store e r)) = length d1 + length d2" and e': "e' = write_data (write_data e r 0 d1) r (length d1) d2"
  shows "item_data (store e' r) = d1 @ d2 \<and> nbytes (store e' r) = nbytes (store e r) \<and> key_of (store e' r) = key_of (store e r) \<and>
    exptime (store e' r) = exptime (store e r) \<and> it_flags (store e' r) = it_flags (store e r) \<and>
    (\<forall>y. y \<noteq> r \<longrightarrow> store e' y = store e y) \<and> env_same e e' \<and> slabs e' = slabs e"
  using assms(1) unfolding e' by (simp add: write_data_def item_data_def key_of_def env_same_def)

lemma item_key_length: "item_ok it \<Longrightarrow> length (key_of it) < 65536"
  using unsigned_less [of "nkey it"] by (simp add: item_ok_def key_of_def)

lemma combine_items_ok:
  assumes inv: "cache_inv e M Q A" and x: "M key = Some x" and busy: "\<not> evictable e (store e x)"
    and it: "it \<in> A" "it \<notin> ran M" "key_of (store e it) = key" and fresh: "\<And>c. pages_fresh (slabs e) c"
    and pl: "POWER_SMALLEST \<le> power_largest (slabs e)" "power_largest (slabs e) < POWER_LARGEST"
    and fill: "filled (store e it)" "filled (store e x)" and sz: "unat (nbytes (store e it)) + unat (nbytes (store e x)) < 1024 * 1024"
  shows "\<exists>e' r M' Q' A'. combine_items e it x op = Some (e', r) \<and> cache_inv e' M' Q' A' \<and> kept 2 key e M e' M' \<and> M' key = Some x \<and>
    refcount (store e' x) = refcount (store e x) \<and> it \<in> A' \<and> it \<notin> ran M' \<and> it \<noteq> r \<and> core (store e' it) = core (store e it) \<and>
    (r \<noteq> NULL \<longrightarrow> r \<in> A' \<and> r \<notin> ran M' \<and> key_of (store e' r) = key \<and> nbytes (store e' r) < 1024 * 1024 \<and>
       item_data (store e' r) = (if op = OPERATION_APPEND then item_data (store e x) @ item_data (store e it)
          else item_data (store e it) @ item_data (store e x)) \<and>
       exptime (store e' r) = exptime (store e x) \<and> it_flags (store e' r) = it_flags (store e x))"
proof -
  let ?nb = "nbytes (store e it) + nbytes (store e x)" and ?fl = "it_flags (store e x)" and ?ex = "exptime (store e x)"
  have nb: "unat ?nb = unat (nbytes (store e it)) + unat (nbytes (store e x))"
    by (subst unat_add_lem [THEN iffD1]) (use sz in simp_all)
  have "alloc_ok e it" by (rule cache_inv_D(6) [OF inv it(1)])
  then have key: "length key < 65536" using item_key_length it(3) by (auto simp: alloc_ok_def)
  obtain e1 r M1 Q1 A1 where a: "do_item_alloc e key ?fl ?ex ?nb = Some (e1, r)" "cache_inv e1 M1 Q1 A1" "kept 2 key e M e1 M1"
    "M1 key = Some x" "core (store e1 x) = core (store e x)"
    "it \<in> A1 \<and> it \<notin> ran M1 \<and> it \<noteq> r \<and> core (store e1 it) = core (store e it)"
    "r \<noteq> NULL \<longrightarrow> r \<in> A1 \<and> r \<notin> ran M1 \<and> new_item e key ?fl ?ex ?nb (store e1 r)"
    using alloc_kept [OF inv fresh key pl, of ?fl ?ex ?nb] x busy it(1,2) by auto
  have cx: "nbytes (store e1 x) = nbytes (store e x)" "item_data (store e1 x) = item_data (store e x)" "refcount (store e1 x) = refcount (store e x)"
    and ci: "nbytes (store e1 it) = nbytes (store e it)" "item_data (store e1 it) = item_data (store e it)"
    using core_fields [OF a(5)] core_key [OF a(5)] a(6) core_fields [of "store e1 it" "store e it"] core_key [of "store e1 it" "store e it"] by simp_all
  show ?thesis
  proof (cases "r = NULL")
    case True
    then have "combine_items e it x op = Some (e1, NULL)" using a(1) it(3) by (simp add: combine_items_def)
    then show ?thesis using a(2-6) True cx(3) by (intro exI [of _ e1] exI [of _ NULL] exI [of _ M1] exI [of _ Q1] exI [of _ A1]) simp
  next
    case r: False
    have n: "new_item e key ?fl ?ex ?nb (store e1 r)" and rA: "r \<in> A1" "r \<notin> ran M1" using a(7) r by auto
    define d1 d2 where "d1 = (if op = OPERATION_APPEND then item_data (store e x) else item_data (store e it))"
      and "d2 = (if op = OPERATION_APPEND then item_data (store e it) else item_data (store e x))"
    define e2 where "e2 = write_data (write_data e1 r 0 d1) r (length d1) d2"
    have "unat (nbytes (store e1 r)) = length d1 + length d2" using n nb fill by (auto simp: new_item_def d1_def d2_def filled_def)
    note w = write_two [OF this e2_def]
    have run: "combine_items e it x op = Some (e2, r)"
      using a(1) it(3) r fill by (auto simp: combine_items_def e2_def d1_def d2_def cx ci filled_def Let_def)
    have i2: "cache_inv e2 M1 Q1 A1" unfolding e2_def by (intro write_data_inv a(2))
    have xr: "x \<noteq> r" using a(4) rA(2) by (auto simp: ran_def)
    have "same_except {r} e1 e2" using w by (simp add: same_except_def)
    then have "kept 0 key e1 M1 e2 M1" by (rule kept_same) (use rA(2) in \<open>auto simp: ran_def\<close>)
    then have "kept 2 key e M e2 M1" using kept_trans [OF a(3), of 0] by simp
    moreover have "nbytes (store e2 r) < 1024 * 1024" using w n nb sz by (simp add: new_item_def word_less_nat_alt)
    ultimately show ?thesis using run i2 a(4,6) rA w xr cx n
      by (intro exI [of _ e2] exI [of _ r] exI [of _ M1] exI [of _ Q1] exI [of _ A1]) (simp add: new_item_def d1_def d2_def)
  qed
qed

section \<open>The commands\<close>

text \<open>What the client sees after the command: the outcome, and that its own item is as before.\<close>

definition append_post ::
  "bytes \<Rightarrow> addr \<Rightarrow> default_engine \<Rightarrow> (bytes \<rightharpoonup> addr) \<Rightarrow>
   (default_engine \<Rightarrow> ENGINE_ERROR_CODE \<Rightarrow> u64 option \<Rightarrow> (bytes \<rightharpoonup> addr) \<Rightarrow> bool) \<Rightarrow>
   (default_engine \<times> ENGINE_ERROR_CODE \<times> u64 option) option \<Rightarrow> bool" where
  "append_post key it e M R out \<longleftrightarrow>
     (\<exists>e' st cas M' Q' A'. out = Some (e', st, cas) \<and> cache_inv e' M' Q' A' \<and> kept 2 key e M e' M' \<and>
        it \<in> A' \<and> it \<notin> ran M' \<and> core (store e' it) = core (store e it) \<and> R e' st cas M')"

text \<open>Releasing the old item when nothing was stored.\<close>

lemma append_fails:
  assumes inv: "cache_inv e1 M1 Q1 A1" and x: "M key = Some x" "cache_inv e M Q A" "M1 key = Some x" and k: "kept n key e M e1 M1" "n \<le> 2"
    and it: "it \<in> A1" "it \<notin> ran M1" "core (store e1 it) = core (store e it)"
  shows "\<exists>e' A'. do_item_release e1 x = Some e' \<and> cache_inv e' M1 Q1 A' \<and> kept 2 key e M e' M1 \<and> it \<in> A' \<and>
    core (store e' it) = core (store e it)"
proof -
  have xr: "it \<noteq> x" using x(3) it(2) by (auto simp: ran_def)
  have xA: "x \<in> A1" using cache_inv_key [OF inv x(3)] by simp
  have only: "M1 j \<noteq> Some x" if "j \<noteq> key" for j using cache_inv_inj [OF inv x(3)] that by auto
  obtain e' A' where r: "do_item_release e1 x = Some e'" "cache_inv e' M1 Q1 A'" "A1 - {x} \<subseteq> A'" "kept 0 key e1 M1 e' M1" "\<forall>y. y \<noteq> x \<longrightarrow> store e' y = store e1 y"
    using release_kept [OF inv xA, of key, OF only] by blast
  have "kept 2 key e M e' M1" using kept_trans [OF k(1) r(4), of 2] k(2) by simp
  then show ?thesis using r(1-3,5) it xr by auto
qed

text \<open>The combined item replaces the old one and both references are given up.\<close>

lemma append_succeeds:
  assumes inv: "cache_inv e M Q A" and x: "M key = Some x" "refcount (store e x) \<noteq> 0" and r: "r \<in> A" "r \<notin> ran M"
    and n: "key_of (store e r) = key" "nbytes (store e r) < 1024 * 1024" and it: "it \<in> A" "it \<notin> ran M" "it \<noteq> r"
  shows "\<exists>e1 e2 e3 Q' A'. do_item_replace e x r = Some e1 \<and> do_item_release e1 x = Some e2 \<and> do_item_release e2 r = Some e3 \<and>
    cache_inv e3 (M(key \<mapsto> r)) Q' A' \<and> kept 0 key e M e3 (M(key \<mapsto> r)) \<and> it \<in> A' \<and> it \<notin> ran (M(key \<mapsto> r)) \<and>
    core (store e3 it) = core (store e it) \<and> same_value (store e3 r) (store e r)"
proof -
  let ?M = "M(key \<mapsto> r)"
  have xr: "x \<noteq> r" "it \<noteq> x" using x(1) r(2) it(2) by (auto simp: ran_def)
  have xA: "x \<in> A" using cache_inv_key [OF inv x(1)] by simp
  have kr: "?M key = Some r" by simp
  have only: "?M j \<noteq> Some x" "?M j \<noteq> Some r" if "j \<noteq> key" for j
    using that r(2) cache_inv_inj [OF inv x(1)] by (auto simp: ran_def)
  obtain e1 Q1 where e1: "do_item_replace e x r = Some e1" "cache_inv e1 ?M Q1 A" "kept 0 key e M e1 ?M" "same_except {x, r} e e1"
    "same_value (store e1 r) (store e r)"
    using replace_kept [OF inv x r n] by blast
  obtain e2 A2 where e2: "do_item_release e1 x = Some e2" "cache_inv e2 ?M Q1 A2" "A - {x} \<subseteq> A2" "kept 0 key e1 ?M e2 ?M" "\<forall>y. y \<noteq> x \<longrightarrow> store e2 y = store e1 y"
    using release_kept [OF e1(2) xA, of key, OF only(1)] by blast
  have r2: "r \<in> A2" using e2(3) r(1) xr by blast
  obtain e3 A3 where e3: "do_item_release e2 r = Some e3" "cache_inv e3 ?M Q1 A3" "A2 - {r} \<subseteq> A3" "kept 0 key e2 ?M e3 ?M" "\<forall>y. y \<noteq> r \<longrightarrow> store e3 y = store e2 y"
    "same_value (store e3 r) (store e2 r)"
    using release_kept [OF e2(2) r2, of key, OF only(2)] kr by blast
  have "kept 0 key e M e3 ?M" using kept_trans [OF e1(3) kept_trans [OF e2(4) e3(4), of 0], of 0] by simp
  moreover have "it \<in> A3" using e2(3) e3(3) it(1,3) xr by blast
  moreover have "core (store e3 it) = core (store e it)" using e3(5) e2(5) e1(4) it(3) xr by (simp add: same_except_def)
  moreover have "same_value (store e3 r) (store e r)" using e1(5) e2(5) e3(6) xr by (simp add: same_value_def)
  moreover have "it \<notin> ran ?M" using it(2,3) by (auto simp: ran_def)
  ultimately show ?thesis using e1(1) e2(1) e3(1,2) by blast
qed

lemma append_miss:
  assumes inv: "cache_inv e M Q A" and it: "it \<in> A" "it \<notin> ran M" "key_of (store e it) = key" and l: "live e M key = None"
    and op: "op \<in> {OPERATION_APPEND, OPERATION_PREPEND}"
  shows "append_post key it e M (\<lambda>e' st cas M'. st = ENGINE_NOT_STORED \<and> M' = M(key := None)) (do_store_item e it op)"
proof -
  obtain e1 Q1 A1 where g: "do_item_get e key = Some (e1, NULL)" "cache_inv e1 (M(key := None)) Q1 A1" "A - A1 \<subseteq> set_option (M key)"
    "same_except (set_option (M key)) e e1"
    using do_item_get_ok [OF inv, of key] l by auto
  have nk: "it \<notin> set_option (M key)" using it(2) by (auto simp: ran_def elem_set)
  have "kept 0 key e M e1 (M(key := None))" by (rule kept_same [OF g(4)]) (use cache_inv_inj [OF inv] in \<open>auto simp: elem_set\<close>)
  then have "kept 2 key e M e1 (M(key := None))" unfolding kept_def by (meson le0 le_trans)
  moreover have "it \<in> A1" "core (store e1 it) = core (store e it)" using it(1) nk g(3,4) by (auto simp: same_except_def)
  moreover have "it \<notin> ran (M(key := None))" using it(2) by (auto simp: ran_def split: if_splits)
  moreover have "do_store_item e it op = Some (e1, ENGINE_NOT_STORED, None)"
    using g(1) it(3) op by (auto simp: do_store_item_def finish_store_def)
  ultimately show ?thesis unfolding append_post_def using g(2) by blast
qed

text \<open>The outcome for a key with the live item \<open>x\<close> once the CAS value of the client has been accepted, and in general.\<close>

definition append_stored ::
  "default_engine \<Rightarrow> bytes \<Rightarrow> addr \<Rightarrow> addr \<Rightarrow> ENGINE_STORE_OPERATION \<Rightarrow>
   default_engine \<Rightarrow> ENGINE_ERROR_CODE \<Rightarrow> u64 option \<Rightarrow> (bytes \<rightharpoonup> addr) \<Rightarrow> bool" where
  "append_stored e key it x op e' st cas M' \<longleftrightarrow>
     st = ENGINE_NOT_STORED \<and> M' key = Some x \<or>
     st = ENGINE_SUCCESS \<and>
       (\<exists>r. M' key = Some r \<and>
          item_data (store e' r) = (if op = OPERATION_APPEND then item_data (store e x) @ item_data (store e it)
             else item_data (store e it) @ item_data (store e x)) \<and>
          exptime (store e' r) = exptime (store e x) \<and> it_flags (store e' r) = it_flags (store e x) \<and>
          cas = Some (item_get_cas (store e' r)))"

definition append_result ::
  "default_engine \<Rightarrow> (bytes \<rightharpoonup> addr) \<Rightarrow> bytes \<Rightarrow> addr \<Rightarrow> addr \<Rightarrow> ENGINE_STORE_OPERATION \<Rightarrow>
   default_engine \<Rightarrow> ENGINE_ERROR_CODE \<Rightarrow> u64 option \<Rightarrow> (bytes \<rightharpoonup> addr) \<Rightarrow> bool" where
  "append_result e M key it x op e' st cas M' \<longleftrightarrow>
     (let c = item_get_cas (store e it)
      in if c \<noteq> 0 \<and> c \<noteq> item_get_cas (store e x) then st = ENGINE_KEY_EEXISTS \<and> M' = M
         else append_stored e key it x op e' st cas M')"

lemma append_combined:
  assumes inv: "cache_inv e M Q A" and x: "M key = Some x" "refcount (store e x) \<noteq> 0" and busy: "\<not> evictable e (store e x)"
    and it: "it \<in> A" "it \<notin> ran M" "key_of (store e it) = key" and fresh: "\<And>c. pages_fresh (slabs e) c"
    and pl: "POWER_SMALLEST \<le> power_largest (slabs e)" "power_largest (slabs e) < POWER_LARGEST"
    and fill: "filled (store e it)" "filled (store e x)" and sz: "unat (nbytes (store e it)) + unat (nbytes (store e x)) < 1024 * 1024"
  shows "append_post key it e M (append_stored e key it x op)
    (do {
       (e, new_it) \<leftarrow> combine_items e it x op;
       if new_it = NULL then do { e \<leftarrow> release_opt e x; Some (e, ENGINE_NOT_STORED, None) }
       else do { e \<leftarrow> link_or_replace e x new_it; finish_store e x new_it new_it ENGINE_SUCCESS }
     })"
    (is "append_post _ _ _ _ _ ?out")
proof -
  obtain e2 r M2 Q2 A2 where c: "combine_items e it x op = Some (e2, r)" "cache_inv e2 M2 Q2 A2" "kept 2 key e M e2 M2" "M2 key = Some x"
    "refcount (store e2 x) = refcount (store e x)" "it \<in> A2" "it \<notin> ran M2" "it \<noteq> r" "core (store e2 it) = core (store e it)"
    "r \<noteq> NULL \<longrightarrow> r \<in> A2 \<and> r \<notin> ran M2 \<and> key_of (store e2 r) = key \<and> nbytes (store e2 r) < 1024 * 1024 \<and>
     item_data (store e2 r) = (if op = OPERATION_APPEND then item_data (store e x) @ item_data (store e it)
        else item_data (store e it) @ item_data (store e x)) \<and>
     exptime (store e2 r) = exptime (store e x) \<and> it_flags (store e2 r) = it_flags (store e x)"
    using combine_items_ok [OF inv x(1) busy it fresh pl fill sz, of op] by blast
  have xn: "x \<noteq> NULL" using cache_inv_key [OF inv x(1)] by simp
  show ?thesis
  proof (cases "r = NULL")
    case True
    obtain e3 A3 where f: "do_item_release e2 x = Some e3" "cache_inv e3 M2 Q2 A3" "kept 2 key e M e3 M2" "it \<in> A3" "core (store e3 it) = core (store e it)"
      using append_fails [OF c(2) x(1) inv c(4,3) _ c(6,7,9)] by blast
    have "?out = Some (e3, ENGINE_NOT_STORED, None)" using c(1) True f(1) xn by (simp add: release_opt_def)
    moreover have "append_stored e key it x op e3 ENGINE_NOT_STORED None M2" using c(4) by (simp add: append_stored_def)
    ultimately show ?thesis unfolding append_post_def using f(2-5) c(7) by blast
  next
    case r: False
    obtain e3 e4 e5 Q5 A5 where s: "do_item_replace e2 x r = Some e3" "do_item_release e3 x = Some e4" "do_item_release e4 r = Some e5"
      "cache_inv e5 (M2(key \<mapsto> r)) Q5 A5" "kept 0 key e2 M2 e5 (M2(key \<mapsto> r))" "it \<in> A5" "it \<notin> ran (M2(key \<mapsto> r))"
      "core (store e5 it) = core (store e2 it)" "same_value (store e5 r) (store e2 r)"
      using append_succeeds [OF c(2,4) _ _ _ _ _ c(6-8)] c(5,10) x(2) r by auto
    have "?out = Some (e5, ENGINE_SUCCESS, Some (item_get_cas (store e5 r)))"
      using c(1) r xn s(1-3) by (simp add: finish_store_def release_opt_def link_or_replace_def)
    moreover have "kept 2 key e M e5 (M2(key \<mapsto> r))" using kept_trans [OF c(3) s(5), of 2] by simp
    moreover have "append_stored e key it x op e5 ENGINE_SUCCESS (Some (item_get_cas (store e5 r))) (M2(key \<mapsto> r))"
      using s(9) c(10) r by (auto simp: same_value_def append_stored_def)
    moreover have "core (store e5 it) = core (store e it)" using s(8) c(9) by simp
    ultimately show ?thesis unfolding append_post_def using s(4,6,7) by blast
  qed
qed

lemma append_hit:
  assumes inv: "cache_inv e M Q A" and it: "it \<in> A" "it \<notin> ran M" "key_of (store e it) = key" and l: "live e M key = Some x"
    and op: "op \<in> {OPERATION_APPEND, OPERATION_PREPEND}" and fresh: "\<And>c. pages_fresh (slabs e) c"
    and pl: "POWER_SMALLEST \<le> power_largest (slabs e)" "power_largest (slabs e) < POWER_LARGEST"
    and rc: "refcount (store e x) \<noteq> 65535" and time: "it_time (store e x) \<le> current_time e" "current_time e < - TAIL_REPAIR_TIME"
    and fill: "filled (store e it)" "filled (store e x)" and sz: "unat (nbytes (store e it)) + unat (nbytes (store e x)) < 1024 * 1024"
  shows "append_post key it e M (append_result e M key it x op) (do_store_item e it op)"
proof -
  have x: "M key = Some x" using l by (simp add: live_def split: option.splits if_splits)
  have xn: "x \<noteq> NULL" "it \<noteq> x" using cache_inv_key [OF inv x] x it(2) by (auto simp: ran_def)
  obtain e1 Q1 where g: "do_item_get e key = Some (e1, x)" "cache_inv e1 M Q1 A" "kept 0 key e M e1 M" "same_except {x} e e1"
    and busy: "\<not> evictable e1 (store e1 x)" and sv: "same_value (store e1 x) (store e x)" "item_get_cas (store e1 x) = item_get_cas (store e x)"
    and rx: "refcount (store e1 x) \<noteq> 0"
    using lookup_kept [OF inv l rc time] by blast
  note fr = do_item_get_frame [OF g(1)]
  have sl: "\<And>c. pages_fresh (slabs e1) c" "POWER_SMALLEST \<le> power_largest (slabs e1)" "power_largest (slabs e1) < POWER_LARGEST"
    using pages_fresh_frame [OF fresh fr] fr pl by (simp_all add: slab_frame_def)
  have ci: "core (store e1 it) = core (store e it)" using g(4) xn by (simp add: same_except_def)
  note cf = core_fields [OF ci] core_key [OF ci] item_get_cas_core [OF ci]
  have get: "do_item_get e (key_of (store e it)) = Some (e1, x)" using g(1) it(3) by simp
  show ?thesis
  proof (cases "item_get_cas (store e it) \<noteq> 0 \<and> item_get_cas (store e it) \<noteq> item_get_cas (store e x)")
    case True
    obtain e2 A2 where f: "do_item_release e1 x = Some e2" "cache_inv e2 M Q1 A2" "kept 2 key e M e2 M" "it \<in> A2" "core (store e2 it) = core (store e it)"
      using append_fails [OF g(2) x inv x g(3) _ it(1,2) ci] by auto
    have "do_store_item e it op = Some (e2, ENGINE_KEY_EEXISTS, None)"
      using op True xn f(1) sv(2) cf(3) unfolding do_store_item_def get by (auto simp: finish_store_def release_opt_def)
    then show ?thesis unfolding append_post_def append_result_def using f(2-5) it(2) True by auto
  next
    case False
    have fill1: "filled (store e1 it)" "filled (store e1 x)" "unat (nbytes (store e1 it)) + unat (nbytes (store e1 x)) < 1024 * 1024"
      using fill sz sv(1) cf by (simp_all add: filled_def same_value_def)
    have k1: "key_of (store e1 it) = key" using cf it(3) by simp
    have run: "do_store_item e it op = do {
       (e, new_it) \<leftarrow> combine_items e1 it x op;
       if new_it = NULL then do { e \<leftarrow> release_opt e x; Some (e, ENGINE_NOT_STORED, None) }
       else do { e \<leftarrow> link_or_replace e x new_it; finish_store e x new_it new_it ENGINE_SUCCESS } }"
      using op False xn sv(2) cf(3) unfolding do_store_item_def get by auto
    obtain e' st cas M' Q' A' where p: "do_store_item e it op = Some (e', st, cas)" "cache_inv e' M' Q' A'" "kept 2 key e1 M e' M'"
      "it \<in> A'" "it \<notin> ran M'" "core (store e' it) = core (store e1 it)" "append_stored e1 key it x op e' st cas M'"
      using append_combined [OF g(2) x rx busy it(1,2) k1 sl fill1, of op] unfolding run [symmetric] append_post_def by blast
    have eq: "item_data (store e1 x) = item_data (store e x)" "exptime (store e1 x) = exptime (store e x)" "it_flags (store e1 x) = it_flags (store e x)"
      "item_data (store e1 it) = item_data (store e it)"
      using sv(1) cf by (simp_all add: same_value_def)
    have "append_result e M key it x op e' st cas M'"
      unfolding append_result_def Let_def if_not_P [OF False] using p(7) unfolding append_stored_def eq .
    moreover have "kept 2 key e M e' M'" using kept_trans [OF g(3) p(3), of 2] by simp
    moreover have "core (store e' it) = core (store e it)" using p(6) ci by simp
    ultimately show ?thesis unfolding append_post_def using p(1,2,4,5) by blast
  qed
qed

section \<open>Properties\<close>



end
