(* ===== verification/ItemRefs.thy ===== *)
theory ItemRefs
  imports ItemArith ItemAppend
begin

text \<open>
  Accounting of references.  A client holds references to items: one for an item it allocated, one for
  every lookup that found an item.  The operations of the item layer keep an exact account: the
  reference count of every allocated item is the number of references clients hold, and an allocated item
  that nobody holds is linked.
\<close>

section \<open>Counted references\<close>

text \<open>\<open>H x\<close> is the number of references clients hold to \<open>x\<close>.  Linked items carry a time that is not in the future.\<close>

definition counted ::
  "default_engine \<Rightarrow> (bytes \<rightharpoonup> addr) \<Rightarrow> (nat \<Rightarrow> addr list) \<Rightarrow> addr set \<Rightarrow> (addr \<Rightarrow> nat) \<Rightarrow> bool" where
  "counted e M Q A H \<longleftrightarrow> cache_inv e M Q A \<and>
     (\<forall>x. H x = (if x \<in> A then unat (refcount (store e x)) else 0)) \<and>
     (\<forall>x \<in> A. x \<notin> ran M \<longrightarrow> 0 < H x) \<and>
     (\<forall>x \<in> ran M. it_time (store e x) \<le> current_time e)"

lemma countedI:
  assumes "cache_inv e M Q A" "\<And>x. x \<in> A \<Longrightarrow> H x = unat (refcount (store e x))" "\<And>x. x \<notin> A \<Longrightarrow> H x = 0"
    "\<And>x. x \<in> A \<Longrightarrow> x \<notin> ran M \<Longrightarrow> 0 < H x" "\<And>x. x \<in> ran M \<Longrightarrow> it_time (store e x) \<le> current_time e"
  shows "counted e M Q A H"
  using assms unfolding counted_def by simp

lemma countedD:
  assumes "counted e M Q A H"
  shows "cache_inv e M Q A" "x \<in> A \<Longrightarrow> unat (refcount (store e x)) = H x" "x \<notin> A \<Longrightarrow> H x = 0"
    "x \<in> A \<Longrightarrow> x \<notin> ran M \<Longrightarrow> 0 < H x" "x \<in> ran M \<Longrightarrow> it_time (store e x) \<le> current_time e" "0 < H x \<Longrightarrow> x \<in> A"
    "x \<in> A \<Longrightarrow> refcount (store e x) = 0 \<longleftrightarrow> H x = 0"
proof -
  have h: "H x = (if x \<in> A then unat (refcount (store e x)) else 0)" for x using assms by (simp add: counted_def)
  show "cache_inv e M Q A" "x \<in> A \<Longrightarrow> x \<notin> ran M \<Longrightarrow> 0 < H x" "x \<in> ran M \<Longrightarrow> it_time (store e x) \<le> current_time e"
    using assms unfolding counted_def by blast+
  show "x \<in> A \<Longrightarrow> unat (refcount (store e x)) = H x" "x \<notin> A \<Longrightarrow> H x = 0" using h [of x] by simp_all
  show "0 < H x \<Longrightarrow> x \<in> A" using h [of x] by (simp split: if_splits)
  show "x \<in> A \<Longrightarrow> refcount (store e x) = 0 \<longleftrightarrow> H x = 0" using h [of x] by (simp add: unat_eq_zero)
qed

lemma core_refcount: "core a = core b \<Longrightarrow> refcount a = refcount b \<and> it_time a = it_time b"
  using core_fields [of a b] by simp

text \<open>Items that are neither linked nor used by the operation stay as they are.\<close>

definition spare :: "default_engine \<Rightarrow> (bytes \<rightharpoonup> addr) \<Rightarrow> addr set \<Rightarrow> default_engine \<Rightarrow> (bytes \<rightharpoonup> addr) \<Rightarrow> addr set \<Rightarrow> bool" where
  "spare e M A e' M' A' \<longleftrightarrow> env_same e e' \<and>
     (\<forall>x \<in> A. x \<notin> ran M \<longrightarrow> x \<in> A' \<and> x \<notin> ran M' \<and> core (store e' x) = core (store e x))"

lemma spare_refl [simp]: "spare e M A e M A"
  by (simp add: spare_def)

lemma spare_trans: "spare e M A e' M' A' \<Longrightarrow> spare e' M' A' e'' M'' A'' \<Longrightarrow> spare e M A e'' M'' A''"
  using env_same_trans [of e e' e''] by (simp add: spare_def)

section \<open>The primitives\<close>

lemma ran_unlink: "cache_inv e M Q A \<Longrightarrow> M k = Some x \<Longrightarrow> ran (M(k := None)) = ran M - {x}"
  using ran_remove [of M k x] cache_inv_inj [of e M Q A k x] by blast

lemma ran_replace: "cache_inv e M Q A \<Longrightarrow> M k = Some x \<Longrightarrow> ran (M(k \<mapsto> y)) = insert y (ran M - {x})"
  using ran_upd_fresh [of "M(k := None)" k y] ran_unlink [of e M Q A k x] by simp

lemma counted_unlink:
  assumes c: "counted e M Q A H" and k: "M k = Some x"
  shows "\<exists>e' Q' A'. do_item_unlink e x = Some e' \<and> counted e' (M(k := None)) Q' A' H \<and> spare e M A e' (M(k := None)) A' \<and>
    (\<forall>y. y \<noteq> x \<longrightarrow> core (store e' y) = core (store e y))"
proof -
  note D = countedD [OF c]
  let ?A = "if refcount (store e x) = 0 then A - {x} else A"
  obtain e' where e': "do_item_unlink e x = Some e'" "cache_inv e' (M(k := None)) (drop_item (cls e x) x Q) ?A"
    "\<forall>y. y \<noteq> x \<longrightarrow> core (store e' y) = core (store e y)" "core (store e' x) = unlinked_item (core (store e x))" "env_same e e'"
    using do_item_unlink_ok [OF D(1) k] by blast
  have xA: "x \<in> A" "x \<in> ran M" using cache_inv_key [OF D(1) k] k by (auto simp: ran_def)
  have rx: "refcount (store e' x) = refcount (store e x)" if "refcount (store e x) \<noteq> 0"
    using arg_cong [OF e'(4), of refcount] that by (simp add: core_def unlinked_item_def)
  have ran: "y \<in> ran (M(k := None)) \<longleftrightarrow> y \<in> ran M \<and> y \<noteq> x" for y
    using ran_unlink [OF D(1) k] by simp
  have same: "refcount (store e' y) = refcount (store e y)" "it_time (store e' y) = it_time (store e y)" if "y \<noteq> x" for y
    using e'(3) that core_refcount [of "store e' y" "store e y"] by simp_all
  have "counted e' (M(k := None)) (drop_item (cls e x) x Q) ?A H"
  proof (rule countedI [OF e'(2)])
    show "H y = unat (refcount (store e' y))" if "y \<in> ?A" for y
      using that D(2) [of y] rx same(1) [of y] by (cases "y = x") (auto split: if_splits)
    show "H y = 0" if "y \<notin> ?A" for y using that D(3) [of y] D(7) [OF xA(1)] by (auto split: if_splits)
    show "0 < H y" if "y \<in> ?A" "y \<notin> ran (M(k := None))" for y
      using that ran [of y] D(4) [of y] D(7) [OF xA(1)] by (cases "y = x") (auto split: if_splits)
    show "it_time (store e' y) \<le> current_time e'" if "y \<in> ran (M(k := None))" for y
      using that ran [of y] same(2) [of y] D(5) [of y] e'(5) by (simp add: env_same_def)
  qed
  moreover have "y \<in> ?A \<and> y \<notin> ran (M(k := None)) \<and> core (store e' y) = core (store e y)" if "y \<in> A" "y \<notin> ran M" for y
    using that e'(3) ran [of y] xA(2) by (cases "y = x") simp_all
  then have "spare e M A e' (M(k := None)) ?A" using e'(5) by (simp add: spare_def)
  ultimately show ?thesis using e'(1,3) by blast
qed

lemma counted_link:
  assumes c: "counted e M Q A H" and it: "it \<in> A" "it \<notin> ran M" "key_of (store e it) = k" "M k = None" "nbytes (store e it) < 1024 * 1024"
  shows "\<exists>e' Q'. do_item_link e it = Some e' \<and> counted e' (M(k \<mapsto> it)) Q' A H \<and>
    (\<forall>x. x \<noteq> it \<longrightarrow> core (store e' x) = core (store e x)) \<and> env_same e e'"
proof -
  note D = countedD [OF c]
  obtain e' Q' where e': "do_item_link e it = Some e'" "cache_inv e' (M(k \<mapsto> it)) Q' A" "\<forall>x. x \<noteq> it \<longrightarrow> core (store e' x) = core (store e x)"
    "core (store e' it) = (core (store e it))\<lparr>iflag := iflag (store e it) OR ITEM_LINKED, it_time := current_time e,
      it_cas := if bit (iflag (store e it)) 0 then cas_id e + 1 else it_cas (store e it)\<rparr>" "env_same e e'"
    using do_item_link_ok [OF D(1) it(1,2) it(3) [symmetric] it(4,5) refl] by blast
  have s: "refcount (store e' it) = refcount (store e it)" "it_time (store e' it) = current_time e"
    using arg_cong [OF e'(4), of refcount] arg_cong [OF e'(4), of it_time] by (simp_all add: core_def)
  have other: "refcount (store e' y) = refcount (store e y)" "it_time (store e' y) = it_time (store e y)" if "y \<noteq> it" for y
    using e'(3) that core_refcount [of "store e' y" "store e y"] by simp_all
  have same: "refcount (store e' y) = refcount (store e y)" for y using other(1) [of y] s(1) by (cases "y = it") simp_all
  have ran: "ran (M(k \<mapsto> it)) = insert it (ran M)" using ran_upd_fresh [of M k it] it(4) by simp
  have "counted e' (M(k \<mapsto> it)) Q' A H"
  proof (rule countedI [OF e'(2)])
    show "it_time (store e' y) \<le> current_time e'" if "y \<in> ran (M(k \<mapsto> it))" for y
      using that s(2) D(5) [of y] other(2) [of y] e'(5) unfolding ran by (cases "y = it") (simp_all add: env_same_def)
    show "H y = unat (refcount (store e' y))" if "y \<in> A" for y using D(2) [OF that] same [of y] by simp
    show "H y = 0" if "y \<notin> A" for y by (rule D(3) [OF that])
    show "0 < H y" if "y \<in> A" "y \<notin> ran (M(k \<mapsto> it))" for y using that D(4) [OF that(1)] unfolding ran by simp
  qed
  then show ?thesis using e'(1,3,5) by blast
qed

lemma counted_replace:
  assumes c: "counted e M Q A H" and old: "M k = Some old" "0 < H old"
    and it: "it \<in> A" "it \<notin> ran M" "key_of (store e it) = k" "nbytes (store e it) < 1024 * 1024"
  shows "\<exists>e' Q'. do_item_replace e old it = Some e' \<and> counted e' (M(k \<mapsto> it)) Q' A H \<and> same_except {old, it} e e'"
proof -
  note D = countedD [OF c]
  have oA: "old \<in> A" "old \<noteq> it" using cache_inv_key [OF D(1) old(1)] old(1) it(2) by (auto simp: ran_def)
  have "refcount (store e old) \<noteq> 0" using D(7) [OF oA(1)] old(2) by simp
  then obtain e' Q' where e': "do_item_replace e old it = Some e'" "cache_inv e' (M(k \<mapsto> it)) Q' A" "same_except {old, it} e e'"
    "refcount (store e' old) = refcount (store e old)"
    "core (store e' it) = (core (store e it))\<lparr>iflag := iflag (store e it) OR ITEM_LINKED, it_time := current_time e,
      it_cas := if bit (iflag (store e it)) 0 then cas_id e + 1 else it_cas (store e it)\<rparr>"
    using do_item_replace_ok [OF D(1) old(1) _ it] by blast
  have s: "refcount (store e' it) = refcount (store e it)" "it_time (store e' it) = current_time e"
    using arg_cong [OF e'(5), of refcount] arg_cong [OF e'(5), of it_time] by (simp_all add: core_def)
  have other: "refcount (store e' y) = refcount (store e y) \<and> it_time (store e' y) = it_time (store e y)" if "y \<noteq> old" "y \<noteq> it" for y
    using e'(3) that core_refcount [of "store e' y" "store e y"] by (simp add: same_except_def)
  have same: "refcount (store e' y) = refcount (store e y)" for y using other [of y] s(1) e'(4) by (cases "y = old \<or> y = it") auto
  have ran: "y \<in> ran (M(k \<mapsto> it)) \<longleftrightarrow> y = it \<or> y \<in> ran M \<and> y \<noteq> old" for y
    using ran_replace [OF D(1) old(1), of it] oA(2) by auto
  have env: "current_time e' = current_time e" using e'(3) by (simp add: same_except_def env_same_def)
  have "counted e' (M(k \<mapsto> it)) Q' A H"
  proof (rule countedI [OF e'(2)])
    show "0 < H y" if "y \<in> A" "y \<notin> ran (M(k \<mapsto> it))" for y using that ran [of y] D(4) [of y] old(2) by auto
    show "it_time (store e' y) \<le> current_time e'" if "y \<in> ran (M(k \<mapsto> it))" for y
      using that ran [of y] s(2) D(5) [of y] other [of y] env by (cases "y = it") auto
    show "H y = unat (refcount (store e' y))" if "y \<in> A" for y using D(2) [OF that] same [of y] by simp
    show "H y = 0" if "y \<notin> A" for y by (rule D(3) [OF that])
  qed
  then show ?thesis using e'(1,3) by blast
qed

lemma counted_update:
  assumes c: "counted e M Q A H" and it: "it \<in> ran M"
  shows "\<exists>e' Q'. do_item_update e it = Some e' \<and> counted e' M Q' A H \<and> same_except {it} e e'"
proof -
  note D = countedD [OF c]
  have itA: "it \<in> A" using cache_inv_D(5) [OF D(1)] it by blast
  obtain e' Q' where e': "do_item_update e it = Some e'" "cache_inv e' M Q' A" "same_except {it} e e'"
    "core (store e' it) = (core (store e it))\<lparr>it_time := touched_time e (store e it)\<rparr>"
    using do_item_update_ok [OF D(1) itA] it by auto
  have s: "refcount (store e' it) = refcount (store e it)" "it_time (store e' it) = touched_time e (store e it)"
    using arg_cong [OF e'(4), of refcount] arg_cong [OF e'(4), of it_time] by (simp_all add: core_def)
  have other: "refcount (store e' y) = refcount (store e y)" "it_time (store e' y) = it_time (store e y)" if "y \<noteq> it" for y
    using e'(3) that core_refcount [of "store e' y" "store e y"] by (simp_all add: same_except_def)
  have env: "current_time e' = current_time e" using e'(3) by (simp add: same_except_def env_same_def)
  have "counted e' M Q' A H"
  proof (rule countedI [OF e'(2)])
    show "H y = unat (refcount (store e' y))" if "y \<in> A" for y using D(2) [OF that] other(1) [of y] s(1) by (cases "y = it") simp_all
    show "H y = 0" if "y \<notin> A" for y by (rule D(3) [OF that])
    show "0 < H y" if "y \<in> A" "y \<notin> ran M" for y by (rule D(4) [OF that])
    show "it_time (store e' y) \<le> current_time e'" if "y \<in> ran M" for y
      using D(5) [OF that] other(2) [of y] s(2) env by (cases "y = it") (simp_all add: touched_time_def)
  qed
  then show ?thesis using e'(1,3) by blast
qed

lemma counted_release:
  assumes c: "counted e M Q A H" and x: "0 < H x"
  shows "\<exists>e' A'. do_item_release e x = Some e' \<and> counted e' M Q A' (H(x := H x - 1)) \<and> (\<forall>y. y \<noteq> x \<longrightarrow> store e' y = store e y) \<and>
    env_same e e' \<and> A - {x} \<subseteq> A'"
proof -
  note D = countedD [OF c]
  let ?r = "refcount (store e x)"
  define A' where "A' = (if ?r \<le> 1 \<and> x \<notin> ran M then A - {x} else A)"
  have xA: "x \<in> A" by (rule D(6) [OF x])
  have rx: "unat ?r = H x" by (rule D(2) [OF xA])
  have rx0: "?r \<noteq> 0" using D(7) [OF xA] x by simp
  obtain e' where e': "do_item_release e x = Some e'" "cache_inv e' M Q A'" "\<forall>y. y \<noteq> x \<longrightarrow> store e' y = store e y" "env_same e e'"
    "?r > 1 \<or> x \<in> ran M \<longrightarrow> store e' x = (store e x)\<lparr>refcount := ?r - 1\<rparr>"
    using do_item_release_ok [OF D(1) xA, folded A'_def] unfolding if_not_P [OF rx0] by blast
  have dec: "unat (?r - 1) = H x - 1" using rx x unat_sub [of 1 ?r] by (simp add: word_le_nat_alt)
  have one: "?r \<le> 1 \<longleftrightarrow> H x = 1" using rx x by (auto simp: word_le_nat_alt)
  have stay: "store e' x = (store e x)\<lparr>refcount := ?r - 1\<rparr>" if "x \<in> A'" using e'(5) that by (auto simp: not_le A'_def split: if_splits)
  have "counted e' M Q A' (H(x := H x - 1))"
  proof (rule countedI [OF e'(2)])
    show "(H(x := H x - 1)) y = unat (refcount (store e' y))" if "y \<in> A'" for y
      using that stay dec D(2) [of y] e'(3) by (cases "y = x") (auto simp: A'_def split: if_splits)
    show "(H(x := H x - 1)) y = 0" if "y \<notin> A'" for y
      using that D(3) [of y] one xA by (cases "y = x") (auto simp: A'_def split: if_splits)
    show "0 < (H(x := H x - 1)) y" if "y \<in> A'" "y \<notin> ran M" for y
      using that D(4) [of y] one x by (cases "y = x") (auto simp: A'_def split: if_splits)
    show "it_time (store e' y) \<le> current_time e'" if "y \<in> ran M" for y
      using D(5) [OF that] e'(3,4,5) that by (cases "y = x") (simp_all add: env_same_def)
  qed
  moreover have "A - {x} \<subseteq> A'" by (auto simp: A'_def)
  ultimately show ?thesis using e'(1,3,4) by blast
qed

lemma counted_write:
  assumes c: "counted e M Q A H"
  shows "counted (write_data e it off d) M Q A H"
proof (rule countedI [OF write_data_inv [OF countedD(1) [OF c]]])
  note w = write_data_frame [where e = e and it = it and off = off and d = d]
  have s: "refcount (store (write_data e it off d) y) = refcount (store e y)" "it_time (store (write_data e it off d) y) = it_time (store e y)" for y
    by (simp_all add: write_data_def)
  show "H y = unat (refcount (store (write_data e it off d) y))" if "y \<in> A" for y using countedD(2) [OF c that] s by simp
  show "it_time (store (write_data e it off d) y) \<le> current_time (write_data e it off d)" if "y \<in> ran M" for y
    using countedD(5) [OF c that] s w(1) by (simp add: env_same_def)
qed (use countedD(3,4) [OF c] in blast)+

text \<open>No client has held a linked item since before the repair time.\<close>

definition fresh_refs :: "default_engine \<Rightarrow> (bytes \<rightharpoonup> addr) \<Rightarrow> (addr \<Rightarrow> nat) \<Rightarrow> bool" where
  "fresh_refs e M H \<longleftrightarrow> (\<forall>x \<in> ran M. 0 < H x \<longrightarrow> \<not> it_time (store e x) + TAIL_REPAIR_TIME < current_time e)"

lemma fresh_refs_unlink:
  assumes "cache_inv e M Q A" "M k = Some x" "fresh_refs e M H" "\<forall>y. y \<noteq> x \<longrightarrow> core (store e' y) = core (store e y)" "env_same e e'"
  shows "fresh_refs e' (M(k := None)) H"
  unfolding fresh_refs_def ran_unlink [OF assms(1,2)]
proof (intro ballI impI)
  fix y assume y: "y \<in> ran M - {x}" "0 < H y"
  then have "it_time (store e' y) = it_time (store e y)" using assms(4) core_refcount [of "store e' y" "store e y"] by simp
  then show "\<not> it_time (store e' y) + TAIL_REPAIR_TIME < current_time e'" using assms(3,5) y by (simp add: fresh_refs_def env_same_def)
qed

lemma do_item_get_dead:
  assumes "cache_inv e M Q A" "M k = Some x" "dead e (store e x)"
  shows "do_item_get e k = map_option (\<lambda>e. (e, NULL)) (do_item_unlink e x)"
proof -
  have "assoc_find e (srv_hash e k) k = Some x" using ht.find_law [OF cache_inv_D(1) [OF assms(1)], of k] assms(2) by simp
  then show ?thesis using cache_inv_key [OF assms(1,2)] assms(3) by (auto simp: do_item_get_def dead_def map_option_case split: option.splits)
qed

lemma counted_get:
  assumes c: "counted e M Q A H" and b: "\<And>x. H x < 65535" and now: "current_time e < - TAIL_REPAIR_TIME"
  shows "\<exists>e' r M' Q' A'. do_item_get e k = Some (e', r) \<and> counted e' M' Q' A' (if r = NULL then H else H(r := H r + 1)) \<and>
    spare e M A e' M' A' \<and> (if r = NULL then M' = M(k := None) else M' = M \<and> M k = Some r \<and> same_value (store e' r) (store e r)) \<and>
    (fresh_refs e M H \<longrightarrow> fresh_refs e' M' (if r = NULL then H else H(r := H r + 1)))"
proof (cases "live e M k")
  case None
  note D = countedD [OF c]
  show ?thesis
  proof (cases "M k")
    case no: None
    then have "do_item_get e k = Some (e, NULL)" "M(k := None) = M"
      using ht.find_law [OF cache_inv_D(1) [OF D(1)], of k] by (auto simp: do_item_get_def)
    then show ?thesis using c by (intro exI [of _ e] exI [of _ NULL] exI [of _ M] exI [of _ Q] exI [of _ A]) simp
  next
    case (Some x)
    have dd: "dead e (store e x)" using None Some by (auto simp: live_def split: if_splits)
    obtain e' Q' A' where u: "do_item_unlink e x = Some e'" "counted e' (M(k := None)) Q' A' H" "spare e M A e' (M(k := None)) A'"
      "\<forall>y. y \<noteq> x \<longrightarrow> core (store e' y) = core (store e y)"
      using counted_unlink [OF c Some] by blast
    have "fresh_refs e' (M(k := None)) H" if "fresh_refs e M H"
      using fresh_refs_unlink [OF D(1) Some that u(4)] u(3) by (simp add: spare_def)
    then show ?thesis using u do_item_get_dead [OF D(1) Some dd] by (intro exI [of _ e'] exI [of _ NULL] exI [of _ "M(k := None)"] exI [of _ Q'] exI [of _ A']) simp
  qed
next
  case (Some x)
  note D = countedD [OF c]
  have x: "M k = Some x" using Some by (simp add: live_def split: option.splits if_splits)
  have xA: "x \<in> A" "x \<noteq> NULL" "x \<in> ran M" using cache_inv_key [OF D(1) x] x by (auto simp: ran_def)
  obtain e' Q' where g: "do_item_get e k = Some (e', x)" "cache_inv e' M Q' A" "same_except {x} e e'"
    "core (store e' x) = (core (store e x))\<lparr>it_time := touched_time e (store e x), refcount := refcount (store e x) + 1\<rparr>"
    using do_item_get_ok [OF D(1), of k] Some x by auto
  have s: "refcount (store e' x) = refcount (store e x) + 1" "it_time (store e' x) = touched_time e (store e x)"
    using arg_cong [OF g(4), of refcount] arg_cong [OF g(4), of it_time] by (simp_all add: core_def)
  have inc: "unat (refcount (store e' x)) = H x + 1"
    using D(2) [OF xA(1)] b [of x] unfolding s(1) by (simp add: unat_word_ariths)
  have other: "refcount (store e' y) = refcount (store e y)" "it_time (store e' y) = it_time (store e y)" if "y \<noteq> x" for y
    using g(3) that core_refcount [of "store e' y" "store e y"] by (simp_all add: same_except_def)
  have env: "current_time e' = current_time e" "env_same e e'" using g(3) by (simp_all add: same_except_def env_same_def)
  have "counted e' M Q' A (H(x := H x + 1))"
  proof (rule countedI [OF g(2)])
    show "(H(x := H x + 1)) y = unat (refcount (store e' y))" if "y \<in> A" for y using D(2) [OF that] other(1) [of y] inc by (cases "y = x") simp_all
    show "(H(x := H x + 1)) y = 0" if "y \<notin> A" for y using D(3) [OF that] that xA(1) by auto
    show "0 < (H(x := H x + 1)) y" if "y \<in> A" "y \<notin> ran M" for y using D(4) [OF that] by simp
    show "it_time (store e' y) \<le> current_time e'" if "y \<in> ran M" for y
      using D(5) [OF that] other(2) [of y] s(2) env by (cases "y = x") (simp_all add: touched_time_def)
  qed
  moreover have "core (store e' y) = core (store e y)" if "y \<notin> ran M" for y
    using g(3) that xA(3) by (cases "y = x") (simp_all add: same_except_def)
  then have "spare e M A e' M A" using env(2) by (simp add: spare_def)
  moreover have "fresh_refs e' M (H(x := H x + 1))" if f: "fresh_refs e M H"
    unfolding fresh_refs_def
  proof (intro ballI impI)
    fix y assume y: "y \<in> ran M" "0 < (H(x := H x + 1)) y"
    show "\<not> it_time (store e' y) + TAIL_REPAIR_TIME < current_time e'"
    proof (cases "y = x")
      case True
      then show ?thesis
        using recent_not_repaired [of "it_time (store e x)" "current_time e" "it_time (store e' x)"] D(5) [OF xA(3)] now s(2) env(1)
        by (simp add: touched_time_def TAIL_REPAIR_TIME_def ITEM_UPDATE_INTERVAL_def)
    qed (use f y other(2) env(1) in \<open>simp add: fresh_refs_def\<close>)
  qed
  moreover have "same_value (store e' x) (store e x)" using same_value_upd g(4) by blast
  ultimately show ?thesis using g(1) xA(2) x by (intro exI [of _ e'] exI [of _ x] exI [of _ M] exI [of _ Q'] exI [of _ A]) simp
qed

lemma counted_alloc:
  assumes c: "counted e M Q A H" and pages: "\<And>c. pages_fresh (slabs e) c" and key: "length key < 65536"
    and pl: "POWER_SMALLEST \<le> power_largest (slabs e)" "power_largest (slabs e) < POWER_LARGEST" and f: "fresh_refs e M H"
  shows "\<exists>e' r M' Q' A'. do_item_alloc e key flags exp nb = Some (e', r) \<and> counted e' M' Q' A' (if r = NULL then H else H(r := 1)) \<and>
    spare e M A e' M' A' \<and> (\<forall>k x. M k = Some x \<longrightarrow> 0 < H x \<longrightarrow> M' k = Some x \<and> core (store e' x) = core (store e x)) \<and> M' \<subseteq>\<^sub>m M \<and>
    (r \<noteq> NULL \<longrightarrow> H r = 0 \<and> r \<in> A' \<and> r \<notin> ran M' \<and> new_item e key flags exp nb (store e' r))"
proof -
  note D = countedD [OF c]
  obtain e' r ks Q' A1 where a: "do_item_alloc e key flags exp nb = Some (e', r)" "evicts ks e M A e' (M |` (- set ks)) A1"
    "cache_inv e' (M |` (- set ks)) Q' (if r = NULL then A1 else insert r A1)"
    "r \<noteq> NULL \<longrightarrow> r \<notin> A1 \<and> new_item e key flags exp nb (store e' r)"
    using do_item_alloc_ok [OF D(1) pages key pl] by blast
  define M' where "M' = M |` (- set ks)"
  define A' where "A' = (if r = NULL then A1 else insert r A1)"
  define H' where "H' = (if r = NULL then H else H(r := 1))"
  have A1: "A1 = A - {x. \<exists>k \<in> set ks. M k = Some x}" and same: "\<And>x. x \<in> A1 \<Longrightarrow> core (store e' x) = core (store e x)" and env: "env_same e e'"
    using a(2) by (simp_all add: evicts_def)
  have ev: "H x = 0" if k: "k \<in> set ks" "M k = Some x" for k x
  proof -
    have "evictable e (store e x)" "x \<in> ran M" "x \<in> A" using a(2) k cache_inv_key [OF D(1) k(2)] by (auto simp: evicts_def ran_def)
    then show ?thesis using f D(7) [of x] by (auto simp: evictable_def fresh_refs_def)
  qed
  have out: "r \<notin> ran M'" if "r \<noteq> NULL"
    using cache_inv_D(8) [OF a(3), of r] a(4) that by (auto simp: M'_def new_item_def ITEM_flags_exp bit_exp_iff split: if_splits)
  have sub: "ran M' \<subseteq> A1" using cache_inv_D(5) [OF a(3)] out by (auto simp: M'_def split: if_splits)
  have stay: "k \<notin> set ks" if "M k = Some x" "x \<in> A1" for k x using that A1 by auto
  have H0: "H x = 0" if "x \<notin> A1" for x using that ev D(3) [of x] A1 by auto
  have "counted e' M' Q' A' H'"
  proof (rule countedI)
    show "cache_inv e' M' Q' A'" using a(3) by (simp add: M'_def A'_def)
    show "H' x = unat (refcount (store e' x))" if x: "x \<in> A'" for x
    proof (cases "r \<noteq> NULL \<and> x = r")
      case True
      then show ?thesis using a(4) by (simp add: H'_def new_item_def)
    next
      case False
      then have "x \<in> A1" "H' x = H x" using x by (auto simp: A'_def H'_def split: if_splits)
      then show ?thesis using D(2) [of x] A1 core_refcount [OF same, of x] by auto
    qed
    show "H' x = 0" if "x \<notin> A'" for x using that H0 [of x] by (auto simp: A'_def H'_def split: if_splits)
    show "0 < H' x" if x: "x \<in> A'" "x \<notin> ran M'" for x
    proof (cases "r \<noteq> NULL \<and> x = r")
      case False
      then have x1: "x \<in> A1" "H' x = H x" using x by (auto simp: A'_def H'_def split: if_splits)
      have "M' k = Some x" if "M k = Some x" for k using stay [OF that x1(1)] that by (simp add: M'_def)
      then have "x \<notin> ran M" using x(2) by (auto simp: ran_def)
      then show ?thesis using x1 D(4) [of x] A1 by auto
    qed (simp add: H'_def)
    show "it_time (store e' x) \<le> current_time e'" if x: "x \<in> ran M'" for x
    proof -
      have "x \<in> ran M" using x by (auto simp: M'_def ran_def restrict_map_def split: if_splits)
      moreover have "it_time (store e' x) = it_time (store e x)" using core_refcount [OF same, of x] sub x by blast
      ultimately show ?thesis using D(5) [of x] env by (simp add: env_same_def)
    qed
  qed
  moreover have "x \<in> A' \<and> x \<notin> ran M' \<and> core (store e' x) = core (store e x)" if x: "x \<in> A" "x \<notin> ran M" for x
  proof -
    have "x \<in> A1" using x A1 by (auto simp: ran_def)
    moreover have "x \<notin> ran M'" using x(2) by (auto simp: M'_def ran_def restrict_map_def split: if_splits)
    ultimately show ?thesis using same [of x] by (simp add: A'_def)
  qed
  then have "spare e M A e' M' A'" using env by (simp add: spare_def)
  moreover have "M' k = Some x \<and> core (store e' x) = core (store e x)" if "M k = Some x" "0 < H x" for k x
    using that ev [of k x] H0 [of x] same [of x] by (auto simp: M'_def restrict_map_def)
  moreover have "M' \<subseteq>\<^sub>m M" by (auto simp: M'_def map_le_def)
  moreover have "r \<noteq> NULL \<longrightarrow> H r = 0 \<and> r \<in> A' \<and> r \<notin> ran M' \<and> new_item e key flags exp nb (store e' r)"
    using a(4) H0 [of r] out by (auto simp: A'_def)
  ultimately show ?thesis using a(1) unfolding H'_def by blast
qed

section \<open>Storage commands\<close>

lemma counted_finish:
  assumes c: "counted e M Q A H" and o: "old \<noteq> NULL \<Longrightarrow> 0 < H old" and n: "new \<noteq> NULL \<Longrightarrow> 0 < H new \<and> new \<noteq> old"
  shows "\<exists>e' cas A'. finish_store e old new it st = Some (e', st, cas) \<and>
    counted e' M Q A' (\<lambda>x. if x \<noteq> NULL \<and> (x = old \<or> x = new) then H x - 1 else H x) \<and> env_same e e'"
proof -
  obtain e1 A1 where 1: "release_opt e old = Some e1" "counted e1 M Q A1 (\<lambda>x. if x \<noteq> NULL \<and> x = old then H x - 1 else H x)" "env_same e e1"
  proof (cases "old = NULL")
    case True
    then have "(\<lambda>x. if x \<noteq> NULL \<and> x = old then H x - 1 else H x) = H" by auto
    then show thesis using that True c by (simp add: release_opt_def)
  next
    case False
    obtain e1 A1 where "do_item_release e old = Some e1" "counted e1 M Q A1 (H(old := H old - 1))" "env_same e e1" using counted_release [OF c o [OF False]] by blast
    moreover have "H(old := H old - 1) = (\<lambda>x. if x \<noteq> NULL \<and> x = old then H x - 1 else H x)" using False by auto
    ultimately show thesis using that False by (simp add: release_opt_def)
  qed
  let ?H = "\<lambda>x. if x \<noteq> NULL \<and> x = old then H x - 1 else H x"
  let ?H' = "\<lambda>x. if x \<noteq> NULL \<and> (x = old \<or> x = new) then H x - 1 else H x"
  obtain e2 A2 where 2: "release_opt e1 new = Some e2" "counted e2 M Q A2 ?H'" "env_same e1 e2"
  proof (cases "new = NULL")
    case True
    then have "?H' = ?H" by auto
    then show thesis using that True 1(2) by (simp add: release_opt_def)
  next
    case False
    then have p: "0 < ?H new" using n by auto
    obtain e2 A2 where "do_item_release e1 new = Some e2" "counted e2 M Q A2 (?H(new := ?H new - 1))" "env_same e1 e2" using counted_release [OF 1(2) p] by blast
    moreover have "?H(new := ?H new - 1) = ?H'" using False n by auto
    ultimately show thesis using that False by (simp add: release_opt_def)
  qed
  show ?thesis using 1(1) 2(1,2) env_same_trans [OF 1(3) 2(3)] by (auto simp: finish_store_def)
qed

text \<open>Giving up the reference of the lookup at the end of a command.\<close>

lemma counted_finish_old:
  assumes c: "counted e M Q A (if old = NULL then H else H(old := H old + 1))"
  shows "\<exists>e' cas A'. finish_store e old NULL it st = Some (e', st, cas) \<and> counted e' M Q A' H \<and> env_same e e'"
proof -
  let ?H = "if old = NULL then H else H(old := H old + 1)"
  have "(\<lambda>x. if x \<noteq> NULL \<and> (x = old \<or> x = NULL) then ?H x - 1 else ?H x) = H" by (auto simp: fun_eq_iff)
  then show ?thesis using counted_finish [OF c, of old NULL it st] by auto
qed

lemma counted_release_old:
  assumes c: "counted e M Q A (H(old := H old + 1))"
  shows "\<exists>e' A'. do_item_release e old = Some e' \<and> counted e' M Q A' H \<and> env_same e e'"
  using counted_release [OF c, of old] by auto

text \<open>The combined item of append and prepend.\<close>

lemma counted_combine:
  assumes c: "counted e M Q A H" and pages: "\<And>c. pages_fresh (slabs e) c"
    and pl: "POWER_SMALLEST \<le> power_largest (slabs e)" "power_largest (slabs e) < POWER_LARGEST" and f: "fresh_refs e M H"
    and old: "M k = Some old" "0 < H old" and it: "it \<in> A" "key_of (store e it) = k"
    and sz: "unat (nbytes (store e it)) + unat (nbytes (store e old)) < 1024 * 1024"
  shows "\<exists>e' r M' Q' A'. combine_items e it old op = Some (e', r) \<and> counted e' M' Q' A' (if r = NULL then H else H(r := 1)) \<and>
    env_same e e' \<and> M' k = Some old \<and> (r \<noteq> NULL \<longrightarrow> r \<noteq> old \<and> H r = 0 \<and> r \<in> A' \<and> r \<notin> ran M' \<and> key_of (store e' r) = k \<and> nbytes (store e' r) < 1024 * 1024)"
proof -
  let ?nb = "nbytes (store e it) + nbytes (store e old)" and ?fl = "it_flags (store e old)" and ?ex = "exptime (store e old)"
  have "unat ?nb = unat (nbytes (store e it)) + unat (nbytes (store e old))" by (subst unat_add_lem [THEN iffD1]) (use sz in simp_all)
  then have nb: "?nb < 1024 * 1024" using sz by (simp add: word_less_nat_alt)
  have "alloc_ok e it" by (rule cache_inv_D(6) [OF countedD(1) [OF c] it(1)])
  then have key: "length k < 65536" using item_key_length it(2) by (auto simp: alloc_ok_def)
  obtain e1 r M' Q' A' where a: "do_item_alloc e k ?fl ?ex ?nb = Some (e1, r)" "counted e1 M' Q' A' (if r = NULL then H else H(r := 1))"
    "M' k = Some old" "r \<noteq> NULL \<longrightarrow> H r = 0 \<and> r \<in> A' \<and> r \<notin> ran M' \<and> new_item e k ?fl ?ex ?nb (store e1 r)" "env_same e e1"
    using counted_alloc [OF c pages key pl f, of ?fl ?ex ?nb] old unfolding spare_def by blast
  show ?thesis
  proof (cases "r = NULL")
    case True
    then have "combine_items e it old op = Some (e1, NULL)" using a(1) it(2) by (simp add: combine_items_def)
    then show ?thesis using a(2,3,5) True by auto
  next
    case False
    obtain d1 o2 d2 where run: "combine_items e it old op = Some (write_data (write_data e1 r 0 d1) r o2 d2, r)"
      using a(1) it(2) False by (cases "op = OPERATION_APPEND") (simp_all add: combine_items_def Let_def)
    let ?e = "write_data (write_data e1 r 0 d1) r o2 d2"
    have "counted ?e M' Q' A' (H(r := 1))" using a(2) False by (intro counted_write) simp
    moreover have "key_of (store ?e r) = k" "nbytes (store ?e r) < 1024 * 1024"
      using a(4) False nb by (simp_all add: write_data_def new_item_def key_of_def)
    moreover have "r \<noteq> old" using a(4) False old(2) by auto
    moreover have "env_same e ?e" using a(5) by (simp add: write_data_def env_same_def)
    ultimately show ?thesis using run a(3,4) False by auto
  qed
qed

lemma counted_place:
  assumes c: "counted e M Q A H" and old: "if old = NULL then M k = None else M k = Some old \<and> 0 < H old"
    and it: "it \<in> A" "it \<notin> ran M" "key_of (store e it) = k" "nbytes (store e it) < 1024 * 1024"
  shows "\<exists>e' Q'. link_or_replace e old it = Some e' \<and> counted e' (M(k \<mapsto> it)) Q' A H \<and> env_same e e'"
proof (cases "old = NULL")
  case True
  then show ?thesis using counted_link [OF c it(1-3) _ it(4)] old by (auto simp: link_or_replace_def)
next
  case False
  then show ?thesis using counted_replace [OF c _ _ it] old by (auto simp: link_or_replace_def same_except_def)
qed

text \<open>Append and prepend behind the lookup.\<close>

lemma counted_append:
  assumes c: "counted e M Q A (H(old := H old + 1))" and pages: "\<And>c. pages_fresh (slabs e) c"
    and pl: "POWER_SMALLEST \<le> power_largest (slabs e)" "power_largest (slabs e) < POWER_LARGEST" and f: "fresh_refs e M (H(old := H old + 1))"
    and old: "M k = Some old" "old \<noteq> NULL" and it: "it \<in> A" "key_of (store e it) = k"
    and sz: "unat (nbytes (store e it)) + unat (nbytes (store e old)) < 1024 * 1024"
  shows "\<exists>e' st cas M' Q' A'. do {
       (e, new_it) \<leftarrow> combine_items e it old op;
       if new_it = NULL then do { e \<leftarrow> release_opt e old; Some (e, ENGINE_NOT_STORED, None) }
       else do { e \<leftarrow> link_or_replace e old new_it; finish_store e old new_it new_it ENGINE_SUCCESS }
     } = Some (e', st, cas) \<and> counted e' M' Q' A' H \<and> env_same e e'"
proof -
  let ?H = "H(old := H old + 1)"
  have p: "0 < ?H old" by simp
  obtain e1 r M1 Q1 A1 where a: "combine_items e it old op = Some (e1, r)" "counted e1 M1 Q1 A1 (if r = NULL then ?H else ?H(r := 1))" "env_same e e1"
    "M1 k = Some old" "r \<noteq> NULL \<longrightarrow> r \<noteq> old \<and> ?H r = 0 \<and> r \<in> A1 \<and> r \<notin> ran M1 \<and> key_of (store e1 r) = k \<and> nbytes (store e1 r) < 1024 * 1024"
    using counted_combine [OF c pages pl f old(1) p it sz, of op] by blast
  show ?thesis
  proof (cases "r = NULL")
    case True
    then obtain e2 A2 where "do_item_release e1 old = Some e2" "counted e2 M1 Q1 A2 H" "env_same e1 e2"
      using counted_release_old [of e1 M1 Q1 A1 H old] a(2) by auto
    then show ?thesis using a(1) True old(2) env_same_trans [OF a(3)] by (auto simp: release_opt_def)
  next
    case False
    have r: "r \<noteq> old" "?H r = 0" "r \<in> A1" "r \<notin> ran M1" "key_of (store e1 r) = k" "nbytes (store e1 r) < 1024 * 1024" using a(5) False by auto
    have c1: "counted e1 M1 Q1 A1 (?H(r := 1))" using a(2) False by simp
    obtain e2 Q2 where e2: "link_or_replace e1 old r = Some e2" "counted e2 (M1(k \<mapsto> r)) Q2 A1 (?H(r := 1))" "env_same e1 e2"
      using counted_place [OF c1 _ r(3-6), of old] a(4) old(2) r(1) by auto
    obtain e3 cas A3 where e3: "finish_store e2 old r r ENGINE_SUCCESS = Some (e3, ENGINE_SUCCESS, cas)"
      "counted e3 (M1(k \<mapsto> r)) Q2 A3 (\<lambda>x. if x \<noteq> NULL \<and> (x = old \<or> x = r) then (?H(r := 1)) x - 1 else (?H(r := 1)) x)" "env_same e2 e3"
      using counted_finish [OF e2(2), of old r r ENGINE_SUCCESS] r(1) by auto
    have "(\<lambda>x. if x \<noteq> NULL \<and> (x = old \<or> x = r) then (?H(r := 1)) x - 1 else (?H(r := 1)) x) = H" using r(1,2) old(2) False by (auto simp: fun_eq_iff)
    then show ?thesis using a(1) False e2(1) e3(1,2) env_same_trans [OF a(3) env_same_trans [OF e2(3) e3(3)]] by auto
  qed
qed

text \<open>A command has returned and all references are accounted for.\<close>

definition settled :: "default_engine \<Rightarrow> (addr \<Rightarrow> nat) \<Rightarrow> (default_engine \<times> 'r) option \<Rightarrow> bool" where
  "settled e H out \<longleftrightarrow> (\<exists>e' r M' Q' A'. out = Some (e', r) \<and> counted e' M' Q' A' H \<and> env_same e e')"

lemma counted_store:
  assumes c: "counted e M Q A H" and it: "it \<in> A" "it \<notin> ran M" "key_of (store e it) = k" "nbytes (store e it) < 1024 * 1024"
    and b: "\<And>x. H x < 65535" and now: "current_time e < - TAIL_REPAIR_TIME"
    and app: "op \<in> {OPERATION_APPEND, OPERATION_PREPEND} \<Longrightarrow> (\<forall>c. pages_fresh (slabs e) c) \<and> fresh_refs e M H \<and>
      (\<forall>x. M k = Some x \<longrightarrow> unat (nbytes (store e it)) + unat (nbytes (store e x)) < 1024 * 1024)"
    and pl: "POWER_SMALLEST \<le> power_largest (slabs e)" "power_largest (slabs e) < POWER_LARGEST"
  shows "settled e H (do_store_item e it op)"
proof -
  obtain e1 old M1 Q1 A1 where g: "do_item_get e k = Some (e1, old)" "counted e1 M1 Q1 A1 (if old = NULL then H else H(old := H old + 1))"
    "spare e M A e1 M1 A1" "if old = NULL then M1 = M(k := None) else M1 = M \<and> M k = Some old \<and> same_value (store e1 old) (store e old)"
    "fresh_refs e M H \<longrightarrow> fresh_refs e1 M1 (if old = NULL then H else H(old := H old + 1))"
    using counted_get [OF c b now, of k] by blast
  let ?H = "if old = NULL then H else H(old := H old + 1)"
  have i1: "it \<in> A1" "it \<notin> ran M1" "core (store e1 it) = core (store e it)" and en: "env_same e e1" using g(3) it(1,2) by (simp_all add: spare_def)
  have k1: "key_of (store e1 it) = k" "nbytes (store e1 it) < 1024 * 1024" using core_fields [OF i1(3)] core_key [OF i1(3)] it(3,4) by simp_all
  have o1: "if old = NULL then M1 k = None else M1 k = Some old \<and> 0 < ?H old" using g(4) by auto
  have get: "do_item_get e (key_of (store e it)) = Some (e1, old)" using g(1) it(3) by simp
  have fin: "settled e H (finish_store e2 old NULL it st)" if "counted e2 M2 Q2 A2 ?H" "env_same e1 e2" for e2 M2 Q2 A2 st
    using counted_finish_old [OF that(1), of it st] env_same_trans [OF en env_same_trans [OF that(2)]] unfolding settled_def by blast
  obtain e2 Q2 where pl2: "link_or_replace e1 old it = Some e2" "counted e2 (M1(k \<mapsto> it)) Q2 A1 ?H" "env_same e1 e2"
    using counted_place [OF g(2) o1 i1(1,2) k1] by blast
  have rep: "old \<noteq> NULL \<Longrightarrow> do_item_replace e1 old it = Some e2" using pl2(1) by (simp add: link_or_replace_def)
  note over = fin [OF g(2) env_same_refl] and placed = fin [OF pl2(2,3)]
  consider (add) "op = OPERATION_ADD" "old \<noteq> NULL" | (none) "old = NULL" "op \<in> {OPERATION_REPLACE, OPERATION_APPEND, OPERATION_PREPEND}"
    | (cas) "op = OPERATION_CAS" | (append) "op \<in> {OPERATION_APPEND, OPERATION_PREPEND}" "old \<noteq> NULL"
    | (put) "op = OPERATION_SET \<or> op = OPERATION_ADD \<and> old = NULL \<or> op = OPERATION_REPLACE \<and> old \<noteq> NULL"
    by (cases op) auto
  then show ?thesis
  proof cases
    case add
    have "old \<in> ran M1" using o1 add(2) by (auto simp: ran_def)
    then obtain e3 Q3 where "do_item_update e1 old = Some e3" "counted e3 M1 Q3 A1 ?H" "same_except {old} e1 e3"
      using counted_update [OF g(2)] by blast
    then show ?thesis using add fin [of e3 M1 Q3 A1] unfolding do_store_item_def get by (simp add: same_except_def)
  next
    case none
    then show ?thesis using over unfolding do_store_item_def get by auto
  next
    case cas
    then show ?thesis using over placed rep unfolding do_store_item_def get
      by (cases "old = NULL"; cases "item_get_cas (store e1 it) = item_get_cas (store e1 old)") simp_all
  next
    case append
    have o: "M k = Some old" "M1 = M" "nbytes (store e1 old) = nbytes (store e old)" "nbytes (store e1 it) = nbytes (store e it)"
      using g(4) append(2) core_fields [OF i1(3)] by (simp_all add: same_value_def)
    have sl: "\<And>c. pages_fresh (slabs e1) c" "POWER_SMALLEST \<le> power_largest (slabs e1)" "power_largest (slabs e1) < POWER_LARGEST"
      using pages_fresh_frame [OF _ do_item_get_frame [OF g(1)]] app append(1) pl en by (auto simp: env_same_def)
    have "counted e1 M1 Q1 A1 (H(old := H old + 1))" "fresh_refs e1 M1 (H(old := H old + 1))" "M1 k = Some old"
      "unat (nbytes (store e1 it)) + unat (nbytes (store e1 old)) < 1024 * 1024"
      using g(2,5) append app o by simp_all
    from counted_append [OF this(1) sl this(2,3) append(2) i1(1) k1(1) this(4), of op]
    have "settled e H (do {
       (e, new_it) \<leftarrow> combine_items e1 it old op;
       if new_it = NULL then do { e \<leftarrow> release_opt e old; Some (e, ENGINE_NOT_STORED, None) }
       else do { e \<leftarrow> link_or_replace e old new_it; finish_store e old new_it new_it ENGINE_SUCCESS } })"
      using env_same_trans [OF en] unfolding settled_def by blast
    then show ?thesis using append over unfolding do_store_item_def get
      by (cases "item_get_cas (store e1 it) \<noteq> 0 \<and> item_get_cas (store e1 it) \<noteq> item_get_cas (store e1 old)") auto
  next
    case put
    then show ?thesis using placed pl2(1) unfolding do_store_item_def get by auto
  qed
qed

section \<open>Arithmetic\<close>

lemma counted_set_cas:
  assumes c: "counted e M Q A H"
  shows "counted (item_set_cas (e\<lparr>cas_id := n\<rparr>) it v) M Q A H \<and> env_same e (item_set_cas (e\<lparr>cas_id := n\<rparr>) it v)"
proof -
  let ?e = "item_set_cas (e\<lparr>cas_id := n\<rparr>) it v"
  have i: "cache_inv ?e M Q A" "env_same e ?e" using set_cas_ok [OF countedD(1) [OF c], of n it v] by simp_all
  have s: "refcount (store ?e y) = refcount (store e y)" "it_time (store ?e y) = it_time (store e y)" for y
    by (simp_all add: item_set_cas_def)
  have "counted ?e M Q A H"
  proof (rule countedI [OF i(1)])
    show "H y = unat (refcount (store ?e y))" if "y \<in> A" for y using countedD(2) [OF c that] s by simp
    show "it_time (store ?e y) \<le> current_time ?e" if "y \<in> ran M" for y using countedD(5) [OF c that] s i(2) by (simp add: env_same_def)
  qed (use countedD(3,4) [OF c] in blast)+
  then show ?thesis using i(2) by blast
qed

lemma counted_add_delta:
  assumes c: "counted e M Q A H" and x: "M key = Some x" "0 < H x" and pages: "\<And>c. pages_fresh (slabs e) c" and key: "length key < 65536"
    and pl: "POWER_SMALLEST \<le> power_largest (slabs e)" "power_largest (slabs e) < POWER_LARGEST" and f: "fresh_refs e M H"
  shows "settled e H (do_add_delta e x incr delta)"
proof (cases "counter_of (store e x)")
  case None
  then have "do_add_delta e x incr delta = Some (e, ENGINE_EINVAL, 0, 0)" by (simp add: counter_of_def do_add_delta_def split: if_splits)
  then show ?thesis using c by (auto simp: settled_def)
next
  case (Some v)
  define res buf where "res = add_delta_value incr delta v" and "buf = dec_bytes (unat res)"
  have kx: "key_of (store e x) = key" using cache_inv_key [OF countedD(1) [OF c] x(1)] by simp
  have st: "unat (nbytes (store e x)) < 79" "safe_strtoull (c_string (item_data (store e x))) = Some v"
    using Some by (auto simp: counter_of_def split: if_splits)
  have len: "length buf \<le> 20" unfolding buf_def by (rule dec_bytes_u64)
  then have nb: "(of_nat (length buf) :: u32) < 1024 * 1024" by (simp add: unat_of_nat word_less_nat_alt)
  let ?fl = "it_flags (store e x)" and ?ex = "exptime (store e x)" and ?nb = "of_nat (length buf) :: u32"
  show ?thesis
  proof (cases "refcount (store e x) = 1 \<and> length buf \<le> unat (nbytes (store e x))")
    case True
    define ew where "ew = write_data e x 0 (buf @ replicate (unat (nbytes (store e x)) - length buf) 32)"
    have "counted ew M Q A H" "env_same e ew" unfolding ew_def by (rule counted_write [OF c]) (rule write_data_frame(1))
    then have "settled e H (Some (item_set_cas (ew\<lparr>cas_id := cas_id e + 1\<rparr>) x (cas_id e + 1), r))" for r :: "ENGINE_ERROR_CODE \<times> u64 \<times> u64"
      using counted_set_cas [of ew M Q A H "cas_id e + 1" x "cas_id e + 1"] env_same_trans [of e ew] unfolding settled_def by blast
    then show ?thesis using True st unfolding do_add_delta_def
      by (simp add: Let_def res_def [symmetric] buf_def [symmetric] get_cas_id_def write_data_frame(5) ew_def)
  next
    case False
    obtain e1 r M1 Q1 A1 where a: "do_item_alloc e key ?fl ?ex ?nb = Some (e1, r)" "counted e1 M1 Q1 A1 (if r = NULL then H else H(r := 1))" "spare e M A e1 M1 A1"
      "M1 key = Some x" "r \<noteq> NULL \<longrightarrow> H r = 0 \<and> r \<in> A1 \<and> r \<notin> ran M1 \<and> new_item e key ?fl ?ex ?nb (store e1 r)"
      using counted_alloc [OF c pages key pl f, of ?fl ?ex ?nb] x by blast
    have en: "env_same e e1" using a(3) by (simp add: spare_def)
    have run: "do_add_delta e x incr delta = (if r = NULL then do { e \<leftarrow> do_item_unlink e1 x; Some (e, ENGINE_ENOMEM, 0, res) }
      else do {
        e \<leftarrow> do_item_replace (write_data e1 r 0 buf) x r;
        let cas = item_get_cas (store e r);
        e \<leftarrow> do_item_release e r;
        Some (e, ENGINE_SUCCESS, cas, res)
      })"
      using st a(1) unfolding do_add_delta_def
      by (simp add: Let_def res_def [symmetric] buf_def [symmetric] kx if_not_P [OF False])
    show ?thesis
    proof (cases "r = NULL")
      case True
      then have c1: "counted e1 M1 Q1 A1 H" using a(2) by simp
      obtain e2 Q2 A2 where "do_item_unlink e1 x = Some e2" "counted e2 (M1(key := None)) Q2 A2 H" "env_same e1 e2"
        using counted_unlink [OF c1 a(4)] unfolding spare_def by blast
      then show ?thesis using run True env_same_trans [OF en] by (auto simp: settled_def)
    next
      case r: False
      have rA: "H r = 0" "r \<in> A1" "r \<notin> ran M1" "new_item e key ?fl ?ex ?nb (store e1 r)" using a(5) r by auto
      define ew where "ew = write_data e1 r 0 buf"
      have cw: "counted ew M1 Q1 A1 (H(r := 1))" unfolding ew_def by (rule counted_write) (use a(2) r in simp)
      have sw: "key_of (store ew r) = key" "nbytes (store ew r) < 1024 * 1024" "env_same e1 ew"
        using rA(4) nb by (simp_all add: ew_def write_data_def new_item_def key_of_def env_same_def)
      have "0 < (H(r := 1)) x" using x(2) by simp
      then obtain e2 Q2 where e2: "do_item_replace ew x r = Some e2" "counted e2 (M1(key \<mapsto> r)) Q2 A1 (H(r := 1))" "env_same ew e2"
        using counted_replace [OF cw a(4) _ rA(2,3) sw(1,2)] unfolding same_except_def by blast
      obtain e3 A3 where e3: "do_item_release e2 r = Some e3" "counted e3 (M1(key \<mapsto> r)) Q2 A3 H" "env_same e2 e3"
        using counted_release [OF e2(2), of r] rA(1) by (auto simp: fun_upd_idem)
      have "env_same e e3" using env_same_trans [OF en env_same_trans [OF sw(3) env_same_trans [OF e2(3) e3(3)]]] .
      then show ?thesis using run r e2(1) e3(1,2) unfolding ew_def [symmetric] by (auto simp: settled_def)
    qed
  qed
qed

lemma settledD: "settled e H out \<Longrightarrow> \<exists>e' r M' Q' A'. out = Some (e', r) \<and> counted e' M' Q' A' H \<and> env_same e e'"
  by (simp add: settled_def)

lemma counted_create:
  assumes c: "counted e M Q A H" and none: "M key = None" and pages: "\<And>c. pages_fresh (slabs e) c" and key: "length key < 65536"
    and pl: "POWER_SMALLEST \<le> power_largest (slabs e)" "power_largest (slabs e) < POWER_LARGEST" and f: "fresh_refs e M H"
    and b: "\<And>x. H x < 65535" and now: "current_time e < - TAIL_REPAIR_TIME"
    and a: "do_item_alloc e key 0 exp (of_nat (length (dec_bytes (unat (initial :: u64))))) = Some (e1, it)"
  shows "if it = NULL then settled e H (Some (e1, ()))
    else \<exists>e2 ret e3. do_store_item (write_data e1 it 0 (dec_bytes (unat initial))) it OPERATION_ADD = Some (e2, ret) \<and>
      do_item_release e2 it = Some e3 \<and> settled e H (Some (e3, ()))"
proof -
  let ?nb = "of_nat (length (dec_bytes (unat initial))) :: u32"
  obtain M1 Q1 A1 where c1: "counted e1 M1 Q1 A1 (if it = NULL then H else H(it := 1))" "env_same e e1"
    "it \<noteq> NULL \<longrightarrow> H it = 0 \<and> it \<in> A1 \<and> it \<notin> ran M1 \<and> new_item e key 0 exp ?nb (store e1 it)"
    using counted_alloc [OF c pages key pl f, of 0 exp ?nb] a unfolding spare_def by auto
  show ?thesis
  proof (cases "it = NULL")
    case True
    then show ?thesis using c1 by (auto simp: settled_def)
  next
    case False
    then have i: "H it = 0" "it \<in> A1" "it \<notin> ran M1" "new_item e key 0 exp ?nb (store e1 it)" using c1(3) by auto
    define ew where "ew = write_data e1 it 0 (dec_bytes (unat initial))"
    have cw: "counted ew M1 Q1 A1 (H(it := 1))" unfolding ew_def by (rule counted_write) (use c1(1) False in simp)
    have "?nb < 1024 * 1024" using dec_bytes_u64 [of initial] by (simp add: unat_of_nat word_less_nat_alt)
    then have sw: "key_of (store ew it) = key" "nbytes (store ew it) < 1024 * 1024" "env_same e ew"
      using i(4) c1(2) by (simp_all add: ew_def write_data_def new_item_def key_of_def env_same_def)
    have "settled ew (H(it := 1)) (do_store_item ew it OPERATION_ADD)"
      by (rule counted_store [OF cw i(2,3) sw(1,2)]) (use b now pl sw(3) in \<open>simp_all add: env_same_def\<close>)
    then obtain e2 ret M2 Q2 A2 where e2: "do_store_item ew it OPERATION_ADD = Some (e2, ret)" "counted e2 M2 Q2 A2 (H(it := 1))" "env_same ew e2"
      using settledD by blast
    obtain e3 A3 where e3: "do_item_release e2 it = Some e3" "counted e3 M2 Q2 A3 H" "env_same e2 e3"
      using counted_release [OF e2(2), of it] i(1) by (auto simp: fun_upd_idem)
    have "env_same e e3" using env_same_trans [OF sw(3) env_same_trans [OF e2(3) e3(3)]] .
    then show ?thesis using False e2(1) e3(1,2) unfolding ew_def by (auto simp: settled_def)
  qed
qed

lemma counted_arithmetic:
  assumes c: "counted e M Q A H" and pages: "\<And>c. pages_fresh (slabs e) c" and key: "length key < 65536"
    and pl: "POWER_SMALLEST \<le> power_largest (slabs e)" "power_largest (slabs e) < POWER_LARGEST" and f: "fresh_refs e M H"
    and b: "\<And>x. H x < 65535" and now: "current_time e < - TAIL_REPAIR_TIME"
  shows "settled e H (do_arithmetic e key incr create delta initial exp)"
proof -
  obtain e1 x M1 Q1 A1 where g: "do_item_get e key = Some (e1, x)" "counted e1 M1 Q1 A1 (if x = NULL then H else H(x := H x + 1))"
    "spare e M A e1 M1 A1" "if x = NULL then M1 = M(key := None) else M1 = M \<and> M key = Some x \<and> same_value (store e1 x) (store e x)"
    "fresh_refs e1 M1 (if x = NULL then H else H(x := H x + 1))"
    using counted_get [OF c b now, of key] f by blast
  have en: "env_same e e1" using g(3) by (simp add: spare_def)
  have sl: "\<And>c. pages_fresh (slabs e1) c" "POWER_SMALLEST \<le> power_largest (slabs e1)" "power_largest (slabs e1) < POWER_LARGEST" "current_time e1 < - TAIL_REPAIR_TIME"
    using pages_fresh_frame [OF pages do_item_get_frame [OF g(1)]] pl now en by (simp_all add: env_same_def)
  show ?thesis
  proof (cases "x = NULL")
    case True
    then have g': "counted e1 M1 Q1 A1 H" "M1 key = None" "fresh_refs e1 M1 H" using g(2,4,5) by simp_all
    obtain e2 it where a: "do_item_alloc e1 key 0 exp (of_nat (length (dec_bytes (unat initial)))) = Some (e2, it)"
      using counted_alloc [OF g'(1) sl(1) key sl(2,3) g'(3)] by blast
    note cr = counted_create [OF g'(1,2) sl(1) key sl(2,3) g'(3) b sl(4) a]
    show ?thesis
    proof (cases "create \<and> it \<noteq> NULL")
      case mk: True
      then obtain e3 ret cas e4 M4 Q4 A4 where r: "do_store_item (write_data e2 it 0 (dec_bytes (unat initial))) it OPERATION_ADD = Some (e3, ret, cas)"
        "do_item_release e3 it = Some e4" "counted e4 M4 Q4 A4 H" "env_same e1 e4"
        using cr by (auto simp: settled_def)
      then show ?thesis using g(1) True mk a env_same_trans [OF en] by (auto simp: do_arithmetic_def settled_def)
    next
      case no: False
      then show ?thesis using g(1) True a cr g'(1) en env_same_trans [OF en] by (cases create) (auto simp: do_arithmetic_def settled_def)
    qed
  next
    case False
    then have g': "counted e1 M1 Q1 A1 (H(x := H x + 1))" "M1 key = Some x" "fresh_refs e1 M1 (H(x := H x + 1))" using g(2,4,5) by simp_all
    have "settled e1 (H(x := H x + 1)) (do_add_delta e1 x incr delta)"
      by (rule counted_add_delta [OF g'(1,2) _ sl(1) key sl(2,3) g'(3)]) simp
    then obtain e2 ret cas res M2 Q2 A2 where d: "do_add_delta e1 x incr delta = Some (e2, ret, cas, res)" "counted e2 M2 Q2 A2 (H(x := H x + 1))" "env_same e1 e2"
      by (auto simp: settled_def)
    obtain e3 A3 where "do_item_release e2 x = Some e3" "counted e3 M2 Q2 A3 H" "env_same e2 e3" using counted_release_old [OF d(2)] by blast
    then show ?thesis using g(1) False d(1) env_same_trans [OF en env_same_trans [OF d(3)]] by (auto simp: do_arithmetic_def settled_def)
  qed
qed

end
