(* ===== verification/Session.thy ===== *)
theory Session
  imports ItemRefs
begin

text \<open>
  Clients of the item layer as a state machine.  In every sequence of operations in which clients only use items
  they hold, the reference count of an item is the number of references to it, an item that nobody
  holds is linked, and no operation fails an assertion: no item in use is freed and none is lost.
\<close>

section \<open>Operations and states\<close>

text \<open>
  A client allocates items, writes their values, stores them, looks keys up, gives up references, takes items
  out of the cache and changes counters; the maintenance thread moves buckets and the clock advances.
\<close>

datatype client_op =
    Alloc bytes u32 u32 u32
  | Write addr nat bytes
  | Store addr ENGINE_STORE_OPERATION
  | Get bytes
  | Release addr
  | Unlink addr
  | Arithmetic bytes bool bool u64 u64 u32
  | Maintain nat
  | Tick u32

text \<open>The engine and the number of references clients hold to each item.\<close>

type_synonym session = "default_engine \<times> (addr \<Rightarrow> nat)"

definition hold :: "addr \<Rightarrow> (addr \<Rightarrow> nat) \<Rightarrow> (addr \<Rightarrow> nat)" where
  "hold r H = (if r = NULL then H else H(r := H r + 1))"

fun do_op :: "client_op \<Rightarrow> session \<Rightarrow> session option" where
  "do_op (Alloc key flags exp nb) (e, H) = map_option (\<lambda>(e, r). (e, hold r H)) (item_alloc e key flags exp nb)"
| "do_op (Write it off d) (e, H) = Some (write_data e it off d, H)"
| "do_op (Store it oper) (e, H) = map_option (\<lambda>(e, st). (e, H)) (store_item e it oper)"
| "do_op (Get key) (e, H) = map_option (\<lambda>(e, r). (e, hold r H)) (item_get e key)"
| "do_op (Release it) (e, H) = map_option (\<lambda>e. (e, H(it := H it - 1))) (item_release e it)"
| "do_op (Unlink it) (e, H) = map_option (\<lambda>e. (e, H)) (item_unlink e it)"
| "do_op (Arithmetic key incr create delta initial exp) (e, H) = map_option (\<lambda>(e, r). (e, H)) (arithmetic e key incr create delta initial exp)"
| "do_op (Maintain n) (e, H) = map_option (\<lambda>e. (e, H)) (maintenance_turn n e)"
| "do_op (Tick t) (e, H) = Some (e\<lparr>current_time := t\<rparr>, H)"

text \<open>
  \<open>malloc\<close> returns new memory and no client has held a linked item for the three hours after which the engine
  takes the reference for lost.
\<close>

definition room :: "session \<Rightarrow> bool" where
  "room s \<longleftrightarrow> (case s of (e, H) \<Rightarrow> (\<forall>c. pages_fresh (slabs e) c) \<and>
     (\<forall>x. linked e x \<longrightarrow> 0 < H x \<longrightarrow> \<not> it_time (store e x) + TAIL_REPAIR_TIME < current_time e))"

definition few :: "session \<Rightarrow> bool" where
  "few s \<longleftrightarrow> (\<forall>x. snd s x < 65535)"

text \<open>The rules for clients: only items one holds are used, values are written within their size, and only items
  outside of the cache are stored.\<close>

fun allowed :: "client_op \<Rightarrow> session \<Rightarrow> bool" where
  "allowed (Alloc key flags exp nb) s \<longleftrightarrow> length key < 65536 \<and> room s"
| "allowed (Write it off d) s \<longleftrightarrow> 0 < snd s it \<and> off + length d \<le> unat (nbytes (store (fst s) it))"
| "allowed (Store it oper) (e, H) \<longleftrightarrow> 0 < H it \<and> \<not> linked e it \<and> nbytes (store e it) < 1024 * 1024 \<and> few (e, H) \<and>
     (oper \<in> {OPERATION_APPEND, OPERATION_PREPEND} \<longrightarrow> room (e, H) \<and>
        (\<forall>x. linked e x \<longrightarrow> key_of (store e x) = key_of (store e it) \<longrightarrow>
           unat (nbytes (store e it)) + unat (nbytes (store e x)) < 1024 * 1024))"
| "allowed (Get key) s \<longleftrightarrow> few s"
| "allowed (Release it) s \<longleftrightarrow> 0 < snd s it"
| "allowed (Unlink it) s \<longleftrightarrow> 0 < snd s it"
| "allowed (Arithmetic key incr create delta initial exp) s \<longleftrightarrow> length key < 65536 \<and> room s \<and> few s"
| "allowed (Maintain n) s \<longleftrightarrow> True"
| "allowed (Tick t) s \<longleftrightarrow> current_time (fst s) \<le> t \<and> t < - TAIL_REPAIR_TIME"

inductive session_step :: "session \<Rightarrow> session \<Rightarrow> bool" where
  step: "allowed oper s \<Longrightarrow> do_op oper s = Some s' \<Longrightarrow> session_step s s'"

section \<open>Every step keeps the account\<close>

definition accounted :: "session \<Rightarrow> bool" where
  "accounted s \<longleftrightarrow> (case s of (e, H) \<Rightarrow> (\<exists>M Q A. counted e M Q A H) \<and>
     POWER_SMALLEST \<le> power_largest (slabs e) \<and> power_largest (slabs e) < POWER_LARGEST \<and> current_time e < - TAIL_REPAIR_TIME)"

lemma accounted_env: "accounted (e, H) \<Longrightarrow> counted e' M Q A H' \<Longrightarrow> env_same e e' \<Longrightarrow> accounted (e', H')"
  unfolding accounted_def env_same_def by auto

lemma room_fresh: "counted e M Q A H \<Longrightarrow> room (e, H) \<Longrightarrow> fresh_refs e M H"
  using cache_inv_D(8) [OF countedD(1)] unfolding room_def fresh_refs_def by auto

lemma settled_accounted:
  assumes "accounted (e, H)" "settled e H out"
  shows "\<exists>e' r. out = Some (e', r) \<and> accounted (e', H)"
  using settledD [OF assms(2)] accounted_env [OF assms(1)] by blast

lemma counted_maintain:
  assumes c: "counted e M Q A H"
  shows "\<exists>e'. maintenance_turn n e = Some e' \<and> counted e' M Q A H \<and> env_same e e'"
proof -
  obtain e' where e': "maintenance_turn n e = Some e'" "assoc_inv e' M" "assoc_frame e e'"
    using maintenance_turn_ok [OF cache_inv_D(1) [OF countedD(1) [OF c]]] by blast
  note fr = assoc_frame_D(1) [OF e'(3)] and fe = assoc_frame_D(2) [OF e'(3)]
  have i: "cache_inv e' M Q A" using maintenance_turn_cache [OF countedD(1) [OF c], of n] e'(1) by auto
  have s: "refcount (store e' y) = refcount (store e y)" "it_time (store e' y) = it_time (store e y)" for y
    using core_refcount [of "store e' y" "store e y"] fr by simp_all
  have "counted e' M Q A H"
  proof (rule countedI [OF i])
    show "H y = unat (refcount (store e' y))" if "y \<in> A" for y using countedD(2) [OF c that] s by simp
    show "it_time (store e' y) \<le> current_time e'" if "y \<in> ran M" for y using countedD(5) [OF c that] s fe by (simp add: env_same_def)
  qed (use countedD(3,4) [OF c] in blast)+
  then show ?thesis using e'(1) fe by blast
qed

lemma counted_tick:
  assumes c: "counted e M Q A H" and t: "current_time e \<le> t"
  shows "counted (e\<lparr>current_time := t\<rparr>) M Q A H"
proof (rule countedI)
  show "cache_inv (e\<lparr>current_time := t\<rparr>) M Q A" by (rule cache_inv_counters [OF countedD(1) [OF c]]) simp_all
  show "it_time (store (e\<lparr>current_time := t\<rparr>) y) \<le> current_time (e\<lparr>current_time := t\<rparr>)" if "y \<in> ran M" for y
    using countedD(5) [OF c that] t by simp
qed (use countedD(2,3,4) [OF c] in auto)

lemma alloc_accounted:
  assumes a: "accounted (e, H)" and "length key < 65536" "room (e, H)"
  shows "\<exists>e' r. item_alloc e key flags exp nb = Some (e', r) \<and> accounted (e', hold r H)"
proof -
  obtain M Q A where c: "counted e M Q A H" and pl: "POWER_SMALLEST \<le> power_largest (slabs e)" "power_largest (slabs e) < POWER_LARGEST"
    using a by (auto simp: accounted_def)
  have pages: "\<And>c. pages_fresh (slabs e) c" using assms(3) by (simp add: room_def)
  obtain e' r M' Q' A' where r: "do_item_alloc e key flags exp nb = Some (e', r)" "counted e' M' Q' A' (if r = NULL then H else H(r := 1))"
    "env_same e e'" "r \<noteq> NULL \<longrightarrow> H r = 0"
    using counted_alloc [OF c pages assms(2) pl room_fresh [OF c assms(3)], of flags exp nb] unfolding spare_def by blast
  have "hold r H = (if r = NULL then H else H(r := 1))" using r(4) by (simp add: hold_def)
  then show ?thesis using r(1) accounted_env [OF a r(2,3)] by (simp add: item_alloc_def)
qed

lemma store_accounted:
  assumes a: "accounted (e, H)" and ok: "allowed (Store it oper) (e, H)"
  shows "\<exists>e' st. store_item e it oper = Some (e', st) \<and> accounted (e', H)"
proof -
  obtain M Q A where c: "counted e M Q A H" and pl: "POWER_SMALLEST \<le> power_largest (slabs e)" "power_largest (slabs e) < POWER_LARGEST"
    and now: "current_time e < - TAIL_REPAIR_TIME" using a by (auto simp: accounted_def)
  have g: "0 < H it" "\<not> linked e it" "nbytes (store e it) < 1024 * 1024" "\<And>x. H x < 65535" using ok by (auto simp: few_def)
  have it: "it \<in> A" "it \<notin> ran M" using countedD(6) [OF c g(1)] cache_inv_D(8) [OF countedD(1) [OF c], of it] g(2) by simp_all
  have "(\<forall>c. pages_fresh (slabs e) c) \<and> fresh_refs e M H \<and>
      (\<forall>x. M (key_of (store e it)) = Some x \<longrightarrow> unat (nbytes (store e it)) + unat (nbytes (store e x)) < 1024 * 1024)"
    if app: "oper \<in> {OPERATION_APPEND, OPERATION_PREPEND}"
  proof -
    have r: "room (e, H)" and sz: "\<And>x. linked e x \<Longrightarrow> key_of (store e x) = key_of (store e it) \<Longrightarrow>
        unat (nbytes (store e it)) + unat (nbytes (store e x)) < 1024 * 1024"
      using ok app unfolding allowed.simps by blast+
    have "linked e x \<and> key_of (store e x) = key_of (store e it)" if "M (key_of (store e it)) = Some x" for x
      using cache_inv_key [OF countedD(1) [OF c] that] cache_inv_D(8) [OF countedD(1) [OF c], of x] that by (auto simp: ran_def)
    then show ?thesis using r sz room_fresh [OF c r] by (auto simp: room_def)
  qed
  then have "settled e H (do_store_item e it oper)" by (rule counted_store [OF c it refl g(3,4) now _ pl])
  then show ?thesis using settled_accounted [OF a] unfolding store_item_def by blast
qed

lemma op_accounted:
  assumes a: "accounted s" and ok: "allowed oper s"
  shows "\<exists>s'. do_op oper s = Some s' \<and> accounted s'"
proof -
  obtain e H where s: "s = (e, H)" by (cases s)
  obtain M Q A where c: "counted e M Q A H" and pl: "POWER_SMALLEST \<le> power_largest (slabs e)" "power_largest (slabs e) < POWER_LARGEST"
    and now: "current_time e < - TAIL_REPAIR_TIME" using a s by (auto simp: accounted_def)
  note ae = a [unfolded s] and env = accounted_env [OF a [unfolded s]]
  show ?thesis
  proof (cases oper)
    case (Alloc key flags exp nb)
    then show ?thesis using alloc_accounted [OF ae, of key flags exp nb] ok s by auto
  next
    case (Write it off d)
    then show ?thesis using env [OF counted_write [OF c] write_data_frame(1)] s by simp
  next
    case (Store it op)
    then show ?thesis using store_accounted [OF ae, of it op] ok s by auto
  next
    case (Get key)
    have b: "\<And>x. H x < 65535" using ok s Get by (simp add: few_def)
    obtain e' r M' Q' A' where g: "do_item_get e key = Some (e', r)" "counted e' M' Q' A' (if r = NULL then H else H(r := H r + 1))" "env_same e e'"
      using counted_get [OF c b now, of key] unfolding spare_def by blast
    then show ?thesis using Get s env [OF g(2,3)] by (simp add: item_get_def hold_def)
  next
    case (Release it)
    then have p: "0 < H it" using ok s by simp
    obtain e' A' where r: "do_item_release e it = Some e'" "counted e' M Q A' (H(it := H it - 1))" "env_same e e'" using counted_release [OF c p] by blast
    then show ?thesis using Release s env [OF r(2,3)] by (simp add: item_release_def)
  next
    case (Unlink it)
    show ?thesis
    proof (cases "linked e it")
      case True
      then obtain k where k: "M k = Some it" using cache_inv_D(8) [OF countedD(1) [OF c], of it] by (auto simp: ran_def)
      obtain e' Q' A' where u: "do_item_unlink e it = Some e'" "counted e' (M(k := None)) Q' A' H" "env_same e e'"
        using counted_unlink [OF c k] unfolding spare_def by blast
      then show ?thesis using Unlink s env [OF u(2,3)] by (simp add: item_unlink_def)
    next
      case False
      then show ?thesis using Unlink s ae by (simp add: item_unlink_def do_item_unlink_def state_simps)
    qed
  next
    case (Arithmetic key incr create delta initial exp)
    then have g: "length key < 65536" "room (e, H)" "\<And>x. H x < 65535" using ok s by (simp_all add: few_def)
    have "settled e H (do_arithmetic e key incr create delta initial exp)"
      by (rule counted_arithmetic [OF c _ g(1) pl room_fresh [OF c g(2)] g(3) now]) (use g(2) in \<open>simp add: room_def\<close>)
    then obtain e' r where "do_arithmetic e key incr create delta initial exp = Some (e', r)" "accounted (e', H)" using settled_accounted [OF ae] by blast
    then show ?thesis using Arithmetic s by (simp add: arithmetic_def split_beta)
  next
    case (Maintain n)
    then show ?thesis using counted_maintain [OF c, of n] env s by auto
  next
    case (Tick t)
    then show ?thesis using counted_tick [OF c, of t] ok s pl by (auto simp: accounted_def)
  qed
qed

inductive_cases session_stepE: "session_step s s'"

lemma session_accounted: "session_step\<^sup>*\<^sup>* s s' \<Longrightarrow> accounted s \<Longrightarrow> accounted s'"
proof (induction rule: rtranclp_induct)
  case (step t u)
  from step(2) obtain oper where "allowed oper t" "do_op oper t = Some u" by (rule session_stepE)
  then show ?case using op_accounted [OF step(3) [OF step(4)]] by fastforce
qed

lemma accounted_facts:
  assumes a: "accounted (e, H)"
  shows "(\<exists>M Q A. cache_inv e M Q A \<and> (\<forall>x. x \<in> A \<longrightarrow> unat (refcount (store e x)) = H x) \<and>
      (\<forall>x. 0 < H x \<longrightarrow> x \<in> A) \<and> (\<forall>x. x \<in> A \<longrightarrow> H x = 0 \<longrightarrow> x \<in> ran M)) \<and>
    (\<forall>oper. allowed oper (e, H) \<longrightarrow> (\<exists>s'. do_op oper (e, H) = Some s'))"
proof -
  obtain M Q A where c: "counted e M Q A H" using a by (auto simp: accounted_def)
  have "\<exists>s'. do_op oper (e, H) = Some s'" if "allowed oper (e, H)" for oper using op_accounted [OF a that] by blast
  moreover have "x \<in> ran M" if "x \<in> A" "H x = 0" for x using countedD(4) [OF c that(1)] that(2) by auto
  ultimately show ?thesis using countedD(1,2,6) [OF c] by blast
qed

section \<open>Properties\<close>


lemma cache_demo_accounted: "accounted (cache_demo, (\<lambda>_. 0)(4096 := 1, 4224 := 1))"
proof -
  have "counted cache_demo Map.empty (\<lambda>_. []) {4096, 4224} ((\<lambda>_. 0)(4096 := 1, 4224 := 1))"
    by (rule countedI [OF cache_demo_inv]) (auto simp: cache_demo_def cache_item_def)
  then show ?thesis using cache_demo_pages(2,3) by (auto simp: accounted_def cache_demo_def sample_engine_def TAIL_REPAIR_TIME_def)
qed


end
