(* ===== verification/CouchFormat.thy ===== *)
theory CouchFormat
  imports Prelude
begin

unbundle bit_operations_syntax

text \<open>
  Byte formats of couchstore: the packed integers of \<open>couchstore/src/bitfield.h\<close>, the lengths, key-value pairs and
  root pointers of \<open>node_types.[ch]\<close>, and the key orders of \<open>util.c\<close>.  The build is little-endian: an integer in
  memory is the list of its bytes, lowest first, and \<open>htonl\<close> and its relatives reverse it.
\<close>

section \<open>Integers in memory\<close>

definition mem_le :: "nat \<Rightarrow> 'a::len word \<Rightarrow> bytes" where
  "mem_le n w = map (\<lambda>i. ucast (drop_bit (8 * i) w)) [0..<n]"

fun load_le :: "bytes \<Rightarrow> 'a::len word" where
  "load_le [] = 0"
| "load_le (b # bs) = ucast b OR push_bit 8 (load_le bs)"

definition htons :: "u16 \<Rightarrow> u16" where "htons w = load_le (rev (mem_le 2 w))"
definition htonl :: "u32 \<Rightarrow> u32" where "htonl w = load_le (rev (mem_le 4 w))"
definition htonll :: "u64 \<Rightarrow> u64" where "htonll w = load_le (rev (mem_le 8 w))"

section \<open>Packed integers\<close>

text \<open>
  A \<open>raw_xx\<close> is an array of bytes.  \<open>ENCODE_RAW\<close> swaps the bytes of the value and copies the last ones;
  \<open>DECODE_RAW\<close> copies them behind zeros and swaps back.
\<close>

definition encode_raw08 :: "u8 \<Rightarrow> bytes" where "encode_raw08 v = drop (1 - 1) (mem_le 1 v)"
definition encode_raw16 :: "u16 \<Rightarrow> bytes" where "encode_raw16 v = drop (2 - 2) (mem_le 2 (htons v))"
definition encode_raw32 :: "u32 \<Rightarrow> bytes" where "encode_raw32 v = drop (4 - 4) (mem_le 4 (htonl v))"
definition encode_raw40 :: "u64 \<Rightarrow> bytes" where "encode_raw40 v = drop (8 - 5) (mem_le 8 (htonll v))"
definition encode_raw48 :: "u64 \<Rightarrow> bytes" where "encode_raw48 v = drop (8 - 6) (mem_le 8 (htonll v))"
definition encode_raw64 :: "u64 \<Rightarrow> bytes" where "encode_raw64 v = drop (8 - 8) (mem_le 8 (htonll v))"

definition decode_raw08 :: "bytes \<Rightarrow> u8" where "decode_raw08 raw = raw ! 0"
definition decode_raw16 :: "bytes \<Rightarrow> u16" where "decode_raw16 raw = htons (load_le (replicate (2 - 2) 0 @ take 2 raw))"
definition decode_raw24 :: "bytes \<Rightarrow> u32" where "decode_raw24 raw = htonl (load_le (replicate (4 - 3) 0 @ take 3 raw))"
definition decode_raw32 :: "bytes \<Rightarrow> u32" where "decode_raw32 raw = htonl (load_le (replicate (4 - 4) 0 @ take 4 raw))"
definition decode_raw40 :: "bytes \<Rightarrow> u64" where "decode_raw40 raw = htonll (load_le (replicate (8 - 5) 0 @ take 5 raw))"
definition decode_raw48 :: "bytes \<Rightarrow> u64" where "decode_raw48 raw = htonll (load_le (replicate (8 - 6) 0 @ take 6 raw))"
definition decode_raw64 :: "bytes \<Rightarrow> u64" where "decode_raw64 raw = htonll (load_le (replicate (8 - 8) 0 @ take 8 raw))"

lemma length_mem_le [simp]: "length (mem_le n w) = n"
  by (simp add: mem_le_def)

lemma nth_mem_le [simp]: "i < n \<Longrightarrow> mem_le n w ! i = ucast (drop_bit (8 * i) w)"
  by (simp add: mem_le_def)

lemma bit_load_le: "bit (load_le bs :: 'a::len word) k \<longleftrightarrow> k < LENGTH('a) \<and> k div 8 < length bs \<and> bit (bs ! (k div 8)) (k mod 8)"
proof (induction bs arbitrary: k)
  case Nil
  show ?case by simp
next
  case (Cons b bs)
  show ?case
  proof (cases "k < 8")
    case True
    then show ?thesis by (auto simp: bit_simps)
  next
    case False
    then obtain j where j: "k = 8 + j" using le_Suc_ex [of 8 k] by auto
    have "\<not> bit b (8 + j)" using bit_imp_le_length [of b "8 + j"] by auto
    moreover have "(8 + j) div 8 = Suc (j div 8)" by simp
    ultimately show ?thesis using Cons.IH [of j] by (auto simp: j bit_simps)
  qed
qed

lemma byte_less: "bit (b :: u8) i \<Longrightarrow> i < 8"
  using bit_imp_le_length [of b i] by simp

lemma bit_mem_le: "k < n \<Longrightarrow> bit (mem_le n w ! k) i \<longleftrightarrow> i < 8 \<and> bit w (8 * k + i)" for w :: "'a::len word"
  by (auto simp: bit_simps)

lemma load_mem: "load_le (mem_le n w) = take_bit (8 * n) w" for w :: "'a::len word"
proof (rule bit_word_eqI)
  fix k assume "k < LENGTH('a)"
  moreover have "k div 8 < n \<longleftrightarrow> k < 8 * n" by auto
  moreover have "8 * (k div 8) + k mod 8 = k" by simp
  ultimately show "bit (load_le (mem_le n w) :: 'a word) k \<longleftrightarrow> bit (take_bit (8 * n) w) k"
    by (auto simp: bit_load_le bit_mem_le bit_take_bit_iff simp del: nth_mem_le)
qed

lemma mem_load: "8 * length bs \<le> LENGTH('a) \<Longrightarrow> mem_le (length bs) (load_le bs :: 'a::len word) = bs"
proof (rule nth_equalityI)
  fix i assume l: "8 * length bs \<le> LENGTH('a)" and "i < length (mem_le (length bs) (load_le bs :: 'a word))"
  then have i: "i < length bs" by simp
  show "mem_le (length bs) (load_le bs :: 'a word) ! i = bs ! i"
  proof (rule bit_word_eqI)
    fix j assume "j < LENGTH(8)"
    then have "j < 8" "(8 * i + j) div 8 = i" "(8 * i + j) mod 8 = j" "8 * i + j < LENGTH('a)" using l i by auto
    then show "bit (mem_le (length bs) (load_le bs :: 'a word) ! i) j \<longleftrightarrow> bit (bs ! i) j"
      using i by (simp add: bit_mem_le bit_load_le del: nth_mem_le)
  qed
qed simp

lemma mem_load_n: "length bs = n \<Longrightarrow> 8 * n \<le> LENGTH('a) \<Longrightarrow> mem_le n (load_le bs :: 'a::len word) = bs"
  using mem_load by blast

lemma drop_rev_mem: "k \<le> n \<Longrightarrow> drop k (rev (mem_le n w)) = rev (mem_le (n - k) w)"
  by (simp add: drop_rev mem_le_def take_map)

lemma load_le_zeros: "load_le (bs @ replicate k 0) = load_le bs"
proof (rule bit_word_eqI)
  fix n
  show "bit (load_le (bs @ replicate k 0) :: 'a word) n \<longleftrightarrow> bit (load_le bs :: 'a word) n"
    by (auto simp: bit_load_le nth_append)
qed

text \<open>What the packed integers are: the low bytes of the value, highest first.\<close>

lemma encode_raw_rev:
  "encode_raw16 x = rev (mem_le 2 x)" "encode_raw32 y = rev (mem_le 4 y)" "encode_raw40 v = rev (mem_le 5 v)"
  "encode_raw48 v = rev (mem_le 6 v)" "encode_raw64 v = rev (mem_le 8 v)"
  by (simp_all add: encode_raw16_def encode_raw32_def encode_raw40_def encode_raw48_def encode_raw64_def htons_def htonl_def
      htonll_def mem_load_n drop_rev_mem)

lemma length_encode_raw [simp]:
  "length (encode_raw08 b) = 1" "length (encode_raw16 x) = 2" "length (encode_raw32 y) = 4" "length (encode_raw40 v) = 5"
  "length (encode_raw48 v) = 6" "length (encode_raw64 v) = 8"
  by (simp_all add: encode_raw_rev encode_raw08_def)

lemma load_swapped:
  assumes "k + length raw = n" "8 * n \<le> LENGTH('a)"
  shows "(load_le (rev (mem_le n (load_le (replicate k 0 @ raw) :: 'a::len word))) :: 'b::len word) = load_le (rev raw)"
proof -
  have "mem_le n (load_le (replicate k 0 @ raw) :: 'a word) = replicate k 0 @ raw" by (rule mem_load_n) (use assms in simp_all)
  then show ?thesis by (simp add: load_le_zeros)
qed

lemma decode_raw_load:
  "length raw = 2 \<Longrightarrow> decode_raw16 raw = load_le (rev raw)" "length raw = 3 \<Longrightarrow> decode_raw24 raw = load_le (rev raw)"
  "length raw = 4 \<Longrightarrow> decode_raw32 raw = load_le (rev raw)"
  "length raw = 5 \<Longrightarrow> decode_raw40 raw = load_le (rev raw)" "length raw = 6 \<Longrightarrow> decode_raw48 raw = load_le (rev raw)"
  "length raw = 8 \<Longrightarrow> decode_raw64 raw = load_le (rev raw)"
  unfolding decode_raw16_def decode_raw24_def decode_raw32_def decode_raw40_def decode_raw48_def decode_raw64_def htons_def htonl_def htonll_def
  by (subst load_swapped; simp)+

lemma decode_raw_prefix:
  "decode_raw16 (encode_raw16 x @ r) = decode_raw16 (encode_raw16 x)" "decode_raw32 (encode_raw32 y @ r) = decode_raw32 (encode_raw32 y)"
  "decode_raw40 (encode_raw40 v @ r) = decode_raw40 (encode_raw40 v)" "decode_raw48 (encode_raw48 v @ r) = decode_raw48 (encode_raw48 v)"
  by (simp_all add: decode_raw16_def decode_raw32_def decode_raw40_def decode_raw48_def)

lemma decode_encode_raw:
  "decode_raw08 (encode_raw08 b) = b" "decode_raw16 (encode_raw16 x) = x" "decode_raw32 (encode_raw32 y) = y"
  "decode_raw40 (encode_raw40 v) = take_bit 40 v" "decode_raw48 (encode_raw48 v) = take_bit 48 v" "decode_raw64 (encode_raw64 v) = v"
  by (simp_all add: decode_raw_load encode_raw_rev load_mem take_bit_word_eq_self decode_raw08_def encode_raw08_def)

section \<open>Key-value pairs\<close>

text \<open>A key length of 12 bits and a value length of 28 bits share five bytes.  \<open>htonl\<close> takes the low 32 bits of the \<open>size_t\<close>.\<close>

definition encode_kv_length :: "u64 \<Rightarrow> u64 \<Rightarrow> bytes" where
  "encode_kv_length klen vlen =
     (let v = mem_le 4 (htonl (ucast vlen))
      in [ucast (drop_bit 4 klen), v ! 0 OR ucast (push_bit 4 (klen AND 0xF)), v ! 1, v ! 2, v ! 3])"

definition decode_kv_length :: "bytes \<Rightarrow> u32 \<times> u32" where
  "decode_kv_length kv =
     (let klen = ucast (push_bit 4 (ucast (kv ! 0)) OR drop_bit 4 (ucast (kv ! 1) AND 0xf0 :: u32)) :: u16;
          vlen = htonl (load_le (take 4 (drop 1 kv)))
      in (ucast klen, vlen AND 0x0FFFFFFF))"

text \<open>
  \<open>read_kv\<close> only computes pointers into the buffer; a key or value that does not end inside the buffer is \<open>None\<close>.  The result
  is the key, the value and the number of bytes consumed.
\<close>

definition read_kv :: "bytes \<Rightarrow> (bytes \<times> bytes \<times> nat) option" where
  "read_kv buf = do {
     c_assert (5 \<le> length buf);
     let (klen, vlen) = decode_kv_length buf;
     c_assert (5 + unat klen + unat vlen \<le> length buf);
     Some (take (unat klen) (drop 5 buf), take (unat vlen) (drop (5 + unat klen) buf), 5 + unat klen + unat vlen)
   }"

definition write_kv :: "bytes \<Rightarrow> bytes \<Rightarrow> bytes" where
  "write_kv key value =
     encode_kv_length (ucast (of_nat (length key) :: u32)) (ucast (of_nat (length value) :: u32)) @ key @ value"

lemma length_encode_kv_length [simp]: "length (encode_kv_length k v) = 5"
  by (simp add: encode_kv_length_def)

lemma mem_htonl: "mem_le 4 (htonl w) = rev (mem_le 4 w)"
  by (simp add: htonl_def mem_load_n)

lemma htonl_load: "length bs = 4 \<Longrightarrow> htonl (load_le bs) = load_le (rev bs)"
  by (simp add: htonl_def mem_load_n)

lemma bit_small: "unat w < 2 ^ n \<Longrightarrow> bit w k \<Longrightarrow> k < n" for w :: "'a::len word"
proof (rule ccontr)
  assume w: "unat w < 2 ^ n" "bit w k" and "\<not> k < n"
  have "take_bit n (unat w) = unat w" using w(1) by (simp add: take_bit_nat_eq_self)
  moreover have "bit (unat w) k" using w(2) by (simp add: bit_unsigned_iff bit_imp_le_length)
  ultimately show False using \<open>\<not> k < n\<close> bit_take_bit_iff [of n "unat w" k] by simp
qed

lemma kv_length_list:
  "encode_kv_length klen vlen = [ucast (drop_bit 4 klen), ucast (drop_bit 24 vlen) OR ucast (push_bit 4 (klen AND 0xF)),
     ucast (drop_bit 16 vlen), ucast (drop_bit 8 vlen), ucast vlen]"
proof -
  have b: "ucast (drop_bit k (ucast vlen :: u32)) = (ucast (drop_bit k vlen) :: u8)" if "k \<le> 24" for k
    by (rule bit_word_eqI) (use that in \<open>auto simp: bit_simps\<close>)
  show ?thesis by (simp add: encode_kv_length_def mem_htonl rev_nth b b [of 0, simplified])
qed

lemma kv_masks:
  "klen AND 0xF = take_bit 4 klen" "vlen AND 0x0FFFFFFF = take_bit 28 vlen" "drop_bit 4 (w AND 0xf0) = take_bit 4 (drop_bit 4 w)"
  for klen :: "'a::len word" and vlen w :: u32
proof -
  have e: "(0xf0 :: u32) = push_bit 4 (mask 4)" by (simp add: mask_eq_exp_minus_1 push_bit_eq_mult)
  show "drop_bit 4 (w AND 0xf0) = take_bit 4 (drop_bit 4 w)" unfolding e by (rule bit_word_eqI) (auto simp: bit_simps)
qed (simp_all add: take_bit_eq_mask mask_eq_exp_minus_1)

lemma kv_klen:
  fixes klen vlen :: u64
  assumes k: "unat klen < 2 ^ 12" and v: "unat vlen < 2 ^ 28"
  shows "ucast (ucast (push_bit 4 (ucast (ucast (drop_bit 4 klen) :: u8)) OR
      take_bit 4 (drop_bit 4 (ucast (ucast (drop_bit 24 vlen) OR ucast (push_bit 4 (take_bit 4 klen)) :: u8) :: u32))) :: u16) = (ucast klen :: u32)"
    (is "?l = ?r")
proof (rule bit_word_eqI)
  fix n assume n: "n < LENGTH(32)"
  have v: "\<not> bit vlen (28 + n)" using bit_small [OF v, of "28 + n"] by auto
  have "4 + (n - 4) = n \<or> n < 4" by auto
  then show "bit ?l n \<longleftrightarrow> bit ?r n" using n bit_small [OF k, of n] v by (auto simp: bit_simps)
qed

lemma kv_vlen:
  fixes klen vlen :: u64
  assumes v: "unat vlen < 2 ^ 28"
  shows "take_bit 28 (load_le [ucast vlen, ucast (drop_bit 8 vlen), ucast (drop_bit 16 vlen), ucast (drop_bit 24 vlen) OR ucast (push_bit 4 (take_bit 4 klen))])
      = (ucast vlen :: u32)" (is "take_bit 28 (load_le ?bs) = ?r")
proof (rule bit_word_eqI)
  fix n assume "n < LENGTH(32)"
  then obtain q i where n: "n = 8 * q + i" "i < 8" "q < 4" using that [of "n div 8" "n mod 8"] by simp
  then have "q = 0 \<or> q = 1 \<or> q = 2 \<or> q = 3" by auto
  moreover have "(8 * q + i) div 8 = q" "(8 * q + i) mod 8 = i" using n by auto
  ultimately show "bit (take_bit 28 (load_le ?bs :: u32)) n \<longleftrightarrow> bit ?r n"
    using n bit_small [OF v, of n] by (auto simp: bit_load_le bit_simps numeral_3_eq_3 numeral_2_eq_2 simp del: load_le.simps)
qed

lemma decode_encode_kv_length:
  assumes "unat klen < 2 ^ 12" "unat vlen < 2 ^ 28"
  shows "decode_kv_length (encode_kv_length klen vlen @ r) = (ucast klen, ucast vlen)"
proof -
  have "htonl (load_le (take 4 (drop 1 (encode_kv_length klen vlen @ r)))) AND 0x0FFFFFFF = ucast vlen"
    by (simp add: kv_length_list kv_masks htonl_load kv_vlen [OF assms(2)] del: load_le.simps)
  then show ?thesis
    by (simp add: decode_kv_length_def kv_masks kv_klen [OF assms] del: load_le.simps) (simp add: kv_length_list kv_masks kv_klen [OF assms])
qed

lemma read_write_kv:
  assumes "length key < 2 ^ 12" "length value < 2 ^ 28"
  shows "read_kv (write_kv key value @ r) = Some (key, value, length (write_kv key value))"
proof -
  have "decode_kv_length (write_kv key value @ r) = (of_nat (length key), of_nat (length value))"
    using assms decode_encode_kv_length [of "ucast (of_nat (length key) :: u32)" "ucast (of_nat (length value) :: u32)"]
    by (simp add: write_kv_def unat_ucast_up unsigned_of_nat take_bit_nat_eq_self)
  moreover have "unat (of_nat (length key) :: u32) = length key" "unat (of_nat (length value) :: u32) = length value"
    using assms by (simp_all add: unsigned_of_nat take_bit_nat_eq_self)
  ultimately show ?thesis by (simp add: read_kv_def write_kv_def c_assert_true)
qed

section \<open>Node pointers\<close>

record node_pointer =
  np_key :: bytes
  np_pointer :: u64
  np_reduce_value :: bytes
  np_subtreesize :: u64

text \<open>The root pointers of the file header; \<open>int\<close> sizes are small, a root shorter than its fixed part is refused before the call.\<close>

definition read_root :: "bytes \<Rightarrow> node_pointer" where
  "read_root buf = \<lparr>np_key = [], np_pointer = decode_raw48 buf, np_reduce_value = drop 12 buf, np_subtreesize = decode_raw48 (drop 6 buf)\<rparr>"

definition encode_root :: "node_pointer option \<Rightarrow> bytes" where
  "encode_root node =
     (case node of None \<Rightarrow> [] | Some n \<Rightarrow> encode_raw48 (np_pointer n) @ encode_raw48 (np_subtreesize n) @ np_reduce_value n)"

text \<open>The value of a pair in a pointer node.\<close>

definition encode_pointer :: "node_pointer \<Rightarrow> bytes" where
  "encode_pointer ptr =
     encode_raw48 (np_pointer ptr) @ encode_raw48 (np_subtreesize ptr) @
     encode_raw16 (of_nat (length (np_reduce_value ptr))) @ np_reduce_value ptr"

definition read_pointer :: "bytes \<Rightarrow> bytes \<Rightarrow> node_pointer option" where
  "read_pointer key buf = do {
     c_assert (14 \<le> length buf);
     let n = unat (decode_raw16 (drop 12 buf));
     c_assert (14 + n \<le> length buf);
     Some \<lparr>np_key = key, np_pointer = decode_raw48 buf, np_reduce_value = take n (drop 14 buf), np_subtreesize = decode_raw48 (drop 6 buf)\<rparr>
   }"

definition ptr_ok :: "node_pointer \<Rightarrow> bool" where
  "ptr_ok n \<longleftrightarrow> unat (np_pointer n) < 2 ^ 48 \<and> unat (np_subtreesize n) < 2 ^ 48 \<and> length (np_reduce_value n) < 2 ^ 16"

lemma take_bit_small: "unat w < 2 ^ n \<Longrightarrow> take_bit n w = w" for w :: "'a::len word"
  by (rule bit_word_eqI) (auto simp: bit_take_bit_iff dest: bit_small)

lemma read_encode_pointer:
  assumes "ptr_ok n"
  shows "read_pointer (np_key n) (encode_pointer n @ r) = Some n"
  using assms
  by (simp add: read_pointer_def encode_pointer_def decode_raw_prefix decode_encode_raw take_bit_small ptr_ok_def c_assert_true
      unsigned_of_nat take_bit_nat_eq_self)

lemma read_encode_root:
  assumes "ptr_ok n" "np_key n = []"
  shows "read_root (encode_root (Some n)) = n"
  using assms by (simp add: read_root_def encode_root_def decode_raw_prefix decode_encode_raw take_bit_small ptr_ok_def)

section \<open>Orders on keys\<close>

fun memcmp :: "bytes \<Rightarrow> bytes \<Rightarrow> int" where
  "memcmp (x # xs) (y # ys) = (if x = y then memcmp xs ys else if x < y then - 1 else 1)"
| "memcmp _ _ = 0"

definition ebin_cmp :: "bytes \<Rightarrow> bytes \<Rightarrow> int" where
  "ebin_cmp e1 e2 =
     (let size = (if length e2 < length e1 then length e2 else length e1);
          cmp = memcmp (take size e1) (take size e2)
      in if cmp = 0 then if size < length e2 then - 1 else if size < length e1 then 1 else cmp else cmp)"

definition decode_sequence_key :: "bytes \<Rightarrow> u64" where
  "decode_sequence_key buf = decode_raw48 buf"

definition seq_cmp :: "bytes \<Rightarrow> bytes \<Rightarrow> int" where
  "seq_cmp k1 k2 =
     (let e1val = decode_sequence_key k1; e2val = decode_sequence_key k2
      in if e1val = e2val then 0 else if e1val < e2val then - 1 else 1)"

text \<open>What the trees rely on of their \<open>compare_callback\<close>: its sign is a total preorder.\<close>

locale key_order =
  fixes compare :: "bytes \<Rightarrow> bytes \<Rightarrow> int"
  assumes cmp_swap: "compare y x < 0 \<longleftrightarrow> 0 < compare x y"
    and cmp_trans: "compare x y \<le> 0 \<Longrightarrow> compare y z \<le> 0 \<Longrightarrow> compare x z \<le> 0"
begin

lemma cmp_refl [simp]: "compare x x = 0"
  using cmp_swap [of x x] by linarith

lemma cmp_ge: "0 \<le> compare x y \<longleftrightarrow> compare y x \<le> 0"
  using cmp_swap [of x y] by linarith

lemma cmp_eq_swap: "compare x y = 0 \<longleftrightarrow> compare y x = 0"
  using cmp_swap [of x y] cmp_swap [of y x] by linarith

lemma cmp_less_le: "compare x y < 0 \<Longrightarrow> compare y z \<le> 0 \<Longrightarrow> compare x z < 0"
  using cmp_trans [of y z x] cmp_swap [of x y] cmp_swap [of x z] cmp_swap [of z x] by linarith

lemma cmp_le_less: "compare x y \<le> 0 \<Longrightarrow> compare y z < 0 \<Longrightarrow> compare x z < 0"
  using cmp_trans [of z x y] cmp_swap [of y z] cmp_swap [of x z] cmp_swap [of z x] by linarith

lemma cmp_less_trans: "compare x y < 0 \<Longrightarrow> compare y z < 0 \<Longrightarrow> compare x z < 0"
  using cmp_less_le [of x y z] by linarith

end

lemma ebin_cmp_simps [simp]:
  "ebin_cmp [] [] = 0" "ebin_cmp [] (y # ys) = - 1" "ebin_cmp (x # xs) [] = 1"
  "ebin_cmp (x # xs) (y # ys) = (if x = y then ebin_cmp xs ys else if x < y then - 1 else 1)"
  by (auto simp: ebin_cmp_def Let_def)

lemma ebin_cmp_swap: "ebin_cmp y x = - ebin_cmp x y"
proof (induction x arbitrary: y)
  case Nil
  show ?case by (cases y) auto
next
  case (Cons a x)
  show ?case using Cons.IH by (cases y) auto
qed

lemma ebin_cmp_trans: "ebin_cmp x y \<le> 0 \<Longrightarrow> ebin_cmp y z \<le> 0 \<Longrightarrow> ebin_cmp x z \<le> 0"
proof (induction x arbitrary: y z)
  case Nil
  show ?case by (cases z) auto
next
  case (Cons a x)
  then obtain b y' c z' where "y = b # y'" "z = c # z'" by (cases y; cases z) auto
  then show ?case using Cons.prems Cons.IH [of y' z'] by (auto split: if_splits)
qed

lemma ebin_cmp_eq: "ebin_cmp x y = 0 \<longleftrightarrow> x = y"
proof (induction x arbitrary: y)
  case Nil
  show ?case by (cases y) auto
next
  case (Cons a x)
  show ?case using Cons.IH by (cases y) auto
qed

interpretation ebin: key_order ebin_cmp
proof
  show "ebin_cmp y x < 0 \<longleftrightarrow> 0 < ebin_cmp x y" for x y using ebin_cmp_swap [of y x] by linarith
qed (rule ebin_cmp_trans)

interpretation seqo: key_order seq_cmp
  by unfold_locales (auto simp: seq_cmp_def Let_def split: if_splits)

end
