(* ===== verification/CouchFile.thy ===== *)
theory CouchFile
  imports CouchFormat Crc32
begin

unbundle bit_operations_syntax

text \<open>
  Chunks in a couchstore file: \<open>couchstore/src/couch_file_write.c\<close> and \<open>couch_file_read.c\<close>.  The first byte of every block of 4096
  bytes tells data from headers, so a chunk is written around these bytes; it carries its length and its CRC.
  The file operations may serve less than they are asked for or fail: their outcomes, and those of \<open>malloc\<close>, are queues in
  the state, and an empty queue serves in full.  Offsets do not wrap and are natural numbers.
\<close>

section \<open>The file\<close>

datatype couchstore_error_t =
    COUCHSTORE_ERROR_OPEN_FILE | COUCHSTORE_ERROR_CORRUPT | COUCHSTORE_ERROR_ALLOC_FAIL | COUCHSTORE_ERROR_READ
  | COUCHSTORE_ERROR_DOC_NOT_FOUND | COUCHSTORE_ERROR_NO_HEADER | COUCHSTORE_ERROR_WRITE | COUCHSTORE_ERROR_HEADER_VERSION
  | COUCHSTORE_ERROR_CHECKSUM_FAIL | COUCHSTORE_ERROR_INVALID_ARGUMENTS | COUCHSTORE_ERROR_NO_SUCH_FILE | COUCHSTORE_ERROR_CANCEL

datatype io_outcome = Io_ok nat | Io_err couchstore_error_t

record tree_file =
  tf_pos :: nat
  contents :: bytes
  io_q :: "io_outcome list"
  mem_q :: "bool list"

type_synonym 'a file_result = "tree_file \<times> (couchstore_error_t + 'a)"

definition COUCH_BLOCK_SIZE :: nat where "COUCH_BLOCK_SIZE = 4096"

text \<open>\<open>pwrite\<close> and \<open>pread\<close> of the file operations, and \<open>malloc\<close>.  Writing behind the end of the file leaves zeros in between.\<close>

definition file_put :: "bytes \<Rightarrow> nat \<Rightarrow> bytes \<Rightarrow> bytes" where
  "file_put c off bs = (if bs = [] then c else take off c @ replicate (off - length c) 0 @ bs @ drop (off + length bs) c)"

definition pwrite :: "tree_file \<Rightarrow> bytes \<Rightarrow> nat \<Rightarrow> nat file_result" where
  "pwrite f bs off =
     (case io_q f of
        [] \<Rightarrow> (f\<lparr>contents := file_put (contents f) off bs\<rparr>, Inr (length bs))
      | Io_ok n # q \<Rightarrow> (f\<lparr>contents := file_put (contents f) off (take n bs), io_q := q\<rparr>, Inr (min n (length bs)))
      | Io_err e # q \<Rightarrow> (f\<lparr>io_q := q\<rparr>, Inl e))"

definition pread :: "tree_file \<Rightarrow> nat \<Rightarrow> nat \<Rightarrow> bytes file_result" where
  "pread f n off =
     (case io_q f of
        [] \<Rightarrow> (f, Inr (take n (drop off (contents f))))
      | Io_ok k # q \<Rightarrow> (f\<lparr>io_q := q\<rparr>, Inr (take (min k n) (drop off (contents f))))
      | Io_err e # q \<Rightarrow> (f\<lparr>io_q := q\<rparr>, Inl e))"

definition file_malloc :: "tree_file \<Rightarrow> tree_file \<times> bool" where
  "file_malloc f = (case mem_q f of [] \<Rightarrow> (f, True) | b # q \<Rightarrow> (f\<lparr>mem_q := q\<rparr>, b))"

section \<open>Writing\<close>

lemma pwrite_Inr:
  assumes "pwrite f bs off = (f', Inr w)"
  shows "contents f' = file_put (contents f) off (take w bs)" "w \<le> length bs" "tf_pos f' = tf_pos f" "mem_q f' = mem_q f"
    "io_q f = [] \<and> io_q f' = [] \<and> w = length bs \<or> length (io_q f') < length (io_q f)"
  using assms by (auto simp: pwrite_def min_def take_all_iff split: list.splits io_outcome.splits if_splits)

function raw_write_loop :: "tree_file \<Rightarrow> bytes \<Rightarrow> nat \<Rightarrow> nat \<Rightarrow> nat file_result" where
  "raw_write_loop f buf buf_pos write_pos =
     (if buf_pos < length buf then
        let block_remain = COUCH_BLOCK_SIZE - write_pos mod COUCH_BLOCK_SIZE;
            block_remain = (if length buf - buf_pos < block_remain then length buf - buf_pos else block_remain)
        in if write_pos mod COUCH_BLOCK_SIZE = 0 then
             (case pwrite f [0] write_pos of
                (f, Inl e) \<Rightarrow> (f, Inl e)
              | (f, Inr _) \<Rightarrow> raw_write_loop f buf buf_pos (write_pos + 1))
           else
             (case pwrite f (take block_remain (drop buf_pos buf)) write_pos of
                (f, Inl e) \<Rightarrow> (f, Inl e)
              | (f, Inr written) \<Rightarrow> raw_write_loop f buf (buf_pos + written) (write_pos + written))
      else (f, Inr write_pos))"
  by pat_completeness auto

termination
proof (relation "measure (\<lambda>(f, buf, bp, wp). length (io_q f) + 2 * (length buf - bp) + (if wp mod COUCH_BLOCK_SIZE = 0 then 1 else 0))", goal_cases)
  case 1
  show ?case by simp
next
  case (2 f buf bp wp br br' f' s w)
  then have p: "pwrite f [0] wp = (f', Inr w)" by simp
  have "(wp + 1) mod COUCH_BLOCK_SIZE \<noteq> 0" using 2 by (simp add: COUCH_BLOCK_SIZE_def mod_Suc)
  then show ?case using 2 pwrite_Inr(5) [OF p] by auto
next
  case (3 f buf bp wp br br' f' s w)
  then have p: "pwrite f (take br' (drop bp buf)) wp = (f', Inr w)" by simp
  have "wp mod COUCH_BLOCK_SIZE < COUCH_BLOCK_SIZE" by (simp add: COUCH_BLOCK_SIZE_def)
  then have "0 < br'" using 3 by (auto split: if_splits)
  then have "0 < length (take br' (drop bp buf))" using 3 by simp
  then have w: "w \<le> length buf - bp" "length (io_q f') \<le> length (io_q f)" "w = 0 \<Longrightarrow> length (io_q f') < length (io_q f)"
    using pwrite_Inr(2,5) [OF p] by auto
  have "wp mod COUCH_BLOCK_SIZE \<noteq> 0" using 3 by simp
  then show ?case using w by (cases "w = 0") (simp_all, arith)
qed

declare raw_write_loop.simps [simp del]

text \<open>The result is the position behind the data; the code returns the difference to the start.\<close>

definition raw_write :: "tree_file \<Rightarrow> bytes \<Rightarrow> nat \<Rightarrow> nat file_result" where
  "raw_write f buf pos = raw_write_loop f buf 0 pos"

definition db_write_header :: "tree_file \<Rightarrow> bytes \<Rightarrow> nat file_result" where
  "db_write_header f buf =
     (let write_pos = tf_pos f;
          size = htonl (of_nat (length buf + 4));
          crc32 = htonl (couch_hash_crc32 buf);
          write_pos = (if write_pos mod COUCH_BLOCK_SIZE \<noteq> 0 then write_pos + (COUCH_BLOCK_SIZE - write_pos mod COUCH_BLOCK_SIZE) else write_pos)
      in case pwrite f (1 # mem_le 4 size @ mem_le 4 crc32) write_pos of
           (f, Inl e) \<Rightarrow> (f, Inl e)
         | (f, Inr written) \<Rightarrow>
             (case raw_write f buf (write_pos + written) of
                (f, Inl e) \<Rightarrow> (f, Inl e)
              | (f, Inr end_pos) \<Rightarrow> (f\<lparr>tf_pos := end_pos\<rparr>, Inr write_pos)))"

text \<open>The results are the position of the chunk and its size in the file.\<close>

definition db_write_buf :: "tree_file \<Rightarrow> bytes \<Rightarrow> (nat \<times> nat) file_result" where
  "db_write_buf f buf =
     (let write_pos = tf_pos f;
          size = htonl (of_nat (length buf) OR 0x80000000);
          crc32 = htonl (couch_hash_crc32 buf)
      in case raw_write f (mem_le 4 size @ mem_le 4 crc32) write_pos of
           (f, Inl e) \<Rightarrow> (f, Inl e)
         | (f, Inr end_pos) \<Rightarrow>
             (case raw_write f buf end_pos of
                (f, Inl e) \<Rightarrow> (f, Inl e)
              | (f, Inr end_pos) \<Rightarrow> (f\<lparr>tf_pos := end_pos\<rparr>, Inr (write_pos, end_pos - write_pos))))"

text \<open>The compression library is not part of the sources: its two functions are parameters, \<open>None\<close> for a status other than \<open>SNAPPY_OK\<close>.\<close>

record snappy =
  snappy_compress :: "bytes \<Rightarrow> bytes option"
  snappy_uncompressed_length :: "bytes \<Rightarrow> nat option"
  snappy_uncompress :: "bytes \<Rightarrow> bytes option"

definition db_write_buf_compressed :: "snappy \<Rightarrow> tree_file \<Rightarrow> bytes \<Rightarrow> (nat \<times> nat) file_result" where
  "db_write_buf_compressed sn f buf =
     (case file_malloc f of
        (f, False) \<Rightarrow> (f, Inl COUCHSTORE_ERROR_ALLOC_FAIL)
      | (f, True) \<Rightarrow>
          (case snappy_compress sn buf of
             None \<Rightarrow> (f, Inl COUCHSTORE_ERROR_WRITE)
           | Some to_write \<Rightarrow> db_write_buf f to_write))"

section \<open>Reading\<close>

definition skip_prefix :: "nat \<Rightarrow> nat" where
  "skip_prefix pos = (if pos mod COUCH_BLOCK_SIZE = 0 then pos + 1 else pos)"

function read_skipping_loop :: "tree_file \<Rightarrow> nat \<Rightarrow> nat \<Rightarrow> bytes \<Rightarrow> (nat \<times> bytes) file_result" where
  "read_skipping_loop f pos len dst =
     (if 0 < len then
        let read_size = COUCH_BLOCK_SIZE - pos mod COUCH_BLOCK_SIZE;
            read_size = (if len < read_size then len else read_size)
        in case pread f read_size pos of
             (f, Inl e) \<Rightarrow> (f, Inl e)
           | (f, Inr got) \<Rightarrow>
               if got = [] then (f, Inl COUCHSTORE_ERROR_READ)
               else read_skipping_loop f (skip_prefix (pos + length got)) (len - length got) (dst @ got)
      else (f, Inr (pos, dst)))"
  by pat_completeness auto

termination
  by (relation "measure (\<lambda>(f, pos, len, dst). len)") auto

declare read_skipping_loop.simps [simp del]

definition read_skipping_prefixes :: "tree_file \<Rightarrow> nat \<Rightarrow> nat \<Rightarrow> (nat \<times> bytes) file_result" where
  "read_skipping_prefixes f pos len = read_skipping_loop f (skip_prefix pos) len []"

definition MAX_HEADER_SIZE :: u32 where "MAX_HEADER_SIZE = 1024"

text \<open>The two words in front of a chunk, in the byte order of the machine: what \<open>info\<close> holds after \<open>ntohl\<close>.\<close>

definition chunk_len_of :: "bytes \<Rightarrow> u32" where
  "chunk_len_of info = htonl (load_le (take 4 info)) AND NOT 0x80000000"

definition chunk_crc_of :: "bytes \<Rightarrow> u32" where
  "chunk_crc_of info = htonl (load_le (take 4 (drop 4 info)))"

definition read_chunk_body :: "tree_file \<Rightarrow> nat \<Rightarrow> u32 \<Rightarrow> u32 \<Rightarrow> bytes file_result" where
  "read_chunk_body f pos chunk_len crc =
     (case file_malloc f of
        (f, False) \<Rightarrow> (f, Inl COUCHSTORE_ERROR_ALLOC_FAIL)
      | (f, True) \<Rightarrow>
          (case read_skipping_prefixes f pos (unat chunk_len) of
             (f, Inl e) \<Rightarrow> (f, Inl e)
           | (f, Inr (pos, buf)) \<Rightarrow>
               if crc \<noteq> 0 \<and> crc \<noteq> couch_hash_crc32 buf then (f, Inl COUCHSTORE_ERROR_CHECKSUM_FAIL) else (f, Inr buf)))"

definition pread_bin_internal :: "tree_file \<Rightarrow> nat \<Rightarrow> bool \<Rightarrow> bytes file_result" where
  "pread_bin_internal f pos header =
     (case read_skipping_prefixes f pos 8 of
        (f, Inl e) \<Rightarrow> (f, Inl e)
      | (f, Inr (pos, info)) \<Rightarrow>
          let chunk_len = chunk_len_of info; crc = chunk_crc_of info
          in if header \<and> (chunk_len < 4 \<or> MAX_HEADER_SIZE < chunk_len) then (f, Inl COUCHSTORE_ERROR_CORRUPT)
             else read_chunk_body f pos (if header then chunk_len - 4 else chunk_len) crc)"

definition pread_header :: "tree_file \<Rightarrow> nat \<Rightarrow> bytes file_result" where
  "pread_header f pos = pread_bin_internal f (pos + 1) True"

definition pread_bin :: "tree_file \<Rightarrow> nat \<Rightarrow> bytes file_result" where
  "pread_bin f pos = pread_bin_internal f pos False"

definition pread_compressed :: "snappy \<Rightarrow> tree_file \<Rightarrow> nat \<Rightarrow> bytes file_result" where
  "pread_compressed sn f pos =
     (case pread_bin_internal f pos False of
        (f, Inl e) \<Rightarrow> (f, Inl e)
      | (f, Inr compressed_buf) \<Rightarrow>
          (case snappy_uncompressed_length sn compressed_buf of
             None \<Rightarrow> (f, Inl COUCHSTORE_ERROR_CORRUPT)
           | Some uncompressed_len \<Rightarrow>
               (case file_malloc f of
                  (f, False) \<Rightarrow> (f, Inl COUCHSTORE_ERROR_ALLOC_FAIL)
                | (f, True) \<Rightarrow>
                    (case snappy_uncompress sn compressed_buf of
                       None \<Rightarrow> (f, Inl COUCHSTORE_ERROR_CORRUPT)
                     | Some new_buf \<Rightarrow> (f, Inr new_buf)))))"

section \<open>Data around the block prefixes\<close>

text \<open>\<open>data_at c p bs\<close>: the bytes \<open>bs\<close> are in the file from \<open>p\<close> on, around the prefixes; \<open>end_of p n\<close> is the position behind \<open>n\<close> of them.\<close>

fun data_at :: "bytes \<Rightarrow> nat \<Rightarrow> bytes \<Rightarrow> bool" where
  "data_at c p [] \<longleftrightarrow> True"
| "data_at c p (b # bs) \<longleftrightarrow> skip_prefix p < length c \<and> c ! skip_prefix p = b \<and> data_at c (skip_prefix p + 1) bs"

fun end_of :: "nat \<Rightarrow> nat \<Rightarrow> nat" where
  "end_of p 0 = p"
| "end_of p (Suc n) = end_of (skip_prefix p + 1) n"

lemma skip_prefix_ge [simp]: "p \<le> skip_prefix p"
  by (simp add: skip_prefix_def)

lemma skip_prefix_nz: "skip_prefix p mod COUCH_BLOCK_SIZE \<noteq> 0"
  by (simp add: skip_prefix_def COUCH_BLOCK_SIZE_def mod_Suc)

lemma skip_prefix_idem [simp]: "skip_prefix (skip_prefix p) = skip_prefix p"
  using skip_prefix_nz [of p] by (simp add: skip_prefix_def)

lemma end_of_ge: "p \<le> end_of p n"
proof (induction n arbitrary: p)
  case (Suc n)
  have "p \<le> skip_prefix p + 1" using skip_prefix_ge [of p] by linarith
  then show ?case using Suc.IH [of "skip_prefix p + 1"] by simp
qed simp

lemma end_of_add: "end_of p (m + n) = end_of (end_of p m) n"
  by (induction m arbitrary: p) auto

lemma data_at_append: "data_at c p (xs @ ys) \<longleftrightarrow> data_at c p xs \<and> data_at c (end_of p (length xs)) ys"
  by (induction xs arbitrary: p) auto

lemma data_at_skip [simp]: "data_at c (skip_prefix p) bs = data_at c p bs"
  by (cases bs) auto

lemma end_of_skip: "0 < n \<Longrightarrow> end_of (skip_prefix p) n = end_of p n"
  by (cases n) auto

text \<open>Inside a block the data is contiguous.\<close>

lemma block_data:
  assumes "p mod COUCH_BLOCK_SIZE \<noteq> 0" "length bs \<le> COUCH_BLOCK_SIZE - p mod COUCH_BLOCK_SIZE"
  shows "data_at c p bs \<longleftrightarrow> p + length bs \<le> length c \<and> take (length bs) (drop p c) = bs \<or> bs = []" "end_of p (length bs) = p + length bs"
proof -
  have "(data_at c p bs \<longleftrightarrow> p + length bs \<le> length c \<and> take (length bs) (drop p c) = bs \<or> bs = []) \<and> end_of p (length bs) = p + length bs"
    using assms
  proof (induction bs arbitrary: p)
    case (Cons b bs)
    have s: "skip_prefix p = p" using Cons.prems(1) by (simp add: skip_prefix_def)
    show ?case
    proof (cases "bs = []")
      case True
      then show ?thesis by (cases "p < length c") (auto simp: s Cons_nth_drop_Suc [symmetric])
    next
      case False
      have m: "(p + 1) mod COUCH_BLOCK_SIZE = p mod COUCH_BLOCK_SIZE + 1" using Cons.prems(2) False
        by (auto simp: COUCH_BLOCK_SIZE_def mod_Suc)
      then have IH: "(data_at c (p + 1) bs \<longleftrightarrow> p + 1 + length bs \<le> length c \<and> take (length bs) (drop (p + 1) c) = bs \<or> bs = []) \<and>
          end_of (p + 1) (length bs) = p + 1 + length bs"
        by (intro Cons.IH) (use Cons.prems(2) in auto)
      show ?thesis
      proof (cases "p < length c")
        case True
        then show ?thesis using IH False by (auto simp: s Cons_nth_drop_Suc [symmetric])
      qed (use IH False s in auto)
    qed
  qed simp
  then show "data_at c p bs \<longleftrightarrow> p + length bs \<le> length c \<and> take (length bs) (drop p c) = bs \<or> bs = []" "end_of p (length bs) = p + length bs"
    by blast+
qed

text \<open>A file that grows: nothing in front of \<open>q\<close> changes.\<close>

definition keeps :: "nat \<Rightarrow> bytes \<Rightarrow> bytes \<Rightarrow> bool" where
  "keeps q c c' \<longleftrightarrow> length c \<le> length c' \<and> (\<forall>i < q. i < length c \<longrightarrow> c' ! i = c ! i)"

lemma keeps_refl [simp]: "keeps q c c"
  by (simp add: keeps_def)

lemma keeps_trans: "keeps q c c' \<Longrightarrow> keeps r c' c'' \<Longrightarrow> q \<le> r \<Longrightarrow> keeps q c c''"
  unfolding keeps_def by force

lemma keeps_le: "keeps q c c' \<Longrightarrow> p \<le> q \<Longrightarrow> keeps p c c'"
  unfolding keeps_def by force

lemma data_at_keeps: "data_at c p bs \<Longrightarrow> keeps q c c' \<Longrightarrow> end_of p (length bs) \<le> q \<Longrightarrow> data_at c' p bs"
proof (induction bs arbitrary: p)
  case (Cons b bs)
  then have "skip_prefix p < q" using end_of_ge [of "skip_prefix p + 1" "length bs"] by simp
  then show ?case using Cons by (auto simp: keeps_def)
qed simp

lemma file_put_keeps: "keeps off c (file_put c off bs)"
  by (auto simp: keeps_def file_put_def nth_append)

lemma file_put_data: "bs \<noteq> [] \<Longrightarrow> off + length bs \<le> length (file_put c off bs) \<and> take (length bs) (drop off (file_put c off bs)) = bs"
  by (auto simp: file_put_def min_def)

lemma pwrite_keeps: "pwrite f bs off = (f', r) \<Longrightarrow> keeps off (contents f) (contents f') \<and> tf_pos f' = tf_pos f \<and> mem_q f' = mem_q f"
  by (auto simp: pwrite_def file_put_keeps split: list.splits io_outcome.splits)

lemma pwrite_block:
  assumes "pwrite f bs off = (f', Inr w)" "off mod COUCH_BLOCK_SIZE \<noteq> 0" "length bs \<le> COUCH_BLOCK_SIZE - off mod COUCH_BLOCK_SIZE"
  shows "data_at (contents f') off (take w bs)" "end_of off w = off + w"
proof -
  have w: "w \<le> length bs" and c: "contents f' = file_put (contents f) off (take w bs)" using pwrite_Inr [OF assms(1)] by auto
  have l: "length (take w bs) = w" using w by simp
  show "data_at (contents f') off (take w bs)"
    using block_data(1) [of off "take w bs" "contents f'"] assms(2,3) w file_put_data [of "take w bs" off "contents f"] by (auto simp: c)
  show "end_of off w = off + w" using block_data(2) [of off "take w bs"] assms(2,3) l by simp
qed

lemma write_piece:
  assumes "data_at c1 wp (take w xs)" "end_of wp w = wp + w" "keeps (wp + w) c1 c2" "w \<le> length xs" "data_at c2 (wp + w) (drop w xs)"
  shows "data_at c2 wp xs" "end_of wp (length xs) = end_of (wp + w) (length xs - w)"
proof -
  have l: "length (take w xs) = w" using assms(4) by simp
  have "data_at c2 wp (take w xs)" by (rule data_at_keeps [OF assms(1,3)]) (simp only: l assms(2))
  then have "data_at c2 wp (take w xs @ drop w xs)" using assms(2,5) l by (simp only: data_at_append)
  then show "data_at c2 wp xs" by simp
  show "end_of wp (length xs) = end_of (wp + w) (length xs - w)" using end_of_add [of wp w "length xs - w"] assms(2,4) by simp
qed

lemma raw_write_loop_ok:
  "raw_write_loop f buf bp wp = (f', r) \<Longrightarrow>
     keeps wp (contents f) (contents f') \<and> tf_pos f' = tf_pos f \<and> mem_q f' = mem_q f \<and>
     (\<forall>e. r = Inr e \<longrightarrow> bp \<le> length buf \<longrightarrow> data_at (contents f') wp (drop bp buf) \<and> e = end_of wp (length buf - bp))"
proof (induction f buf bp wp rule: raw_write_loop.induct)
  case (1 f buf bp wp)
  define br where "br = (if length buf - bp < COUCH_BLOCK_SIZE - wp mod COUCH_BLOCK_SIZE then length buf - bp else COUCH_BLOCK_SIZE - wp mod COUCH_BLOCK_SIZE)"
  note eq = "1.prems" [unfolded raw_write_loop.simps [of f buf bp wp] Let_def, folded br_def]
  consider (end_) "\<not> bp < length buf" | (prefix) "bp < length buf" "wp mod COUCH_BLOCK_SIZE = 0" | (data) "bp < length buf" "wp mod COUCH_BLOCK_SIZE \<noteq> 0" by blast
  then show ?case
  proof cases
    case end_
    then show ?thesis using eq by auto
  next
    case prefix
    obtain f1 r1 where p: "pwrite f [0] wp = (f1, r1)" by fastforce
    note k = pwrite_keeps [OF p]
    show ?thesis
    proof (cases r1)
      case (Inl e)
      then show ?thesis using eq prefix k by (auto simp: p)
    next
      case (Inr w)
      then have "raw_write_loop f1 buf bp (wp + 1) = (f', r)" using eq prefix by (simp add: p)
      note IH = "1.IH"(1) [OF prefix(1) refl refl prefix(2) p [symmetric, unfolded Inr] refl this]
      have s: "skip_prefix wp = Suc wp" using prefix by (simp add: skip_prefix_def)
      have e: "end_of wp (length buf - bp) = end_of (Suc wp) (length buf - bp)" using end_of_skip [of "length buf - bp" wp] prefix by (simp add: s)
      have d: "data_at c (Suc wp) bs = data_at c wp bs" for c bs using data_at_skip [of c wp bs] by (simp add: s)
      show ?thesis using IH keeps_trans [of wp "contents f" "contents f1" "wp + 1" "contents f'"] k by (simp add: e d)
    qed
  next
    case data
    obtain f1 r1 where p: "pwrite f (take br (drop bp buf)) wp = (f1, r1)" by fastforce
    note k = pwrite_keeps [OF p]
    show ?thesis
    proof (cases r1)
      case (Inl e)
      then show ?thesis using eq data k by (auto simp: p)
    next
      case (Inr w)
      then have run: "raw_write_loop f1 buf (bp + w) (wp + w) = (f', r)" using eq data by (simp add: p)
      note IH = "1.IH"(2) [OF data(1) refl refl data(2) p [symmetric, unfolded Inr br_def] refl run]
      have w: "w \<le> br" "br \<le> length buf - bp" using pwrite_Inr(2) [OF p [unfolded Inr]] by (auto simp: br_def)
      have b: "data_at (contents f1) wp (take w (take br (drop bp buf)))" "end_of wp w = wp + w"
        by (rule pwrite_block [OF p [unfolded Inr] data(2)], simp add: br_def)+
      have "data_at (contents f') wp (drop bp buf) \<and> e = end_of wp (length buf - bp)" if "r = Inr e" for e
        using write_piece [of "contents f1" wp w "drop bp buf" "contents f'"] b w data IH that by (simp add: min_def add.commute)
      then show ?thesis using IH k keeps_trans [of wp "contents f" "contents f1" "wp + w" "contents f'"] by auto
    qed
  qed
qed

section \<open>Reading what is there\<close>

text \<open>No operation fails and no read comes back empty, though reads and writes may be short.\<close>

definition served :: "tree_file \<Rightarrow> bool" where
  "served f \<longleftrightarrow> (\<forall>x \<in> set (io_q f). \<exists>k. x = Io_ok (Suc k)) \<and> (\<forall>b \<in> set (mem_q f). b)"

definition quiet :: "tree_file \<Rightarrow> tree_file \<Rightarrow> bool" where
  "quiet f f' \<longleftrightarrow> contents f' = contents f \<and> tf_pos f' = tf_pos f \<and> served f'"

lemma quiet_trans: "quiet f g \<Longrightarrow> quiet g h \<Longrightarrow> quiet f h"
  by (simp add: quiet_def)

lemma malloc_served: "served f \<Longrightarrow> \<exists>f'. file_malloc f = (f', True) \<and> quiet f f'"
  by (cases "mem_q f") (auto simp: file_malloc_def served_def quiet_def)

lemma pread_served:
  assumes "served f" "0 < n"
  obtains f' k where "pread f n off = (f', Inr (take k (drop off (contents f))))" "0 < k" "k \<le> n" "quiet f f'"
proof (cases "io_q f")
  case Nil
  then show ?thesis using assms by (intro that [of f n]) (auto simp: pread_def quiet_def)
next
  case (Cons x q)
  then obtain k where "x = Io_ok (Suc k)" using assms(1) by (auto simp: served_def)
  then show ?thesis using assms Cons by (intro that [of "f\<lparr>io_q := q\<rparr>" "min (Suc k) n"]) (auto simp: pread_def quiet_def served_def)
qed

lemma block_read:
  assumes "data_at c pos bs" "pos mod COUCH_BLOCK_SIZE \<noteq> 0" "k \<le> COUCH_BLOCK_SIZE - pos mod COUCH_BLOCK_SIZE" "k \<le> length bs"
  shows "take k (drop pos c) = take k bs" "end_of pos k = pos + k" "data_at c (skip_prefix (pos + k)) (drop k bs)"
proof -
  have l: "length (take k bs) = k" using assms(4) by simp
  have "data_at c pos (take k bs @ drop k bs)" using assms(1) by simp
  then have d: "data_at c pos (take k bs)" "data_at c (end_of pos k) (drop k bs)" using l by (simp_all only: data_at_append)
  show e: "end_of pos k = pos + k" using block_data(2) [OF assms(2), of "take k bs"] assms(3) l by simp
  show "take k (drop pos c) = take k bs" using block_data(1) [OF assms(2), of "take k bs" c] assms(3) l d(1) by (cases "k = 0") auto
  show "data_at c (skip_prefix (pos + k)) (drop k bs)" using d(2) e by simp
qed

lemma end_of_resume:
  assumes "end_of pos k = pos + k" "k \<le> len"
  shows "skip_prefix (end_of (skip_prefix (pos + k)) (len - k)) = skip_prefix (end_of pos len)"
proof (cases "k = len")
  case True
  then show ?thesis using assms by simp
next
  case False
  then show ?thesis using end_of_add [of pos k "len - k"] assms end_of_skip [of "len - k" "pos + k"] by simp
qed

lemma read_loop_step:
  "0 < len \<Longrightarrow> pread f (min len (COUCH_BLOCK_SIZE - pos mod COUCH_BLOCK_SIZE)) pos = (f1, Inr got) \<Longrightarrow> got \<noteq> [] \<Longrightarrow>
   read_skipping_loop f pos len dst = read_skipping_loop f1 (skip_prefix (pos + length got)) (len - length got) (dst @ got)"
proof -
  have "(if a < b then a else b) = min a b" for a b :: nat by simp
  then show "0 < len \<Longrightarrow> pread f (min len (COUCH_BLOCK_SIZE - pos mod COUCH_BLOCK_SIZE)) pos = (f1, Inr got) \<Longrightarrow> got \<noteq> [] \<Longrightarrow> ?thesis"
    by (subst read_skipping_loop.simps) (simp add: Let_def)
qed

lemma read_loop_ok:
  assumes "served f" "data_at (contents f) pos bs" "length bs = len" "pos mod COUCH_BLOCK_SIZE \<noteq> 0"
  shows "\<exists>f'. read_skipping_loop f pos len dst = (f', Inr (skip_prefix (end_of pos len), dst @ bs)) \<and> quiet f f'"
  using assms
proof (induction len arbitrary: f pos dst bs rule: less_induct)
  case (less len)
  show ?case
  proof (cases "0 < len")
    case False
    then show ?thesis using less.prems by (subst read_skipping_loop.simps) (auto simp: quiet_def skip_prefix_def)
  next
    case True
    define rs where "rs = min len (COUCH_BLOCK_SIZE - pos mod COUCH_BLOCK_SIZE)"
    have "pos mod COUCH_BLOCK_SIZE < COUCH_BLOCK_SIZE" by (simp add: COUCH_BLOCK_SIZE_def)
    then have "0 < rs" using True by (simp add: rs_def)
    then obtain f1 k where p: "pread f rs pos = (f1, Inr (take k (drop pos (contents f))))" and k: "0 < k" "k \<le> rs" and q: "quiet f f1"
      using pread_served [OF less.prems(1)] by blast
    have kl: "k \<le> length bs" "k \<le> len" "k \<le> COUCH_BLOCK_SIZE - pos mod COUCH_BLOCK_SIZE" using k(2) less.prems(3) by (auto simp: rs_def)
    note b = block_read [OF less.prems(2,4) kl(3,1)]
    have l: "length (take k bs) = k" "take k bs \<noteq> []" using kl k(1) by auto
    have step: "read_skipping_loop f pos len dst = read_skipping_loop f1 (skip_prefix (pos + k)) (len - k) (dst @ take k bs)"
      using read_loop_step [OF True p [unfolded rs_def b(1)] l(2)] unfolding l(1) .
    have "\<exists>f'. read_skipping_loop f1 (skip_prefix (pos + k)) (len - k) (dst @ take k bs) =
        (f', Inr (skip_prefix (end_of (skip_prefix (pos + k)) (len - k)), (dst @ take k bs) @ drop k bs)) \<and> quiet f1 f'"
      by (rule less.IH) (use k(1) True q b(3) less.prems(3) skip_prefix_nz in \<open>simp_all add: quiet_def\<close>)
    then show ?thesis unfolding step end_of_resume [OF b(2) kl(2)] using quiet_trans [OF q] by auto
  qed
qed

lemma read_prefixes_ok:
  assumes "served f" "data_at (contents f) pos bs" "length bs = len"
  shows "\<exists>f'. read_skipping_prefixes f pos len = (f', Inr (skip_prefix (end_of pos len), bs)) \<and> quiet f f'"
proof -
  have "skip_prefix (end_of (skip_prefix pos) len) = skip_prefix (end_of pos len)" using end_of_skip [of len pos] by (cases "len = 0") auto
  then show ?thesis using read_loop_ok [OF assms(1) _ assms(3) skip_prefix_nz, of pos "[]"] assms(2)
    by (simp add: read_skipping_prefixes_def)
qed

section \<open>Chunks\<close>

definition chunk_info :: "u32 \<Rightarrow> bytes \<Rightarrow> bytes" where
  "chunk_info len bs = mem_le 4 (htonl len) @ mem_le 4 (htonl (couch_hash_crc32 bs))"

definition chunk_at :: "bytes \<Rightarrow> nat \<Rightarrow> bytes \<Rightarrow> bool" where
  "chunk_at c p bs \<longleftrightarrow> data_at c p (chunk_info (of_nat (length bs) OR 0x80000000) bs @ bs)"

lemma length_chunk_info [simp]: "length (chunk_info len bs) = 8"
  by (simp add: chunk_info_def)

lemma htonl_htonl [simp]: "htonl (htonl w) = w"
  by (simp add: htonl_def mem_load_n load_mem take_bit_word_eq_self)

lemma load_mem4 [simp]: "load_le (mem_le 4 w) = w" for w :: u32
  by (simp add: load_mem take_bit_word_eq_self)

lemma chunk_info_of [simp]: "chunk_len_of (chunk_info len bs) = len AND NOT 0x80000000" "chunk_crc_of (chunk_info len bs) = couch_hash_crc32 bs"
  by (simp_all add: chunk_len_of_def chunk_crc_of_def chunk_info_def)

lemma small_len:
  assumes "n < 2 ^ 31"
  shows "unat ((of_nat n OR 0x80000000) AND NOT 0x80000000 :: u32) = n" "unat (of_nat n AND NOT 0x80000000 :: u32) = n"
proof -
  have n: "NOT (0x80000000 :: u32) = 0x7FFFFFFF" by simp
  have m: "x AND NOT 0x80000000 = take_bit 31 x" for x :: u32 unfolding n by (simp add: take_bit_eq_mask mask_eq_exp_minus_1)
  have z: "take_bit 31 (0x80000000 :: u32) = 0" by (simp add: take_bit_eq_mask mask_eq_exp_minus_1)
  have u: "unat (of_nat n :: u32) = n" using assms by (simp add: unsigned_of_nat take_bit_nat_eq_self)
  then have "take_bit 31 (of_nat n :: u32) = of_nat n" using assms by (intro take_bit_small) simp
  then show "unat ((of_nat n OR 0x80000000) AND NOT 0x80000000 :: u32) = n" "unat (of_nat n AND NOT 0x80000000 :: u32) = n"
    unfolding m by (simp_all only: take_bit_or z or.right_neutral u)
qed

lemma read_chunk_body_ok:
  assumes "served f" "data_at (contents f) pos bs" "length bs = unat len"
  shows "\<exists>f'. read_chunk_body f pos len crc =
     (f', if crc \<noteq> 0 \<and> crc \<noteq> couch_hash_crc32 bs then Inl COUCHSTORE_ERROR_CHECKSUM_FAIL else Inr bs) \<and> quiet f f'"
proof -
  obtain f1 where m: "file_malloc f = (f1, True)" "quiet f f1" using malloc_served [OF assms(1)] by blast
  then have "served f1" "data_at (contents f1) pos bs" using assms by (simp_all add: quiet_def)
  then obtain f2 where r: "read_skipping_prefixes f1 pos (unat len) = (f2, Inr (skip_prefix (end_of pos (unat len)), bs))" "quiet f1 f2"
    using read_prefixes_ok assms(3) by blast
  show ?thesis by (rule exI [of _ f2]) (use m r quiet_trans [OF m(2) r(2)] in \<open>simp add: read_chunk_body_def\<close>)
qed

lemma pread_bin_data:
  assumes "served f" "data_at (contents f) p (info @ bs)" "length info = 8" "length bs = unat (chunk_len_of info)"
  shows "\<exists>f'. pread_bin_internal f p False =
     (f', if chunk_crc_of info \<noteq> 0 \<and> chunk_crc_of info \<noteq> couch_hash_crc32 bs then Inl COUCHSTORE_ERROR_CHECKSUM_FAIL else Inr bs) \<and> quiet f f'"
proof -
  have d: "data_at (contents f) p info" "data_at (contents f) (end_of p 8) bs" using assms(2,3) by (simp_all add: data_at_append)
  obtain f1 where r: "read_skipping_prefixes f p 8 = (f1, Inr (skip_prefix (end_of p 8), info))" "quiet f f1"
    using read_prefixes_ok [OF assms(1) d(1) assms(3)] by blast
  then have "served f1" "data_at (contents f1) (skip_prefix (end_of p 8)) bs" using d(2) by (simp_all add: quiet_def)
  from read_chunk_body_ok [OF this assms(4), of "chunk_crc_of info"] obtain f2 where
    b: "read_chunk_body f1 (skip_prefix (end_of p 8)) (chunk_len_of info) (chunk_crc_of info) =
     (f2, if chunk_crc_of info \<noteq> 0 \<and> chunk_crc_of info \<noteq> couch_hash_crc32 bs then Inl COUCHSTORE_ERROR_CHECKSUM_FAIL else Inr bs)" "quiet f1 f2" by blast
  show ?thesis by (rule exI [of _ f2]) (use r b quiet_trans [OF r(2) b(2)] in \<open>simp add: pread_bin_internal_def Let_def\<close>)
qed

lemma pread_bin_ok:
  assumes "served f" "chunk_at (contents f) p bs" "length bs < 2 ^ 31"
  shows "\<exists>f'. pread_bin_internal f p False = (f', Inr bs) \<and> quiet f f'"
  using pread_bin_data [OF assms(1) assms(2) [unfolded chunk_at_def]] small_len(1) [OF assms(3)] by simp

lemma raw_write_ok:
  assumes "raw_write f buf pos = (f', r)"
  shows "keeps pos (contents f) (contents f')" "tf_pos f' = tf_pos f" "mem_q f' = mem_q f"
    "r = Inr e \<Longrightarrow> data_at (contents f') pos buf" "r = Inr e \<Longrightarrow> e = end_of pos (length buf)"
  using raw_write_loop_ok [OF assms [unfolded raw_write_def]] by auto

lemma db_write_buf_ok:
  assumes "db_write_buf f buf = (f', Inr (p, n))"
  shows "p = tf_pos f" "chunk_at (contents f') p buf" "tf_pos f' = end_of p (8 + length buf)" "n = tf_pos f' - p" "keeps (tf_pos f) (contents f) (contents f')"
proof -
  define info where "info = chunk_info (of_nat (length buf) OR 0x80000000) buf"
  obtain f1 r1 where w1: "raw_write f info (tf_pos f) = (f1, r1)" by fastforce
  then obtain e1 where r1: "r1 = Inr e1" using assms by (cases r1) (auto simp: db_write_buf_def Let_def info_def chunk_info_def)
  obtain f2 r2 where w2: "raw_write f1 buf e1 = (f2, r2)" by fastforce
  then obtain e2 where r2: "r2 = Inr e2" using assms w1 r1 by (cases r2) (auto simp: db_write_buf_def Let_def info_def chunk_info_def)
  have f': "f' = f2\<lparr>tf_pos := e2\<rparr>" "p = tf_pos f" "n = e2 - p"
    using assms w1 w2 unfolding r1 r2 by (auto simp: db_write_buf_def Let_def info_def chunk_info_def)
  note a = raw_write_ok [OF w1] and b = raw_write_ok [OF w2]
  have e1: "e1 = end_of (tf_pos f) 8" using a(5) [OF r1] by (simp add: info_def)
  have "data_at (contents f2) (tf_pos f) info"
    by (rule data_at_keeps [OF a(4) [OF r1] b(1)]) (use a(5) [OF r1] in simp)
  then show "chunk_at (contents f') p buf" using b(4) [OF r2] f' e1 by (simp add: chunk_at_def data_at_append info_def [symmetric]) (simp add: info_def)
  show "p = tf_pos f" "n = tf_pos f' - p" "tf_pos f' = end_of p (8 + length buf)" using f' b(5) [OF r2] e1 by (simp_all add: end_of_add)
  show "keeps (tf_pos f) (contents f) (contents f')" using keeps_trans [OF a(1) b(1)] e1 end_of_ge [of "tf_pos f" 8] f' by simp
qed

text \<open>What every operation does to the part of the file in front of its position, whether it succeeds or not.\<close>

definition grows :: "tree_file \<Rightarrow> tree_file \<Rightarrow> bool" where
  "grows f f' \<longleftrightarrow> keeps (tf_pos f) (contents f) (contents f') \<and> tf_pos f \<le> tf_pos f'"

lemma grows_refl [simp]: "grows f f"
  by (simp add: grows_def)

lemma grows_trans: "grows f g \<Longrightarrow> grows g h \<Longrightarrow> grows f h"
  using keeps_trans unfolding grows_def by (meson order_trans)

lemma db_write_buf_grows:
  assumes "db_write_buf f buf = (f', r)"
  shows "grows f f'"
proof (cases r)
  case (Inr x)
  obtain p n where x: "x = (p, n)" by fastforce
  show ?thesis using db_write_buf_ok [OF assms [unfolded Inr x]] end_of_ge [of "tf_pos f" "8 + length buf"] by (simp add: grows_def)
next
  case (Inl e)
  define info where "info = chunk_info (of_nat (length buf) OR 0x80000000) buf"
  obtain f1 r1 where w1: "raw_write f info (tf_pos f) = (f1, r1)" by fastforce
  note a = raw_write_ok [OF w1]
  show ?thesis
  proof (cases r1)
    case (Inr e1)
    obtain f2 r2 where w2: "raw_write f1 buf e1 = (f2, r2)" by fastforce
    have "f' = f2" "r2 = Inl e" using assms w1 w2 Inl Inr
      by (auto simp: db_write_buf_def Let_def info_def chunk_info_def split: sum.splits)
    then show ?thesis using keeps_trans [OF a(1) raw_write_ok(1) [OF w2]] a(5) [OF Inr] end_of_ge [of "tf_pos f" "length info"]
        raw_write_ok(2) [OF w2] a(2) by (simp add: grows_def)
  qed (use assms w1 a in \<open>auto simp: db_write_buf_def Let_def info_def chunk_info_def grows_def\<close>)
qed

section \<open>Headers\<close>

definition header_start :: "nat \<Rightarrow> nat" where
  "header_start pos = (if pos mod COUCH_BLOCK_SIZE \<noteq> 0 then pos + (COUCH_BLOCK_SIZE - pos mod COUCH_BLOCK_SIZE) else pos)"

definition header_at :: "bytes \<Rightarrow> nat \<Rightarrow> bytes \<Rightarrow> bool" where
  "header_at c p bs \<longleftrightarrow> p mod COUCH_BLOCK_SIZE = 0 \<and> p < length c \<and> c ! p = 1 \<and> data_at c (p + 1) (chunk_info (of_nat (length bs + 4)) bs @ bs)"

lemma header_start: "header_start pos mod COUCH_BLOCK_SIZE = 0" "pos \<le> header_start pos"
proof -
  have "pos mod COUCH_BLOCK_SIZE < COUCH_BLOCK_SIZE" "COUCH_BLOCK_SIZE * (pos div COUCH_BLOCK_SIZE) + pos mod COUCH_BLOCK_SIZE = pos"
    by (simp_all add: COUCH_BLOCK_SIZE_def)
  then have "pos + (COUCH_BLOCK_SIZE - pos mod COUCH_BLOCK_SIZE) = COUCH_BLOCK_SIZE * (pos div COUCH_BLOCK_SIZE) + COUCH_BLOCK_SIZE" by linarith
  then have "(pos + (COUCH_BLOCK_SIZE - pos mod COUCH_BLOCK_SIZE)) mod COUCH_BLOCK_SIZE = 0" by simp
  then show "header_start pos mod COUCH_BLOCK_SIZE = 0" "pos \<le> header_start pos" by (simp_all add: header_start_def)
qed

lemma db_write_header_cases:
  assumes "db_write_header f buf = (f', r)"
  obtains (fail) e where "pwrite f (1 # chunk_info (of_nat (length buf + 4)) buf) (header_start (tf_pos f)) = (f', Inl e)" "r = Inl e"
  | (body) f1 w f2 r2 where "pwrite f (1 # chunk_info (of_nat (length buf + 4)) buf) (header_start (tf_pos f)) = (f1, Inr w)"
      "raw_write f1 buf (header_start (tf_pos f) + w) = (f2, r2)"
      "\<And>e. r2 = Inl e \<Longrightarrow> f' = f2 \<and> r = Inl e" "\<And>e. r2 = Inr e \<Longrightarrow> f' = f2\<lparr>tf_pos := e\<rparr> \<and> r = Inr (header_start (tf_pos f))"
proof -
  obtain f1 r1 where p: "pwrite f (1 # chunk_info (of_nat (length buf + 4)) buf) (header_start (tf_pos f)) = (f1, r1)" by fastforce
  note eq = assms [unfolded db_write_header_def Let_def, folded chunk_info_def header_start_def, unfolded p]
  show ?thesis
  proof (cases r1)
    case (Inl e)
    then show ?thesis using p eq by (intro fail) auto
  next
    case (Inr w)
    obtain f2 r2 where w: "raw_write f1 buf (header_start (tf_pos f) + w) = (f2, r2)" by fastforce
    show ?thesis by (rule body [OF p [unfolded Inr] w]) (use eq Inr w in auto)
  qed
qed

lemma db_write_header_grows:
  assumes "db_write_header f buf = (f', r)"
  shows "grows f f'"
  using assms
proof (cases rule: db_write_header_cases)
  case (fail e)
  then show ?thesis using pwrite_keeps keeps_le header_start(2) by (fastforce simp: grows_def)
next
  case (body f1 w f2 r2)
  have k: "keeps (tf_pos f) (contents f) (contents f2)"
    by (rule keeps_trans [OF keeps_le [OF conjunct1 [OF pwrite_keeps [OF body(1)]] header_start(2)] raw_write_ok(1) [OF body(2)]])
       (simp add: trans_le_add1 header_start(2))
  have "tf_pos f2 = tf_pos f" using raw_write_ok(2) [OF body(2)] pwrite_keeps [OF body(1)] by simp
  moreover have "tf_pos f \<le> end_of (header_start (tf_pos f) + w) (length buf)"
    using end_of_ge [of "header_start (tf_pos f) + w" "length buf"] header_start(2) [of "tf_pos f"] by linarith
  ultimately show ?thesis using k body(3,4) raw_write_ok(5) [OF body(2)] by (cases r2) (auto simp: grows_def)
qed

text \<open>The first write of a header has to be served in full: it is not repeated.\<close>

definition first_full :: "tree_file \<Rightarrow> bool" where
  "first_full f \<longleftrightarrow> (case io_q f of Io_ok n # q \<Rightarrow> 9 \<le> n | _ \<Rightarrow> True)"

lemma header_bytes:
  assumes "take 9 (drop p c) = 1 # info" "length info = 8" "p mod COUCH_BLOCK_SIZE = 0"
  shows "p + 9 \<le> length c" "c ! p = 1" "data_at c (Suc p) info" "end_of (Suc p) 8 = p + 9"
proof -
  have "length (take 9 (drop p c)) = 9" by (simp only: assms) (simp add: assms)
  then show l: "p + 9 \<le> length c" by simp
  then have "drop p c = c ! p # drop (Suc p) c" by (simp add: Cons_nth_drop_Suc)
  then have one: "c ! p = 1" "take 8 (drop (Suc p) c) = info" using assms(1) by simp_all
  then show "c ! p = 1" by simp
  have "Suc p mod COUCH_BLOCK_SIZE = 1" using assms(3) by (simp add: COUCH_BLOCK_SIZE_def mod_Suc)
  then have m: "Suc p mod COUCH_BLOCK_SIZE \<noteq> 0" "length info \<le> COUCH_BLOCK_SIZE - Suc p mod COUCH_BLOCK_SIZE" using assms(2) by (simp_all add: COUCH_BLOCK_SIZE_def)
  show "data_at c (Suc p) info" using block_data(1) [OF m, of c] one(2) l assms(2) by simp
  show "end_of (Suc p) 8 = p + 9" using block_data(2) [OF m] assms(2) by simp
qed

lemma db_write_header_ok:
  assumes "db_write_header f buf = (f', Inr p)" "first_full f"
  shows "p = header_start (tf_pos f) \<and> header_at (contents f') p buf \<and> tf_pos f' = end_of (Suc p) (8 + length buf)"
  using assms(1)
proof (cases rule: db_write_header_cases)
  case (body f1 w f2 r2)
  define info where "info = chunk_info (of_nat (length buf + 4)) buf"
  have il: "length info = 8" by (simp add: info_def)
  have w: "w = 9" using body(1) assms(2) il by (auto simp: pwrite_def first_full_def info_def [symmetric] split: list.splits io_outcome.splits)
  obtain e where r2: "r2 = Inr e" using body(3) by (cases r2) auto
  have f': "f' = f2\<lparr>tf_pos := e\<rparr>" and p: "p = header_start (tf_pos f)" using body(4) [OF r2] by auto
  have pm: "p mod COUCH_BLOCK_SIZE = 0" using header_start p by simp
  have c1: "contents f1 = file_put (contents f) p (1 # info)" using pwrite_Inr(1) [OF body(1)] w il by (simp add: p info_def)
  have "take 9 (drop p (contents f1)) = 1 # info" using file_put_data [of "1 # info" p "contents f"] il by (simp add: c1)
  note h = header_bytes [OF this il pm]
  have k: "keeps (p + 9) (contents f1) (contents f2)" and bd: "data_at (contents f2) (p + 9) buf" and e: "e = end_of (p + 9) (length buf)"
    using raw_write_ok [OF body(2)] r2 by (simp_all add: w p)
  have "data_at (contents f2) (Suc p) info" by (rule data_at_keeps [OF h(3) k]) (simp only: il h(4))
  then have "data_at (contents f2) (Suc p) (info @ buf)" using bd h(4) il by (simp add: data_at_append)
  moreover have "p < length (contents f2)" "contents f2 ! p = 1" using k h(1,2) by (auto simp: keeps_def)
  ultimately have "header_at (contents f') p buf" using pm f' by (simp add: header_at_def info_def)
  moreover have "end_of (Suc p) (8 + length buf) = e" unfolding end_of_add h(4) e ..
  ultimately show ?thesis using p f' by simp
qed simp

lemma pread_header_ok:
  assumes "served f" "header_at (contents f) p bs" "length bs + 4 \<le> 1024"
  shows "\<exists>f'. pread_header f p = (f', Inr bs) \<and> quiet f f'"
proof -
  define info where "info = chunk_info (of_nat (length bs + 4)) bs"
  define len where "len = (of_nat (length bs + 4) :: u32)"
  have il: "length info = 8" by (simp add: info_def)
  have d: "data_at (contents f) (p + 1) info" "data_at (contents f) (end_of (p + 1) 8) bs"
    using assms(2) il by (simp_all add: header_at_def data_at_append info_def)
  have ul: "unat len = length bs + 4" unfolding len_def by (subst unsigned_of_nat) (use assms(3) in \<open>simp add: take_bit_nat_eq_self\<close>)
  have "unat (len AND NOT 0x80000000) = length bs + 4" unfolding len_def by (rule small_len(2)) (use assms(3) in simp)
  then have "unat (len AND NOT 0x80000000) = unat len" by (simp only: ul)
  then have "len AND NOT 0x80000000 = len" by (rule word_unat_eq_iff [THEN iffD2])
  then have cl: "chunk_len_of info = len" by (simp add: info_def len_def)
  have c4: "\<not> len < 4" "\<not> MAX_HEADER_SIZE < len" using ul assms(3) by (simp_all add: word_less_nat_alt MAX_HEADER_SIZE_def)
  then have u: "unat (len - 4) = length bs" using ul by (simp add: unat_sub word_le_nat_alt not_less)
  obtain f1 where r: "read_skipping_prefixes f (p + 1) 8 = (f1, Inr (skip_prefix (end_of (p + 1) 8), info))" "quiet f f1"
    using read_prefixes_ok [OF assms(1) d(1) il] by blast
  then have "served f1" "data_at (contents f1) (skip_prefix (end_of (p + 1) 8)) bs" using d(2) by (simp_all add: quiet_def)
  from read_chunk_body_ok [OF this u [symmetric], of "couch_hash_crc32 bs"] obtain f2 where
    b: "read_chunk_body f1 (skip_prefix (end_of (p + 1) 8)) (len - 4) (couch_hash_crc32 bs) = (f2, Inr bs)" "quiet f1 f2" by auto
  have "chunk_crc_of info = couch_hash_crc32 bs" by (simp add: info_def)
  then show ?thesis
    by (intro exI [of _ f2]) (use r b quiet_trans [OF r(2) b(2)] c4 cl in \<open>simp add: pread_header_def pread_bin_internal_def Let_def\<close>)
qed

section \<open>Files in use\<close>

lemma malloc_same: "file_malloc f = (f', b) \<Longrightarrow> contents f' = contents f \<and> tf_pos f' = tf_pos f"
  by (auto simp: file_malloc_def split: list.splits)

lemma read_loop_same: "read_skipping_loop f pos len dst = (f', r) \<Longrightarrow> contents f' = contents f \<and> tf_pos f' = tf_pos f"
proof (induction f pos len dst rule: read_skipping_loop.induct)
  case (1 f pos len dst)
  define rs where "rs = (if len < COUCH_BLOCK_SIZE - pos mod COUCH_BLOCK_SIZE then len else COUCH_BLOCK_SIZE - pos mod COUCH_BLOCK_SIZE)"
  obtain f1 r1 where p: "pread f rs pos = (f1, r1)" by fastforce
  then have same: "contents f1 = contents f" "tf_pos f1 = tf_pos f" by (auto simp: pread_def split: list.splits io_outcome.splits)
  note eq = "1.prems" [unfolded read_skipping_loop.simps [of f pos len dst] Let_def, folded rs_def, unfolded p]
  show ?case
  proof (cases "0 < len \<and> (\<exists>got. r1 = Inr got \<and> got \<noteq> [])")
    case True
    then obtain got where g: "0 < len" "r1 = Inr got" "got \<noteq> []" by blast
    then have "read_skipping_loop f1 (skip_prefix (pos + length got)) (len - length got) (dst @ got) = (f', r)" using eq by simp
    then show ?thesis using "1.IH" [OF g(1) refl refl p [unfolded rs_def g(2), symmetric] refl g(3)] same by simp
  qed (use eq same in \<open>cases r1; auto split: if_splits\<close>)
qed

lemma pread_bin_same:
  assumes "pread_bin_internal f p h = (f', r)"
  shows "contents f' = contents f" "tf_pos f' = tf_pos f"
proof -
  obtain f1 r1 where a: "read_skipping_prefixes f p 8 = (f1, r1)" by fastforce
  have s1: "contents f1 = contents f" "tf_pos f1 = tf_pos f" using read_loop_same a by (auto simp: read_skipping_prefixes_def)
  have body: "contents g' = contents g \<and> tf_pos g' = tf_pos g" if "read_chunk_body g q n c = (g', r')" for g q n c g' r'
  proof -
    obtain g1 ok where m: "file_malloc g = (g1, ok)" by fastforce
    obtain g2 r2 where b: "read_skipping_prefixes g1 q (unat n) = (g2, r2)" by fastforce
    have "contents g2 = contents g1 \<and> tf_pos g2 = tf_pos g1" using read_loop_same b by (simp add: read_skipping_prefixes_def)
    then show ?thesis using that malloc_same [OF m] by (auto simp: read_chunk_body_def m b split: bool.splits sum.splits if_splits)
  qed
  have "contents f' = contents f \<and> tf_pos f' = tf_pos f"
  proof (cases r1)
    case (Inr x)
    then show ?thesis using assms s1 body by (cases x) (auto simp: pread_bin_internal_def a Let_def split: if_splits)
  qed (use assms s1 in \<open>auto simp: pread_bin_internal_def a\<close>)
  then show "contents f' = contents f" "tf_pos f' = tf_pos f" by simp_all
qed

text \<open>Operations on the file in any order; between them the environment may change how it serves.\<close>

inductive file_step :: "tree_file \<Rightarrow> tree_file \<Rightarrow> bool" where
  write_buf: "db_write_buf f buf = (f', r) \<Longrightarrow> file_step f f'"
| write_compressed: "db_write_buf_compressed sn f buf = (f', r) \<Longrightarrow> file_step f f'"
| write_header: "db_write_header f buf = (f', r') \<Longrightarrow> file_step f f'"
| read_chunk: "pread_bin_internal f p header = (f', r'') \<Longrightarrow> file_step f f'"
| environment: "file_step f (f\<lparr>io_q := q, mem_q := m\<rparr>)"

lemma db_write_compressed_grows:
  assumes "db_write_buf_compressed sn f buf = (f', r)"
  shows "grows f f'"
proof -
  obtain f1 ok where m: "file_malloc f = (f1, ok)" by fastforce
  have s: "grows f f1" using malloc_same [OF m] by (simp add: grows_def)
  then show ?thesis using assms grows_trans [OF s db_write_buf_grows]
    by (cases ok; cases "snappy_compress sn buf") (auto simp: db_write_buf_compressed_def m)
qed

lemma file_step_grows: "file_step f f' \<Longrightarrow> grows f f'"
proof (induction rule: file_step.induct)
  case (read_chunk f p header f' r'')
  then show ?case using pread_bin_same [OF read_chunk] by (simp add: grows_def)
next
  case (environment f q m)
  show ?case by (simp add: grows_def)
qed (rule db_write_buf_grows db_write_compressed_grows db_write_header_grows, assumption)+

lemma file_steps_grow: "file_step\<^sup>*\<^sup>* f f' \<Longrightarrow> grows f f'"
  by (induction rule: rtranclp_induct) (auto intro: grows_trans file_step_grows)

lemma chunk_at_grows:
  assumes "chunk_at (contents f) p bs" "end_of p (8 + length bs) \<le> tf_pos f" "grows f f'"
  shows "chunk_at (contents f') p bs"
  using data_at_keeps [OF assms(1) [unfolded chunk_at_def]] assms(2,3) by (auto simp: chunk_at_def grows_def)

lemma raw_write_loop_served: "io_q f = [] \<Longrightarrow> \<exists>f' e. raw_write_loop f buf bp wp = (f', Inr e) \<and> io_q f' = []"
proof (induction f buf bp wp rule: raw_write_loop.induct)
  case (1 f buf bp wp)
  have p: "pwrite f bs off = (f\<lparr>contents := file_put (contents f) off bs\<rparr>, Inr (length bs))" for bs off using "1.prems" by (simp add: pwrite_def)
  show ?case by (subst raw_write_loop.simps) (use "1.IH"(1,2) [OF _ refl refl _ p [symmetric] refl] "1.prems" in \<open>simp add: Let_def p\<close>)
qed

lemma raw_write_served: "io_q f = [] \<Longrightarrow> \<exists>f' e. raw_write f buf pos = (f', Inr e) \<and> io_q f' = []"
  unfolding raw_write_def by (rule raw_write_loop_served)

lemma db_write_buf_served:
  assumes "io_q f = []"
  shows "\<exists>f' p n. db_write_buf f buf = (f', Inr (p, n)) \<and> io_q f' = [] \<and> mem_q f' = mem_q f"
proof -
  obtain f1 e1 where a: "raw_write f (mem_le 4 (htonl (of_nat (length buf) OR 0x80000000)) @ mem_le 4 (htonl (couch_hash_crc32 buf))) (tf_pos f) = (f1, Inr e1)" "io_q f1 = []"
    using raw_write_served [OF assms] by blast
  obtain f2 e2 where b: "raw_write f1 buf e1 = (f2, Inr e2)" "io_q f2 = []" using raw_write_served [OF a(2)] by blast
  show ?thesis using a b raw_write_ok(3) [OF a(1)] raw_write_ok(3) [OF b(1)] by (simp add: db_write_buf_def Let_def)
qed

lemma data_at_update_before: "i < p \<Longrightarrow> data_at (c[i := b]) p bs = data_at c p bs"
proof (induction bs arbitrary: p)
  case (Cons d bs)
  have "i < skip_prefix p" using Cons.prems skip_prefix_ge [of p] by linarith
  then show ?case using Cons.IH [of "skip_prefix p + 1"] by auto
qed simp

lemma data_at_update: "data_at c p bs \<Longrightarrow> k < length bs \<Longrightarrow> data_at (c[skip_prefix (end_of p k) := b]) p (bs[k := b])"
proof (induction bs arbitrary: p k)
  case (Cons a bs)
  show ?case
  proof (cases k)
    case 0
    then show ?thesis using Cons.prems by (simp add: data_at_update_before)
  next
    case (Suc j)
    have "skip_prefix p < skip_prefix (end_of (skip_prefix p + 1) j)"
      using end_of_ge [of "skip_prefix p + 1" j] skip_prefix_ge [of "end_of (skip_prefix p + 1) j"] by linarith
    then show ?thesis using Suc Cons.prems Cons.IH [of "skip_prefix p + 1" j] by simp
  qed
qed simp

section \<open>Properties\<close>

definition demo_file :: tree_file where
  "demo_file = \<lparr>tf_pos = 4090, contents = replicate 4090 0, io_q = [], mem_q = []\<rparr>"

text \<open>
  C17. A chunk that was written is read back unchanged at the position its writer got, across block boundaries, although
  reads and writes may be short, and after any number of further operations on the file, failed ones included.
\<close>

theorem chunk_survives:
  assumes "db_write_buf f buf = (f1, Inr (pos, n))" "length buf < 2 ^ 31" "file_step\<^sup>*\<^sup>* f1 f2" "served f2"
  shows "\<exists>f3. pread_bin f2 pos = (f3, Inr buf) \<and> contents f3 = contents f2"
proof -
  note w = db_write_buf_ok [OF assms(1)]
  have "chunk_at (contents f2) pos buf" by (rule chunk_at_grows [OF w(2) _ file_steps_grow [OF assms(3)]]) (simp add: w(3))
  then show ?thesis using pread_bin_ok [OF assms(4) _ assms(2)] by (auto simp: pread_bin_def quiet_def)
qed

theorem chunk_survives_witness:
  "\<exists>f1 n f2 f3 r. db_write_buf demo_file [1, 2, 3] = (f1, Inr (4090, n)) \<and> db_write_buf (f1\<lparr>io_q := [Io_ok 2]\<rparr>) [4] = (f2, r) \<and>
     pread_bin (f2\<lparr>io_q := [Io_ok 1], mem_q := []\<rparr>) 4090 = (f3, Inr [1, 2, 3])"
proof -
  obtain f1 p n where w: "db_write_buf demo_file [1, 2, 3] = (f1, Inr (p, n))" using db_write_buf_served [of demo_file "[1, 2, 3]"] by (auto simp: demo_file_def)
  have p: "p = 4090" using db_write_buf_ok(1) [OF w] by (simp add: demo_file_def)
  obtain f2 r where w2: "db_write_buf (f1\<lparr>io_q := [Io_ok 2]\<rparr>) [4] = (f2, r)" by fastforce
  have "file_step f1 (f1\<lparr>io_q := [Io_ok 2]\<rparr>)" using file_step.environment [where f = f1 and q = "[Io_ok 2]" and m = "mem_q f1"] by simp
  then have run: "file_step\<^sup>*\<^sup>* f1 (f2\<lparr>io_q := [Io_ok 1], mem_q := []\<rparr>)"
    using file_step.write_buf [OF w2] file_step.environment [where f = f2 and q = "[Io_ok 1]" and m = "[]"] by (meson rtranclp.rtrancl_into_rtrancl rtranclp.rtrancl_refl)
  have "\<exists>f3. pread_bin (f2\<lparr>io_q := [Io_ok 1], mem_q := []\<rparr>) p = (f3, Inr [1, 2, 3]) \<and> contents f3 = contents (f2\<lparr>io_q := [Io_ok 1], mem_q := []\<rparr>)"
    by (rule chunk_survives [OF w _ run]) (simp_all add: served_def)
  then show ?thesis using w w2 unfolding p by blast
qed

text \<open>
  C35. Damage to one byte of the data of a chunk is reported as a checksum failure instead of being returned as data, unless
  the checksum of the chunk is 0, which the reader takes for no checksum.
\<close>

theorem chunk_damage_detected:
  assumes "db_write_buf f buf = (f1, Inr (pos, n))" "length buf < 2 ^ 31" "couch_hash_crc32 buf \<noteq> 0"
    and "k < length buf" "b \<noteq> buf ! k" "served f2" "contents f2 = (contents f1)[skip_prefix (end_of pos (8 + k)) := b]"
  shows "\<exists>f3. pread_bin f2 pos = (f3, Inl COUCHSTORE_ERROR_CHECKSUM_FAIL)"
proof -
  define info where "info = chunk_info (of_nat (length buf) OR 0x80000000) buf"
  have il: "length info = 8" "chunk_crc_of info = couch_hash_crc32 buf" "unat (chunk_len_of info) = length buf"
    using small_len(1) [OF assms(2)] by (simp_all add: info_def)
  have "data_at (contents f1) pos (info @ buf)" using db_write_buf_ok(2) [OF assms(1)] by (simp add: chunk_at_def info_def)
  then have "data_at (contents f2) pos ((info @ buf)[8 + k := b])" unfolding assms(7) by (rule data_at_update) (use assms(4) il in simp)
  then have d: "data_at (contents f2) pos (info @ buf[k := b])" using il by (simp add: list_update_append)
  have "buf = take k buf @ buf ! k # drop (Suc k) buf" "buf[k := b] = take k buf @ b # drop (Suc k) buf"
    using assms(4) by (simp_all add: id_take_nth_drop upd_conv_take_nth_drop)
  then have "couch_hash_crc32 (buf[k := b]) \<noteq> couch_hash_crc32 buf" using couch_crc_detects_byte assms(5) by metis
  then show ?thesis using pread_bin_data [OF assms(6) d il(1)] il assms(3) by (auto simp: pread_bin_def)
qed

lemma demo_crc: "couch_hash_crc32 [1] \<noteq> 0"
  by (simp add: couch_hash_crc32_def crc32_step_def crc32tab_def)

theorem chunk_damage_detected_witness:
  "\<exists>f1 n f3. db_write_buf demo_file [1] = (f1, Inr (4090, n)) \<and>
     pread_bin (f1\<lparr>contents := (contents f1)[skip_prefix (end_of 4090 8) := 2]\<rparr>) 4090 = (f3, Inl COUCHSTORE_ERROR_CHECKSUM_FAIL)"
proof -
  obtain f1 p n where w: "db_write_buf demo_file [1] = (f1, Inr (p, n))" and s: "io_q f1 = []" "mem_q f1 = []"
    using db_write_buf_served [of demo_file "[1]"] by (auto simp: demo_file_def)
  have p: "p = 4090" using db_write_buf_ok(1) [OF w] by (simp add: demo_file_def)
  have "\<exists>f3. pread_bin (f1\<lparr>contents := (contents f1)[skip_prefix (end_of p (8 + 0)) := 2]\<rparr>) p = (f3, Inl COUCHSTORE_ERROR_CHECKSUM_FAIL)"
    by (rule chunk_damage_detected [OF w _ demo_crc, where k = 0 and b = 2]) (simp_all add: served_def s)
  then show ?thesis using w unfolding p by auto
qed

end
