(* ===== verification/CouchBtree.thy ===== *)
theory CouchBtree
  imports CouchFile
begin

text \<open>
  Lookup in the B-trees of couchstore: \<open>couchstore/src/btree_read.c\<close>.  A node is a compressed chunk: a byte that tells its type,
  then key-value pairs.  In a leaf the values are the data; in an inner node they are pointers to
  subtrees, each under the greatest key of its subtree.  The callbacks of a request work on a context of any type.
  \<open>None\<close> is an access outside of a node or the end of the stack.
\<close>

section \<open>Requests\<close>

record 'c lookup_request =
  cmp_compare :: "bytes \<Rightarrow> bytes \<Rightarrow> int"
  rq_keys :: "bytes list"
  rq_fold :: bool
  in_fold :: bool
  callback_ctx :: 'c
  fetch_callback :: "'c \<Rightarrow> bytes \<Rightarrow> bytes option \<Rightarrow> 'c \<times> couchstore_error_t option"
  node_callback :: "('c \<Rightarrow> u64 \<Rightarrow> bytes option \<Rightarrow> 'c \<times> couchstore_error_t option) option"

definition call_fetch :: "'c lookup_request \<Rightarrow> bytes \<Rightarrow> bytes option \<Rightarrow> 'c lookup_request \<times> couchstore_error_t option" where
  "call_fetch rq k v = (case fetch_callback rq (callback_ctx rq) k v of (c, e) \<Rightarrow> (rq\<lparr>callback_ctx := c\<rparr>, e))"

definition call_node :: "'c lookup_request \<Rightarrow> u64 \<Rightarrow> bytes option \<Rightarrow> 'c lookup_request \<times> couchstore_error_t option" where
  "call_node rq n v =
     (case node_callback rq of
        None \<Rightarrow> (rq, None)
      | Some cb \<Rightarrow> (case cb (callback_ctx rq) n v of (c, e) \<Rightarrow> (rq\<lparr>callback_ctx := c\<rparr>, e)))"

section \<open>The loops\<close>

lemma read_kv_size: "read_kv buf = Some (k, v, n) \<Longrightarrow> 5 \<le> n \<and> n \<le> length buf"
  by (auto simp: read_kv_def Let_def split: prod.splits)

text \<open>The pairs of a leaf.\<close>

definition kv_fold :: "'c lookup_request \<Rightarrow> bytes \<Rightarrow> int \<Rightarrow> nat \<Rightarrow> nat \<Rightarrow> 'c lookup_request \<times> nat" where
  "kv_fold rq cmp_key cmp_val current stop =
     (if 0 \<le> cmp_val \<and> rq_fold rq \<and> \<not> in_fold rq then (rq\<lparr>in_fold := True\<rparr>, current)
      else if in_fold rq \<and> current + 1 < stop \<and> 0 < cmp_compare rq cmp_key (rq_keys rq ! (current + 1))
      then (rq\<lparr>in_fold := False, rq_fold := False\<rparr>, stop)
      else (rq, current))"

function kv_loop :: "'c lookup_request \<Rightarrow> bytes \<Rightarrow> nat \<Rightarrow> nat \<Rightarrow> nat \<Rightarrow> ('c lookup_request \<times> nat \<times> couchstore_error_t option) option" where
  "kv_loop rq nodebuf bufpos current stop =
     (if bufpos < length nodebuf \<and> current < stop then do {
        (cmp_key, val_buf, n) \<leftarrow> read_kv (drop bufpos nodebuf);
        let cmp_val = cmp_compare rq cmp_key (rq_keys rq ! current);
        let (rq, current) = kv_fold rq cmp_key cmp_val current stop;
        if cmp_val = 0 \<or> 0 < cmp_val \<and> in_fold rq then
          (case call_fetch rq cmp_key (Some val_buf) of
             (rq, Some e) \<Rightarrow> Some (rq, current, Some e)
           | (rq, None) \<Rightarrow> kv_loop rq nodebuf (bufpos + n) (if in_fold rq then current else current + 1) stop)
        else kv_loop rq nodebuf (bufpos + n) current stop
      } else Some (rq, current, None))"
  by pat_completeness auto

termination
  by (relation "measure (\<lambda>(rq, nodebuf, bufpos, current, stop). length nodebuf - bufpos)") (auto dest!: read_kv_size)

text \<open>How many of the wanted keys belong to the subtree under a key.\<close>

function last_item :: "'c lookup_request \<Rightarrow> bytes \<Rightarrow> nat \<Rightarrow> nat \<Rightarrow> nat" where
  "last_item rq cmp_key i stop =
     (let i = i + 1 in if i < stop \<and> 0 \<le> cmp_compare rq cmp_key (rq_keys rq ! i) then last_item rq cmp_key i stop else i)"
  by pat_completeness auto

termination
  by (relation "measure (\<lambda>(rq, cmp_key, i, stop). stop - i)") auto

text \<open>The pairs of an inner node; \<open>inner\<close> is the search in a subtree.\<close>

type_synonym 'c lookup_result = "(tree_file \<times> 'c lookup_request \<times> couchstore_error_t option) option"

definition descend ::
  "(tree_file \<Rightarrow> 'c lookup_request \<Rightarrow> u64 \<Rightarrow> nat \<Rightarrow> nat \<Rightarrow> 'c lookup_result) \<Rightarrow> tree_file \<Rightarrow> 'c lookup_request \<Rightarrow> bytes \<Rightarrow> nat \<Rightarrow> nat \<Rightarrow> 'c lookup_result" where
  "descend inner f rq val_buf current till = do {
     c_assert (14 \<le> length val_buf);
     case call_node rq (decode_raw48 (drop 6 val_buf)) (Some (take (unat (decode_raw16 (drop 12 val_buf))) (drop 14 val_buf))) of
       (rq, Some e) \<Rightarrow> Some (f, rq, Some e)
     | (rq, None) \<Rightarrow> inner f rq (decode_raw48 val_buf) current till
   }"

function kp_loop ::
  "(tree_file \<Rightarrow> 'c lookup_request \<Rightarrow> u64 \<Rightarrow> nat \<Rightarrow> nat \<Rightarrow> 'c lookup_result) \<Rightarrow> tree_file \<Rightarrow> 'c lookup_request \<Rightarrow> bytes \<Rightarrow> nat \<Rightarrow> nat \<Rightarrow> nat \<Rightarrow>
   (tree_file \<times> 'c lookup_request \<times> nat \<times> couchstore_error_t option) option" where
  "kp_loop inner f rq nodebuf bufpos current stop =
     (if bufpos < length nodebuf \<and> current < stop then do {
        (cmp_key, val_buf, n) \<leftarrow> read_kv (drop bufpos nodebuf);
        if 0 \<le> cmp_compare rq cmp_key (rq_keys rq ! current) then do {
          let rq = (if rq_fold rq then rq\<lparr>in_fold := True\<rparr> else rq);
          let till = last_item rq cmp_key current stop;
          (f, rq, e) \<leftarrow> descend inner f rq val_buf current till;
          if e \<noteq> None then Some (f, rq, current, e)
          else
            let current = (if in_fold rq then current else till)
            in case call_node rq 0 None of
                 (rq, Some e) \<Rightarrow> Some (f, rq, current, Some e)
               | (rq, None) \<Rightarrow> kp_loop inner f rq nodebuf (bufpos + n) current stop
        } else kp_loop inner f rq nodebuf (bufpos + n) current stop
      } else Some (f, rq, current, None))"
  by pat_completeness auto

termination
  by (relation "measure (\<lambda>(inner, f, rq, nodebuf, bufpos, current, stop). length nodebuf - bufpos)") (auto dest!: read_kv_size)

text \<open>Wanted keys that were not found.\<close>

function not_found :: "'c lookup_request \<Rightarrow> nat \<Rightarrow> nat \<Rightarrow> 'c lookup_request \<times> couchstore_error_t option" where
  "not_found rq current stop =
     (if current < stop \<and> \<not> rq_fold rq then
        (case call_fetch rq (rq_keys rq ! current) None of
           (rq, Some e) \<Rightarrow> (rq, Some e)
         | (rq, None) \<Rightarrow> not_found rq (current + 1) stop)
      else (rq, None))"
  by pat_completeness auto

termination
  by (relation "measure (\<lambda>(rq, current, stop). stop - current)") auto

declare kv_loop.simps [simp del] last_item.simps [simp del] kp_loop.simps [simp del] not_found.simps [simp del]

section \<open>The search\<close>

text \<open>The first argument bounds the depth of the recursion.\<close>

fun btree_lookup_inner ::
  "nat \<Rightarrow> snappy \<Rightarrow> tree_file \<Rightarrow> 'c lookup_request \<Rightarrow> u64 \<Rightarrow> nat \<Rightarrow> nat \<Rightarrow> 'c lookup_result" where
  "btree_lookup_inner 0 sn f rq diskpos current stop = None"
| "btree_lookup_inner (Suc d) sn f rq diskpos current stop =
     (if current = stop then Some (f, rq, None)
      else
        (case pread_compressed sn f (unat diskpos) of
           (f, Inl e) \<Rightarrow> Some (f, rq, Some e)
         | (f, Inr nodebuf) \<Rightarrow> do {
             c_assert (nodebuf \<noteq> []);
             (f, rq, current, e) \<leftarrow>
               (if nodebuf ! 0 = 0 then kp_loop (btree_lookup_inner d sn) f rq nodebuf 1 current stop
                else if nodebuf ! 0 = 1 then map_option (\<lambda>(rq, current, e). (f, rq, current, e)) (kv_loop rq nodebuf 1 current stop)
                else Some (f, rq, current, None));
             if e \<noteq> None then Some (f, rq, e) else case not_found rq current stop of (rq, e) \<Rightarrow> Some (f, rq, e)
           }))"

definition btree_lookup :: "nat \<Rightarrow> snappy \<Rightarrow> tree_file \<Rightarrow> 'c lookup_request \<Rightarrow> u64 \<Rightarrow> 'c lookup_result" where
  "btree_lookup d sn f rq root_pointer = btree_lookup_inner d sn f (rq\<lparr>in_fold := False\<rparr>) root_pointer 0 (length (rq_keys rq))"

section \<open>Trees in a file\<close>

text \<open>A compressed chunk that holds the node \<open>buf\<close>.\<close>

definition stored :: "snappy \<Rightarrow> bytes \<Rightarrow> nat \<Rightarrow> bytes \<Rightarrow> bool" where
  "stored sn c p buf \<longleftrightarrow> (\<exists>z m. chunk_at c p z \<and> length z < 2 ^ 31 \<and> snappy_uncompressed_length sn z = Some m \<and> snappy_uncompress sn z = Some buf)"

definition kv_bytes :: "(bytes \<times> bytes) list \<Rightarrow> bytes" where
  "kv_bytes kvs = concat (map (\<lambda>(k, v). write_kv k v) kvs)"

definition kv_fits :: "bytes \<times> bytes \<Rightarrow> bool" where
  "kv_fits kv \<longleftrightarrow> length (fst kv) < 2 ^ 12 \<and> length (snd kv) < 2 ^ 28"

definition ptr_kv :: "node_pointer \<Rightarrow> bytes \<times> bytes" where
  "ptr_kv n = (np_key n, encode_pointer n)"

text \<open>
  A pointer and the pairs of the subtree it leads to, which \<open>Q\<close> describes.  \<open>R\<close> is what is known of the reduce value, which has
  at most the size of the buffer it is computed in.
\<close>

definition subtree :: "(bytes \<Rightarrow> (bytes \<times> bytes) list \<Rightarrow> bool) \<Rightarrow> (u64 \<Rightarrow> (bytes \<times> bytes) list \<Rightarrow> bool) \<Rightarrow> node_pointer \<Rightarrow> (bytes \<times> bytes) list \<Rightarrow> bool" where
  "subtree R Q n t \<longleftrightarrow> ptr_ok n \<and> kv_fits (ptr_kv n) \<and> length (np_reduce_value n) \<le> 500 \<and> R (np_reduce_value n) t \<and> t \<noteq> [] \<and> np_key n = fst (last t) \<and> Q (np_pointer n) t"

text \<open>\<open>node_at sn R c h p kvs\<close>: at \<open>p\<close> is the root of a tree of height \<open>h\<close> with the pairs \<open>kvs\<close>.\<close>

lemma subtree_mono [mono]: "(\<And>q t. P q t \<longrightarrow> Q q t) \<Longrightarrow> subtree R P n t \<longrightarrow> subtree R Q n t"
  by (simp add: subtree_def)

inductive node_at :: "snappy \<Rightarrow> (bytes \<Rightarrow> (bytes \<times> bytes) list \<Rightarrow> bool) \<Rightarrow> bytes \<Rightarrow> nat \<Rightarrow> nat \<Rightarrow> (bytes \<times> bytes) list \<Rightarrow> bool" for sn R c where
  leaf: "stored sn c p (1 # kv_bytes kvs) \<Longrightarrow> list_all kv_fits kvs \<Longrightarrow> node_at sn R c 0 p kvs"
| inner: "stored sn c p (0 # kv_bytes (map ptr_kv ns)) \<Longrightarrow>
    list_all2 (subtree R (\<lambda>q t. node_at sn R c h (unat q) t)) ns ts \<Longrightarrow>
    node_at sn R c (Suc h) p (concat ts)"

inductive_cases leafE: "node_at sn R c 0 p kvs"
inductive_cases innerE: "node_at sn R c (Suc h) p kvs"

lemma pread_compressed_ok:
  assumes "served f" "stored sn (contents f) p buf"
  shows "\<exists>f'. pread_compressed sn f p = (f', Inr buf) \<and> quiet f f'"
proof -
  obtain z m where z: "chunk_at (contents f) p z" "length z < 2 ^ 31" "snappy_uncompressed_length sn z = Some m" "snappy_uncompress sn z = Some buf"
    using assms(2) by (auto simp: stored_def)
  obtain f1 where r: "pread_bin_internal f p False = (f1, Inr z)" "quiet f f1" using pread_bin_ok [OF assms(1) z(1,2)] by blast
  then have "served f1" by (simp add: quiet_def)
  then obtain f2 where m: "file_malloc f1 = (f2, True)" "quiet f1 f2" using malloc_served by blast
  show ?thesis by (rule exI [of _ f2]) (use r m z quiet_trans [OF r(2) m(2)] in \<open>simp add: pread_compressed_def\<close>)
qed

lemma kv_bytes_simps [simp]: "kv_bytes [] = []" "kv_bytes ((k, v) # kvs) = write_kv k v @ kv_bytes kvs"
  by (simp_all add: kv_bytes_def)

lemma kv_bytes_Nil: "kv_bytes kvs = [] \<longleftrightarrow> kvs = []"
proof -
  have "write_kv k v \<noteq> []" for k v by (simp add: write_kv_def encode_kv_length_def Let_def)
  then show ?thesis by (cases kvs) auto
qed

section \<open>Delivering results\<close>

definition plain :: "(bytes \<Rightarrow> bytes \<Rightarrow> int) \<Rightarrow> 'c lookup_request \<Rightarrow> bool" where
  "plain compare rq \<longleftrightarrow> cmp_compare rq = compare \<and> node_callback rq = None \<and> (\<forall>c k v. snd (fetch_callback rq c k v) = None)"

definition deliver :: "'c lookup_request \<Rightarrow> (bytes \<times> bytes option) list \<Rightarrow> 'c lookup_request" where
  "deliver rq tr = rq\<lparr>callback_ctx := foldl (\<lambda>c (k, v). fst (fetch_callback rq c k v)) (callback_ctx rq) tr\<rparr>"

lemma deliver_simps [simp]:
  "cmp_compare (deliver rq tr) = cmp_compare rq" "rq_keys (deliver rq tr) = rq_keys rq" "rq_fold (deliver rq tr) = rq_fold rq"
  "in_fold (deliver rq tr) = in_fold rq" "node_callback (deliver rq tr) = node_callback rq" "fetch_callback (deliver rq tr) = fetch_callback rq"
  "plain c (deliver rq tr) = plain c rq" "deliver rq [] = rq" "deliver (deliver rq a) b = deliver rq (a @ b)"
  by (simp_all add: deliver_def plain_def)

lemma call_fetch_plain: "plain c rq \<Longrightarrow> call_fetch rq k v = (deliver rq [(k, v)], None)"
proof -
  assume "plain c rq"
  then have "snd (fetch_callback rq (callback_ctx rq) k v) = None" by (simp add: plain_def)
  then show ?thesis by (cases "fetch_callback rq (callback_ctx rq) k v") (simp add: call_fetch_def deliver_def)
qed

lemma call_node_plain: "plain c rq \<Longrightarrow> call_node rq n v = (rq, None)"
  by (simp add: plain_def call_node_def)

text \<open>The wanted keys from one index up to another.\<close>

definition wanted :: "'c lookup_request \<Rightarrow> nat \<Rightarrow> nat \<Rightarrow> bytes list" where
  "wanted rq a b = take (b - a) (drop a (rq_keys rq))"

lemma wanted_Cons: "a < b \<Longrightarrow> b \<le> length (rq_keys rq) \<Longrightarrow> wanted rq a b = rq_keys rq ! a # wanted rq (Suc a) b"
proof -
  assume a: "a < b" "b \<le> length (rq_keys rq)"
  then have "b - a = Suc (b - Suc a)" "drop a (rq_keys rq) = rq_keys rq ! a # drop (Suc a) (rq_keys rq)" by (simp_all add: Cons_nth_drop_Suc)
  then show ?thesis by (simp add: wanted_def)
qed

lemma wanted_simps [simp]: "wanted (deliver rq tr) a b = wanted rq a b" "b \<le> a \<Longrightarrow> wanted rq a b = []"
  by (simp_all add: wanted_def)

lemma length_wanted: "b \<le> length (rq_keys rq) \<Longrightarrow> length (wanted rq a b) = b - a"
  by (simp add: wanted_def)

lemma wanted_split: "a \<le> m \<Longrightarrow> m \<le> b \<Longrightarrow> wanted rq a b = wanted rq a m @ wanted rq m b"
proof -
  assume "a \<le> m" "m \<le> b"
  then have "b - a = (m - a) + (b - m)" "drop m (rq_keys rq) = drop (m - a) (drop a (rq_keys rq))" by simp_all
  then show ?thesis by (simp only: wanted_def take_add)
qed

lemma not_found_ok:
  "plain c rq \<Longrightarrow> \<not> rq_fold rq \<Longrightarrow> stop \<le> length (rq_keys rq) \<Longrightarrow>
     not_found rq current stop = (deliver rq (map (\<lambda>w. (w, None)) (wanted rq current stop)), None)"
proof (induction "stop - current" arbitrary: rq current)
  case 0
  then show ?case by (subst not_found.simps) simp
next
  case (Suc n)
  then have "not_found (deliver rq [(rq_keys rq ! current, None)]) (Suc current) stop =
      (deliver (deliver rq [(rq_keys rq ! current, None)]) (map (\<lambda>w. (w, None)) (wanted (deliver rq [(rq_keys rq ! current, None)]) (Suc current) stop)), None)"
    by (intro Suc.hyps(1)) simp_all
  then show ?case using Suc.hyps(2) Suc.prems
    by (subst not_found.simps) (simp add: call_fetch_plain [OF Suc.prems(1)] wanted_Cons [of current stop rq])
qed

section \<open>The search in an ordered tree\<close>

context key_order
begin

definition ordered :: "(bytes \<times> bytes) list \<Rightarrow> bool" where
  "ordered kvs \<longleftrightarrow> sorted_wrt (\<lambda>a b. compare (fst a) (fst b) < 0) kvs"

definition increasing :: "bytes list \<Rightarrow> bool" where
  "increasing ws \<longleftrightarrow> sorted_wrt (\<lambda>a b. compare a b < 0) ws"

text \<open>What is to be delivered for a wanted key.\<close>

definition found :: "(bytes \<times> bytes) list \<Rightarrow> bytes \<Rightarrow> bytes \<times> bytes option" where
  "found kvs w = (case find (\<lambda>kv. compare (fst kv) w = 0) kvs of None \<Rightarrow> (w, None) | Some (k, v) \<Rightarrow> (k, Some v))"

definition present :: "(bytes \<times> bytes) list \<Rightarrow> bytes \<Rightarrow> bool" where
  "present kvs w \<longleftrightarrow> (\<exists>kv \<in> set kvs. compare (fst kv) w = 0)"

text \<open>A single key, or keys that are all in the tree.\<close>

definition askable :: "(bytes \<times> bytes) list \<Rightarrow> bytes list \<Rightarrow> bool" where
  "askable kvs ws \<longleftrightarrow> length ws \<le> 1 \<or> (\<forall>w \<in> set ws. present kvs w)"

lemma found_simps [simp]:
  "found [] w = (w, None)" "found ((k, v) # kvs) w = (if compare k w = 0 then (k, Some v) else found kvs w)"
  "present [] w \<longleftrightarrow> False" "present ((k, v) # kvs) w \<longleftrightarrow> compare k w = 0 \<or> present kvs w"
  by (auto simp: found_def present_def)

lemma found_absent: "\<not> present kvs w \<Longrightarrow> found kvs w = (w, None)"
  by (induction kvs) auto

lemma found_append: "found (a @ b) w = (if present a w then found a w else found b w)"
  by (induction a) auto

lemma present_append: "present (a @ b) w \<longleftrightarrow> present a w \<or> present b w"
  by (auto simp: present_def)

fun scan :: "(bytes \<times> bytes) list \<Rightarrow> bytes list \<Rightarrow> (bytes \<times> bytes option) list" where
  "scan ((k, v) # kvs) (w # ws) = (if compare k w = 0 then (k, Some v) # scan kvs ws else scan kvs (w # ws))"
| "scan _ _ = []"

lemma kv_loop_ok:
  "plain compare rq \<Longrightarrow> \<not> rq_fold rq \<Longrightarrow> \<not> in_fold rq \<Longrightarrow> list_all kv_fits kvs \<Longrightarrow> stop \<le> length (rq_keys rq) \<Longrightarrow>
     kv_loop rq (pre @ kv_bytes kvs) (length pre) current stop =
       Some (deliver rq (scan kvs (wanted rq current stop)), current + length (scan kvs (wanted rq current stop)), None)"
proof (induction kvs arbitrary: rq pre current)
  case Nil
  then show ?case by (subst kv_loop.simps) simp
next
  case (Cons kv kvs)
  obtain k v where kv: "kv = (k, v)" by fastforce
  have r: "read_kv (write_kv k v @ kv_bytes kvs) = Some (k, v, length (write_kv k v))"
    using Cons.prems(4) by (intro read_write_kv) (simp_all add: kv kv_fits_def)
  have w: "write_kv k v \<noteq> []" using kv_bytes_Nil [of "[(k, v)]"] by simp
  show ?case
  proof (cases "current < stop")
    case False
    then show ?thesis by (subst kv_loop.simps) (simp add: kv)
  next
    case True
    define w0 where "w0 = rq_keys rq ! current"
    have wc: "wanted rq current stop = w0 # wanted rq (Suc current) stop" using True Cons.prems by (simp add: wanted_Cons w0_def)
    have cmp: "cmp_compare rq = compare" using Cons.prems(1) by (simp add: plain_def)
    have fold: "kv_fold rq k (compare k w0) current stop = (rq, current)" using Cons.prems(2,3) by (simp add: kv_fold_def)
    have unf: "kv_loop rq (pre @ kv_bytes (kv # kvs)) (length pre) current stop =
        (if compare k w0 = 0 then kv_loop (deliver rq [(k, Some v)]) ((pre @ write_kv k v) @ kv_bytes kvs) (length (pre @ write_kv k v)) (Suc current) stop
         else kv_loop rq ((pre @ write_kv k v) @ kv_bytes kvs) (length (pre @ write_kv k v)) current stop)"
      by (subst kv_loop.simps) (use True w r fold Cons.prems(3) in \<open>simp add: kv cmp w0_def [symmetric] call_fetch_plain [OF Cons.prems(1)]\<close>)
    show ?thesis
    proof (cases "compare k w0 = 0")
      case True
      then show ?thesis unfolding unf using Cons.IH [of "deliver rq [(k, Some v)]" "pre @ write_kv k v" "Suc current"] Cons.prems by (simp add: wc kv)
    next
      case False
      then show ?thesis unfolding unf using Cons.IH [of rq "pre @ write_kv k v" current] Cons.prems by (simp add: wc kv)
    qed
  qed
qed

lemma scan_single: "scan kvs [w] @ map (\<lambda>w. (w, None)) (drop (length (scan kvs [w])) [w]) = [found kvs w]"
proof (induction kvs)
  case (Cons kv kvs)
  then show ?case by (cases kv) auto
qed simp

lemma scan_present:
  "ordered kvs \<Longrightarrow> increasing ws \<Longrightarrow> \<forall>w \<in> set ws. present kvs w \<Longrightarrow> scan kvs ws = map (found kvs) ws"
proof (induction kvs ws rule: scan.induct)
  case (1 k v kvs w ws)
  have o: "ordered kvs" "\<And>k' v'. (k', v') \<in> set kvs \<Longrightarrow> compare k k' < 0" using "1.prems"(1) by (auto simp: ordered_def)
  have i: "increasing ws" "\<And>w'. w' \<in> set ws \<Longrightarrow> compare w w' < 0" using "1.prems"(2) by (auto simp: increasing_def)
  have skip: "found ((k, v) # kvs) u = found kvs u" "present ((k, v) # kvs) u = present kvs u" if "compare k u < 0" for u
    using that by simp_all
  show ?case
  proof (cases "compare k w = 0")
    case True
    then have l: "compare k w' < 0" if "w' \<in> set ws" for w' using cmp_le_less [of k w w'] i(2) [OF that] by simp
    have "\<forall>w' \<in> set ws. present kvs w'"
    proof
      fix u assume "u \<in> set ws"
      then show "present kvs u" using "1.prems"(3) skip(2) [OF l] by (metis list.set_intros(2))
    qed
    then have "scan kvs ws = map (found kvs) ws" by (rule "1.IH"(1) [OF True o(1) i(1)])
    moreover have "map (found ((k, v) # kvs)) ws = map (found kvs) ws" by (rule map_cong [OF refl]) (use l skip(1) in blast)
    ultimately show ?thesis using True by (simp only: scan.simps list.map) simp
  next
    case False
    then obtain k' v' where k': "(k', v') \<in> set kvs" "compare k' w = 0" using "1.prems"(3) by (auto simp: present_def)
    then have kw: "compare k w < 0" using cmp_less_le [of k k' w] o(2) [OF k'(1)] by simp
    have l: "compare k u < 0" if "u \<in> set (w # ws)" for u using that kw cmp_less_trans [OF kw] i(2) by auto
    have "\<forall>u \<in> set (w # ws). present kvs u"
    proof
      fix u assume u: "u \<in> set (w # ws)"
      then show "present kvs u" using "1.prems"(3) skip(2) [OF l [OF u]] by blast
    qed
    then have "scan kvs (w # ws) = map (found kvs) (w # ws)" by (rule "1.IH"(2) [OF False o(1) "1.prems"(2)])
    moreover have "map (found ((k, v) # kvs)) (w # ws) = map (found kvs) (w # ws)" by (rule map_cong [OF refl]) (use l skip(1) in blast)
    ultimately show ?thesis using False by (simp only: scan.simps if_False)
  qed
qed (auto simp: present_def)

lemma leaf_trace:
  assumes "ordered kvs" "increasing ws" "askable kvs ws"
  shows "scan kvs ws @ map (\<lambda>w. (w, None)) (drop (length (scan kvs ws)) ws) = map (found kvs) ws"
proof (cases "\<forall>w \<in> set ws. present kvs w")
  case True
  then show ?thesis using scan_present [OF assms(1,2)] by simp
next
  case False
  then obtain w where "ws = [w]" using assms(3) by (cases ws rule: remdups_adj.cases) (auto simp: askable_def)
  then show ?thesis using scan_single by simp
qed

text \<open>Inner nodes: the subtree under a key answers the wanted keys up to it.\<close>

lemma last_item_ok:
  "current < stop \<Longrightarrow> stop \<le> length (rq_keys rq) \<Longrightarrow> cmp_compare rq = compare \<Longrightarrow> 0 \<le> compare k (rq_keys rq ! current) \<Longrightarrow>
     last_item rq k current stop = current + length (takeWhile (\<lambda>w. 0 \<le> compare k w) (wanted rq current stop))"
proof (induction "stop - current" arbitrary: current)
  case (Suc n)
  show ?case
  proof (cases "Suc current < stop \<and> 0 \<le> compare k (rq_keys rq ! Suc current)")
    case True
    then have "last_item rq k (Suc current) stop = Suc current + length (takeWhile (\<lambda>w. 0 \<le> compare k w) (wanted rq (Suc current) stop))"
      by (intro Suc.hyps(1)) (use Suc in auto)
    then show ?thesis using True Suc.prems by (subst last_item.simps) (simp add: wanted_Cons [of current stop rq])
  next
    case False
    then have "takeWhile (\<lambda>w. 0 \<le> compare k w) (wanted rq (Suc current) stop) = []"
      using Suc.prems by (cases "Suc current < stop") (auto simp: wanted_Cons [of "Suc current" stop rq])
    then show ?thesis using False Suc.prems by (subst last_item.simps) (auto simp: wanted_Cons [of current stop rq])
  qed
qed simp

lemma increasing_append: "increasing (a @ b) \<longleftrightarrow> increasing a \<and> increasing b \<and> (\<forall>x \<in> set a. \<forall>y \<in> set b. compare x y < 0)"
  by (simp add: increasing_def sorted_wrt_append)

lemma ordered_append: "ordered (a @ b) \<longleftrightarrow> ordered a \<and> ordered b \<and> (\<forall>x \<in> set a. \<forall>y \<in> set b. compare (fst x) (fst y) < 0)"
  by (simp add: ordered_def sorted_wrt_append)

lemma ordered_last: "ordered t \<Longrightarrow> x \<in> set t \<Longrightarrow> compare (fst x) (fst (last t)) \<le> 0"
proof -
  assume t: "ordered t" "x \<in> set t"
  then have "t = butlast t @ [last t]" by (cases t rule: rev_cases) auto
  then have "ordered (butlast t @ [last t])" "x \<in> set (butlast t @ [last t])" using t by simp_all
  then show ?thesis by (auto simp: ordered_append intro: less_imp_le)
qed

text \<open>Splitting a search at the greatest key of the first subtree.\<close>

lemma split_search:
  assumes "ordered (t @ rest)" "t \<noteq> []" "increasing (g @ ws)" "askable (t @ rest) (g @ ws)"
    and "\<forall>w \<in> set g. 0 \<le> compare (fst (last t)) w" "\<forall>w \<in> set ws. compare (fst (last t)) w < 0"
  shows "map (found (t @ rest)) g = map (found t) g" "map (found (t @ rest)) ws = map (found rest) ws" "askable t g" "askable rest ws"
    "\<forall>w \<in> set ws. \<not> present t w"
proof -
  have l: "last t \<in> set t" using assms(2) by simp
  have g: "\<not> present rest w" if "w \<in> set g" for w
  proof
    assume "present rest w"
    then obtain kv where kv: "kv \<in> set rest" "compare (fst kv) w = 0" by (auto simp: present_def)
    then have "compare (fst (last t)) (fst kv) < 0" using assms(1) l by (simp add: ordered_append)
    then have "compare (fst (last t)) w < 0" using cmp_less_le kv(2) by (metis order_refl)
    then show False using assms(5) that by fastforce
  qed
  have w: "\<not> present t w" if "w \<in> set ws" for w
  proof
    assume "present t w"
    then obtain kv where kv: "kv \<in> set t" "compare (fst kv) w = 0" by (auto simp: present_def)
    then have "compare w (fst (last t)) \<le> 0" using cmp_trans [of w "fst kv" "fst (last t)"] ordered_last [of t kv] assms(1) cmp_eq_swap by (simp add: ordered_append)
    then show False using assms(6) that cmp_ge [of "fst (last t)" w] by fastforce
  qed
  show "map (found (t @ rest)) g = map (found t) g"
  proof (rule map_cong [OF refl])
    fix u assume u: "u \<in> set g"
    then show "found (t @ rest) u = found t u" using g [OF u] found_absent [of t u] found_absent [of rest u] by (simp add: found_append)
  qed
  show "map (found (t @ rest)) ws = map (found rest) ws" by (rule map_cong [OF refl]) (simp add: found_append w)
  show "askable t g" "askable rest ws" using assms(4) g w by (auto simp: askable_def present_append)
  show "\<forall>w \<in> set ws. \<not> present t w" using w by blast
qed

definition answers :: "(tree_file \<Rightarrow> 'c lookup_request \<Rightarrow> u64 \<Rightarrow> nat \<Rightarrow> nat \<Rightarrow> 'c lookup_result) \<Rightarrow> bytes \<Rightarrow> u64 \<Rightarrow> (bytes \<times> bytes) list \<Rightarrow> bool" where
  "answers inner c p t \<longleftrightarrow>
     (\<forall>f rq current stop. served f \<longrightarrow> contents f = c \<longrightarrow> plain compare rq \<longrightarrow> \<not> rq_fold rq \<longrightarrow> \<not> in_fold rq \<longrightarrow> stop \<le> length (rq_keys rq) \<longrightarrow> current \<le> stop \<longrightarrow>
        increasing (wanted rq current stop) \<longrightarrow> askable t (wanted rq current stop) \<longrightarrow>
        (\<exists>f'. inner f rq p current stop = Some (f', deliver rq (map (found t) (wanted rq current stop)), None) \<and> quiet f f'))"

lemma descend_ok:
  assumes "answers inner c (np_pointer n) t" "ptr_ok n" "served f" "contents f = c" "plain compare rq" "\<not> rq_fold rq" "\<not> in_fold rq"
    "till \<le> length (rq_keys rq)" "current \<le> till" "increasing (wanted rq current till)" "askable t (wanted rq current till)"
  shows "\<exists>f'. descend inner f rq (encode_pointer n) current till = Some (f', deliver rq (map (found t) (wanted rq current till)), None) \<and> quiet f f'"
proof -
  have "decode_raw48 (encode_pointer n) = np_pointer n" using assms(2)
    by (simp add: encode_pointer_def decode_raw_prefix decode_encode_raw take_bit_small ptr_ok_def)
  moreover have "14 \<le> length (encode_pointer n)" by (simp add: encode_pointer_def)
  ultimately show ?thesis using assms by (simp add: descend_def call_node_plain [OF assms(5)] answers_def)
qed

text \<open>The wanted keys up to a key, and those behind it.\<close>

lemma wanted_upto:
  assumes "increasing (wanted rq current stop)" "stop \<le> length (rq_keys rq)" "current \<le> stop"
    and "m = current + length (takeWhile (\<lambda>w. 0 \<le> compare k w) (wanted rq current stop))"
  shows "m \<le> stop" "wanted rq current stop = wanted rq current m @ wanted rq m stop"
    "\<forall>w \<in> set (wanted rq current m). 0 \<le> compare k w" "\<forall>w \<in> set (wanted rq m stop). compare k w < 0"
proof -
  let ?P = "\<lambda>w. 0 \<le> compare k w" and ?ws = "wanted rq current stop"
  have "length (takeWhile ?P ?ws) \<le> length ?ws" by (rule length_takeWhile_le)
  then show m: "m \<le> stop" using assms(2-4) by (simp add: length_wanted)
  then show sp: "?ws = wanted rq current m @ wanted rq m stop" using assms(4) by (intro wanted_split) simp_all
  have "length (wanted rq current m) = length (takeWhile ?P ?ws)" using m assms(2,4) by (simp add: length_wanted)
  then have tw: "wanted rq current m = takeWhile ?P ?ws" "wanted rq m stop = dropWhile ?P ?ws"
    using sp takeWhile_dropWhile_id [of ?P ?ws] by (metis append_eq_append_conv)+
  then show "\<forall>w \<in> set (wanted rq current m). 0 \<le> compare k w" using set_takeWhileD by fastforce
  show "\<forall>w \<in> set (wanted rq m stop). compare k w < 0"
  proof (cases "dropWhile ?P ?ws")
    case (Cons x xs)
    then have x: "compare k x < 0" using hd_dropWhile [of ?P ?ws] by force
    have "increasing (x # xs)" using assms(1) sp tw(2) Cons increasing_append by metis
    then have "compare x y < 0" if "y \<in> set xs" for y using that by (simp add: increasing_def)
    then show ?thesis using x cmp_less_trans [OF x] tw(2) Cons by auto
  next
    case Nil
    show ?thesis unfolding tw(2) Nil by simp
  qed
qed

lemma kp_loop_unfold:
  assumes "current < stop" "kv_fits (ptr_kv n)" "plain compare rq" "\<not> rq_fold rq"
  shows "kp_loop inner f rq (pre @ kv_bytes (map ptr_kv (n # ns))) (length pre) current stop =
     (if 0 \<le> compare (np_key n) (rq_keys rq ! current) then do {
        let till = last_item rq (np_key n) current stop;
        (f, rq, e) \<leftarrow> descend inner f rq (encode_pointer n) current till;
        if e \<noteq> None then Some (f, rq, current, e)
        else
          let current = (if in_fold rq then current else till)
          in case call_node rq 0 None of
               (rq, Some e) \<Rightarrow> Some (f, rq, current, Some e)
             | (rq, None) \<Rightarrow> kp_loop inner f rq ((pre @ write_kv (np_key n) (encode_pointer n)) @ kv_bytes (map ptr_kv ns)) (length (pre @ write_kv (np_key n) (encode_pointer n))) current stop
      } else kp_loop inner f rq ((pre @ write_kv (np_key n) (encode_pointer n)) @ kv_bytes (map ptr_kv ns)) (length (pre @ write_kv (np_key n) (encode_pointer n))) current stop)"
proof -
  have r: "read_kv (write_kv (np_key n) (encode_pointer n) @ kv_bytes (map ptr_kv ns)) = Some (np_key n, encode_pointer n, length (write_kv (np_key n) (encode_pointer n)))"
    using assms(2) by (intro read_write_kv) (simp_all add: ptr_kv_def kv_fits_def)
  have w: "write_kv (np_key n) (encode_pointer n) \<noteq> []" using kv_bytes_Nil [of "[(np_key n, encode_pointer n)]"] by simp
  have c: "cmp_compare rq = compare" using assms(3) by (simp add: plain_def)
  show ?thesis by (subst kp_loop.simps) (use assms(1,4) r w c in \<open>simp add: ptr_kv_def Let_def cong: if_cong\<close>)
qed

lemma kp_step:
  assumes "subtree R (answers inner c) n t" "askable t (wanted rq current m)" "increasing (wanted rq current m)"
    and "plain compare rq" "\<not> rq_fold rq" "\<not> in_fold rq" "served f" "contents f = c" "stop \<le> length (rq_keys rq)" "current < stop" "m \<le> stop"
    and m: "m = current + length (takeWhile (\<lambda>w. 0 \<le> compare (np_key n) w) (wanted rq current stop))"
    and pre': "pre' = pre @ write_kv (np_key n) (encode_pointer n)"
  shows "\<exists>f1. kp_loop inner f rq (pre @ kv_bytes (map ptr_kv (n # ns))) (length pre) current stop =
     kp_loop inner f1 (deliver rq (map (found t) (wanted rq current m))) (pre' @ kv_bytes (map ptr_kv ns)) (length pre') m stop \<and> quiet f f1"
proof -
  have n: "answers inner c (np_pointer n) t" "ptr_ok n" "kv_fits (ptr_kv n)" using assms(1) by (simp_all add: subtree_def)
  note unf = kp_loop_unfold [OF assms(10) n(3) assms(4,5), of inner f pre ns, folded pre']
  have w: "wanted rq current stop = rq_keys rq ! current # wanted rq (Suc current) stop" using assms(9,10) by (intro wanted_Cons) simp_all
  show ?thesis
  proof (cases "0 \<le> compare (np_key n) (rq_keys rq ! current)")
    case True
    have li: "last_item rq (np_key n) current stop = m" unfolding m
      by (rule last_item_ok) (use assms True in \<open>simp_all add: plain_def\<close>)
    obtain f1 where d: "descend inner f rq (encode_pointer n) current m = Some (f1, deliver rq (map (found t) (wanted rq current m)), None)" "quiet f f1"
      using descend_ok [OF n(1,2) assms(7,8,4,5,6) _ _ assms(3,2)] assms(9,11) m by auto
    have "plain compare (deliver rq (map (found t) (wanted rq current m)))" using assms(4) by simp
    note cn = call_node_plain [OF this]
    show ?thesis unfolding unf by (rule exI [of _ f1]) (use d True assms(6) in \<open>simp add: li cn Let_def\<close>)
  next
    case False
    then have "m = current" unfolding m w by simp
    then show ?thesis unfolding unf using False assms(7) by (intro exI [of _ f]) (simp add: quiet_def)
  qed
qed

lemma kp_loop_ok:
  assumes "list_all2 (subtree R (answers inner c)) ns ts" "ordered (concat ts)" "increasing (wanted rq current stop)" "askable (concat ts) (wanted rq current stop)"
    and "plain compare rq" "\<not> rq_fold rq" "\<not> in_fold rq" "served f" "contents f = c" "stop \<le> length (rq_keys rq)" "current \<le> stop"
  shows "\<exists>f' m. kp_loop inner f rq (pre @ kv_bytes (map ptr_kv ns)) (length pre) current stop =
       Some (f', deliver rq (map (found (concat ts)) (wanted rq current m)), m, None) \<and> quiet f f' \<and> current \<le> m \<and> m \<le> stop \<and>
       (\<forall>w \<in> set (wanted rq m stop). \<not> present (concat ts) w)"
  using assms
proof (induction ns ts arbitrary: pre f rq current rule: list_all2_induct)
  case Nil
  then show ?case by (intro exI [of _ f] exI [of _ current]) (subst kp_loop.simps, simp add: quiet_def)
next
  case (Cons n ns t ts)
  show ?case
  proof (cases "current = stop")
    case True
    then show ?thesis using Cons.prems by (intro exI [of _ f] exI [of _ current]) (subst kp_loop.simps, simp add: quiet_def)
  next
    case False
    define m where "m = current + length (takeWhile (\<lambda>w. 0 \<le> compare (np_key n) w) (wanted rq current stop))"
    define pre' where "pre' = pre @ write_kv (np_key n) (encode_pointer n)"
    define rq1 where "rq1 = deliver rq (map (found t) (wanted rq current m))"
    have n: "t \<noteq> []" "np_key n = fst (last t)" using Cons.hyps(1) by (simp_all add: subtree_def)
    note wu = wanted_upto [OF Cons.prems(2,9,10) m_def]
    have inc: "increasing (wanted rq current m)" "increasing (wanted rq m stop)" using Cons.prems(2) wu(2) increasing_append by metis+
    have ord: "ordered (t @ concat ts)" "ordered (concat ts)" using Cons.prems(1) by (simp_all add: ordered_append)
    have "increasing (wanted rq current m @ wanted rq m stop)" "askable (t @ concat ts) (wanted rq current m @ wanted rq m stop)"
      using Cons.prems(2,3) wu(2) by simp_all
    note sp = split_search [OF ord(1) n(1) this wu(3,4) [unfolded n(2)]]
    have cs: "current < stop" using False Cons.prems(10) by simp
    obtain f1 where k1: "kp_loop inner f rq (pre @ kv_bytes (map ptr_kv (n # ns))) (length pre) current stop =
        kp_loop inner f1 rq1 (pre' @ kv_bytes (map ptr_kv ns)) (length pre') m stop" "quiet f f1"
      using kp_step [OF Cons.hyps(1) sp(3) inc(1) Cons.prems(4-9) cs wu(1) m_def pre'_def, of ns] unfolding rq1_def by blast
    have r1: "wanted rq1 a b = wanted rq a b" "rq_keys rq1 = rq_keys rq" "plain compare rq1" "\<not> rq_fold rq1" "\<not> in_fold rq1" for a b
      using Cons.prems(4-6) by (simp_all add: rq1_def)
    have f1: "served f1" "contents f1 = c" using k1(2) Cons.prems(8) by (simp_all add: quiet_def)
    obtain f2 m2 where k2: "kp_loop inner f1 rq1 (pre' @ kv_bytes (map ptr_kv ns)) (length pre') m stop =
        Some (f2, deliver rq1 (map (found (concat ts)) (wanted rq m m2)), m2, None)" "quiet f1 f2" "m \<le> m2" "m2 \<le> stop"
        "\<forall>w \<in> set (wanted rq m2 stop). \<not> present (concat ts) w"
      using Cons.IH [OF ord(2) _ _ r1(3-5) f1, of m pre'] inc(2) sp(4) Cons.prems(9) wu(1) r1 by auto
    have w2: "wanted rq m stop = wanted rq m m2 @ wanted rq m2 stop" "wanted rq current m2 = wanted rq current m @ wanted rq m m2"
      using k2(3,4) m_def by (auto intro: wanted_split)
    have e2: "map (found (t @ concat ts)) (wanted rq m m2) = map (found (concat ts)) (wanted rq m m2)" using sp(2) unfolding w2(1) by simp
    have "deliver rq1 (map (found (concat ts)) (wanted rq m m2)) = deliver rq (map (found (concat (t # ts))) (wanted rq current m2))"
      unfolding rq1_def w2(2) deliver_simps concat.simps map_append sp(1) e2 ..
    moreover have "\<forall>w \<in> set (wanted rq m2 stop). \<not> present (concat (t # ts)) w" using k2(5) sp(5) w2(1) by (simp add: present_append)
    moreover have "current \<le> m2" using k2(3) m_def by simp
    ultimately show ?thesis using k1(1) k2(1,4) quiet_trans [OF k1(2) k2(2)] by metis
  qed
qed

lemma leaf_answers:
  assumes "stored sn c (unat q) (1 # kv_bytes kvs)" "list_all kv_fits kvs" "ordered kvs"
  shows "answers (btree_lookup_inner (Suc d) sn :: tree_file \<Rightarrow> 'c lookup_request \<Rightarrow> _) c q kvs"
  unfolding answers_def
proof (intro allI impI)
  fix f and rq :: "'c lookup_request" and current stop
  assume a: "served f" "contents f = c" "plain compare rq" "\<not> rq_fold rq" "\<not> in_fold rq" "stop \<le> length (rq_keys rq)" "current \<le> stop"
    "increasing (wanted rq current stop)" "askable kvs (wanted rq current stop)"
  show "\<exists>f'. btree_lookup_inner (Suc d) sn f rq q current stop = Some (f', deliver rq (map (found kvs) (wanted rq current stop)), None) \<and> quiet f f'"
  proof (cases "current = stop")
    case True
    then show ?thesis using a(1) by (simp add: quiet_def)
  next
    case False
    obtain f1 where r: "pread_compressed sn f (unat q) = (f1, Inr (1 # kv_bytes kvs))" "quiet f f1" using pread_compressed_ok [OF a(1)] assms(1) a(2) by blast
    define tr where "tr = scan kvs (wanted rq current stop)"
    have k: "kv_loop rq (1 # kv_bytes kvs) 1 current stop = Some (deliver rq tr, current + length tr, None)"
      using kv_loop_ok [OF a(3-5) assms(2) a(6), of "[1]" current] by (simp add: tr_def)
    have nf: "not_found (deliver rq tr) (current + length tr) stop = (deliver rq (tr @ map (\<lambda>w. (w, None)) (wanted rq (current + length tr) stop)), None)"
      using not_found_ok [of compare "deliver rq tr" stop "current + length tr"] a by simp
    have "wanted rq (current + length tr) stop = drop (length tr) (wanted rq current stop)" by (simp add: wanted_def drop_take add.commute)
    then have "tr @ map (\<lambda>w. (w, None)) (wanted rq (current + length tr) stop) = map (found kvs) (wanted rq current stop)"
      using leaf_trace [OF assms(3) a(8,9)] by (simp add: tr_def)
    then show ?thesis using False r k nf by simp
  qed
qed

lemma inner_answers:
  assumes "stored sn c (unat q) (0 # kv_bytes (map ptr_kv ns))" "ordered (concat ts)"
    and "list_all2 (subtree R (answers (btree_lookup_inner d sn :: tree_file \<Rightarrow> 'c lookup_request \<Rightarrow> _) c)) ns ts"
  shows "answers (btree_lookup_inner (Suc d) sn :: tree_file \<Rightarrow> 'c lookup_request \<Rightarrow> _) c q (concat ts)"
  unfolding answers_def
proof (intro allI impI)
  fix f and rq :: "'c lookup_request" and current stop
  assume a: "served f" "contents f = c" "plain compare rq" "\<not> rq_fold rq" "\<not> in_fold rq" "stop \<le> length (rq_keys rq)" "current \<le> stop"
    "increasing (wanted rq current stop)" "askable (concat ts) (wanted rq current stop)"
  show "\<exists>f'. btree_lookup_inner (Suc d) sn f rq q current stop = Some (f', deliver rq (map (found (concat ts)) (wanted rq current stop)), None) \<and> quiet f f'"
  proof (cases "current = stop")
    case True
    then show ?thesis using a(1) by (simp add: quiet_def)
  next
    case False
    obtain f1 where r: "pread_compressed sn f (unat q) = (f1, Inr (0 # kv_bytes (map ptr_kv ns)))" "quiet f f1" using pread_compressed_ok [OF a(1)] assms(1) a(2) by blast
    have f1: "served f1" "contents f1 = c" using r(2) a(2) by (simp_all add: quiet_def)
    obtain f2 m where k: "kp_loop (btree_lookup_inner d sn) f1 rq (0 # kv_bytes (map ptr_kv ns)) 1 current stop =
        Some (f2, deliver rq (map (found (concat ts)) (wanted rq current m)), m, None)" "quiet f1 f2" "current \<le> m" "m \<le> stop"
        "\<forall>w \<in> set (wanted rq m stop). \<not> present (concat ts) w"
      using kp_loop_ok [OF assms(3,2) a(8,9,3-5) f1 a(6,7), of "[0]"] by auto
    define rq1 where "rq1 = deliver rq (map (found (concat ts)) (wanted rq current m))"
    have nf: "not_found rq1 m stop = (deliver rq1 (map (\<lambda>w. (w, None)) (wanted rq m stop)), None)"
      using not_found_ok [of compare rq1 stop m] a by (simp add: rq1_def)
    have e: "map (\<lambda>w. (w, None)) (wanted rq m stop) = map (found (concat ts)) (wanted rq m stop)" using k(5) by (auto simp: found_absent)
    have "deliver rq1 (map (\<lambda>w. (w, None)) (wanted rq m stop)) = deliver rq (map (found (concat ts)) (wanted rq current stop))"
      unfolding rq1_def deliver_simps wanted_split [OF k(3,4), of rq] map_append e ..
    then show ?thesis using False r k(1,2) nf quiet_trans [OF r(2) k(2)] by (simp add: rq1_def)
  qed
qed

lemma lookup_inner_ok:
  assumes "node_at sn R c h p kvs" "ordered kvs" "h < d" "unat q = p"
  shows "answers (btree_lookup_inner d sn :: tree_file \<Rightarrow> 'c lookup_request \<Rightarrow> _) c q kvs"
  using assms
proof (induction h p kvs arbitrary: d q rule: node_at.induct)
  case (leaf p kvs)
  then obtain e where d: "d = Suc e" by (cases d) auto
  show ?case unfolding d by (rule leaf_answers) (use leaf in simp_all)
next
  case (inner p ns h ts)
  then obtain e where d: "d = Suc e" "h < e" by (cases d) auto
  have ord: "ordered t" if "t \<in> set ts" for t using inner.prems(1) that by (induction ts) (auto simp: ordered_append)
  have "list_all2 (subtree R (answers (btree_lookup_inner e sn :: tree_file \<Rightarrow> 'c lookup_request \<Rightarrow> _) c)) ns ts"
    using inner.IH by (rule list.rel_mono_strong) (use ord d(2) in \<open>auto simp: subtree_def\<close>)
  then show ?case unfolding d(1) by (rule inner_answers [rotated 2]) (use inner.hyps(1) inner.prems in simp_all)
qed

text \<open>Searching everything from a key on.\<close>

definition from_key :: "bytes \<Rightarrow> (bytes \<times> bytes) list \<Rightarrow> (bytes \<times> bytes option) list" where
  "from_key lo kvs = map (\<lambda>(k, v). (k, Some v)) (filter (\<lambda>kv. 0 \<le> compare (fst kv) lo) kvs)"

lemma from_key_simps [simp]:
  "from_key lo [] = []" "from_key lo ((k, v) # kvs) = (if 0 \<le> compare k lo then (k, Some v) # from_key lo kvs else from_key lo kvs)"
  "from_key lo (a @ b) = from_key lo a @ from_key lo b"
  by (simp_all add: from_key_def)

definition folding :: "bytes \<Rightarrow> 'c lookup_request \<Rightarrow> bool" where
  "folding lo rq \<longleftrightarrow> plain compare rq \<and> rq_fold rq \<and> rq_keys rq = [lo]"

definition delivered :: "'c lookup_request \<Rightarrow> (bytes \<times> bytes option) list \<Rightarrow> 'c lookup_request \<Rightarrow> bool" where
  "delivered rq tr rq' \<longleftrightarrow> (\<exists>b. rq' = (deliver rq tr)\<lparr>in_fold := b\<rparr> \<and> (in_fold rq \<longrightarrow> b))"

lemma deliver_in_fold: "deliver (rq\<lparr>in_fold := b\<rparr>) tr = (deliver rq tr)\<lparr>in_fold := b\<rparr>"
  by (simp add: deliver_def)

lemma delivered_Nil: "delivered rq [] rq" "delivered rq [] (rq\<lparr>in_fold := True\<rparr>)"
  unfolding delivered_def by (intro exI [of _ "in_fold rq"], simp) (intro exI [of _ True], simp)

lemma delivered_trans: "delivered rq a rq1 \<Longrightarrow> delivered rq1 b rq2 \<Longrightarrow> delivered rq (a @ b) rq2"
  by (auto simp: delivered_def deliver_in_fold)

lemma delivered_folding: "delivered rq tr rq' \<Longrightarrow> folding lo rq \<Longrightarrow> folding lo rq'"
  by (auto simp: delivered_def folding_def plain_def)

lemma fold_kv_loop:
  "folding lo rq \<Longrightarrow> list_all kv_fits kvs \<Longrightarrow>
     \<exists>rq'. kv_loop rq (pre @ kv_bytes kvs) (length pre) 0 1 = Some (rq', 0, None) \<and> delivered rq (from_key lo kvs) rq'"
proof (induction kvs arbitrary: rq pre)
  case Nil
  then show ?case by (subst kv_loop.simps) (simp add: delivered_Nil)
next
  case (Cons kv kvs)
  obtain k v where kv: "kv = (k, v)" by fastforce
  have r: "read_kv (write_kv k v @ kv_bytes kvs) = Some (k, v, length (write_kv k v))"
    using Cons.prems(2) by (intro read_write_kv) (simp_all add: kv kv_fits_def)
  have w: "write_kv k v \<noteq> []" using kv_bytes_Nil [of "[(k, v)]"] by simp
  have q: "cmp_compare rq = compare" "rq_keys rq = [lo]" "rq_fold rq" "plain compare rq" using Cons.prems(1) by (simp_all add: folding_def plain_def)
  show ?case
  proof (cases "0 \<le> compare k lo")
    case True
    define rq1 where "rq1 = rq\<lparr>in_fold := True\<rparr>"
    have kf: "kv_fold rq k (compare k lo) 0 1 = (rq1, 0)" using True q by (cases "in_fold rq") (simp_all add: kv_fold_def rq1_def)
    have p1: "plain compare rq1" using q(4) by (simp add: rq1_def plain_def)
    have "in_fold (deliver rq1 [(k, Some v)])" "in_fold rq1" by (simp_all add: rq1_def)
    then have "kv_loop rq (pre @ kv_bytes (kv # kvs)) (length pre) 0 1 =
        kv_loop (deliver rq1 [(k, Some v)]) ((pre @ write_kv k v) @ kv_bytes kvs) (length (pre @ write_kv k v)) 0 1"
      by (subst kv_loop.simps) (use True w r kf q(1,2) in \<open>simp add: kv call_fetch_plain [OF p1] order_less_le\<close>)
    moreover have d: "delivered rq [(k, Some v)] (deliver rq1 [(k, Some v)])"
      unfolding delivered_def rq1_def deliver_in_fold by (intro exI [of _ True]) simp
    ultimately show ?thesis
      using Cons.IH [OF delivered_folding [OF d Cons.prems(1)], of "pre @ write_kv k v"] Cons.prems(2) delivered_trans [OF d] True by (fastforce simp: kv)
  next
    case False
    have kf: "kv_fold rq k (compare k lo) 0 1 = (rq, 0)" using False by (simp add: kv_fold_def)
    have "kv_loop rq (pre @ kv_bytes (kv # kvs)) (length pre) 0 1 = kv_loop rq ((pre @ write_kv k v) @ kv_bytes kvs) (length (pre @ write_kv k v)) 0 1"
      by (subst kv_loop.simps) (use False w r kf q(1,2) in \<open>simp add: kv\<close>)
    then show ?thesis using Cons.IH [OF Cons.prems(1), of "pre @ write_kv k v"] Cons.prems(2) False by (simp add: kv)
  qed
qed

definition fold_answers ::
  "(tree_file \<Rightarrow> 'c lookup_request \<Rightarrow> u64 \<Rightarrow> nat \<Rightarrow> nat \<Rightarrow> 'c lookup_result) \<Rightarrow> bytes \<Rightarrow> bytes \<Rightarrow> u64 \<Rightarrow> (bytes \<times> bytes) list \<Rightarrow> bool" where
  "fold_answers inner lo c p t \<longleftrightarrow>
     (\<forall>f rq. served f \<longrightarrow> contents f = c \<longrightarrow> folding lo rq \<longrightarrow>
        (\<exists>f' rq'. inner f rq p 0 1 = Some (f', rq', None) \<and> delivered rq (from_key lo t) rq' \<and> quiet f f'))"

lemma fold_descend:
  assumes "fold_answers inner lo c (np_pointer n) t" "ptr_ok n" "served f" "contents f = c" "folding lo rq"
  shows "\<exists>f' rq'. descend inner f rq (encode_pointer n) 0 1 = Some (f', rq', None) \<and> delivered rq (from_key lo t) rq' \<and> quiet f f'"
proof -
  have "decode_raw48 (encode_pointer n) = np_pointer n" using assms(2)
    by (simp add: encode_pointer_def decode_raw_prefix decode_encode_raw take_bit_small ptr_ok_def)
  moreover have "14 \<le> length (encode_pointer n)" by (simp add: encode_pointer_def)
  moreover have "plain compare rq" using assms(5) by (simp add: folding_def)
  ultimately show ?thesis using assms by (simp add: descend_def call_node_plain fold_answers_def)
qed

lemma fold_kp_step:
  assumes "subtree R (fold_answers inner lo c) n t" "ordered t" "folding lo rq" "served f" "contents f = c"
    and pre': "pre' = pre @ write_kv (np_key n) (encode_pointer n)"
  shows "\<exists>f1 rq1. kp_loop inner f rq (pre @ kv_bytes (map ptr_kv (n # ns))) (length pre) 0 1 =
     kp_loop inner f1 rq1 (pre' @ kv_bytes (map ptr_kv ns)) (length pre') 0 1 \<and> delivered rq (from_key lo t) rq1 \<and> quiet f f1"
proof -
  have n: "fold_answers inner lo c (np_pointer n) t" "ptr_ok n" "kv_fits (ptr_kv n)" "t \<noteq> []" "np_key n = fst (last t)" using assms(1) by (simp_all add: subtree_def)
  have r: "read_kv (write_kv (np_key n) (encode_pointer n) @ kv_bytes (map ptr_kv ns)) = Some (np_key n, encode_pointer n, length (write_kv (np_key n) (encode_pointer n)))"
    using n(3) by (intro read_write_kv) (simp_all add: ptr_kv_def kv_fits_def)
  have w: "write_kv (np_key n) (encode_pointer n) \<noteq> []" using kv_bytes_Nil [of "[(np_key n, encode_pointer n)]"] by simp
  have q: "cmp_compare rq = compare" "rq_keys rq = [lo]" "rq_fold rq" using assms(3) by (simp_all add: folding_def plain_def)
  show ?thesis
  proof (cases "0 \<le> compare (np_key n) lo")
    case True
    define rq0 where "rq0 = rq\<lparr>in_fold := True\<rparr>"
    have d0: "delivered rq [] rq0" unfolding rq0_def by (rule delivered_Nil)
    obtain f1 rq1 where d: "descend inner f rq0 (encode_pointer n) 0 1 = Some (f1, rq1, None)" "delivered rq0 (from_key lo t) rq1" "quiet f f1"
      using fold_descend [OF n(1,2) assms(4,5) delivered_folding [OF d0 assms(3)]] by blast
    have i: "in_fold rq1" using d(2) by (auto simp: delivered_def rq0_def)
    have "plain compare rq1" using delivered_folding [OF d(2) delivered_folding [OF d0 assms(3)]] by (simp add: folding_def)
    note cn = call_node_plain [OF this]
    have li: "last_item rq0 (np_key n) 0 1 = 1" by (subst last_item.simps) simp
    have "kp_loop inner f rq (pre @ kv_bytes (map ptr_kv (n # ns))) (length pre) 0 1 =
        kp_loop inner f1 rq1 (pre' @ kv_bytes (map ptr_kv ns)) (length pre') 0 1"
      by (subst kp_loop.simps) (use True r w q d(1) i li cn in \<open>simp add: pre' ptr_kv_def Let_def rq0_def [symmetric] cong: if_cong\<close>)
    then show ?thesis using delivered_trans [OF d0 d(2)] d(3) by auto
  next
    case False
    have "from_key lo t = []" unfolding from_key_def
    proof -
      have "\<not> 0 \<le> compare (fst kv) lo" if "kv \<in> set t" for kv
        using cmp_le_less [OF ordered_last [OF assms(2) that], of lo] False n(5) by simp
      then show "map (\<lambda>(k, v). (k, Some v)) (filter (\<lambda>kv. 0 \<le> compare (fst kv) lo) t) = []" by (simp add: filter_empty_conv)
    qed
    moreover have "kp_loop inner f rq (pre @ kv_bytes (map ptr_kv (n # ns))) (length pre) 0 1 = kp_loop inner f rq (pre' @ kv_bytes (map ptr_kv ns)) (length pre') 0 1"
      by (subst kp_loop.simps) (use False r w q in \<open>simp add: pre' ptr_kv_def\<close>)
    ultimately show ?thesis using assms(4) delivered_Nil(1) [of rq] by (intro exI [of _ f] exI [of _ rq]) (simp add: quiet_def)
  qed
qed

lemma fold_kp_loop:
  "list_all2 (subtree R (fold_answers inner lo c)) ns ts \<Longrightarrow> ordered (concat ts) \<Longrightarrow> folding lo rq \<Longrightarrow> served f \<Longrightarrow> contents f = c \<Longrightarrow>
     \<exists>f' rq'. kp_loop inner f rq (pre @ kv_bytes (map ptr_kv ns)) (length pre) 0 1 = Some (f', rq', 0, None) \<and>
       delivered rq (from_key lo (concat ts)) rq' \<and> quiet f f'"
proof (induction ns ts arbitrary: pre f rq rule: list_all2_induct)
  case Nil
  then show ?case by (intro exI [of _ f] exI [of _ rq]) (subst kp_loop.simps, simp add: quiet_def delivered_Nil)
next
  case (Cons n ns t ts)
  have o: "ordered t" "ordered (concat ts)" using Cons.prems(1) by (simp_all add: ordered_append)
  define pre' where "pre' = pre @ write_kv (np_key n) (encode_pointer n)"
  obtain f1 rq1 where s: "kp_loop inner f rq (pre @ kv_bytes (map ptr_kv (n # ns))) (length pre) 0 1 =
     kp_loop inner f1 rq1 (pre' @ kv_bytes (map ptr_kv ns)) (length pre') 0 1" "delivered rq (from_key lo t) rq1" "quiet f f1"
    using fold_kp_step [OF Cons.hyps(1) o(1) Cons.prems(2-4) pre'_def, of ns] by blast
  have f1: "served f1" "contents f1 = c" using s(3) Cons.prems(4) by (simp_all add: quiet_def)
  obtain f2 rq2 where e: "kp_loop inner f1 rq1 (pre' @ kv_bytes (map ptr_kv ns)) (length pre') 0 1 = Some (f2, rq2, 0, None)"
    "delivered rq1 (from_key lo (concat ts)) rq2" "quiet f1 f2"
    using Cons.IH [OF o(2) delivered_folding [OF s(2) Cons.prems(2)] f1] by blast
  show ?case using s(1) e(1) delivered_trans [OF s(2) e(2)] quiet_trans [OF s(3) e(3)] by (metis concat.simps(2) from_key_simps(3))
qed

lemma fold_lookup_ok:
  assumes "node_at sn R c h p kvs" "ordered kvs" "h < d" "unat q = p"
  shows "fold_answers (btree_lookup_inner d sn :: tree_file \<Rightarrow> 'c lookup_request \<Rightarrow> _) lo c q kvs"
  using assms
proof (induction h p kvs arbitrary: d q rule: node_at.induct)
  case (leaf p kvs)
  then obtain e where d: "d = Suc e" by (cases d) auto
  show ?case unfolding fold_answers_def
  proof (intro allI impI)
    fix f and rq :: "'c lookup_request"
    assume a: "served f" "contents f = c" "folding lo rq"
    obtain f1 where r: "pread_compressed sn f p = (f1, Inr (1 # kv_bytes kvs))" "quiet f f1" using pread_compressed_ok [OF a(1)] leaf.hyps(1) a(2) by blast
    obtain rq1 where k: "kv_loop rq (1 # kv_bytes kvs) 1 0 1 = Some (rq1, 0, None)" "delivered rq (from_key lo kvs) rq1"
      using fold_kv_loop [OF a(3) leaf.hyps(2), of "[1]"] by auto
    have "not_found rq1 0 1 = (rq1, None)" using delivered_folding [OF k(2) a(3)] by (subst not_found.simps) (simp add: folding_def)
    then show "\<exists>f' rq'. btree_lookup_inner d sn f rq q 0 1 = Some (f', rq', None) \<and> delivered rq (from_key lo kvs) rq' \<and> quiet f f'"
      using r k leaf.prems(3) by (simp add: d)
  qed
next
  case (inner p ns h ts)
  then obtain e where d: "d = Suc e" "h < e" by (cases d) auto
  have ord: "ordered t" if "t \<in> set ts" for t using inner.prems(1) that by (induction ts) (auto simp: ordered_append)
  have sub: "list_all2 (subtree R (fold_answers (btree_lookup_inner e sn :: tree_file \<Rightarrow> 'c lookup_request \<Rightarrow> _) lo c)) ns ts"
    using inner.IH by (rule list.rel_mono_strong) (use ord d(2) in \<open>auto simp: subtree_def\<close>)
  show ?case unfolding fold_answers_def
  proof (intro allI impI)
    fix f and rq :: "'c lookup_request"
    assume a: "served f" "contents f = c" "folding lo rq"
    obtain f1 where r: "pread_compressed sn f p = (f1, Inr (0 # kv_bytes (map ptr_kv ns)))" "quiet f f1" using pread_compressed_ok [OF a(1)] inner.hyps(1) a(2) by blast
    have f1: "served f1" "contents f1 = c" using r(2) a(2) by (simp_all add: quiet_def)
    obtain f2 rq1 where k: "kp_loop (btree_lookup_inner e sn) f1 rq (0 # kv_bytes (map ptr_kv ns)) 1 0 1 = Some (f2, rq1, 0, None)"
      "delivered rq (from_key lo (concat ts)) rq1" "quiet f1 f2"
      using fold_kp_loop [OF sub inner.prems(1) a(3) f1, of "[0]"] by auto
    have "not_found rq1 0 1 = (rq1, None)" using delivered_folding [OF k(2) a(3)] by (subst not_found.simps) (simp add: folding_def)
    then show "\<exists>f' rq'. btree_lookup_inner d sn f rq q 0 1 = Some (f', rq', None) \<and> delivered rq (from_key lo (concat ts)) rq' \<and> quiet f f'"
      using r k inner.prems(3) quiet_trans [OF r(2) k(3)] by (simp add: d)
  qed
qed

end

section \<open>Properties\<close>

lemma ebin_found: "ebin.found kvs w = (w, map_of kvs w)"
  by (induction kvs) (auto simp: ebin_cmp_eq)

lemma ebin_present: "ebin.present kvs w \<longleftrightarrow> w \<in> fst ` set kvs"
  by (auto simp: ebin.present_def ebin_cmp_eq image_iff)

lemma wanted_all: "wanted rq 0 (length (rq_keys rq)) = rq_keys rq"
  by (simp add: wanted_def)

lemma foldl_map_pairs: "foldl (\<lambda>c (k, v). g c k v) a (map (\<lambda>w. (w, h w)) ws) = foldl (\<lambda>c w. g c w (h w)) a ws"
  by (induction ws arbitrary: a) auto

lemma plain_in_fold: "plain c (rq\<lparr>in_fold := b\<rparr>) = plain c rq"
  by (simp add: plain_def)

lemma lookup_answers:
  assumes "node_at sn R (contents f) h (unat root) kvs" "sorted_wrt (\<lambda>a b. ebin_cmp (fst a) (fst b) < 0) kvs" "h < d" "served f"
    and "plain ebin_cmp rq" "\<not> rq_fold rq" "sorted_wrt (\<lambda>a b. ebin_cmp a b < 0) (rq_keys rq)"
    and "length (rq_keys rq) \<le> 1 \<or> set (rq_keys rq) \<subseteq> fst ` set kvs"
  shows "\<exists>f' rq'. btree_lookup d sn f rq root = Some (f', rq', None) \<and> contents f' = contents f \<and>
     callback_ctx rq' = foldl (\<lambda>c w. fst (fetch_callback rq c w (map_of kvs w))) (callback_ctx rq) (rq_keys rq)"
proof -
  define rq0 where "rq0 = rq\<lparr>in_fold := False\<rparr>"
  have w: "wanted rq0 0 (length (rq_keys rq)) = rq_keys rq" using wanted_all [of rq0] by (simp add: rq0_def)
  have "ebin.answers (btree_lookup_inner d sn) (contents f) root kvs"
    by (rule ebin.lookup_inner_ok [OF assms(1) _ assms(3) refl]) (use assms(2) in \<open>simp add: ebin.ordered_def\<close>)
  moreover have "ebin.askable kvs (rq_keys rq)" using assms(8) by (auto simp: ebin.askable_def ebin_present)
  moreover have "ebin.increasing (rq_keys rq)" using assms(7) by (simp add: ebin.increasing_def)
  moreover have "plain ebin_cmp rq0" "\<not> rq_fold rq0" "\<not> in_fold rq0" "rq_keys rq0 = rq_keys rq" using assms(5,6) by (simp_all add: rq0_def plain_in_fold)
  ultimately obtain f' where "btree_lookup_inner d sn f rq0 root 0 (length (rq_keys rq)) = Some (f', deliver rq0 (map (ebin.found kvs) (rq_keys rq)), None)" "quiet f f'"
    using assms(4) w unfolding ebin.answers_def by (metis le0 order_refl)
  moreover have "map (ebin.found kvs) (rq_keys rq) = map (\<lambda>w. (w, map_of kvs w)) (rq_keys rq)" by (simp add: ebin_found)
  then have "callback_ctx (deliver rq0 (map (ebin.found kvs) (rq_keys rq))) =
      foldl (\<lambda>c w. fst (fetch_callback rq c w (map_of kvs w))) (callback_ctx rq) (rq_keys rq)"
    by (simp only:) (simp add: deliver_def foldl_map_pairs rq0_def)
  ultimately show ?thesis by (simp add: btree_lookup_def rq0_def [symmetric] quiet_def)
qed

text \<open>
  C14. Lookup by key.  In an ordered tree of any height, asking for one key, or for any number of keys in order that are all in
  the tree, calls the callback once per wanted key, in their order, with the value the tree has for it, or with no
  value for a single key that is not there; nothing is read outside of a node.
\<close>

theorem btree_lookup_finds:
  assumes "node_at sn R (contents f) h (unat root) kvs" "sorted_wrt (\<lambda>a b. ebin_cmp (fst a) (fst b) < 0) kvs" "h < d" "served f"
    and "plain ebin_cmp rq" "\<not> rq_fold rq" "sorted_wrt (\<lambda>a b. ebin_cmp a b < 0) (rq_keys rq)"
    and "length (rq_keys rq) \<le> 1 \<or> set (rq_keys rq) \<subseteq> fst ` set kvs"
  shows "\<exists>f' rq'. btree_lookup d sn f rq root = Some (f', rq', None) \<and> contents f' = contents f \<and>
     callback_ctx rq' = foldl (\<lambda>c w. fst (fetch_callback rq c w (map_of kvs w))) (callback_ctx rq) (rq_keys rq)"
  using assms by (rule lookup_answers)

definition plain_snappy :: snappy where
  "plain_snappy = \<lparr>snappy_compress = Some, snappy_uncompressed_length = (\<lambda>z. Some (length z)), snappy_uncompress = Some\<rparr>"

definition log_request :: "bytes list \<Rightarrow> bool \<Rightarrow> (bytes \<times> bytes option) list lookup_request" where
  "log_request ks b = \<lparr>cmp_compare = ebin_cmp, rq_keys = ks, rq_fold = b, in_fold = False, callback_ctx = [],
     fetch_callback = (\<lambda>c k v. (c @ [(k, v)], None)), node_callback = None\<rparr>"

lemma log_request_plain: "plain ebin_cmp (log_request ks b)"
  by (simp add: plain_def log_request_def)

lemma written_leaf:
  assumes "list_all kv_fits kvs" "length (kv_bytes kvs) < 2 ^ 30"
  obtains f1 n where "db_write_buf demo_file (1 # kv_bytes kvs) = (f1, Inr (4090, n))" "served f1" "stored plain_snappy (contents f1) (unat (4090 :: u64)) (1 # kv_bytes kvs)"
    "node_at plain_snappy R (contents f1) 0 (unat (4090 :: u64)) kvs"
proof -
  obtain f1 p n where w: "db_write_buf demo_file (1 # kv_bytes kvs) = (f1, Inr (p, n))" and s: "io_q f1 = []" "mem_q f1 = []"
    using db_write_buf_served [of demo_file "1 # kv_bytes kvs"] by (auto simp: demo_file_def)
  have p: "p = 4090" using db_write_buf_ok(1) [OF w] by (simp add: demo_file_def)
  have st: "stored plain_snappy (contents f1) (unat (4090 :: u64)) (1 # kv_bytes kvs)"
    using db_write_buf_ok(2) [OF w] assms(2) by (auto simp: stored_def plain_snappy_def p)
  show ?thesis by (rule that [OF w [unfolded p] _ st node_at.leaf [OF st assms(1)]]) (simp add: served_def s)
qed

theorem btree_lookup_finds_witness:
  "\<exists>f1 n f' rq'. db_write_buf demo_file (1 # kv_bytes [([1], [10]), ([2], [20])]) = (f1, Inr (4090, n)) \<and>
     btree_lookup 1 plain_snappy f1 (log_request [[1], [2]] False) 4090 = Some (f', rq', None) \<and>
     callback_ctx rq' = [([1], Some [10]), ([2], Some [20])]"
proof -
  have "list_all kv_fits [([1], [10]), ([2], [20])]" "length (kv_bytes [([1], [10]), ([2], [20])]) < 2 ^ 30"
    by (simp_all add: kv_fits_def write_kv_def)
  then obtain f1 n where f1: "db_write_buf demo_file (1 # kv_bytes [([1], [10]), ([2], [20])]) = (f1, Inr (4090, n))" "served f1"
    "node_at plain_snappy R (contents f1) 0 (unat (4090 :: u64)) [([1], [10]), ([2], [20])]" by (rule written_leaf)
  have "\<exists>f' rq'. btree_lookup 1 plain_snappy f1 (log_request [[1], [2]] False) 4090 = Some (f', rq', None) \<and> contents f' = contents f1 \<and>
     callback_ctx rq' = foldl (\<lambda>c w. fst (fetch_callback (log_request [[1], [2]] False) c w (map_of [([1], [10]), ([2], [20])] w)))
       (callback_ctx (log_request [[1], [2]] False)) (rq_keys (log_request [[1], [2]] False))"
    by (rule btree_lookup_finds [OF f1(3) _ _ f1(2) log_request_plain]) (simp_all add: log_request_def)
  then show ?thesis using f1(1) by (auto simp: log_request_def)
qed

text \<open>
  C15. Iteration.  A folding request with one key calls the callback for every pair of an ordered tree whose key is not smaller, in
  the order of the tree, and for no other.
\<close>

theorem btree_fold_from:
  assumes "node_at sn R (contents f) h (unat root) kvs" "sorted_wrt (\<lambda>a b. seq_cmp (fst a) (fst b) < 0) kvs" "h < d" "served f"
    and "plain seq_cmp rq" "rq_fold rq" "rq_keys rq = [lo]"
  shows "\<exists>f' rq'. btree_lookup d sn f rq root = Some (f', rq', None) \<and> contents f' = contents f \<and>
     callback_ctx rq' = foldl (\<lambda>c (k, v). fst (fetch_callback rq c k (Some v))) (callback_ctx rq) (filter (\<lambda>(k, v). 0 \<le> seq_cmp k lo) kvs)"
proof -
  define rq0 where "rq0 = rq\<lparr>in_fold := False\<rparr>"
  have fo: "seqo.folding lo rq0" using assms(5-7) by (simp add: seqo.folding_def rq0_def plain_in_fold)
  have "seqo.fold_answers (btree_lookup_inner d sn) lo (contents f) root kvs"
    by (rule seqo.fold_lookup_ok [OF assms(1) _ assms(3) refl]) (use assms(2) in \<open>simp add: seqo.ordered_def\<close>)
  then obtain f' rq' where r: "btree_lookup_inner d sn f rq0 root 0 1 = Some (f', rq', None)" "seqo.delivered rq0 (seqo.from_key lo kvs) rq'" "quiet f f'"
    using assms(4) fo unfolding seqo.fold_answers_def by blast
  have "foldl (\<lambda>c (k, v). fst (fetch_callback rq c k v)) a (map (\<lambda>(k, v). (k, Some v)) xs) = foldl (\<lambda>c (k, v). fst (fetch_callback rq c k (Some v))) a xs" for a xs
    by (induction xs arbitrary: a) auto
  moreover have "(\<lambda>(k, v :: bytes). 0 \<le> seq_cmp k lo) = (\<lambda>kv. 0 \<le> seq_cmp (fst kv) lo)" by auto
  ultimately have "callback_ctx rq' = foldl (\<lambda>c (k, v). fst (fetch_callback rq c k (Some v))) (callback_ctx rq) (filter (\<lambda>(k, v). 0 \<le> seq_cmp k lo) kvs)"
    using r(2) by (auto simp: seqo.delivered_def deliver_def seqo.from_key_def rq0_def)
  then show ?thesis using r(1,3) assms(7) by (simp add: btree_lookup_def rq0_def [symmetric] quiet_def)
qed

definition seq_request :: "bytes \<Rightarrow> (bytes \<times> bytes option) list lookup_request" where
  "seq_request lo = (log_request [lo] True)\<lparr>cmp_compare := seq_cmp\<rparr>"

lemma demo_seq: "decode_sequence_key (encode_raw48 1) = 1" "decode_sequence_key (encode_raw48 2) = 2"
  by (simp_all add: decode_sequence_key_def decode_encode_raw take_bit_small)

theorem btree_fold_from_witness:
  "\<exists>f1 n f' rq'. db_write_buf demo_file (1 # kv_bytes [(encode_raw48 1, [10]), (encode_raw48 2, [20])]) = (f1, Inr (4090, n)) \<and>
     btree_lookup 1 plain_snappy f1 (seq_request (encode_raw48 2)) 4090 = Some (f', rq', None) \<and>
     callback_ctx rq' = [(encode_raw48 2, Some [20])]"
proof -
  let ?kvs = "[(encode_raw48 1, [10]), (encode_raw48 2, [20])]" and ?rq = "seq_request (encode_raw48 2)"
  have "list_all kv_fits ?kvs" "length (kv_bytes ?kvs) < 2 ^ 30" by (simp_all add: kv_fits_def write_kv_def)
  then obtain f1 n where f1: "db_write_buf demo_file (1 # kv_bytes ?kvs) = (f1, Inr (4090, n))" "served f1"
    "node_at plain_snappy R (contents f1) 0 (unat (4090 :: u64)) ?kvs" by (rule written_leaf)
  have "\<exists>f' rq'. btree_lookup 1 plain_snappy f1 ?rq 4090 = Some (f', rq', None) \<and> contents f' = contents f1 \<and>
     callback_ctx rq' = foldl (\<lambda>c (k, v). fst (fetch_callback ?rq c k (Some v))) (callback_ctx ?rq) (filter (\<lambda>(k, v). 0 \<le> seq_cmp k (encode_raw48 2)) ?kvs)"
    by (rule btree_fold_from [OF f1(3) _ _ f1(2)]) (simp_all add: seq_request_def log_request_def plain_def seq_cmp_def demo_seq)
  then show ?thesis using f1(1) by (auto simp: seq_request_def log_request_def seq_cmp_def demo_seq)
qed

text \<open>
  C39. A gap hides what is behind it.  When the tree is a single leaf that does not have the first of the wanted keys, every wanted key is
  reported as missing, also those that are in the leaf: the loop over the leaf never goes on to the next wanted key.
\<close>

theorem btree_lookup_gap:
  assumes "stored sn (contents f) (unat root) (1 # kv_bytes kvs)" "list_all kv_fits kvs" "served f" "plain ebin_cmp rq" "\<not> rq_fold rq"
    and "rq_keys rq = w # ws" "w \<notin> fst ` set kvs"
  shows "\<exists>f' rq'. btree_lookup (Suc d) sn f rq root = Some (f', rq', None) \<and>
     callback_ctx rq' = foldl (\<lambda>c u. fst (fetch_callback rq c u None)) (callback_ctx rq) (w # ws)"
proof -
  define rq0 where "rq0 = rq\<lparr>in_fold := False\<rparr>"
  have q: "plain ebin_cmp rq0" "\<not> rq_fold rq0" "\<not> in_fold rq0" "rq_keys rq0 = w # ws" using assms(4-6) by (simp_all add: rq0_def plain_in_fold)
  have wa: "wanted rq0 0 (length (w # ws)) = w # ws" using wanted_all [of rq0] q(4) by simp
  have "ebin.scan kvs (w # us) = []" for us using assms(7) by (induction kvs) (auto simp: ebin_cmp_eq)
  then have k: "kv_loop rq0 (1 # kv_bytes kvs) 1 0 (length (w # ws)) = Some (rq0, 0, None)"
    using ebin.kv_loop_ok [OF q(1-3) assms(2), of "length (w # ws)" "[1]" 0] q(4) wa by simp
  have nf: "not_found rq0 0 (length (w # ws)) = (deliver rq0 (map (\<lambda>u. (u, None)) (w # ws)), None)"
    using not_found_ok [OF q(1,2), of "length (w # ws)" 0] q(4) wa by simp
  obtain f1 where r: "pread_compressed sn f (unat root) = (f1, Inr (1 # kv_bytes kvs))" using pread_compressed_ok [OF assms(3,1)] by blast
  have "callback_ctx (deliver rq0 (map (\<lambda>u. (u, None)) (w # ws))) = foldl (\<lambda>c u. fst (fetch_callback rq c u None)) (callback_ctx rq) (w # ws)"
    unfolding deliver_def by (simp only: foldl_map_pairs lookup_request.simps lookup_request.select_convs rq0_def lookup_request.update_convs) (simp add: foldl_map_pairs)
  then show ?thesis using r k nf q(4) assms(6) by (simp add: btree_lookup_def rq0_def [symmetric])
qed

theorem btree_lookup_gap_witness:
  "\<exists>f1 n f' rq'. db_write_buf demo_file (1 # kv_bytes [([2], [20])]) = (f1, Inr (4090, n)) \<and>
     btree_lookup 1 plain_snappy f1 (log_request [[1], [2]] False) 4090 = Some (f', rq', None) \<and>
     callback_ctx rq' = [([1], None), ([2], None)]"
proof -
  have fit: "list_all kv_fits [([2], [20])]" "length (kv_bytes [([2], [20])]) < 2 ^ 30" by (simp_all add: kv_fits_def write_kv_def)
  then obtain f1 n where f1: "db_write_buf demo_file (1 # kv_bytes [([2], [20])]) = (f1, Inr (4090, n))" "served f1"
    "stored plain_snappy (contents f1) (unat (4090 :: u64)) (1 # kv_bytes [([2], [20])])" by (rule written_leaf)
  have "\<exists>f' rq'. btree_lookup (Suc 0) plain_snappy f1 (log_request [[1], [2]] False) 4090 = Some (f', rq', None) \<and>
     callback_ctx rq' = foldl (\<lambda>c u. fst (fetch_callback (log_request [[1], [2]] False) c u None)) (callback_ctx (log_request [[1], [2]] False)) ([1] # [[2]])"
    by (rule btree_lookup_gap [OF f1(3) fit(1) f1(2) log_request_plain]) (simp_all add: log_request_def)
  then show ?thesis using f1(1) by (auto simp: log_request_def)
qed

end
