(* ===== verification/CouchModify.thy ===== *)
theory CouchModify
  imports CouchBtree
begin

text \<open>
  Changing a couchstore tree: \<open>couchstore/src/btree_modify.c\<close>.  A request is a sorted list of actions; the nodes on their way are
  rewritten at the end of the file, and the pointers to the new nodes are handed up to the root.

  A \<open>nodelist\<close> with its dummy head is a list.  The actions from \<open>start\<close> to \<open>end\<close> are passed as a list.  Whether an allocation from
  the arena succeeds is decided by the queue that also serves \<open>malloc\<close>.  The counters \<open>node_len\<close> and \<open>count\<close> are integers, as no
  request comes near the limits of \<open>long\<close> and \<open>int\<close>; the quota of a node is a word, because it wraps.
\<close>

section \<open>Requests and results\<close>

definition CHUNK_THRESHOLD :: int where "CHUNK_THRESHOLD = 1279"
definition CHUNK_SIZE :: int where "CHUNK_SIZE = CHUNK_THRESHOLD * 2 div 3"

definition KP_NODE :: u8 where "KP_NODE = 0"
definition KV_NODE :: u8 where "KV_NODE = 1"

record nodelist =
  nl_data :: bytes
  nl_key :: bytes
  nl_pointer :: "node_pointer option"

datatype action_type = ACTION_FETCH | ACTION_REMOVE | ACTION_INSERT

text \<open>The union of data and argument is two fields, of which the type of the action selects one.\<close>

record 'a modify_action =
  act_type :: action_type
  act_key :: bytes
  act_data :: bytes
  act_arg :: 'a

text \<open>The reduce functions get a list of items and how many of them to take; \<open>None\<close> is an invalid read.\<close>

record ('a, 'c) modify_request =
  mq_compare :: "bytes \<Rightarrow> bytes \<Rightarrow> int"
  mq_actions :: "'a modify_action list"
  mq_fetch :: "('c \<Rightarrow> bytes \<Rightarrow> bytes option \<Rightarrow> 'a \<Rightarrow> 'c) option"
  mq_reduce :: "(nodelist list \<Rightarrow> nat \<Rightarrow> bytes option) option"
  mq_rereduce :: "(nodelist list \<Rightarrow> nat \<Rightarrow> bytes option) option"
  compacting :: bool

record modify_result =
  mr_values :: "nodelist list"
  mr_node_len :: int
  mr_count :: int
  mr_pointers :: "nodelist list"
  mr_modified :: bool
  mr_node_type :: u8

type_synonym mr_result = "(tree_file \<times> modify_result \<times> couchstore_error_t option) option"

definition arena_alloc :: "tree_file \<Rightarrow> tree_file \<times> bool" where
  "arena_alloc f = file_malloc f"

text \<open>The structure and the heads of its two lists; the type of the node is set by the callers.\<close>

definition make_modres :: "tree_file \<Rightarrow> tree_file \<times> modify_result option" where
  "make_modres f =
     (case arena_alloc f of (f, False) \<Rightarrow> (f, None) | (f, True) \<Rightarrow>
       (case arena_alloc f of (f, False) \<Rightarrow> (f, None) | (f, True) \<Rightarrow>
         (case arena_alloc f of (f, False) \<Rightarrow> (f, None) | (f, True) \<Rightarrow>
           (f, Some \<lparr>mr_values = [], mr_node_len = 0, mr_count = 0, mr_pointers = [], mr_modified = False, mr_node_type = KP_NODE\<rparr>))))"

section \<open>Writing nodes\<close>

definition item_size :: "nodelist \<Rightarrow> nat" where
  "item_size i = length (nl_key i) + length (nl_data i) + 5"

text \<open>The loop that fills a node: the buffer, the size of the subtrees, the last key and the number of items, and the items left.\<close>

fun fill_node :: "u8 \<Rightarrow> u64 \<Rightarrow> bytes \<times> u64 \<times> bytes \<times> nat \<Rightarrow> nodelist list \<Rightarrow> (bytes \<times> u64 \<times> bytes \<times> nat) \<times> nodelist list" where
  "fill_node ty quota (dst, subtreesize, final_key, itmcount) [] = ((dst, subtreesize, final_key, itmcount), [])"
| "fill_node ty quota (dst, subtreesize, final_key, itmcount) (i # is) =
     (if 0 < quota \<or> itmcount < 2 \<and> ty = KP_NODE then
        fill_node ty (quota - of_nat (item_size i))
          (dst @ write_kv (nl_key i) (nl_data i),
           (case nl_pointer i of None \<Rightarrow> subtreesize | Some p \<Rightarrow> subtreesize + np_subtreesize p),
           nl_key i, itmcount + 1) is
      else ((dst, subtreesize, final_key, itmcount), i # is))"

definition node_reduce :: "('a, 'c) modify_request \<Rightarrow> modify_result \<Rightarrow> nat \<Rightarrow> bytes option" where
  "node_reduce rq res itmcount = do {
     r \<leftarrow> (case (if mr_node_type res = KV_NODE then mq_reduce rq else if mr_node_type res = KP_NODE then mq_rereduce rq else None) of
            None \<Rightarrow> Some []
          | Some red \<Rightarrow> red (mr_values res) itmcount);
     c_assert (length r \<le> 500);
     Some r
   }"

definition pointer_item :: "node_pointer \<Rightarrow> nodelist" where
  "pointer_item ptr = \<lparr>nl_data = encode_pointer ptr, nl_key = np_key ptr, nl_pointer = Some ptr\<rparr>"

text \<open>The pointer to a node that has been written joins the pointers, and its items leave the values.\<close>

definition add_pointer :: "tree_file \<Rightarrow> modify_result \<Rightarrow> node_pointer \<Rightarrow> nat \<Rightarrow> nodelist list \<Rightarrow> tree_file \<times> modify_result \<times> couchstore_error_t option" where
  "add_pointer f res ptr written rest =
     (case arena_alloc f of
        (f, False) \<Rightarrow> (f, res, Some COUCHSTORE_ERROR_ALLOC_FAIL)
      | (f, True) \<Rightarrow>
          (case arena_alloc f of
             (f, False) \<Rightarrow> (f, res, Some COUCHSTORE_ERROR_ALLOC_FAIL)
           | (f, True) \<Rightarrow>
               (f, res\<lparr>mr_pointers := mr_pointers res @ [pointer_item ptr], mr_node_len := mr_node_len res - (int written - 1), mr_values := rest\<rparr>, None)))"

definition flush_mr_partial :: "snappy \<Rightarrow> ('a, 'c) modify_request \<Rightarrow> tree_file \<Rightarrow> modify_result \<Rightarrow> u64 \<Rightarrow> mr_result" where
  "flush_mr_partial sn rq f res mr_quota =
     (if mr_values res = [] \<or> \<not> mr_modified res then Some (f, res, None)
      else
        (case file_malloc f of
           (f, False) \<Rightarrow> Some (f, res, Some COUCHSTORE_ERROR_ALLOC_FAIL)
         | (f, True) \<Rightarrow>
             (case fill_node (mr_node_type res) mr_quota ([mr_node_type res], 0, [], 0) (mr_values res) of
                ((writebuf, subtreesize, final_key, itmcount), rest) \<Rightarrow>
                  let res = res\<lparr>mr_count := mr_count res - int itmcount\<rparr>
                  in (case db_write_buf_compressed sn f writebuf of
                        (f, Inl e) \<Rightarrow> Some (f, res, Some e)
                      | (f, Inr (diskpos, disk_size)) \<Rightarrow> do {
                          reduce \<leftarrow> node_reduce rq res itmcount;
                          Some (add_pointer f res
                            \<lparr>np_key = final_key, np_pointer = of_nat diskpos, np_reduce_value = reduce, np_subtreesize = subtreesize + of_nat disk_size\<rparr>
                            (length writebuf) rest)
                        }))))"

definition flush_mr :: "snappy \<Rightarrow> ('a, 'c) modify_request \<Rightarrow> tree_file \<Rightarrow> modify_result \<Rightarrow> mr_result" where
  "flush_mr sn rq f res = flush_mr_partial sn rq f res (of_int (mr_node_len res))"

definition maybe_flush :: "snappy \<Rightarrow> ('a, 'c) modify_request \<Rightarrow> tree_file \<Rightarrow> modify_result \<Rightarrow> mr_result" where
  "maybe_flush sn rq f mr =
     (if compacting rq then
        if mr_modified mr \<and> CHUNK_SIZE < mr_node_len mr then flush_mr sn rq f mr else Some (f, mr, None)
      else if mr_modified mr \<and> CHUNK_THRESHOLD < mr_node_len mr \<and> 3 < mr_count mr then flush_mr_partial sn rq f mr (of_int CHUNK_SIZE)
      else Some (f, mr, None))"

section \<open>Collecting items\<close>

definition push_value :: "nodelist \<Rightarrow> modify_result \<Rightarrow> modify_result" where
  "push_value itm dst = dst\<lparr>mr_values := mr_values dst @ [itm], mr_node_len := mr_node_len dst + int (item_size itm), mr_count := mr_count dst + 1\<rparr>"

definition mr_push_item :: "snappy \<Rightarrow> ('a, 'c) modify_request \<Rightarrow> tree_file \<Rightarrow> bytes \<Rightarrow> bytes \<Rightarrow> modify_result \<Rightarrow> mr_result" where
  "mr_push_item sn rq f k v dst =
     (case arena_alloc f of
        (f, False) \<Rightarrow> Some (f, dst, Some COUCHSTORE_ERROR_ALLOC_FAIL)
      | (f, True) \<Rightarrow> maybe_flush sn rq f (push_value \<lparr>nl_data = v, nl_key = k, nl_pointer = None\<rparr> dst))"

definition mr_push_pointerinfo :: "snappy \<Rightarrow> ('a, 'c) modify_request \<Rightarrow> tree_file \<Rightarrow> node_pointer \<Rightarrow> modify_result \<Rightarrow> mr_result" where
  "mr_push_pointerinfo sn rq f ptr dst =
     (case arena_alloc f of
        (f, False) \<Rightarrow> Some (f, dst, Some COUCHSTORE_ERROR_ALLOC_FAIL)
      | (f, True) \<Rightarrow> maybe_flush sn rq f (push_value (pointer_item ptr) dst))"

fun move_pointers_loop :: "snappy \<Rightarrow> ('a, 'c) modify_request \<Rightarrow> tree_file \<Rightarrow> nodelist list \<Rightarrow> modify_result \<Rightarrow>
    (tree_file \<times> nodelist list \<times> modify_result \<times> couchstore_error_t option) option" where
  "move_pointers_loop sn rq f [] dst = Some (f, [], dst, None)"
| "move_pointers_loop sn rq f (p # ps) dst = do {
     (f, dst, e) \<leftarrow> maybe_flush sn rq f (push_value p dst);
     if e \<noteq> None then Some (f, ps, dst, e) else move_pointers_loop sn rq f ps dst
   }"

definition mr_move_pointers :: "snappy \<Rightarrow> ('a, 'c) modify_request \<Rightarrow> tree_file \<Rightarrow> modify_result \<Rightarrow> modify_result \<Rightarrow>
    (tree_file \<times> modify_result \<times> modify_result \<times> couchstore_error_t option) option" where
  "mr_move_pointers sn rq f src dst = do {
     (f, rest, dst, e) \<leftarrow> move_pointers_loop sn rq f (mr_pointers src) dst;
     Some (f, src\<lparr>mr_pointers := rest\<rparr>, dst, e)
   }"

section \<open>Changing nodes\<close>

type_synonym 'c mod_state = "tree_file \<times> 'c \<times> modify_result"

text \<open>The leaves do not look at the result of a push.\<close>

definition kv_push :: "snappy \<Rightarrow> ('a, 'c) modify_request \<Rightarrow> 'c mod_state \<Rightarrow> bytes \<Rightarrow> bytes \<Rightarrow> 'c mod_state option" where
  "kv_push sn rq s k v = (case s of (f, c, res) \<Rightarrow> do {
     (f, res, _) \<leftarrow> mr_push_item sn rq f k v res;
     Some (f, c, res)
   })"

definition kv_modified :: "'c mod_state \<Rightarrow> 'c mod_state" where
  "kv_modified s = (case s of (f, c, res) \<Rightarrow> (f, c, res\<lparr>mr_modified := True\<rparr>))"

definition kv_fetched :: "('a, 'c) modify_request \<Rightarrow> 'c mod_state \<Rightarrow> 'a modify_action \<Rightarrow> bytes option \<Rightarrow> 'c mod_state" where
  "kv_fetched rq s a v =
     (case s of (f, c, res) \<Rightarrow> (f, (case mq_fetch rq of None \<Rightarrow> c | Some callback \<Rightarrow> callback c (act_key a) v (act_arg a)), res))"

text \<open>An action for a key that the leaf does not have.\<close>

definition kv_miss :: "snappy \<Rightarrow> ('a, 'c) modify_request \<Rightarrow> 'c mod_state \<Rightarrow> 'a modify_action \<Rightarrow> 'c mod_state option" where
  "kv_miss sn rq s a =
     (case act_type a of
        ACTION_INSERT \<Rightarrow> kv_push sn rq (kv_modified s) (act_key a) (act_data a)
      | ACTION_REMOVE \<Rightarrow> Some (kv_modified s)
      | ACTION_FETCH \<Rightarrow> Some (kv_fetched rq s a None))"

text \<open>The actions up to one key of the leaf; the last component of the result is \<open>advance\<close>.\<close>

fun kv_key :: "snappy \<Rightarrow> ('a, 'c) modify_request \<Rightarrow> bytes \<Rightarrow> bytes \<Rightarrow> 'c mod_state \<Rightarrow> 'a modify_action list \<Rightarrow> ('c mod_state \<times> 'a modify_action list \<times> bool) option" where
  "kv_key sn rq cmp_key val_buf s [] = Some (s, [], False)"
| "kv_key sn rq cmp_key val_buf s (a # as) =
     (let cmp_val = mq_compare rq cmp_key (act_key a)
      in if cmp_val < 0 then do { s \<leftarrow> kv_push sn rq s cmp_key val_buf; Some (s, a # as, True) }
         else if 0 < cmp_val then do { s \<leftarrow> kv_miss sn rq s a; kv_key sn rq cmp_key val_buf s as }
         else (case act_type a of
                 ACTION_INSERT \<Rightarrow> do { s \<leftarrow> kv_push sn rq (kv_modified s) (act_key a) (act_data a); Some (s, as, True) }
               | ACTION_REMOVE \<Rightarrow> Some (kv_modified s, as, True)
               | ACTION_FETCH \<Rightarrow> kv_key sn rq cmp_key val_buf (kv_fetched rq s a (Some val_buf)) as))"

function kv_modify :: "snappy \<Rightarrow> ('a, 'c) modify_request \<Rightarrow> bytes \<Rightarrow> nat \<Rightarrow> 'c mod_state \<Rightarrow> 'a modify_action list \<Rightarrow> ('c mod_state \<times> 'a modify_action list) option" where
  "kv_modify sn rq nodebuf bufpos s acts =
     (if bufpos < length nodebuf then do {
        (cmp_key, val_buf, n) \<leftarrow> read_kv (drop bufpos nodebuf);
        (s, acts, advance) \<leftarrow> kv_key sn rq cmp_key val_buf s acts;
        s \<leftarrow> (if acts = [] \<and> \<not> advance then kv_push sn rq s cmp_key val_buf else Some s);
        kv_modify sn rq nodebuf (bufpos + n) s acts
      } else Some (s, acts))"
  by pat_completeness auto

termination
  by (relation "measure (\<lambda>(sn, rq, nodebuf, bufpos, s, acts). length nodebuf - bufpos)") (auto dest!: read_kv_size)

fun kv_rest :: "snappy \<Rightarrow> ('a, 'c) modify_request \<Rightarrow> 'c mod_state \<Rightarrow> 'a modify_action list \<Rightarrow> 'c mod_state option" where
  "kv_rest sn rq s [] = Some s"
| "kv_rest sn rq s (a # as) = do { s \<leftarrow> kv_miss sn rq s a; kv_rest sn rq s as }"

type_synonym 'c node_result = "('c mod_state \<times> couchstore_error_t option) option"

text \<open>Reading a pointer of an inner node into the arena.\<close>

definition arena_pointer :: "tree_file \<Rightarrow> bytes \<Rightarrow> bytes \<Rightarrow> (tree_file \<times> node_pointer option) option" where
  "arena_pointer f key buf =
     (case arena_alloc f of
        (f, False) \<Rightarrow> Some (f, None)
      | (f, True) \<Rightarrow> do { p \<leftarrow> read_pointer key buf; Some (f, Some p) })"

text \<open>Keeping a pointer of an inner node.\<close>

definition kp_keep :: "snappy \<Rightarrow> ('a, 'c) modify_request \<Rightarrow> 'c mod_state \<Rightarrow> bytes \<Rightarrow> bytes \<Rightarrow> 'c node_result" where
  "kp_keep sn rq s cmp_key val_buf = (case s of (f, c, res) \<Rightarrow> do {
     (f, add) \<leftarrow> arena_pointer f cmp_key val_buf;
     (case add of
        None \<Rightarrow> Some ((f, c, res), Some COUCHSTORE_ERROR_ALLOC_FAIL)
      | Some add \<Rightarrow> do { (f, res, e) \<leftarrow> mr_push_pointerinfo sn rq f add res; Some ((f, c, res), e) })
   })"

text \<open>Following a pointer of an inner node; \<open>inner\<close> changes the subtree.\<close>

type_synonym ('a, 'c) node_modifier = "tree_file \<Rightarrow> 'c \<Rightarrow> node_pointer option \<Rightarrow> 'a modify_action list \<Rightarrow> modify_result \<Rightarrow> 'c node_result"

definition kp_descend :: "('a, 'c) node_modifier \<Rightarrow> 'c mod_state \<Rightarrow> bytes \<Rightarrow> bytes \<Rightarrow> 'a modify_action list \<Rightarrow> 'c node_result" where
  "kp_descend inner s cmp_key val_buf acts = (case s of (f, c, res) \<Rightarrow> do {
     (f, desc) \<leftarrow> arena_pointer f cmp_key val_buf;
     (case desc of
        None \<Rightarrow> Some ((f, c, res), Some COUCHSTORE_ERROR_ALLOC_FAIL)
      | Some desc \<Rightarrow> inner f c (Some desc) acts res)
   })"

text \<open>The loop over an inner node while there are actions; the result has the position at which it ends.\<close>

function kp_modify :: "('a, 'c) node_modifier \<Rightarrow> snappy \<Rightarrow> ('a, 'c) modify_request \<Rightarrow> bytes \<Rightarrow> nat \<Rightarrow> 'c mod_state \<Rightarrow> 'a modify_action list \<Rightarrow>
    ('c mod_state \<times> nat \<times> couchstore_error_t option) option" where
  "kp_modify inner sn rq nodebuf bufpos s acts =
     (if bufpos < length nodebuf \<and> acts \<noteq> [] then do {
        (cmp_key, val_buf, n) \<leftarrow> read_kv (drop bufpos nodebuf);
        let cmp_val = mq_compare rq cmp_key (act_key (hd acts));
        if bufpos + n = length nodebuf then do {
          (s, e) \<leftarrow> kp_descend inner s cmp_key val_buf acts;
          Some (s, bufpos + n, e)
        } else if cmp_val < 0 then do {
          (s, e) \<leftarrow> kp_keep sn rq s cmp_key val_buf;
          if e \<noteq> None then Some (s, bufpos + n, e) else kp_modify inner sn rq nodebuf (bufpos + n) s acts
        } else do {
          (s, e) \<leftarrow> kp_descend inner s cmp_key val_buf (takeWhile (\<lambda>a. mq_compare rq (act_key a) cmp_key \<le> 0) acts);
          if e \<noteq> None then Some (s, bufpos + n, e)
          else kp_modify inner sn rq nodebuf (bufpos + n) s (dropWhile (\<lambda>a. mq_compare rq (act_key a) cmp_key \<le> 0) acts)
        }
      } else Some (s, bufpos, None))"
  by pat_completeness auto

termination
  by (relation "measure (\<lambda>(inner, sn, rq, nodebuf, bufpos, s, acts). length nodebuf - bufpos)") (auto dest!: read_kv_size)

function kp_rest :: "snappy \<Rightarrow> ('a, 'c) modify_request \<Rightarrow> bytes \<Rightarrow> nat \<Rightarrow> 'c mod_state \<Rightarrow> 'c node_result" where
  "kp_rest sn rq nodebuf bufpos s =
     (if bufpos < length nodebuf then do {
        (cmp_key, val_buf, n) \<leftarrow> read_kv (drop bufpos nodebuf);
        (s, e) \<leftarrow> kp_keep sn rq s cmp_key val_buf;
        if e \<noteq> None then Some (s, e) else kp_rest sn rq nodebuf (bufpos + n) s
      } else Some (s, None))"
  by pat_completeness auto

termination
  by (relation "measure (\<lambda>(sn, rq, nodebuf, bufpos, s). length nodebuf - bufpos)") (auto dest!: read_kv_size)

declare kv_modify.simps [simp del] kp_modify.simps [simp del] kp_rest.simps [simp del]

definition kv_node :: "snappy \<Rightarrow> ('a, 'c) modify_request \<Rightarrow> bytes \<Rightarrow> 'c mod_state \<Rightarrow> 'a modify_action list \<Rightarrow> 'c node_result" where
  "kv_node sn rq nodebuf s acts = do {
     (s, acts) \<leftarrow> kv_modify sn rq nodebuf 1 s acts;
     s \<leftarrow> kv_rest sn rq s acts;
     Some (s, None)
   }"

definition kp_node :: "('a, 'c) node_modifier \<Rightarrow> snappy \<Rightarrow> ('a, 'c) modify_request \<Rightarrow> bytes \<Rightarrow> 'c mod_state \<Rightarrow> 'a modify_action list \<Rightarrow> 'c node_result" where
  "kp_node inner sn rq nodebuf s acts = do {
     (s, bufpos, e) \<leftarrow> kp_modify inner sn rq nodebuf 1 s acts;
     if e \<noteq> None then Some (s, e) else kp_rest sn rq nodebuf bufpos s
   }"

text \<open>What the changed node leaves in the node above it.\<close>

definition hand_up :: "snappy \<Rightarrow> ('a, 'c) modify_request \<Rightarrow> 'c mod_state \<Rightarrow> node_pointer option \<Rightarrow> modify_result \<Rightarrow> 'c node_result" where
  "hand_up sn rq s nptr dst = (case s of (f, c, local_result) \<Rightarrow> do {
     (f, local_result, e) \<leftarrow> flush_mr sn rq f local_result;
     if e \<noteq> None then Some ((f, c, dst), e)
     else (case (mr_modified local_result, nptr) of
        (False, Some p) \<Rightarrow> do { (f, dst, _) \<leftarrow> mr_push_pointerinfo sn rq f p dst; Some ((f, c, dst), None) }
      | _ \<Rightarrow> do { (f, _, dst, e) \<leftarrow> mr_move_pointers sn rq f local_result (dst\<lparr>mr_modified := True\<rparr>); Some ((f, c, dst), e) })
   })"

text \<open>The first argument bounds the depth of the recursion.\<close>

fun modify_node :: "nat \<Rightarrow> snappy \<Rightarrow> ('a, 'c) modify_request \<Rightarrow> ('a, 'c) node_modifier" where
  "modify_node 0 sn rq f c nptr acts dst = None"
| "modify_node (Suc d) sn rq f c nptr acts dst =
     (if acts = [] then Some ((f, c, dst), None)
      else
        (case (case nptr of None \<Rightarrow> (f, Inr []) | Some p \<Rightarrow> pread_compressed sn f (unat (np_pointer p))) of
           (f, Inl _) \<Rightarrow> Some ((f, c, dst), Some COUCHSTORE_ERROR_READ)
         | (f, Inr nodebuf) \<Rightarrow>
             (case make_modres f of
                (f, None) \<Rightarrow> Some ((f, c, dst), Some COUCHSTORE_ERROR_ALLOC_FAIL)
              | (f, Some res) \<Rightarrow> do {
                  c_assert (nptr = None \<or> nodebuf \<noteq> []);
                  (s, e) \<leftarrow>
                    (if nptr = None \<or> nodebuf ! 0 = 1 then kv_node sn rq nodebuf (f, c, res\<lparr>mr_node_type := KV_NODE\<rparr>) acts
                     else if nodebuf ! 0 = 0 then kp_node (modify_node d sn rq) sn rq nodebuf (f, c, res\<lparr>mr_node_type := KP_NODE\<rparr>) acts
                     else Some ((f, c, res), Some COUCHSTORE_ERROR_CORRUPT));
                  if e \<noteq> None then (case s of (f, c, _) \<Rightarrow> Some ((f, c, dst), e)) else hand_up sn rq s nptr dst
                })))"

section \<open>The new root\<close>

partial_function (option) finish_loop :: "snappy \<Rightarrow> ('a, 'c) modify_request \<Rightarrow> tree_file \<Rightarrow> modify_result \<Rightarrow> modify_result \<Rightarrow>
    (tree_file \<times> node_pointer option \<times> couchstore_error_t option) option" where
  "finish_loop sn rq f root_result collector =
     (if length (mr_pointers root_result) = 1 then Some (f, nl_pointer (hd (mr_pointers root_result)), None)
      else do {
        (f, root_result, collector, e) \<leftarrow> mr_move_pointers sn rq f root_result collector;
        if e \<noteq> None then Some (f, None, e)
        else do {
          (f, collector, e) \<leftarrow> flush_mr sn rq f collector;
          if e \<noteq> None then Some (f, None, e) else finish_loop sn rq f collector root_result
        }
      })"

declare finish_loop.simps [code]

definition finish_root :: "snappy \<Rightarrow> ('a, 'c) modify_request \<Rightarrow> tree_file \<Rightarrow> modify_result \<Rightarrow>
    (tree_file \<times> node_pointer option \<times> couchstore_error_t option) option" where
  "finish_root sn rq f root_result =
     (case make_modres f of
        (f, None) \<Rightarrow> Some (f, None, Some COUCHSTORE_ERROR_ALLOC_FAIL)
      | (f, Some collector) \<Rightarrow> do {
          (f, root_result, _) \<leftarrow> flush_mr sn rq f root_result;
          finish_loop sn rq f root_result (collector\<lparr>mr_modified := True, mr_node_type := KP_NODE\<rparr>)
        })"

definition copy_node_pointer :: "tree_file \<Rightarrow> node_pointer option \<Rightarrow> tree_file \<times> node_pointer option" where
  "copy_node_pointer f ptr =
     (case ptr of None \<Rightarrow> (f, None) | Some p \<Rightarrow> (case file_malloc f of (f, False) \<Rightarrow> (f, None) | (f, True) \<Rightarrow> (f, Some p)))"

definition values_end_pointer :: "modify_result \<Rightarrow> node_pointer option" where
  "values_end_pointer res = (if mr_values res = [] then None else nl_pointer (last (mr_values res)))"

text \<open>
  The new root: the tree above the pointers that came up, if there is more than one, or the only one.  The code also clears the pointer of the
  last item when it is the old root itself, which is so only when nothing was modified; the item is not looked at again in that case.  Two
  pointers are the same object exactly when they are equal, because a new one points behind all that is in the file.
\<close>

definition pick_root :: "snappy \<Rightarrow> ('a, 'c) modify_request \<Rightarrow> tree_file \<Rightarrow> node_pointer option \<Rightarrow> modify_result \<Rightarrow>
    (tree_file \<times> node_pointer option \<times> couchstore_error_t option) option" where
  "pick_root sn rq f root root_result =
     (if mr_modified root_result then
        if 1 < mr_count root_result \<or> mr_pointers root_result \<noteq> [] then do {
          (f, p, e) \<leftarrow> finish_root sn rq f root_result;
          Some (f, if e \<noteq> None then None else p, e)
        } else Some (f, values_end_pointer root_result, None)
      else Some (f, root, None))"

text \<open>The result of \<open>new_arena\<close> is used without a test.\<close>

definition modify_btree :: "nat \<Rightarrow> snappy \<Rightarrow> ('a, 'c) modify_request \<Rightarrow> tree_file \<Rightarrow> 'c \<Rightarrow> node_pointer option \<Rightarrow>
    (tree_file \<times> 'c \<times> node_pointer option \<times> couchstore_error_t option) option" where
  "modify_btree d sn rq f c root =
     (case file_malloc f of (f, ok) \<Rightarrow> do {
        c_assert ok;
        (case make_modres f of
           (f, None) \<Rightarrow> Some (f, c, root, Some COUCHSTORE_ERROR_ALLOC_FAIL)
         | (f, Some root_result) \<Rightarrow> do {
             ((f, c, root_result), e) \<leftarrow> modify_node d sn rq f c root (mq_actions rq) (root_result\<lparr>mr_node_type := KP_NODE\<rparr>);
             if e \<noteq> None then Some (f, c, None, e)
             else do {
               (f, ret_ptr, e) \<leftarrow> pick_root sn rq f root root_result;
               (case (if ret_ptr \<noteq> root then copy_node_pointer f ret_ptr else (f, ret_ptr)) of
                  (f, ret_ptr) \<Rightarrow> Some (f, c, ret_ptr, e))
             }
           })
      })"

section \<open>Building a tree\<close>

text \<open>For compaction: items are pushed in order into a result that writes nodes as soon as they are full.\<close>

definition new_btree_modres :: "tree_file \<Rightarrow> (tree_file \<times> modify_result option) option" where
  "new_btree_modres f =
     (case arena_alloc f of (f, ok) \<Rightarrow> do {
        c_assert ok;
        (case make_modres f of
           (f, None) \<Rightarrow> Some (f, None)
         | (f, Some mr) \<Rightarrow> Some (f, Some (mr\<lparr>mr_modified := True, mr_node_type := KV_NODE\<rparr>)))
      })"

definition complete_new_btree :: "snappy \<Rightarrow> ('a, 'c) modify_request \<Rightarrow> tree_file \<Rightarrow> modify_result \<Rightarrow>
    (tree_file \<times> node_pointer option \<times> couchstore_error_t option) option" where
  "complete_new_btree sn rq f mr = do {
     (f, mr, e) \<leftarrow> flush_mr sn rq f mr;
     if e \<noteq> None then Some (f, None, e)
     else (case make_modres f of
        (f, None) \<Rightarrow> Some (f, None, Some COUCHSTORE_ERROR_ALLOC_FAIL)
      | (f, Some targ) \<Rightarrow> do {
          (f, mr, targ, e) \<leftarrow> mr_move_pointers sn rq f mr (targ\<lparr>mr_modified := True, mr_node_type := KP_NODE\<rparr>);
          if e \<noteq> None then Some (f, None, e)
          else do {
            (f, ret_ptr, e) \<leftarrow>
              (if 1 < mr_count targ \<or> mr_pointers targ \<noteq> [] then finish_root sn rq f targ else Some (f, values_end_pointer targ, None));
            let (f, ret_ptr) = copy_node_pointer f ret_ptr;
            Some (f, ret_ptr, e)
          }
        })
   }"

end
