(* ===== verification/CouchGrow.thy ===== *)
theory CouchGrow
  imports CouchModify "HOL-Library.Sublist"
begin

text \<open>
  A couchstore file only grows.  Whatever a change of a tree does, and also when it fails, the trees that were in the file stay there
  (\<open>modify_btree_keeps\<close>); a chunk that is written in full is a node of the file from then on (\<open>node_written\<close>).
\<close>

section \<open>The written part of a file\<close>

definition valid :: "tree_file \<Rightarrow> bytes" where
  "valid f = take (tf_pos f) (contents f)"

lemma valid_grows: "grows f f' \<Longrightarrow> prefix (valid f) (valid f')"
proof -
  assume g: "grows f f'"
  then have "valid f = take (length (valid f)) (valid f')"
    by (intro nth_equalityI) (auto simp: valid_def grows_def keeps_def)
  then show ?thesis by (metis take_is_prefix)
qed

lemma data_at_prefix: "data_at c p bs \<Longrightarrow> prefix c c' \<Longrightarrow> data_at c' p bs"
  by (induction bs arbitrary: p) (auto simp: prefix_def nth_append)

lemma data_at_take: "data_at c p bs \<Longrightarrow> end_of p (length bs) \<le> q \<Longrightarrow> data_at (take q c) p bs"
proof (induction bs arbitrary: p)
  case (Cons b bs)
  have "skip_prefix p < q" using Cons.prems(2) end_of_ge [of "skip_prefix p + 1" "length bs"] by simp
  then show ?case using Cons by simp
qed simp

lemma stored_prefix: "stored sn c p buf \<Longrightarrow> prefix c c' \<Longrightarrow> stored sn c' p buf"
proof -
  assume "stored sn c p buf" "prefix c c'"
  then obtain z m where z: "chunk_at c p z" "length z < 2 ^ 31" "snappy_uncompressed_length sn z = Some m" "snappy_uncompress sn z = Some buf"
    unfolding stored_def by blast
  have "chunk_at c' p z" using z(1) \<open>prefix c c'\<close> unfolding chunk_at_def by (rule data_at_prefix)
  then show ?thesis using z unfolding stored_def by blast
qed

lemma node_at_prefix: "node_at sn R c h p kvs \<Longrightarrow> prefix c c' \<Longrightarrow> node_at sn R c' h p kvs"
proof (induction rule: node_at.induct)
  case (leaf p kvs)
  show ?case by (rule node_at.leaf [OF stored_prefix [OF leaf.hyps(1) leaf.prems] leaf.hyps(2)])
next
  case (inner p ns h ts)
  have "list_all2 (subtree R (\<lambda>q t. node_at sn R c' h (unat q) t)) ns ts"
    using inner.IH by (rule list.rel_mono_strong) (use inner.prems in \<open>auto simp: subtree_def\<close>)
  then show ?case by (rule node_at.inner [OF stored_prefix [OF inner.hyps(1) inner.prems]])
qed

lemma node_at_valid: "node_at sn R (valid f) h p kvs \<Longrightarrow> node_at sn R (contents f) h p kvs"
  by (erule node_at_prefix) (simp add: valid_def take_is_prefix)

lemma stored_pos: "stored sn c p buf \<Longrightarrow> p < length c"
proof -
  assume "stored sn c p buf"
  then obtain z where z: "data_at c p (chunk_info (of_nat (length z) OR 0x80000000) z @ z)" by (auto simp: stored_def chunk_at_def)
  obtain b bs where "chunk_info (of_nat (length z) OR 0x80000000) z = b # bs"
    using length_chunk_info [of "of_nat (length z) OR 0x80000000" z] by (cases "chunk_info (of_nat (length z) OR 0x80000000) z") auto
  then have "skip_prefix p < length c" using z by simp
  then show ?thesis using skip_prefix_ge [of p] by linarith
qed

lemma node_at_pos: "node_at sn R c h p kvs \<Longrightarrow> p < length c"
  by (erule node_at.cases) (auto dest: stored_pos)

section \<open>Writing a node\<close>

lemma pwrite_goes: "served f \<Longrightarrow> \<exists>f' w. pwrite f bs off = (f', Inr w) \<and> served f'"
  by (cases "io_q f") (auto simp: pwrite_def served_def split: io_outcome.splits)

lemma raw_write_loop_goes: "served f \<Longrightarrow> \<exists>f' e. raw_write_loop f buf bp wp = (f', Inr e) \<and> served f'"
proof (induction f buf bp wp rule: raw_write_loop.induct)
  case (1 f buf bp wp)
  define n where "n = (let block_remain = COUCH_BLOCK_SIZE - wp mod COUCH_BLOCK_SIZE
    in if length buf - bp < block_remain then length buf - bp else block_remain)"
  show ?case
  proof (cases "bp < length buf")
    case True
    show ?thesis
    proof (cases "wp mod COUCH_BLOCK_SIZE = 0")
      case w: True
      obtain f1 k where p: "pwrite f [0] wp = (f1, Inr k)" "served f1" using pwrite_goes [OF "1.prems"] by blast
      have "\<exists>f' e. raw_write_loop f1 buf bp (wp + 1) = (f', Inr e) \<and> served f'"
        by (rule "1.IH"(1) [OF True refl refl w p(1) [symmetric] refl p(2)])
      then show ?thesis by (subst raw_write_loop.simps) (use True w p in \<open>simp add: Let_def\<close>)
    next
      case w: False
      obtain f1 k where p: "pwrite f (take n (drop bp buf)) wp = (f1, Inr k)" "served f1" using pwrite_goes [OF "1.prems"] by blast
      have "\<exists>f' e. raw_write_loop f1 buf (bp + k) (wp + k) = (f', Inr e) \<and> served f'"
        by (rule "1.IH"(2) [OF True refl refl w p(1) [unfolded n_def Let_def, symmetric] refl p(2)])
      then show ?thesis by (subst raw_write_loop.simps) (use True w p in \<open>simp add: Let_def n_def\<close>)
    qed
  qed (use "1.prems" in \<open>subst raw_write_loop.simps, simp\<close>)
qed

lemma db_write_buf_goes: "served f \<Longrightarrow> \<exists>f' p n. db_write_buf f buf = (f', Inr (p, n)) \<and> served f'"
proof -
  assume s: "served f"
  obtain f1 e1 where a: "raw_write f (mem_le 4 (htonl (of_nat (length buf) OR 0x80000000)) @ mem_le 4 (htonl (couch_hash_crc32 buf))) (tf_pos f) = (f1, Inr e1)" "served f1"
    using raw_write_loop_goes [OF s] unfolding raw_write_def by blast
  obtain f2 e2 where b: "raw_write f1 buf e1 = (f2, Inr e2)" "served f2" using raw_write_loop_goes [OF a(2)] unfolding raw_write_def by blast
  have "served (f2\<lparr>tf_pos := e2\<rparr>)" using b(2) by (auto simp: served_def)
  then show ?thesis using a(1) b(1) by (simp add: db_write_buf_def Let_def)
qed

text \<open>What is asked of the compression library for one buffer: it is compressed to less than the length field of a chunk can hold, and back.\<close>

definition packs :: "snappy \<Rightarrow> bytes \<Rightarrow> bool" where
  "packs sn buf \<longleftrightarrow> (\<exists>z m. snappy_compress sn buf = Some z \<and> length z < 2 ^ 31 \<and> snappy_uncompressed_length sn z = Some m \<and> snappy_uncompress sn z = Some buf)"

lemma node_written:
  assumes "served f" "packs sn buf"
  shows "\<exists>f' n. db_write_buf_compressed sn f buf = (f', Inr (tf_pos f, n)) \<and> served f' \<and> grows f f' \<and> stored sn (valid f') (tf_pos f) buf"
proof -
  obtain z m where z: "snappy_compress sn buf = Some z" "length z < 2 ^ 31" "snappy_uncompressed_length sn z = Some m" "snappy_uncompress sn z = Some buf"
    using assms(2) by (auto simp: packs_def)
  obtain f1 where m: "file_malloc f = (f1, True)" "quiet f f1" using malloc_served [OF assms(1)] by blast
  then have "served f1" by (simp add: quiet_def)
  then obtain f2 p n where w: "db_write_buf f1 z = (f2, Inr (p, n))" "served f2" using db_write_buf_goes by blast
  note ok = db_write_buf_ok [OF w(1)]
  have p: "p = tf_pos f" using ok(1) m(2) by (simp add: quiet_def)
  have r: "db_write_buf_compressed sn f buf = (f2, Inr (p, n))" by (simp add: db_write_buf_compressed_def m z w)
  have "chunk_at (valid f2) p z" using ok(2,3) by (simp add: chunk_at_def valid_def data_at_take)
  then have "stored sn (valid f2) p buf" using z by (auto simp: stored_def)
  then show ?thesis using r w(2) db_write_compressed_grows [OF r] p by blast
qed

section \<open>Block prefixes\<close>

text \<open>
  \<open>unmarked c p\<close>: no block from \<open>p\<close> on starts with the mark of a header.  Writing data keeps that, also when it stops half way: the loop writes a zero
  at the start of every block, and nothing else reaches one.
\<close>

definition unmarked :: "bytes \<Rightarrow> nat \<Rightarrow> bool" where
  "unmarked c p \<longleftrightarrow> (\<forall>q. p \<le> q \<longrightarrow> q mod COUCH_BLOCK_SIZE = 0 \<longrightarrow> q < length c \<longrightarrow> c ! q = 0)"

lemma unmarked_le: "unmarked c p \<Longrightarrow> p \<le> q \<Longrightarrow> unmarked c q"
  by (auto simp: unmarked_def)

lemma file_put_nth:
  "q < length (file_put c off bs) \<Longrightarrow> file_put c off bs ! q =
     (if off \<le> q \<and> q < off + length bs then bs ! (q - off) else if q < length c then c ! q else 0)"
  by (auto simp: file_put_def nth_append min_def not_less split: if_splits)

lemma unmarked_put:
  assumes "unmarked c p" "\<And>i. i < length bs \<Longrightarrow> p \<le> off + i \<Longrightarrow> (off + i) mod COUCH_BLOCK_SIZE = 0 \<Longrightarrow> bs ! i = 0"
  shows "unmarked (file_put c off bs) p"
  unfolding unmarked_def
proof (intro allI impI)
  fix q assume q: "p \<le> q" "q mod COUCH_BLOCK_SIZE = 0" "q < length (file_put c off bs)"
  then show "file_put c off bs ! q = 0"
    unfolding file_put_nth [OF q(3)] using assms(1) assms(2) [of "q - off"] by (auto simp: unmarked_def)
qed

lemma pwrite_unmarked:
  assumes "pwrite f bs off = (f', r)" "unmarked (contents f) p"
    and "\<And>i. i < length bs \<Longrightarrow> p \<le> off + i \<Longrightarrow> (off + i) mod COUCH_BLOCK_SIZE = 0 \<Longrightarrow> bs ! i = 0"
  shows "unmarked (contents f') p"
proof (cases r)
  case (Inr w)
  show ?thesis unfolding pwrite_Inr(1) [OF assms(1) [unfolded Inr]] by (rule unmarked_put [OF assms(2)]) (use assms(3) in auto)
next
  case (Inl e)
  then show ?thesis using assms(1,2) by (auto simp: pwrite_def split: list.splits io_outcome.splits)
qed

lemma within_block:
  assumes "i < n" "n \<le> COUCH_BLOCK_SIZE - wp mod COUCH_BLOCK_SIZE" "wp mod COUCH_BLOCK_SIZE \<noteq> 0"
  shows "(wp + i) mod COUCH_BLOCK_SIZE \<noteq> 0"
proof -
  have "wp mod COUCH_BLOCK_SIZE + i < COUCH_BLOCK_SIZE" using assms(1,2) by linarith
  then have "(wp mod COUCH_BLOCK_SIZE + i) mod COUCH_BLOCK_SIZE = wp mod COUCH_BLOCK_SIZE + i" by simp
  then show ?thesis using assms(3) by (simp add: mod_add_left_eq)
qed

lemma raw_write_unmarked: "raw_write_loop f buf bp wp = (f', r) \<Longrightarrow> unmarked (contents f) p \<Longrightarrow> unmarked (contents f') p"
proof (induction f buf bp wp rule: raw_write_loop.induct)
  case (1 f buf bp wp)
  define br where "br = (if length buf - bp < COUCH_BLOCK_SIZE - wp mod COUCH_BLOCK_SIZE then length buf - bp else COUCH_BLOCK_SIZE - wp mod COUCH_BLOCK_SIZE)"
  note eq = "1.prems"(1) [unfolded raw_write_loop.simps [of f buf bp wp] Let_def, folded br_def]
  consider (end_) "\<not> bp < length buf" | (prefix) "bp < length buf" "wp mod COUCH_BLOCK_SIZE = 0" | (data) "bp < length buf" "wp mod COUCH_BLOCK_SIZE \<noteq> 0" by blast
  then show ?case
  proof cases
    case prefix
    obtain f1 r1 where p: "pwrite f [0] wp = (f1, r1)" by fastforce
    have u: "unmarked (contents f1) p" by (rule pwrite_unmarked [OF p "1.prems"(2)]) simp
    show ?thesis
    proof (cases r1)
      case (Inr w)
      then have "raw_write_loop f1 buf bp (wp + 1) = (f', r)" using eq prefix by (simp add: p)
      then show ?thesis by (rule "1.IH"(1) [OF prefix(1) refl refl prefix(2) p [symmetric, unfolded Inr] refl _ u])
    qed (use eq prefix u p in auto)
  next
    case data
    obtain f1 r1 where p: "pwrite f (take br (drop bp buf)) wp = (f1, r1)" by fastforce
    have "br \<le> COUCH_BLOCK_SIZE - wp mod COUCH_BLOCK_SIZE" by (simp add: br_def)
    then have u: "unmarked (contents f1) p" using within_block [OF _ _ data(2), of _ br] by (intro pwrite_unmarked [OF p "1.prems"(2)]) fastforce
    show ?thesis
    proof (cases r1)
      case (Inr w)
      then have "raw_write_loop f1 buf (bp + w) (wp + w) = (f', r)" using eq data by (simp add: p)
      then show ?thesis by (rule "1.IH"(2) [OF data(1) refl refl data(2) p [symmetric, unfolded Inr br_def] refl _ u])
    qed (use eq data u p in auto)
  qed (use eq "1.prems"(2) in simp)
qed

lemma write_buf_unmarked:
  assumes "db_write_buf f buf = (f', r)" "unmarked (contents f) p"
  shows "unmarked (contents f') p"
proof -
  define info where "info = chunk_info (of_nat (length buf) OR 0x80000000) buf"
  obtain f1 r1 where w1: "raw_write f info (tf_pos f) = (f1, r1)" by fastforce
  have u1: "unmarked (contents f1) p" using raw_write_unmarked w1 assms(2) unfolding raw_write_def by blast
  show ?thesis
  proof (cases r1)
    case (Inr e1)
    obtain f2 r2 where w2: "raw_write f1 buf e1 = (f2, r2)" by fastforce
    have u2: "unmarked (contents f2) p" using raw_write_unmarked w2 u1 unfolding raw_write_def by blast
    then show ?thesis using assms(1) w1 w2 Inr by (cases r2) (auto simp: db_write_buf_def Let_def info_def chunk_info_def)
  qed (use assms(1) w1 u1 in \<open>auto simp: db_write_buf_def Let_def info_def chunk_info_def\<close>)
qed

definition appends :: "tree_file \<Rightarrow> tree_file \<Rightarrow> bool" where
  "appends f f' \<longleftrightarrow> grows f f' \<and> (\<forall>p. unmarked (contents f) p \<longrightarrow> unmarked (contents f') p)"

lemma appends_refl [simp]: "appends f f"
  by (simp add: appends_def)

lemma appends_trans: "appends f g \<Longrightarrow> appends g h \<Longrightarrow> appends f h"
  unfolding appends_def using grows_trans by blast

lemma db_write_buf_appends: "db_write_buf f buf = (f', r) \<Longrightarrow> appends f f'"
  using db_write_buf_grows write_buf_unmarked unfolding appends_def by blast

lemma db_write_compressed_appends:
  assumes "db_write_buf_compressed sn f buf = (f', r)"
  shows "appends f f'"
proof -
  obtain f1 ok where m: "file_malloc f = (f1, ok)" by fastforce
  have s: "appends f f1" using malloc_same [OF m] by (simp add: appends_def grows_def)
  then show ?thesis using assms appends_trans [OF s db_write_buf_appends]
    by (cases ok; cases "snappy_compress sn buf") (auto simp: db_write_buf_compressed_def m)
qed

section \<open>Every operation appends to the file\<close>

named_theorems grow

lemma malloc_appends [grow]: "file_malloc f = (f', b) \<Longrightarrow> appends f f'"
  using malloc_same [of f f' b] by (simp add: appends_def grows_def)

lemma arena_appends [grow]: "arena_alloc f = (f', b) \<Longrightarrow> appends f f'"
  unfolding arena_alloc_def by (rule malloc_appends)

lemma make_modres_appends [grow]: "make_modres f = (f', r) \<Longrightarrow> appends f f'"
  by (auto simp: make_modres_def split: prod.splits bool.splits) (metis arena_appends appends_trans)+

lemma pread_bin_appends [grow]: "pread_bin_internal f p h = (f', r) \<Longrightarrow> appends f f'"
  using pread_bin_same [of f p h f' r] by (simp add: appends_def grows_def)

lemma pread_compressed_appends [grow]: "pread_compressed sn f p = (f', r) \<Longrightarrow> appends f f'"
proof -
  assume p: "pread_compressed sn f p = (f', r)"
  obtain f1 r1 where b: "pread_bin_internal f p False = (f1, r1)" by fastforce
  have g: "appends f f1" by (rule pread_bin_appends [OF b])
  show ?thesis using p g by (auto simp: pread_compressed_def b split: sum.splits option.splits prod.splits bool.splits intro: appends_trans [OF g malloc_appends])
qed

lemma add_pointer_appends [grow]: "add_pointer f res ptr n rest = (f', res', e) \<Longrightarrow> appends f f'"
  by (auto simp: add_pointer_def split: prod.splits bool.splits intro: appends_trans arena_appends)

lemma flush_mr_partial_appends [grow]:
  assumes "flush_mr_partial sn rq f res q = Some (f', res', e)"
  shows "appends f f'"
proof (cases "mr_values res = [] \<or> \<not> mr_modified res")
  case False
  obtain f1 ok where m: "file_malloc f = (f1, ok)" by fastforce
  obtain w st fk n rest where fl: "fill_node (mr_node_type res) q ([mr_node_type res], 0, [], 0) (mr_values res) = ((w, st, fk, n), rest)"
    by (metis surj_pair)
  obtain f2 r where d: "db_write_buf_compressed sn f1 w = (f2, r)" by fastforce
  have g: "appends f f1" "appends f f2" using malloc_appends [OF m] appends_trans [OF _ db_write_compressed_appends [OF d]] by blast+
  show ?thesis using assms False g
    by (auto simp: flush_mr_partial_def m fl d Let_def bind_eq_Some_iff split: bool.splits sum.splits intro: appends_trans [OF _ add_pointer_appends])
qed (use assms in \<open>auto simp: flush_mr_partial_def\<close>)

lemma flush_mr_appends [grow]: "flush_mr sn rq f res = Some (f', res', e) \<Longrightarrow> appends f f'"
  unfolding flush_mr_def by (rule flush_mr_partial_appends)

lemma maybe_flush_appends [grow]: "maybe_flush sn rq f res = Some (f', res', e) \<Longrightarrow> appends f f'"
  by (auto simp: maybe_flush_def split: if_splits intro: grow)

lemma mr_push_item_appends [grow]: "mr_push_item sn rq f k v res = Some (f', res', e) \<Longrightarrow> appends f f'"
  by (auto simp: mr_push_item_def split: prod.splits bool.splits intro: appends_trans [OF arena_appends maybe_flush_appends] grow)

lemma mr_push_pointerinfo_appends [grow]: "mr_push_pointerinfo sn rq f p res = Some (f', res', e) \<Longrightarrow> appends f f'"
  by (auto simp: mr_push_pointerinfo_def split: prod.splits bool.splits intro: appends_trans [OF arena_appends maybe_flush_appends] grow)

lemma move_pointers_loop_appends [grow]: "move_pointers_loop sn rq f ps dst = Some (f', ps', dst', e) \<Longrightarrow> appends f f'"
proof (induction ps arbitrary: f dst)
  case (Cons p ps)
  then obtain f1 dst1 e1 where m: "maybe_flush sn rq f (push_value p dst) = Some (f1, dst1, e1)" by (auto simp: bind_eq_Some_iff)
  then show ?case using Cons by (auto split: if_splits intro: appends_trans [OF maybe_flush_appends [OF m]] maybe_flush_appends [OF m])
qed simp

lemma mr_move_pointers_appends [grow]: "mr_move_pointers sn rq f src dst = Some (f', src', dst', e) \<Longrightarrow> appends f f'"
  by (auto simp: mr_move_pointers_def bind_eq_Some_iff intro: move_pointers_loop_appends)

lemma kv_push_appends [grow]: "kv_push sn rq s k v = Some s' \<Longrightarrow> appends (fst s) (fst s')"
  by (auto simp: kv_push_def bind_eq_Some_iff split: prod.splits intro: mr_push_item_appends)

lemma kv_state_file [simp]: "fst (kv_modified s) = fst s" "fst (kv_fetched rq s a v) = fst s"
  by (simp_all add: kv_modified_def kv_fetched_def split: prod.splits)

lemma kv_miss_appends [grow]: "kv_miss sn rq s a = Some s' \<Longrightarrow> appends (fst s) (fst s')"
  using kv_push_appends [of sn rq "kv_modified s"] by (fastforce simp: kv_miss_def split: action_type.splits)

lemma kv_key_appends [grow]: "kv_key sn rq k v s acts = Some (s', acts', b) \<Longrightarrow> appends (fst s) (fst s')"
proof (induction acts arbitrary: s)
  case (Cons a acts)
  note p = kv_push_appends [of sn rq "kv_modified s"]
  show ?case using Cons.prems p Cons.IH [of "kv_fetched rq s a (Some v)"]
    by (auto simp: Let_def bind_eq_Some_iff split: if_splits action_type.splits intro: kv_push_appends appends_trans [OF kv_miss_appends Cons.IH])
qed simp

lemma kv_modify_appends [grow]: "kv_modify sn rq buf n s acts = Some (s', acts') \<Longrightarrow> appends (fst s) (fst s')"
proof (induction sn rq buf n s acts rule: kv_modify.induct)
  case (1 sn rq buf n s acts)
  show ?case
  proof (cases "n < length buf")
    case True
    then obtain k v m s1 acts1 b s2 where r: "read_kv (drop n buf) = Some (k, v, m)" "kv_key sn rq k v s acts = Some (s1, acts1, b)"
      "(if acts1 = [] \<and> \<not> b then kv_push sn rq s1 k v else Some s1) = Some s2" "kv_modify sn rq buf (n + m) s2 acts1 = Some (s', acts')"
      using "1.prems" by (subst (asm) kv_modify.simps) (auto simp: bind_eq_Some_iff)
    have "appends (fst s1) (fst s2)" using r(3) by (auto split: if_splits intro: kv_push_appends)
    then have a: "appends (fst s) (fst s2)" by (rule appends_trans [OF kv_key_appends [OF r(2)]])
    have "appends (fst s2) (fst s')" using "1.IH" True r by (metis (no_types, lifting))
    then show ?thesis by (rule appends_trans [OF a])
  qed (use "1.prems" in \<open>subst (asm) kv_modify.simps, simp\<close>)
qed

lemma kv_rest_appends [grow]: "kv_rest sn rq s acts = Some s' \<Longrightarrow> appends (fst s) (fst s')"
  by (induction acts arbitrary: s) (auto simp: bind_eq_Some_iff intro: appends_trans [OF kv_miss_appends])

lemma arena_pointer_appends [grow]: "arena_pointer f k v = Some (f', p) \<Longrightarrow> appends f f'"
  by (auto simp: arena_pointer_def bind_eq_Some_iff split: prod.splits bool.splits intro: arena_appends)

lemma kp_keep_appends [grow]: "kp_keep sn rq s k v = Some (s', e) \<Longrightarrow> appends (fst s) (fst s')"
proof -
  assume k: "kp_keep sn rq s k v = Some (s', e)"
  obtain f c res where s: "s = (f, c, res)" by (metis surj_pair)
  obtain f1 p where a: "arena_pointer f k v = Some (f1, p)" using k by (auto simp: kp_keep_def s bind_eq_Some_iff)
  show ?thesis using k arena_pointer_appends [OF a] appends_trans [OF arena_pointer_appends [OF a] mr_push_pointerinfo_appends]
    by (cases p) (auto simp: kp_keep_def s a bind_eq_Some_iff)
qed

definition inner_appends :: "('a, 'c) node_modifier \<Rightarrow> bool" where
  "inner_appends inner \<longleftrightarrow> (\<forall>f c p acts dst s' e. inner f c p acts dst = Some (s', e) \<longrightarrow> appends f (fst s'))"

lemma kp_descend_appends [grow]: "inner_appends inner \<Longrightarrow> kp_descend inner s k v acts = Some (s', e) \<Longrightarrow> appends (fst s) (fst s')"
proof -
  assume i: "inner_appends inner" and k: "kp_descend inner s k v acts = Some (s', e)"
  obtain f c res where s: "s = (f, c, res)" by (metis surj_pair)
  obtain f1 p where a: "arena_pointer f k v = Some (f1, p)" using k by (auto simp: kp_descend_def s bind_eq_Some_iff)
  note g = arena_pointer_appends [OF a]
  show ?thesis
  proof (cases p)
    case (Some q)
    then have "inner f1 c (Some q) acts res = Some (s', e)" using k by (simp add: kp_descend_def s a)
    then have "appends f1 (fst s')" using i unfolding inner_appends_def by blast
    then show ?thesis using appends_trans [OF g] by (simp add: s)
  qed (use k g in \<open>auto simp: kp_descend_def s a\<close>)
qed

lemma kp_rest_appends [grow]: "kp_rest sn rq buf n s = Some (s', e) \<Longrightarrow> appends (fst s) (fst s')"
proof (induction sn rq buf n s rule: kp_rest.induct)
  case (1 sn rq buf n s)
  show ?case
  proof (cases "n < length buf")
    case True
    then obtain k v m s1 e1 where r: "read_kv (drop n buf) = Some (k, v, m)" "kp_keep sn rq s k v = Some (s1, e1)"
      "(if e1 \<noteq> None then Some (s1, e1) else kp_rest sn rq buf (n + m) s1) = Some (s', e)"
      using "1.prems" by (subst (asm) kp_rest.simps) (auto simp: bind_eq_Some_iff)
    note g = kp_keep_appends [OF r(2)]
    show ?thesis
    proof (cases "e1 = None")
      case None: True
      have "appends (fst s1) (fst s')" using "1.IH" True r None by (metis (no_types, lifting))
      then show ?thesis by (rule appends_trans [OF g])
    qed (use r(3) g in simp)
  qed (use "1.prems" in \<open>subst (asm) kp_rest.simps, simp\<close>)
qed

lemma kp_modify_appends [grow]: "inner_appends inner \<Longrightarrow> kp_modify inner sn rq buf n s acts = Some (s', m, e) \<Longrightarrow> appends (fst s) (fst s')"
proof (induction inner sn rq buf n s acts rule: kp_modify.induct)
  case (1 inner sn rq buf n s acts)
  show ?case
  proof (cases "n < length buf \<and> acts \<noteq> []")
    case True
    then obtain k v l where r: "read_kv (drop n buf) = Some (k, v, l)" using "1.prems"(2) by (subst (asm) kp_modify.simps) (auto simp: bind_eq_Some_iff)
    note eq = "1.prems"(2) [unfolded kp_modify.simps [of inner sn rq buf n s acts]]
    note ih = "1.IH" [OF True r refl refl refl]
    let ?cv = "mq_compare rq k (act_key (hd acts))"
    consider (final) "n + l = length buf" | (keep) "n + l \<noteq> length buf" "?cv < 0" | (down) "n + l \<noteq> length buf" "\<not> ?cv < 0" by blast
    then show ?thesis
    proof cases
      case final
      then show ?thesis using eq True r by (auto simp: bind_eq_Some_iff intro: kp_descend_appends [OF "1.prems"(1)])
    next
      case keep
      then obtain s1 e1 where k: "kp_keep sn rq s k v = Some (s1, e1)" using eq True r by (auto simp: bind_eq_Some_iff)
      note g = kp_keep_appends [OF k]
      show ?thesis
      proof (cases e1)
        case None
        then have "kp_modify inner sn rq buf (n + l) s1 acts = Some (s', m, e)" using eq True r k keep by simp
        then show ?thesis using appends_trans [OF g] ih(1) keep k None "1.prems"(1) by blast
      qed (use eq True r k keep g in auto)
    next
      case down
      let ?now = "takeWhile (\<lambda>a. mq_compare rq (act_key a) k \<le> 0) acts" and ?later = "dropWhile (\<lambda>a. mq_compare rq (act_key a) k \<le> 0) acts"
      obtain s1 e1 where k: "kp_descend inner s k v ?now = Some (s1, e1)" using eq True r down by (auto simp: bind_eq_Some_iff)
      note g = kp_descend_appends [OF "1.prems"(1) k]
      show ?thesis
      proof (cases e1)
        case None
        then have "kp_modify inner sn rq buf (n + l) s1 ?later = Some (s', m, e)" using eq True r k down by simp
        then show ?thesis using appends_trans [OF g] ih(2) down k None "1.prems"(1) by blast
      qed (use eq True r k down g in auto)
    qed
  qed (use "1.prems" in \<open>subst (asm) kp_modify.simps, auto\<close>)
qed

lemma hand_up_appends [grow]:
  assumes "hand_up sn rq s nptr dst = Some (s', e)"
  shows "appends (fst s) (fst s')"
proof -
  obtain f c res where s: "s = (f, c, res)" by (metis surj_pair)
  obtain f1 res1 e1 where fl: "flush_mr sn rq f res = Some (f1, res1, e1)" using assms by (auto simp: hand_up_def s bind_eq_Some_iff)
  note g = flush_mr_appends [OF fl]
  show ?thesis using assms g
    by (auto simp: hand_up_def s fl bind_eq_Some_iff split: if_splits bool.splits option.splits)
       (blast intro: appends_trans mr_push_pointerinfo_appends mr_move_pointers_appends)+
qed

lemma kv_node_appends [grow]: "kv_node sn rq buf s acts = Some (s', e) \<Longrightarrow> appends (fst s) (fst s')"
  by (auto simp: kv_node_def bind_eq_Some_iff intro: appends_trans [OF kv_modify_appends kv_rest_appends])

lemma kp_node_appends [grow]: "inner_appends inner \<Longrightarrow> kp_node inner sn rq buf s acts = Some (s', e) \<Longrightarrow> appends (fst s) (fst s')"
  by (auto simp: kp_node_def bind_eq_Some_iff split: if_splits intro: kp_modify_appends appends_trans [OF kp_modify_appends kp_rest_appends])

lemma modify_node_appends [grow]: "inner_appends (modify_node d sn rq)"
proof (induction d)
  case 0
  show ?case by (simp add: inner_appends_def)
next
  case (Suc d)
  show ?case unfolding inner_appends_def
  proof (intro allI impI)
    fix f c nptr acts dst s' e
    assume m: "modify_node (Suc d) sn rq f c nptr acts dst = Some (s', e)"
    obtain f1 r where rd: "(case nptr of None \<Rightarrow> (f, Inr []) | Some p \<Rightarrow> pread_compressed sn f (unat (np_pointer p))) = (f1, r)" by fastforce
    have g1: "appends f f1" using rd by (auto split: option.splits intro: pread_compressed_appends)
    obtain f2 res where mk: "make_modres f1 = (f2, res)" by fastforce
    have g2: "appends f f2" by (rule appends_trans [OF g1 make_modres_appends [OF mk]])
    show "appends f (fst s')"
    proof (cases "acts = []")
      case False
      show ?thesis
      proof (cases "\<exists>buf res'. r = Inr buf \<and> res = Some res'")
        case True
        then obtain buf res' where ok: "r = Inr buf" "res = Some res'" by blast
        obtain s e1 where nd: "(if nptr = None \<or> buf ! 0 = 1 then kv_node sn rq buf (f2, c, res'\<lparr>mr_node_type := KV_NODE\<rparr>) acts
             else if buf ! 0 = 0 then kp_node (modify_node d sn rq) sn rq buf (f2, c, res'\<lparr>mr_node_type := KP_NODE\<rparr>) acts
             else Some ((f2, c, res'), Some COUCHSTORE_ERROR_CORRUPT)) = Some (s, e1)"
          and fin: "(if e1 \<noteq> None then (case s of (f, c, _) \<Rightarrow> Some ((f, c, dst), e1)) else hand_up sn rq s nptr dst) = Some (s', e)"
          using m False by (auto simp: rd mk ok bind_eq_Some_iff)
        have "appends f2 (fst s)" using nd kp_node_appends [OF Suc.IH, of sn rq buf "(f2, c, res'\<lparr>mr_node_type := KP_NODE\<rparr>)" acts s e1]
            kv_node_appends [of sn rq buf "(f2, c, res'\<lparr>mr_node_type := KV_NODE\<rparr>)" acts s e1] by (auto split: if_splits)
        then have g3: "appends f (fst s)" by (rule appends_trans [OF g2])
        show ?thesis
        proof (cases "e1 = None")
          case True
          then show ?thesis using fin appends_trans [OF g3 hand_up_appends [of sn rq s nptr dst s' e]] by simp
        qed (use fin g3 in \<open>auto split: prod.splits\<close>)
      qed (use m False g1 g2 rd mk in \<open>auto split: sum.splits option.splits\<close>)
    qed (use m in auto)
  qed
qed

lemma finish_loop_step:
  assumes "\<And>sn rq f a b r. loop sn rq f a b = Some r \<Longrightarrow> appends f (fst r)"
    and "(if length (mr_pointers a) = 1 then Some (f, nl_pointer (hd (mr_pointers a)), None)
      else do {
        (f, a, b, e) \<leftarrow> mr_move_pointers sn rq f a b;
        if e \<noteq> None then Some (f, None, e)
        else do { (f, b, e) \<leftarrow> flush_mr sn rq f b; if e \<noteq> None then Some (f, None, e) else loop sn rq f b a }
      }) = Some r"
  shows "appends f (fst r)"
proof (cases "length (mr_pointers a) = 1")
  case False
  then obtain f1 a1 b1 e1 where m: "mr_move_pointers sn rq f a b = Some (f1, a1, b1, e1)" using assms(2) by (auto simp: bind_eq_Some_iff)
  note g1 = mr_move_pointers_appends [OF m]
  show ?thesis
  proof (cases "e1 = None")
    case True
    then obtain f2 b2 e2 where fl: "flush_mr sn rq f1 b1 = Some (f2, b2, e2)" using assms(2) False m by (auto simp: bind_eq_Some_iff)
    have g2: "appends f f2" by (rule appends_trans [OF g1 flush_mr_appends [OF fl]])
    show ?thesis using assms(2) False m True fl g2 appends_trans [OF g2 assms(1) [of sn rq f2 b2 a1 r]] by (cases e2) auto
  qed (use assms(2) False m g1 in auto)
qed (use assms(2) in auto)

lemma finish_loop_appends [grow]: "finish_loop sn rq f a b = Some r \<Longrightarrow> appends f (fst r)"
  by (rule finish_loop.raw_induct [where P = "\<lambda>sn rq f a b r. appends f (fst r)"]) (rule finish_loop_step)

lemma finish_root_appends [grow]: "finish_root sn rq f a = Some r \<Longrightarrow> appends f (fst r)"
proof -
  assume a: "finish_root sn rq f a = Some r"
  obtain f1 c where m: "make_modres f = (f1, c)" by fastforce
  note g = make_modres_appends [OF m]
  show ?thesis
  proof (cases c)
    case (Some b)
    then obtain f2 a2 e2 where fl: "flush_mr sn rq f1 a = Some (f2, a2, e2)" "finish_loop sn rq f2 a2 (b\<lparr>mr_modified := True, mr_node_type := KP_NODE\<rparr>) = Some r"
      using a m by (auto simp: finish_root_def bind_eq_Some_iff)
    show ?thesis by (rule appends_trans [OF g appends_trans [OF flush_mr_appends [OF fl(1)] finish_loop_appends [OF fl(2)]]])
  qed (use a m g in \<open>auto simp: finish_root_def\<close>)
qed

lemma copy_node_pointer_appends [grow]: "copy_node_pointer f p = (f', q) \<Longrightarrow> appends f f'"
  by (auto simp: copy_node_pointer_def split: option.splits prod.splits bool.splits intro: malloc_appends)

lemma pick_root_appends [grow]: "pick_root sn rq f root res = Some (f', p, e) \<Longrightarrow> appends f f'"
  using finish_root_appends [of sn rq f res] by (fastforce simp: pick_root_def bind_eq_Some_iff split: if_splits)

lemma modify_btree_appends:
  assumes "modify_btree d sn rq f c root = Some (f', c', root', e)"
  shows "appends f f'"
proof -
  obtain f1 ok where m: "file_malloc f = (f1, ok)" by fastforce
  obtain f2 r where mk: "make_modres f1 = (f2, r)" by fastforce
  have g2: "appends f f2" by (rule appends_trans [OF malloc_appends [OF m] make_modres_appends [OF mk]])
  show ?thesis
  proof (cases r)
    case None
    then show ?thesis using assms m mk g2 by (auto simp: modify_btree_def bind_eq_Some_iff)
  next
    case (Some rr)
    then obtain f3 c3 rr3 e3 where n: "modify_node d sn rq f2 c root (mq_actions rq) (rr\<lparr>mr_node_type := KP_NODE\<rparr>) = Some ((f3, c3, rr3), e3)"
      using assms m mk by (auto simp: modify_btree_def bind_eq_Some_iff)
    have "appends f2 f3" using modify_node_appends [of d sn rq] n unfolding inner_appends_def by fastforce
    then have g3: "appends f f3" by (rule appends_trans [OF g2])
    show ?thesis
    proof (cases "e3 = None")
      case True
      obtain f4 p e4 where ret: "pick_root sn rq f3 root rr3 = Some (f4, p, e4)"
        using assms m mk Some n True by (auto simp: modify_btree_def bind_eq_Some_iff)
      have g4: "appends f f4" by (rule appends_trans [OF g3 pick_root_appends [OF ret]])
      obtain f5 q where cp: "(if p \<noteq> root then copy_node_pointer f4 p else (f4, p)) = (f5, q)" by fastforce
      have "appends f4 f5" using cp by (auto split: if_splits intro: copy_node_pointer_appends)
      then have "appends f f5" by (rule appends_trans [OF g4])
      then show ?thesis using assms m mk Some n True by (simp add: modify_btree_def ret cp c_assert_bind_Some)
    qed (use assms m mk Some n g3 in \<open>auto simp: modify_btree_def bind_eq_Some_iff\<close>)
  qed
qed

end
