(* ===== verification/CouchUpdate.thy ===== *)
theory CouchUpdate
  imports CouchGrow
begin

text \<open>
  What \<open>modify_btree\<close> does to a tree.  The actions of a request are applied to the list of pairs (\<open>upd\<close>) and collect fetch results
  (\<open>fetches\<close>); the tree the code writes has exactly these pairs, in order, under reduce values that describe them.
\<close>

section \<open>Actions on a list of pairs\<close>

definition inserted :: "'a modify_action \<Rightarrow> (bytes \<times> bytes) list" where
  "inserted a = (if act_type a = ACTION_INSERT then [(act_key a, act_data a)] else [])"

definition missed :: "'a modify_action \<Rightarrow> ('a modify_action \<times> bytes option) list" where
  "missed a = (if act_type a = ACTION_FETCH then [(a, None)] else [])"

fun upd :: "(bytes \<Rightarrow> bytes \<Rightarrow> int) \<Rightarrow> (bytes \<times> bytes) list \<Rightarrow> 'a modify_action list \<Rightarrow> (bytes \<times> bytes) list" where
  "upd cmp kvs [] = kvs"
| "upd cmp [] (a # as) = inserted a @ upd cmp [] as"
| "upd cmp ((k, v) # kvs) (a # as) =
     (if cmp k (act_key a) < 0 then (k, v) # upd cmp kvs (a # as)
      else if 0 < cmp k (act_key a) then inserted a @ upd cmp ((k, v) # kvs) as
      else if act_type a = ACTION_FETCH then upd cmp ((k, v) # kvs) as
      else inserted a @ upd cmp kvs as)"

fun fetches :: "(bytes \<Rightarrow> bytes \<Rightarrow> int) \<Rightarrow> (bytes \<times> bytes) list \<Rightarrow> 'a modify_action list \<Rightarrow> ('a modify_action \<times> bytes option) list" where
  "fetches cmp kvs [] = []"
| "fetches cmp [] (a # as) = missed a @ fetches cmp [] as"
| "fetches cmp ((k, v) # kvs) (a # as) =
     (if cmp k (act_key a) < 0 then fetches cmp kvs (a # as)
      else if 0 < cmp k (act_key a) then missed a @ fetches cmp ((k, v) # kvs) as
      else if act_type a = ACTION_FETCH then (a, Some v) # fetches cmp ((k, v) # kvs) as
      else fetches cmp kvs as)"

definition touches :: "'a modify_action list \<Rightarrow> bool" where
  "touches acts \<longleftrightarrow> (\<exists>a \<in> set acts. act_type a \<noteq> ACTION_FETCH)"

text \<open>Sorted actions: only fetches may share their key with the action behind them.\<close>

definition in_order :: "(bytes \<Rightarrow> bytes \<Rightarrow> int) \<Rightarrow> 'a modify_action list \<Rightarrow> bool" where
  "in_order cmp acts \<longleftrightarrow>
     sorted_wrt (\<lambda>a b. cmp (act_key a) (act_key b) < 0 \<or> cmp (act_key a) (act_key b) = 0 \<and> act_type a = ACTION_FETCH) acts"

text \<open>The result of a fetch for each of the actions reaches the callback.\<close>

definition run_fetches :: "('a, 'c) modify_request \<Rightarrow> 'c \<Rightarrow> ('a modify_action \<times> bytes option) list \<Rightarrow> 'c" where
  "run_fetches rq c fs = foldl (\<lambda>c (a, v). case mq_fetch rq of None \<Rightarrow> c | Some callback \<Rightarrow> callback c (act_key a) v (act_arg a)) c fs"

lemma run_fetches_simps [simp]:
  "run_fetches rq c [] = c" "run_fetches rq c (xs @ ys) = run_fetches rq (run_fetches rq c xs) ys"
  "run_fetches rq c ((a, v) # xs) = run_fetches rq (case mq_fetch rq of None \<Rightarrow> c | Some callback \<Rightarrow> callback c (act_key a) v (act_arg a)) xs"
  by (simp_all add: run_fetches_def)

lemma merge_induct [case_names none rest step]:
  assumes "\<And>kvs. P kvs []" "\<And>a as. P [] as \<Longrightarrow> P [] (a # as)"
    and "\<And>k v kvs a as. P kvs (a # as) \<Longrightarrow> P ((k, v) # kvs) as \<Longrightarrow> P kvs as \<Longrightarrow> P ((k, v) # kvs) (a # as)"
  shows "P kvs acts"
proof (induction acts arbitrary: kvs)
  case (Cons a as)
  show ?case
  proof (induction kvs)
    case (Cons kv kvs)
    then show ?case using assms(3) [of kvs a as "fst kv" "snd kv"] \<open>\<And>kvs. P kvs as\<close> by simp
  qed (use assms(2) Cons in blast)
qed (rule assms(1))

lemma upd_append:
  "\<forall>a \<in> set now. \<forall>kv \<in> set rest. 0 < cmp (fst kv) (act_key a) \<Longrightarrow> \<forall>kv \<in> set t. \<forall>a \<in> set later. cmp (fst kv) (act_key a) < 0 \<Longrightarrow>
     upd cmp (t @ rest) (now @ later) = upd cmp t now @ upd cmp rest later \<and>
     fetches cmp (t @ rest) (now @ later) = fetches cmp t now @ fetches cmp rest later"
proof (induction t now rule: merge_induct)
  case (none kvs)
  then show ?case by (induction kvs; cases later) auto
next
  case (rest a as)
  then show ?case by (cases rest) auto
next
  case (step k v kvs a as)
  then show ?case by auto
qed

lemma upd_untouched: "\<not> touches acts \<Longrightarrow> upd cmp kvs acts = kvs"
  by (induction kvs acts rule: merge_induct) (auto simp: touches_def inserted_def)

lemma touches_Cons [simp]: "touches [] \<longleftrightarrow> False" "touches (a # as) \<longleftrightarrow> act_type a \<noteq> ACTION_FETCH \<or> touches as"
  by (auto simp: touches_def)

lemma touches_append: "touches (a @ b) \<longleftrightarrow> touches a \<or> touches b"
  by (auto simp: touches_def)

lemma set_upd: "set (upd cmp kvs acts) \<subseteq> set kvs \<union> set (concat (map inserted acts))"
  by (induction kvs acts rule: merge_induct) auto

lemma set_inserted: "kv \<in> set (concat (map inserted acts)) \<Longrightarrow> \<exists>a \<in> set acts. act_type a = ACTION_INSERT \<and> kv = (act_key a, act_data a)"
  by (auto simp: inserted_def split: if_splits)

section \<open>Trees of one kind\<close>

text \<open>The pair and the item of a leaf.\<close>

definition leaf_item :: "bytes \<times> bytes \<Rightarrow> nodelist" where
  "leaf_item kv = \<lparr>nl_data = snd kv, nl_key = fst kv, nl_pointer = None\<rparr>"

definition reduced :: "(nodelist list \<Rightarrow> nat \<Rightarrow> bytes option) option \<Rightarrow> nodelist list \<Rightarrow> nat \<Rightarrow> bytes option" where
  "reduced red is n = (case red of None \<Rightarrow> Some [] | Some g \<Rightarrow> g is n)"

text \<open>
  The contract of the reduce functions of a tree: for pairs that satisfy \<open>V\<close> the reduce value of a leaf is related by \<open>R\<close> to
  its pairs, and that of an inner node to the pairs below it, when this is so for its children.
\<close>

locale reducer =
  fixes reduce rereduce :: "(nodelist list \<Rightarrow> nat \<Rightarrow> bytes option) option"
    and R :: "bytes \<Rightarrow> (bytes \<times> bytes) list \<Rightarrow> bool" and V :: "bytes \<times> bytes \<Rightarrow> bool"
  assumes reduce_leaf: "list_all V kvs \<Longrightarrow> \<exists>r. reduced reduce (map leaf_item kvs @ is) (length kvs) = Some r \<and> length r \<le> 500 \<and> R r kvs"
    and reduce_inner: "list_all2 (\<lambda>p t. R (np_reduce_value p) t) ps ts \<Longrightarrow>
      \<exists>r. reduced rereduce (map pointer_item ps @ is) (length ps) = Some r \<and> length r \<le> 500 \<and> R r (concat ts)"

locale tree_kind = key_order compare + reducer reduce rereduce R V
  for compare :: "bytes \<Rightarrow> bytes \<Rightarrow> int" and reduce rereduce R V

context key_order
begin

lemma in_order_Cons: "in_order compare (a # as) \<longleftrightarrow>
    (\<forall>b \<in> set as. compare (act_key a) (act_key b) < 0 \<or> compare (act_key a) (act_key b) = 0 \<and> act_type a = ACTION_FETCH) \<and> in_order compare as"
  by (simp add: in_order_def)

lemma in_order_append: "in_order compare (a @ b) \<Longrightarrow> in_order compare a \<and> in_order compare b"
  by (simp add: in_order_def sorted_wrt_append)

lemma in_order_le: "in_order compare (a # as) \<Longrightarrow> b \<in> set (a # as) \<Longrightarrow> compare (act_key a) (act_key b) \<le> 0"
  unfolding in_order_Cons by auto

text \<open>A change at the greatest key of a first part.\<close>

lemma upd_split:
  assumes "ordered (t @ rest)" "t \<noteq> []" "in_order compare acts"
  defines "now \<equiv> takeWhile (\<lambda>a. compare (act_key a) (fst (last t)) \<le> 0) acts"
    and "later \<equiv> dropWhile (\<lambda>a. compare (act_key a) (fst (last t)) \<le> 0) acts"
  shows "upd compare (t @ rest) acts = upd compare t now @ upd compare rest later"
    and "fetches compare (t @ rest) acts = fetches compare t now @ fetches compare rest later"
proof -
  have nl: "acts = now @ later" by (simp add: now_def later_def)
  have l: "last t \<in> set t" using assms(2) by simp
  have a: "0 < compare (fst kv) (act_key a)" if "a \<in> set now" "kv \<in> set rest" for a kv
  proof -
    have "compare (act_key a) (fst (last t)) \<le> 0" using that(1) unfolding now_def by (meson set_takeWhileD)
    moreover have "compare (fst (last t)) (fst kv) < 0" using assms(1) l that(2) by (simp add: ordered_append)
    ultimately have "compare (act_key a) (fst kv) < 0" by (rule cmp_le_less)
    then show ?thesis by (simp add: cmp_swap)
  qed
  have b: "compare (fst kv) (act_key a) < 0" if kv: "kv \<in> set t" and al: "a \<in> set later" for a kv
  proof -
    obtain b bs where lb: "later = b # bs" using al by (cases later) auto
    then have "\<not> compare (act_key b) (fst (last t)) \<le> 0" unfolding later_def by (metis (no_types, lifting) dropWhile_eq_Cons_conv)
    moreover have "compare (act_key b) (act_key a) \<le> 0"
      by (rule in_order_le) (use in_order_append [of now later] assms(3) nl al lb in auto)
    ultimately have "compare (fst (last t)) (act_key a) < 0" using cmp_less_le [of "fst (last t)" "act_key b"] cmp_swap by fastforce
    moreover have "compare (fst kv) (fst (last t)) \<le> 0" using assms(1) kv by (intro ordered_last) (simp_all add: ordered_append)
    ultimately show ?thesis by (rule cmp_le_less [rotated])
  qed
  show "upd compare (t @ rest) acts = upd compare t now @ upd compare rest later"
    "fetches compare (t @ rest) acts = fetches compare t now @ fetches compare rest later"
    using upd_append [of now rest compare t later] a b nl by simp_all
qed

text \<open>The pairs stay ordered.\<close>

lemma upd_bound:
  "\<forall>kv \<in> set kvs. compare x (fst kv) < 0 \<Longrightarrow> \<forall>a \<in> set acts. compare x (act_key a) < 0 \<Longrightarrow> kv \<in> set (upd compare kvs acts) \<Longrightarrow> compare x (fst kv) < 0"
  using set_upd [of compare kvs acts] by (fastforce dest!: set_inserted)

lemma ordered_Cons: "ordered ((k, v) # kvs) \<longleftrightarrow> (\<forall>kv \<in> set kvs. compare k (fst kv) < 0) \<and> ordered kvs"
  by (simp add: ordered_def)

lemma inserted_before:
  assumes "\<forall>kv \<in> set kvs. compare (act_key a) (fst kv) < 0" "in_order compare (a # as)" "ordered (upd compare kvs as)"
  shows "ordered (inserted a @ upd compare kvs as)"
proof (cases "act_type a = ACTION_INSERT")
  case True
  then have "\<forall>b \<in> set as. compare (act_key a) (act_key b) < 0" using assms(2) by (simp add: in_order_Cons)
  then have "\<forall>kv \<in> set (upd compare kvs as). compare (act_key a) (fst kv) < 0" using upd_bound [OF assms(1)] by blast
  then show ?thesis using True assms(3) by (simp add: inserted_def ordered_Cons)
qed (use assms(3) in \<open>simp add: inserted_def\<close>)

lemma upd_ordered: "ordered kvs \<Longrightarrow> in_order compare acts \<Longrightarrow> ordered (upd compare kvs acts)"
proof (induction kvs acts rule: merge_induct)
  case (rest a as)
  have "ordered (inserted a @ upd compare [] as)" by (rule inserted_before) (use rest in \<open>auto simp: in_order_Cons\<close>)
  then show ?case by simp
next
  case (step k v kvs a as)
  have as: "in_order compare as" "\<forall>kv \<in> set kvs. compare k (fst kv) < 0" "ordered kvs" using step.prems by (simp_all add: in_order_Cons ordered_Cons)
  consider "compare k (act_key a) < 0" | "0 < compare k (act_key a)" | "compare k (act_key a) = 0" "act_type a = ACTION_FETCH"
    | "compare k (act_key a) = 0" "act_type a \<noteq> ACTION_FETCH" by linarith
  then show ?case
  proof cases
    case 1
    then have "\<forall>b \<in> set (a # as). compare k (act_key b) < 0" using in_order_le [OF step.prems(2)] cmp_less_le by blast
    then have "\<forall>kv \<in> set (upd compare kvs (a # as)). compare k (fst kv) < 0" using upd_bound [OF as(2)] by blast
    then show ?thesis using 1 step.IH(1) [OF as(3) step.prems(2)] by (simp add: ordered_Cons)
  next
    case 2
    then have k: "compare (act_key a) k < 0" by (simp add: cmp_swap)
    have "ordered (inserted a @ upd compare ((k, v) # kvs) as)"
      by (rule inserted_before) (use k as cmp_less_trans step.prems step.IH(2) 2 in auto)
    then show ?thesis using 2 by simp
  next
    case 3
    then show ?thesis using step.IH(2) step.prems(1) as(1) by simp
  next
    case 4
    then have k: "compare (act_key a) k \<le> 0" using cmp_eq_swap [of k "act_key a"] by simp
    have "ordered (inserted a @ upd compare kvs as)"
      by (rule inserted_before) (use k as cmp_le_less step.prems step.IH(3) 4 in auto)
    then show ?thesis using 4 by simp
  qed
qed simp

end

section \<open>Items and nodes\<close>

definition item_bytes :: "nodelist \<Rightarrow> bytes" where
  "item_bytes i = write_kv (nl_key i) (nl_data i)"

definition items_size :: "nodelist list \<Rightarrow> nat" where
  "items_size is = sum_list (map item_size is)"

lemma items_size_simps [simp]: "items_size [] = 0" "items_size (i # is) = item_size i + items_size is" "items_size (is @ js) = items_size is + items_size js"
  by (simp_all add: items_size_def)

lemma length_item_bytes: "length (concat (map item_bytes is)) = items_size is"
  by (induction "is") (simp_all add: item_bytes_def item_size_def write_kv_def)

text \<open>How many items the loop takes.\<close>

fun taken :: "u8 \<Rightarrow> u64 \<Rightarrow> nat \<Rightarrow> nodelist list \<Rightarrow> nat" where
  "taken ty quota n [] = 0"
| "taken ty quota n (i # is) = (if 0 < quota \<or> n < 2 \<and> ty = KP_NODE then Suc (taken ty (quota - of_nat (item_size i)) (n + 1) is) else 0)"

lemma taken_le: "taken ty q n is \<le> length is"
  by (induction ty q n "is" rule: taken.induct) auto

lemma fill_node_taken:
  "\<exists>st'. fill_node ty q (dst, st, fk, n) is =
     ((dst @ concat (map item_bytes (take (taken ty q n is) is)), st', if taken ty q n is = 0 then fk else nl_key (last (take (taken ty q n is) is)),
       n + taken ty q n is), drop (taken ty q n is) is)"
proof (induction ty q n "is" arbitrary: dst st fk rule: taken.induct)
  case (2 ty q n i "is")
  show ?case
  proof (cases "0 < q \<or> n < 2 \<and> ty = KP_NODE")
    case True
    have "take (taken ty (q - of_nat (item_size i)) (n + 1) is) is = [] \<longleftrightarrow> taken ty (q - of_nat (item_size i)) (n + 1) is = 0"
      using taken_le [of ty "q - of_nat (item_size i)" "n + 1" "is"] by (auto simp: take_eq_Nil)
    then show ?thesis using 2 [OF True, of "dst @ write_kv (nl_key i) (nl_data i)" "case nl_pointer i of None \<Rightarrow> st | Some p \<Rightarrow> st + np_subtreesize p" "nl_key i"] True
      by (auto simp: item_bytes_def)
  qed auto
qed simp

lemma taken_total: "items_size is < 2 ^ 64 \<Longrightarrow> taken ty (of_nat (items_size is)) n is = length is"
proof (induction "is" arbitrary: n)
  case (Cons i "is")
  have "0 < item_size i" by (simp add: item_size_def)
  then have "(of_nat (items_size (i # is)) :: u64) \<noteq> 0" using Cons.prems by (simp add: word_of_nat_eq_0_iff del: of_nat_add) (metis add_gr_0 nat_dvd_not_less)
  then have "0 < (of_nat (items_size (i # is)) :: u64)" by (simp only: word_neq_0_conv)
  then show ?case using Cons by simp
qed simp

lemma taken_some: "0 < q \<Longrightarrow> is \<noteq> [] \<Longrightarrow> 0 < taken ty q n is"
  by (cases "is") auto

lemma taken_two: "2 \<le> length is \<Longrightarrow> 2 \<le> taken KP_NODE q 0 is"
  by (cases "is"; cases "tl is") auto

text \<open>The subtree size of a pointer is cut to 48 bits when it is written.\<close>

lemma encode_raw48_cut: "encode_raw48 (take_bit 48 w) = encode_raw48 w"
proof -
  have "mem_le 6 (take_bit 48 w) = mem_le 6 w"
    by (rule nth_equalityI) (auto simp: mem_le_def intro!: bit_word_eqI simp: bit_simps)
  then show ?thesis by (simp add: encode_raw_rev)
qed

lemma pointer_cut: "ptr_kv (p\<lparr>np_subtreesize := take_bit 48 (np_subtreesize p)\<rparr>) = ptr_kv p"
  by (simp add: ptr_kv_def encode_pointer_def encode_raw48_cut)

lemma unat_take_bit: "unat (take_bit n w) < 2 ^ n" for w :: "'a::len word"
  by (simp add: unsigned_take_bit_eq take_bit_nat_less_exp)

definition fits :: "nat \<Rightarrow> (bytes \<times> bytes) list \<Rightarrow> bool" where
  "fits N kvs \<longleftrightarrow> 1 + length (kv_bytes kvs) \<le> N \<and> 1 + 4614 * length kvs \<le> N"

lemma kv_bytes_append: "kv_bytes (a @ b) = kv_bytes a @ kv_bytes b"
  by (simp add: kv_bytes_def)

lemma fits_append: "fits N (a @ b) \<Longrightarrow> fits N a \<and> fits N b"
  by (auto simp: fits_def kv_bytes_append)

text \<open>The compression library serves all buffers up to a size.\<close>

definition packer :: "snappy \<Rightarrow> nat \<Rightarrow> bool" where
  "packer sn N \<longleftrightarrow> N < 2 ^ 32 \<and> (\<forall>buf. length buf \<le> N \<longrightarrow> packs sn buf)"

text \<open>\<open>root_at sn R f h root kvs\<close>: the root of a tree of height \<open>h\<close> with the pairs \<open>kvs\<close>; an empty tree has no root.\<close>

definition root_at :: "snappy \<Rightarrow> (bytes \<Rightarrow> (bytes \<times> bytes) list \<Rightarrow> bool) \<Rightarrow> tree_file \<Rightarrow> nat \<Rightarrow> node_pointer option \<Rightarrow> (bytes \<times> bytes) list \<Rightarrow> bool" where
  "root_at sn R f h root kvs \<longleftrightarrow> (case root of None \<Rightarrow> kvs = []
     | Some p \<Rightarrow> kvs \<noteq> [] \<and> R (np_reduce_value p) kvs \<and> length (np_reduce_value p) \<le> 500 \<and> unat (np_pointer p) < 2 ^ 48 \<and>
         node_at sn R (valid f) h (unat (np_pointer p)) kvs)"

lemma root_at_grows: "root_at sn R f h root kvs \<Longrightarrow> grows f f' \<Longrightarrow> root_at sn R f' h root kvs"
  by (auto simp: root_at_def split: option.splits intro: node_at_prefix valid_grows)

definition node_kind :: "nat \<Rightarrow> u8" where
  "node_kind H = (if H = 0 then KV_NODE else KP_NODE)"

context tree_kind
begin

definition kv_ok :: "bytes \<times> bytes \<Rightarrow> bool" where
  "kv_ok kv \<longleftrightarrow> kv_fits kv \<and> V kv"

text \<open>
  \<open>sub sn f h i t\<close>: the item \<open>i\<close> points to a tree of height \<open>h\<close> with the pairs \<open>t\<close>.  Positions have 48 bits in a node, so this holds as long as
  the file has not outgrown them.
\<close>

definition sub :: "snappy \<Rightarrow> tree_file \<Rightarrow> nat \<Rightarrow> nodelist \<Rightarrow> (bytes \<times> bytes) list \<Rightarrow> bool" where
  "sub sn f h i t \<longleftrightarrow> (\<exists>p. i = pointer_item p \<and> t \<noteq> [] \<and> np_key p = fst (last t) \<and> length (np_reduce_value p) \<le> 500 \<and>
     R (np_reduce_value p) t \<and> list_all kv_ok t \<and>
     (tf_pos f < 2 ^ 48 \<longrightarrow> unat (np_pointer p) < 2 ^ 48 \<and> node_at sn R (valid f) h (unat (np_pointer p)) t))"

text \<open>The items of a node of height \<open>H\<close>.\<close>

definition isub :: "snappy \<Rightarrow> tree_file \<Rightarrow> nat \<Rightarrow> nodelist \<Rightarrow> (bytes \<times> bytes) list \<Rightarrow> bool" where
  "isub sn f H i t \<longleftrightarrow> (case H of 0 \<Rightarrow> \<exists>kv. t = [kv] \<and> i = leaf_item kv \<and> kv_ok kv | Suc h \<Rightarrow> sub sn f h i t)"

lemma sub_grows: "sub sn f h i t \<Longrightarrow> grows f f' \<Longrightarrow> sub sn f' h i t"
proof -
  assume s: "sub sn f h i t" and g: "grows f f'"
  have "tf_pos f \<le> tf_pos f'" using g by (simp add: grows_def)
  then have "tf_pos f' < 2 ^ 48 \<Longrightarrow> tf_pos f < 2 ^ 48" by simp
  moreover obtain p where p: "i = pointer_item p" "t \<noteq> []" "np_key p = fst (last t)" "length (np_reduce_value p) \<le> 500" "R (np_reduce_value p) t" "list_all kv_ok t"
    "tf_pos f < 2 ^ 48 \<Longrightarrow> unat (np_pointer p) < 2 ^ 48 \<and> node_at sn R (valid f) h (unat (np_pointer p)) t"
    using s unfolding sub_def by blast
  ultimately show ?thesis unfolding sub_def using node_at_prefix [OF _ valid_grows [OF g], of sn R h "unat (np_pointer p)" t] by (intro exI [of _ p]) simp
qed

lemma isub_grows: "isub sn f H i t \<Longrightarrow> grows f f' \<Longrightarrow> isub sn f' H i t"
  by (auto simp: isub_def split: nat.splits intro: sub_grows)

lemma isub_nonempty: "isub sn f H i t \<Longrightarrow> t \<noteq> [] \<and> list_all kv_ok t \<and> nl_key i = fst (last t)"
  by (auto simp: isub_def sub_def pointer_item_def leaf_item_def split: nat.splits)

lemma isub_size: "isub sn f (Suc h) i t \<Longrightarrow> item_size i \<le> 4614"
proof -
  assume "isub sn f (Suc h) i t"
  then obtain p where p: "i = pointer_item p" "t \<noteq> []" "np_key p = fst (last t)" "length (np_reduce_value p) \<le> 500" "list_all kv_ok t"
    by (auto simp: isub_def sub_def)
  then have "kv_ok (last t)" by (simp add: list_all_iff)
  then have "length (np_key p) < 2 ^ 12" using p(3) by (simp add: kv_ok_def kv_fits_def)
  then show ?thesis using p(1,4) by (simp add: item_size_def pointer_item_def encode_pointer_def)
qed

lemma leaf_items: "list_all2 (isub sn f 0) is ts \<Longrightarrow> is = map leaf_item (concat ts) \<and> list_all kv_ok (concat ts)"
  by (induction rule: list_all2_induct) (auto simp: isub_def)

lemma inner_items: "list_all2 (isub sn f (Suc h)) is ts \<Longrightarrow> \<exists>ps. is = map pointer_item ps \<and> list_all2 (\<lambda>p t. R (np_reduce_value p) t) ps ts"
proof (induction rule: list_all2_induct)
  case (Cons i "is" t ts)
  then obtain ps p where "is = map pointer_item ps" "list_all2 (\<lambda>p t. R (np_reduce_value p) t) ps ts" "i = pointer_item p" "R (np_reduce_value p) t"
    by (auto simp: isub_def sub_def)
  then show ?case by (intro exI [of _ "p # ps"]) simp
qed simp

lemma items_fit:
  assumes "list_all2 (isub sn f H) is ts" "fits N (concat ts)"
  shows "1 + items_size is \<le> N"
proof (cases H)
  case 0
  then have "is = map leaf_item (concat ts)" using leaf_items assms(1) by blast
  then have "items_size is = length (kv_bytes (concat ts))"
    using length_item_bytes [of "is"] by (simp add: kv_bytes_def item_bytes_def leaf_item_def comp_def case_prod_unfold)
  then show ?thesis using assms(2) by (simp add: fits_def)
next
  case (Suc h)
  have "items_size is \<le> 4614 * length (concat ts)" using assms(1) unfolding Suc
  proof (induction rule: list_all2_induct)
    case (Cons i "is" t ts)
    then have i: "item_size i \<le> 4614" "t \<noteq> []" using isub_size isub_nonempty by blast+
    then have "4614 \<le> 4614 * length t" by (cases t) auto
    then show ?case using i Cons(3) by simp
  qed simp
  then show ?thesis using assms(2) by (simp add: fits_def)
qed

lemma last_concat: "list_all2 (isub sn f H) is ts \<Longrightarrow> is \<noteq> [] \<Longrightarrow> concat ts \<noteq> [] \<and> nl_key (last is) = fst (last (concat ts)) \<and> list_all kv_ok (concat ts)"
proof (induction rule: list_all2_induct)
  case (Cons i "is" t ts)
  note t = isub_nonempty [OF Cons(1)]
  show ?case
  proof (cases "is = []")
    case True
    then have "ts = []" using Cons(2) by simp
    then show ?thesis using t True by simp
  next
    case False
    then show ?thesis using Cons(3) t by simp
  qed
qed simp

section \<open>Writing a node\<close>

definition request :: "('a, 'c) modify_request \<Rightarrow> bool" where
  "request rq \<longleftrightarrow> mq_compare rq = compare \<and> mq_reduce rq = reduce \<and> mq_rereduce rq = rereduce"

lemma node_reduce_ok:
  assumes "request rq" "mr_node_type res = node_kind H" "mr_values res = is @ rest" "list_all2 (isub sn f H) is ts"
  shows "\<exists>r. node_reduce rq res (length is) = Some r \<and> length r \<le> 500 \<and> R r (concat ts)"
proof -
  have "\<exists>r. reduced (if H = 0 then reduce else rereduce) (is @ rest) (length is) = Some r \<and> length r \<le> 500 \<and> R r (concat ts)"
  proof (cases H)
    case 0
    then show ?thesis using leaf_items assms(4) reduce_leaf [of "concat ts" rest] by (fastforce simp: kv_ok_def list_all_iff)
  next
    case (Suc h)
    then obtain ps where "is = map pointer_item ps" "list_all2 (\<lambda>p t. R (np_reduce_value p) t) ps ts" using inner_items assms(4) by blast
    then show ?thesis using Suc reduce_inner [of ps ts rest] by simp
  qed
  moreover have "node_reduce rq res n = do { r \<leftarrow> reduced (if H = 0 then reduce else rereduce) (is @ rest) n; c_assert (length r \<le> 500); Some r }" for n
    unfolding node_reduce_def reduced_def assms(2,3) using assms(1) by (cases "H = 0") (simp_all add: request_def node_kind_def KV_NODE_def KP_NODE_def)
  ultimately show ?thesis by (auto simp: c_assert_true)
qed

lemma pointer_subtree:
  assumes "sub sn f h i t" "tf_pos f < 2 ^ 48"
  shows "\<exists>n. (nl_key i, nl_data i) = ptr_kv n \<and> subtree R (\<lambda>q t. node_at sn R (valid f) h (unat q) t) n t"
proof -
  obtain p where p: "i = pointer_item p" "t \<noteq> []" "np_key p = fst (last t)" "length (np_reduce_value p) \<le> 500" "R (np_reduce_value p) t" "list_all kv_ok t"
    "unat (np_pointer p) < 2 ^ 48" "node_at sn R (valid f) h (unat (np_pointer p)) t"
    using assms unfolding sub_def by blast
  define n where "n = p\<lparr>np_subtreesize := take_bit 48 (np_subtreesize p)\<rparr>"
  have k: "ptr_kv n = ptr_kv p" unfolding n_def by (rule pointer_cut)
  have "kv_ok (last t)" using p(2,6) by (simp add: list_all_iff)
  then have "length (np_key p) < 2 ^ 12" using p(3) by (simp add: kv_ok_def kv_fits_def)
  then have "kv_fits (ptr_kv n)" unfolding k using p(4) by (simp add: kv_fits_def ptr_kv_def encode_pointer_def)
  moreover have "ptr_ok n" using p(4,7) unat_take_bit [of 48 "np_subtreesize p"] by (simp add: ptr_ok_def n_def)
  ultimately have "subtree R (\<lambda>q t. node_at sn R (valid f) h (unat q) t) n t" using p by (simp add: subtree_def n_def)
  moreover have "(nl_key i, nl_data i) = ptr_kv n" unfolding k by (simp add: p(1) pointer_item_def ptr_kv_def)
  ultimately show ?thesis by blast
qed

lemma node_of_items:
  assumes "list_all2 (isub sn f H) is ts" "stored sn (valid f) p (node_kind H # concat (map item_bytes is))" "tf_pos f < 2 ^ 48"
  shows "node_at sn R (valid f) H p (concat ts)"
proof (cases H)
  case 0
  then have i: "is = map leaf_item (concat ts)" "list_all kv_ok (concat ts)" using leaf_items assms(1) by blast+
  have "concat (map item_bytes is) = kv_bytes (concat ts)" unfolding i(1) by (simp add: kv_bytes_def item_bytes_def leaf_item_def comp_def case_prod_unfold)
  then have "stored sn (valid f) p (1 # kv_bytes (concat ts))" using assms(2) 0 by (simp add: node_kind_def KV_NODE_def)
  moreover have "list_all kv_fits (concat ts)" using i(2) by (auto simp: list_all_iff kv_ok_def)
  ultimately show ?thesis unfolding 0 by (rule node_at.leaf)
next
  case (Suc h)
  have "\<exists>ns. map (\<lambda>i. (nl_key i, nl_data i)) is = map ptr_kv ns \<and> list_all2 (subtree R (\<lambda>q t. node_at sn R (valid f) h (unat q) t)) ns ts"
    using assms(1) unfolding Suc
  proof (induction rule: list_all2_induct)
    case (Cons i "is" t ts)
    then obtain n ns where "(nl_key i, nl_data i) = ptr_kv n" "subtree R (\<lambda>q t. node_at sn R (valid f) h (unat q) t) n t"
      "map (\<lambda>i. (nl_key i, nl_data i)) is = map ptr_kv ns" "list_all2 (subtree R (\<lambda>q t. node_at sn R (valid f) h (unat q) t)) ns ts"
      using pointer_subtree [OF _ assms(3)] by (fastforce simp: isub_def)
    then show ?case by (intro exI [of _ "n # ns"]) simp
  qed simp
  then obtain ns where ns: "map (\<lambda>i. (nl_key i, nl_data i)) is = map ptr_kv ns" "list_all2 (subtree R (\<lambda>q t. node_at sn R (valid f) h (unat q) t)) ns ts" by blast
  have "concat (map item_bytes is) = kv_bytes (map (\<lambda>i. (nl_key i, nl_data i)) is)" by (simp add: kv_bytes_def item_bytes_def [abs_def] comp_def)
  then have "stored sn (valid f) p (0 # kv_bytes (map ptr_kv ns))" using assms(2) ns(1) Suc by (simp add: node_kind_def KP_NODE_def)
  then show ?thesis unfolding Suc using ns(2) by (rule node_at.inner)
qed

lemma written_sub:
  assumes "list_all2 (isub sn f H) is ts" "is \<noteq> []" "stored sn (valid f) p (node_kind H # concat (map item_bytes is))" "R r (concat ts)" "length r \<le> 500"
  shows "sub sn f H (pointer_item \<lparr>np_key = nl_key (last is), np_pointer = of_nat p, np_reduce_value = r, np_subtreesize = st\<rparr>) (concat ts)"
proof -
  have "p < tf_pos f" using stored_pos [OF assms(3)] by (simp add: valid_def)
  then have "unat (of_nat p :: u64) = p" "p < 2 ^ 48" if "tf_pos f < 2 ^ 48" using that by (simp_all add: unsigned_of_nat take_bit_nat_eq_self)
  then show ?thesis unfolding sub_def using last_concat [OF assms(1,2)] assms(4,5) node_of_items [OF assms(1,3)] by (intro exI [of _ "\<lparr>np_key = nl_key (last is), np_pointer = of_nat p, np_reduce_value = r, np_subtreesize = st\<rparr>"]) simp
qed

section \<open>Collected nodes and items\<close>

text \<open>
  \<open>holds sn f H mr w kvs\<close>: the nodes of height \<open>H\<close> that \<open>mr\<close> has written and the items it has collected for the next one have the pairs \<open>kvs\<close>.
  The weight \<open>w\<close> bounds how many they are, a written inner node counting for two items.
\<close>

definition holds :: "snappy \<Rightarrow> tree_file \<Rightarrow> nat \<Rightarrow> modify_result \<Rightarrow> nat \<Rightarrow> (bytes \<times> bytes) list \<Rightarrow> bool" where
  "holds sn f H mr w kvs \<longleftrightarrow> (\<exists>us ts. list_all2 (sub sn f H) (mr_pointers mr) us \<and> list_all2 (isub sn f H) (mr_values mr) ts \<and>
     kvs = concat us @ concat ts \<and> (0 < H \<longrightarrow> 2 * length us + length ts \<le> w)) \<and>
     mr_node_len mr = int (items_size (mr_values mr)) \<and> mr_count mr = int (length (mr_values mr)) \<and> mr_node_type mr = node_kind H \<and>
     (\<not> mr_modified mr \<longrightarrow> mr_pointers mr = [])"

lemma holds_grows: "holds sn f H mr w kvs \<Longrightarrow> grows f f' \<Longrightarrow> holds sn f' H mr w kvs"
proof -
  assume h: "holds sn f H mr w kvs" and g: "grows f f'"
  obtain us ts where u: "list_all2 (sub sn f H) (mr_pointers mr) us" "list_all2 (isub sn f H) (mr_values mr) ts" "kvs = concat us @ concat ts"
    "0 < H \<longrightarrow> 2 * length us + length ts \<le> w" using h unfolding holds_def by blast
  have "list_all2 (sub sn f' H) (mr_pointers mr) us" by (rule list_all2_mono [OF u(1)]) (rule sub_grows [OF _ g])
  moreover have "list_all2 (isub sn f' H) (mr_values mr) ts" by (rule list_all2_mono [OF u(2)]) (rule isub_grows [OF _ g])
  ultimately show ?thesis using h u(3,4) unfolding holds_def by blast
qed

lemma holds_empty: "mr_values mr = [] \<Longrightarrow> mr_pointers mr = [] \<Longrightarrow> mr_node_len mr = 0 \<Longrightarrow> mr_count mr = 0 \<Longrightarrow> mr_node_type mr = node_kind H \<Longrightarrow> holds sn f H mr w []"
  unfolding holds_def by (auto intro!: exI [of _ "[]"])

lemma add_pointer_ok: "served f \<Longrightarrow> \<exists>f'. add_pointer f res ptr n rest =
    (f', res\<lparr>mr_pointers := mr_pointers res @ [pointer_item ptr], mr_node_len := mr_node_len res - (int n - 1), mr_values := rest\<rparr>, None) \<and> quiet f f'"
proof -
  assume s: "served f"
  obtain f1 where a: "file_malloc f = (f1, True)" "quiet f f1" using malloc_served [OF s] by blast
  then have "served f1" by (simp add: quiet_def)
  then obtain f2 where b: "file_malloc f1 = (f2, True)" "quiet f1 f2" using malloc_served by blast
  show ?thesis using a b quiet_trans [OF a(2) b(2)] by (simp add: add_pointer_def arena_alloc_def)
qed

lemma quiet_grows: "quiet f f' \<Longrightarrow> grows f f'"
  by (simp add: quiet_def grows_def)

lemma holdsI:
  assumes "list_all2 (sub sn f H) (mr_pointers mr) us" "list_all2 (isub sn f H) (mr_values mr) ts" "kvs = concat us @ concat ts"
    "0 < H \<longrightarrow> 2 * length us + length ts \<le> w" "mr_node_len mr = int (items_size (mr_values mr))" "mr_count mr = int (length (mr_values mr))"
    "mr_node_type mr = node_kind H" "\<not> mr_modified mr \<longrightarrow> mr_pointers mr = []"
  shows "holds sn f H mr w kvs"
  using assms unfolding holds_def by blast

lemma holdsE:
  assumes "holds sn f H mr w kvs"
  obtains us ts where "list_all2 (sub sn f H) (mr_pointers mr) us" "list_all2 (isub sn f H) (mr_values mr) ts" "kvs = concat us @ concat ts"
    "0 < H \<longrightarrow> 2 * length us + length ts \<le> w" "mr_node_len mr = int (items_size (mr_values mr))" "mr_count mr = int (length (mr_values mr))"
    "mr_node_type mr = node_kind H" "\<not> mr_modified mr \<longrightarrow> mr_pointers mr = []"
  using assms unfolding holds_def by blast

text \<open>One flush: the first \<open>k\<close> items become a node.\<close>

lemma node_flushed:
  assumes "served f" "packer sn N" "request rq" "mr_modified mr" "mr_node_type mr = node_kind H"
    and "k = taken (node_kind H) q 0 (mr_values mr)" "0 < k" "list_all2 (isub sn f H) (take k (mr_values mr)) ts" "fits N (concat ts)"
  shows "\<exists>f' p. flush_mr_partial sn rq f mr q = Some (f', mr\<lparr>mr_count := mr_count mr - int k, mr_pointers := mr_pointers mr @ [pointer_item p],
       mr_node_len := mr_node_len mr - int (items_size (take k (mr_values mr))), mr_values := drop k (mr_values mr)\<rparr>, None) \<and>
     served f' \<and> grows f f' \<and> sub sn f' H (pointer_item p) (concat ts)"
proof -
  let ?now = "take k (mr_values mr)" and ?rest = "drop k (mr_values mr)"
  define w0 where "w0 = node_kind H # concat (map item_bytes ?now)"
  define res where "res = mr\<lparr>mr_count := mr_count mr - int k\<rparr>"
  have kl: "k \<le> length (mr_values mr)" using taken_le assms(6) by simp
  then have now: "?now \<noteq> []" "mr_values mr \<noteq> []" using assms(7) by auto
  obtain f1 where m: "file_malloc f = (f1, True)" "quiet f f1" using malloc_served [OF assms(1)] by blast
  obtain st where fl: "fill_node (mr_node_type mr) q ([mr_node_type mr], 0, [], 0) (mr_values mr) = ((w0, st, nl_key (last ?now), k), ?rest)"
    using fill_node_taken [of "node_kind H" q "[node_kind H]" 0 "[]" 0 "mr_values mr"] assms(5-7) by (auto simp: w0_def)
  have "length w0 \<le> N" using items_fit [OF assms(8,9)] by (simp add: w0_def length_item_bytes)
  then have "packs sn w0" using assms(2) by (simp add: packer_def)
  moreover have "served f1" using m(2) by (simp add: quiet_def)
  ultimately obtain f2 n where d: "db_write_buf_compressed sn f1 w0 = (f2, Inr (tf_pos f1, n))" "served f2" "grows f1 f2" "stored sn (valid f2) (tf_pos f1) w0"
    using node_written by blast
  have "mr_values res = ?now @ ?rest" "mr_node_type res = node_kind H" by (simp_all add: res_def assms(5))
  then obtain r where r: "node_reduce rq res k = Some r" "length r \<le> 500" "R r (concat ts)"
    using node_reduce_ok [OF assms(3) _ _ assms(8), of res ?rest] kl by auto
  define p where "p = \<lparr>np_key = nl_key (last ?now), np_pointer = of_nat (tf_pos f1), np_reduce_value = r, np_subtreesize = st + of_nat n\<rparr>"
  obtain f3 where a: "add_pointer f2 res p (length w0) ?rest =
    (f3, res\<lparr>mr_pointers := mr_pointers res @ [pointer_item p], mr_node_len := mr_node_len res - (int (length w0) - 1), mr_values := ?rest\<rparr>, None)" "quiet f2 f3"
    using add_pointer_ok [OF d(2)] by blast
  have g: "grows f f2" by (rule grows_trans [OF quiet_grows [OF m(2)] d(3)])
  have "sub sn f2 H (pointer_item p) (concat ts)"
    unfolding p_def by (rule written_sub [OF _ now(1) d(4) [unfolded w0_def] r(3,2)]) (rule list_all2_mono [OF assms(8)], erule isub_grows [OF _ g])
  then have "sub sn f3 H (pointer_item p) (concat ts)" using quiet_grows [OF a(2)] by (rule sub_grows)
  moreover have "flush_mr_partial sn rq f mr q = Some (f3, res\<lparr>mr_pointers := mr_pointers res @ [pointer_item p],
      mr_node_len := mr_node_len res - (int (length w0) - 1), mr_values := ?rest\<rparr>, None)"
    using assms(4) now(2) m(1) fl d(1) r(1) a(1) by (simp add: flush_mr_partial_def Let_def res_def [symmetric] p_def [symmetric])
  ultimately show ?thesis using grows_trans [OF g quiet_grows [OF a(2)]] a(2)
    by (intro exI [of _ f3] exI [of _ p]) (simp add: res_def w0_def length_item_bytes quiet_def)
qed

lemma flush_some:
  assumes "served f" "packer sn N" "fits N kvs" "holds sn f H mr w kvs" "request rq" "mr_modified mr"
    and "k = taken (node_kind H) q 0 (mr_values mr)" "0 < k" "w + 2 \<le> v + k"
  shows "\<exists>f' mr'. flush_mr_partial sn rq f mr q = Some (f', mr', None) \<and> served f' \<and> grows f f' \<and> holds sn f' H mr' v kvs \<and> mr_modified mr' \<and>
     mr_values mr' = drop k (mr_values mr)"
  using assms(4)
proof (rule holdsE)
  fix us ts
  assume u: "list_all2 (sub sn f H) (mr_pointers mr) us" "list_all2 (isub sn f H) (mr_values mr) ts" "kvs = concat us @ concat ts"
    "0 < H \<longrightarrow> 2 * length us + length ts \<le> w"
    and ty: "mr_node_len mr = int (items_size (mr_values mr))" "mr_count mr = int (length (mr_values mr))" "mr_node_type mr = node_kind H"
  have kl: "k \<le> length (mr_values mr)" "k \<le> length ts" using taken_le [of "node_kind H" q 0 "mr_values mr"] assms(7) list_all2_lengthD [OF u(2)] by simp_all
  have cts: "concat ts = concat (take k ts) @ concat (drop k ts)" by (metis append_take_drop_id concat_append)
  have "fits N (concat (take k ts))" using assms(3) u(3) cts fits_append by metis
  then obtain f' p where f': "flush_mr_partial sn rq f mr q = Some (f', mr\<lparr>mr_count := mr_count mr - int k, mr_pointers := mr_pointers mr @ [pointer_item p],
       mr_node_len := mr_node_len mr - int (items_size (take k (mr_values mr))), mr_values := drop k (mr_values mr)\<rparr>, None)"
     "served f'" "grows f f'" "sub sn f' H (pointer_item p) (concat (take k ts))"
    using node_flushed [OF assms(1,2,5,6) ty(3) assms(7,8) list_all2_takeI [OF u(2)]] by blast
  have old: "list_all2 (sub sn f' H) (mr_pointers mr) us" by (rule list_all2_mono [OF u(1)]) (rule sub_grows [OF _ f'(3)])
  have rest: "list_all2 (isub sn f' H) (drop k (mr_values mr)) (drop k ts)" by (rule list_all2_mono [OF list_all2_dropI [OF u(2)]]) (rule isub_grows [OF _ f'(3)])
  have split: "items_size (mr_values mr) = items_size (take k (mr_values mr)) + items_size (drop k (mr_values mr))" by (metis append_take_drop_id items_size_simps(3))
  have "holds sn f' H (mr\<lparr>mr_count := mr_count mr - int k, mr_pointers := mr_pointers mr @ [pointer_item p],
       mr_node_len := mr_node_len mr - int (items_size (take k (mr_values mr))), mr_values := drop k (mr_values mr)\<rparr>) v kvs"
    by (rule holdsI [of _ _ _ _ "us @ [concat (take k ts)]" "drop k ts"])
       (use old rest f'(4) u(3,4) cts kl ty split assms(6,9) in \<open>auto intro: list_all2_appendI\<close>)
  then show ?thesis using f'(1-3) assms(6) by (intro exI [of _ f'] exI) auto
qed

lemma holds_leaf: "holds sn f 0 mr w kvs \<Longrightarrow> holds sn f 0 mr v kvs"
  by (simp add: holds_def)

lemma holds_weight: "holds sn f H mr w kvs \<Longrightarrow> w \<le> v \<Longrightarrow> holds sn f H mr v kvs"
  by (erule holdsE) (rule holdsI, auto)

lemma size64:
  assumes "packer sn N" "fits N kvs" "holds sn f H mr w kvs"
  shows "items_size (mr_values mr) < 2 ^ 64"
proof -
  obtain us ts where u: "list_all2 (isub sn f H) (mr_values mr) ts" "kvs = concat us @ concat ts" using assms(3) by (rule holdsE)
  have "1 + items_size (mr_values mr) \<le> N" using items_fit [OF u(1)] fits_append assms(2) u(2) by blast
  then show ?thesis using assms(1) by (simp add: packer_def)
qed

lemma flush_mr_ok:
  assumes "served f" "packer sn N" "fits N kvs" "holds sn f H mr w kvs" "request rq"
  shows "\<exists>f' mr'. flush_mr sn rq f mr = Some (f', mr', None) \<and> served f' \<and> grows f f' \<and> holds sn f' H mr' (w + 1) kvs \<and> mr_modified mr' = mr_modified mr \<and>
     (mr_modified mr \<longrightarrow> mr_values mr' = []) \<and> (\<not> mr_modified mr \<longrightarrow> mr' = mr)"
proof (cases "mr_values mr = [] \<or> \<not> mr_modified mr")
  case True
  then show ?thesis using assms(1,4) holds_weight [OF assms(4), of "w + 1"] by (auto simp: flush_mr_def flush_mr_partial_def)
next
  case False
  have "mr_node_len mr = int (items_size (mr_values mr))" using assms(4) by (simp add: holds_def)
  then have t: "length (mr_values mr) = taken (node_kind H) (of_int (mr_node_len mr)) 0 (mr_values mr)" using taken_total size64 [OF assms(2-4)] by simp
  have "\<exists>f' mr'. flush_mr_partial sn rq f mr (of_int (mr_node_len mr)) = Some (f', mr', None) \<and> served f' \<and> grows f f' \<and> holds sn f' H mr' (w + 1) kvs \<and>
      mr_modified mr' \<and> mr_values mr' = drop (length (mr_values mr)) (mr_values mr)"
    by (rule flush_some [OF assms(1-5) _ t]) (use False in \<open>auto simp: Suc_le_eq\<close>)
  then show ?thesis using False by (auto simp: flush_mr_def)
qed

text \<open>While a tree is built for compaction, keys have to leave room for two pointers in a node.\<close>

definition short :: "('a, 'c) modify_request \<Rightarrow> (bytes \<times> bytes) list \<Rightarrow> bool" where
  "short rq kvs \<longleftrightarrow> (compacting rq \<longrightarrow> list_all (\<lambda>kv. length (fst kv) \<le> 333) kvs)"

lemma short_append [simp]: "short rq (a @ b) \<longleftrightarrow> short rq a \<and> short rq b"
  by (auto simp: short_def)

lemma isub_short: "isub sn f (Suc h) i t \<Longrightarrow> list_all (\<lambda>kv. length (fst kv) \<le> 333) t \<Longrightarrow> item_size i \<le> 852"
proof -
  assume "isub sn f (Suc h) i t" "list_all (\<lambda>kv. length (fst kv) \<le> 333) t"
  then obtain p where p: "i = pointer_item p" "t \<noteq> []" "np_key p = fst (last t)" "length (np_reduce_value p) \<le> 500" "\<forall>kv \<in> set t. length (fst kv) \<le> 333"
    by (auto simp: isub_def sub_def list_all_iff)
  then have "length (np_key p) \<le> 333" by simp
  then show ?thesis using p(1,4) by (simp add: item_size_def pointer_item_def encode_pointer_def)
qed

lemma two_items:
  assumes "holds sn f (Suc h) mr w kvs" "list_all (\<lambda>kv. length (fst kv) \<le> 333) kvs" "CHUNK_SIZE < mr_node_len mr"
  shows "2 \<le> length (mr_values mr)"
proof (rule ccontr)
  obtain us ts where u: "list_all2 (isub sn f (Suc h)) (mr_values mr) ts" "kvs = concat us @ concat ts" "mr_node_len mr = int (items_size (mr_values mr))"
    using assms(1) by (rule holdsE)
  assume "\<not> 2 \<le> length (mr_values mr)"
  then consider "mr_values mr = []" | i where "mr_values mr = [i]" by (cases "mr_values mr"; cases "tl (mr_values mr)") auto
  then show False
  proof cases
    case 2
    then obtain t where "ts = [t]" "isub sn f (Suc h) i t" using u(1) by (cases ts) auto
    then show False using isub_short assms(2,3) u(2,3) 2 by (fastforce simp: CHUNK_SIZE_def CHUNK_THRESHOLD_def)
  qed (use assms(3) u(3) in \<open>simp add: CHUNK_SIZE_def CHUNK_THRESHOLD_def\<close>)
qed

lemma maybe_flush_ok:
  assumes "served f" "packer sn N" "fits N kvs" "holds sn f H mr w kvs" "request rq" "short rq kvs"
  shows "\<exists>f' mr'. maybe_flush sn rq f mr = Some (f', mr', None) \<and> served f' \<and> grows f f' \<and> holds sn f' H mr' w kvs \<and> mr_modified mr' = mr_modified mr"
proof -
  have c: "mr_count mr = int (length (mr_values mr))" "mr_node_type mr = node_kind H" using assms(4) by (simp_all add: holds_def)
  have flush: "\<exists>f' mr'. flush_mr_partial sn rq f mr q = Some (f', mr', None) \<and> served f' \<and> grows f f' \<and> holds sn f' H mr' w kvs \<and> mr_modified mr' = mr_modified mr"
    if q: "0 < q" "mr_modified mr" "mr_values mr \<noteq> []" "0 < H \<longrightarrow> 2 \<le> length (mr_values mr)" for q
  proof -
    have k: "0 < taken (node_kind H) q 0 (mr_values mr)" "0 < H \<longrightarrow> 2 \<le> taken (node_kind H) q 0 (mr_values mr)"
      using taken_some [OF q(1,3)] taken_two q(4) by (auto simp: node_kind_def)
    then have "w + 2 \<le> (if H = 0 then w + 2 else w) + taken (node_kind H) q 0 (mr_values mr)" by auto
    from flush_some [OF assms(1-5) q(2) refl k(1) this]
    obtain f' mr' where "flush_mr_partial sn rq f mr q = Some (f', mr', None)" "served f'" "grows f f'" "holds sn f' H mr' (if H = 0 then w + 2 else w) kvs" "mr_modified mr'"
      by blast
    then show ?thesis using q(2) holds_leaf by (cases H) auto
  qed
  consider "compacting rq" "mr_modified mr" "CHUNK_SIZE < mr_node_len mr" | "\<not> compacting rq" "mr_modified mr" "CHUNK_THRESHOLD < mr_node_len mr" "3 < mr_count mr"
    | "maybe_flush sn rq f mr = Some (f, mr, None)" unfolding maybe_flush_def by argo
  then show ?thesis
  proof cases
    case 1
    have "mr_node_len mr = int (items_size (mr_values mr))" using assms(4) by (simp add: holds_def)
    then have n: "mr_values mr \<noteq> []" "mr_node_len mr = int (items_size (mr_values mr))" "0 < items_size (mr_values mr)"
      using 1(3) by (auto simp: CHUNK_SIZE_def CHUNK_THRESHOLD_def)
    have "0 < H \<longrightarrow> 2 \<le> length (mr_values mr)" using two_items assms(4,6) 1 by (cases H) (auto simp: short_def)
    moreover have "(of_nat (items_size (mr_values mr)) :: u64) \<noteq> 0"
      using n(3) size64 [OF assms(2-4)] by (simp add: word_of_nat_eq_0_iff) (metis nat_dvd_not_less)
    then have "0 < (of_int (mr_node_len mr) :: u64)" using n(2) by (simp add: word_neq_0_conv)
    ultimately show ?thesis using flush [OF _ 1(2) n(1)] 1 by (simp add: maybe_flush_def flush_mr_def)
  next
    case 2
    have "0 < (of_int CHUNK_SIZE :: u64)" by (simp add: CHUNK_SIZE_def CHUNK_THRESHOLD_def)
    moreover have "2 \<le> length (mr_values mr)" using 2(4) c(1) by linarith
    ultimately show ?thesis using flush [of "of_int CHUNK_SIZE"] 2 by (force simp: maybe_flush_def)
  qed (use assms(1,4) in auto)
qed

lemma push_ok:
  assumes "served f" "packer sn N" "fits N (kvs @ t)" "holds sn f H mr w kvs" "request rq" "short rq (kvs @ t)" "isub sn f H i t"
  shows "\<exists>f' mr'. maybe_flush sn rq f (push_value i mr) = Some (f', mr', None) \<and> served f' \<and> grows f f' \<and> holds sn f' H mr' (w + 1) (kvs @ t) \<and>
     mr_modified mr' = mr_modified mr"
proof -
  have "holds sn f H (push_value i mr) (w + 1) (kvs @ t)" using assms(4)
  proof (rule holdsE)
    fix us ts
    assume "list_all2 (sub sn f H) (mr_pointers mr) us" "list_all2 (isub sn f H) (mr_values mr) ts" "kvs = concat us @ concat ts"
      "0 < H \<longrightarrow> 2 * length us + length ts \<le> w" "mr_node_len mr = int (items_size (mr_values mr))" "mr_count mr = int (length (mr_values mr))"
      "mr_node_type mr = node_kind H" "\<not> mr_modified mr \<longrightarrow> mr_pointers mr = []"
    then show ?thesis using assms(7) by (intro holdsI [of _ _ _ _ us "ts @ [t]"]) (auto simp: push_value_def intro: list_all2_appendI)
  qed
  then show ?thesis using maybe_flush_ok [OF assms(1-3) _ assms(5,6)] by (fastforce simp: push_value_def)
qed

lemma move_ok:
  "list_all2 (sub sn f h) ps us \<Longrightarrow> served f \<Longrightarrow> packer sn N \<Longrightarrow> fits N (kvs @ concat us) \<Longrightarrow> holds sn f (Suc h) dst w kvs \<Longrightarrow> request rq \<Longrightarrow>
     short rq (kvs @ concat us) \<Longrightarrow>
   \<exists>f' dst'. move_pointers_loop sn rq f ps dst = Some (f', [], dst', None) \<and> served f' \<and> grows f f' \<and> holds sn f' (Suc h) dst' (w + length ps) (kvs @ concat us) \<and>
     mr_modified dst' = mr_modified dst"
proof (induction ps arbitrary: us f dst w kvs)
  case (Cons p ps)
  obtain t vs where us: "us = t # vs" "sub sn f h p t" "list_all2 (sub sn f h) ps vs" using Cons.prems(1) by (cases us) auto
  have k: "fits N (kvs @ t)" "short rq (kvs @ t)" using Cons.prems(4,7) fits_append [of N "kvs @ t" "concat vs"] by (simp_all add: us)
  obtain f1 dst1 where 1: "maybe_flush sn rq f (push_value p dst) = Some (f1, dst1, None)" "served f1" "grows f f1" "holds sn f1 (Suc h) dst1 (w + 1) (kvs @ t)"
    "mr_modified dst1 = mr_modified dst"
    using push_ok [OF Cons.prems(2,3) k(1) Cons.prems(5,6) k(2), of p] us(2) by (auto simp: isub_def)
  have vs: "list_all2 (sub sn f1 h) ps vs" by (rule list_all2_mono [OF us(3)]) (rule sub_grows [OF _ 1(3)])
  obtain f2 dst2 where 2: "move_pointers_loop sn rq f1 ps dst1 = Some (f2, [], dst2, None)" "served f2" "grows f1 f2"
    "holds sn f2 (Suc h) dst2 (w + 1 + length ps) ((kvs @ t) @ concat vs)" "mr_modified dst2 = mr_modified dst1"
    using Cons.IH [OF vs 1(2) Cons.prems(3) _ 1(4) Cons.prems(6)] Cons.prems(4,7) by (auto simp: us)
  show ?case using 1 2 grows_trans [OF 1(3) 2(3)] by (simp add: us)
qed auto

end

end
