(* ===== verification/CouchApply.thy ===== *)
theory CouchApply
  imports CouchUpdate
begin

text \<open>
  The correctness of \<open>modify_btree\<close>: leaves, inner nodes and the new root, from the writing of single nodes in \<open>CouchUpdate\<close> to the
  tree as a whole.
\<close>

text \<open>How compaction fills a new tree: pairs are pushed until one fails.\<close>

fun push_all :: "snappy \<Rightarrow> ('a, 'c) modify_request \<Rightarrow> tree_file \<Rightarrow> modify_result \<Rightarrow> (bytes \<times> bytes) list \<Rightarrow> mr_result" where
  "push_all sn rq f mr [] = Some (f, mr, None)"
| "push_all sn rq f mr ((k, v) # kvs) = do {
     (f, mr, e) \<leftarrow> mr_push_item sn rq f k v mr;
     if e \<noteq> None then Some (f, mr, e) else push_all sn rq f mr kvs
   }"

context tree_kind
begin

definition acts_fit :: "'a modify_action list \<Rightarrow> bool" where
  "acts_fit acts \<longleftrightarrow> (\<forall>a \<in> set acts. act_type a = ACTION_INSERT \<longrightarrow> kv_ok (act_key a, act_data a))"

lemma acts_fit_simps [simp]: "acts_fit []" "acts_fit (a # as) \<longleftrightarrow> (act_type a = ACTION_INSERT \<longrightarrow> kv_ok (act_key a, act_data a)) \<and> acts_fit as"
  "acts_fit (as @ bs) \<longleftrightarrow> acts_fit as \<and> acts_fit bs"
  by (auto simp: acts_fit_def)

text \<open>A request that changes a tree of this kind, with a compression library that can take its nodes.\<close>

definition changing :: "snappy \<Rightarrow> nat \<Rightarrow> ('a, 'c) modify_request \<Rightarrow> bool" where
  "changing sn N rq \<longleftrightarrow> packer sn N \<and> request rq \<and> \<not> compacting rq"

lemma changing_short: "changing sn N rq \<Longrightarrow> short rq kvs"
  by (simp add: changing_def short_def)

section \<open>Leaves\<close>

lemma arena_served: "served f \<Longrightarrow> \<exists>f'. arena_alloc f = (f', True) \<and> quiet f f'"
  unfolding arena_alloc_def by (rule malloc_served)

lemma push_item_ok:
  assumes "served f" "packer sn N" "request rq" "short rq (kvs @ [(k, v)])" "fits N (kvs @ [(k, v)])" "holds sn f 0 mr w kvs" "kv_ok (k, v)"
  shows "\<exists>f' mr'. mr_push_item sn rq f k v mr = Some (f', mr', None) \<and> served f' \<and> grows f f' \<and> holds sn f' 0 mr' w (kvs @ [(k, v)]) \<and> mr_modified mr' = mr_modified mr"
proof -
  obtain f1 where a: "arena_alloc f = (f1, True)" "quiet f f1" using arena_served [OF assms(1)] by blast
  have g: "grows f f1" using a(2) by (rule quiet_grows)
  have "served f1" using a(2) by (simp add: quiet_def)
  moreover have "isub sn f1 0 (leaf_item (k, v)) [(k, v)]" using assms(7) by (simp add: isub_def)
  ultimately obtain f' mr' where p: "maybe_flush sn rq f1 (push_value (leaf_item (k, v)) mr) = Some (f', mr', None)" "served f'" "grows f1 f'"
    "holds sn f' 0 mr' (w + 1) (kvs @ [(k, v)])" "mr_modified mr' = mr_modified mr"
    using push_ok [OF _ assms(2,5) holds_grows [OF assms(6) g] assms(3,4)] by blast
  show ?thesis using a(1) p(1,2,5) grows_trans [OF g p(3)] holds_leaf [OF p(4)] by (simp add: mr_push_item_def leaf_item_def)
qed

text \<open>
  The state in the middle of a node of height \<open>H\<close>.  In the end the node will have the pairs \<open>K\<close>, the callback will have seen \<open>F\<close> and the
  node will be modified if \<open>T\<close>; the pairs \<open>K'\<close> and the fetches \<open>F'\<close> are still to come, and \<open>T'\<close> tells whether changes are.
\<close>

definition course where
  "course sn rq H f0 c0 K F T s K' F' T' \<longleftrightarrow> (case s of (f, c, mr) \<Rightarrow> served f \<and> grows f0 f \<and>
     (\<exists>w kv1 fs. holds sn f H mr w kv1 \<and> K = kv1 @ K' \<and> F = fs @ F' \<and> c = run_fetches rq c0 fs) \<and> (mr_modified mr \<or> T') = T)"

lemma courseE:
  assumes "course sn rq H f0 c0 K F T (f, c, mr) K' F' T'"
  obtains w kv1 fs where "served f" "grows f0 f" "holds sn f H mr w kv1" "K = kv1 @ K'" "F = fs @ F'" "c = run_fetches rq c0 fs" "(mr_modified mr \<or> T') = T"
  using assms unfolding course_def by auto

lemma courseI:
  assumes "served f" "grows f0 f" "holds sn f H mr w kv1" "K = kv1 @ K'" "F = fs @ F'" "c = run_fetches rq c0 fs" "(mr_modified mr \<or> T') = T"
  shows "course sn rq H f0 c0 K F T (f, c, mr) K' F' T'"
  using assms unfolding course_def by auto

lemma kv_push_ok:
  assumes "changing sn N rq" "fits N K" "kv_ok (k, v)" "course sn rq 0 f0 c0 K F T s ((k, v) # K') F' T'"
  shows "\<exists>s'. kv_push sn rq s k v = Some s' \<and> course sn rq 0 f0 c0 K F T s' K' F' T'"
proof -
  obtain f c mr where s: "s = (f, c, mr)" by (metis surj_pair)
  obtain w kv1 fs where c: "served f" "grows f0 f" "holds sn f 0 mr w kv1" "K = kv1 @ (k, v) # K'" "F = fs @ F'" "c = run_fetches rq c0 fs" "(mr_modified mr \<or> T') = T"
    using assms(4) [unfolded s] by (rule courseE)
  have ft: "fits N (kv1 @ [(k, v)])" using assms(2) c(4) fits_append [of N "kv1 @ [(k, v)]" K'] by simp
  obtain f' mr' where p: "mr_push_item sn rq f k v mr = Some (f', mr', None)" "served f'" "grows f f'" "holds sn f' 0 mr' w (kv1 @ [(k, v)])" "mr_modified mr' = mr_modified mr"
    using push_item_ok [OF c(1) _ _ changing_short [OF assms(1)] ft c(3) assms(3)] assms(1) unfolding changing_def by blast
  have "course sn rq 0 f0 c0 K F T (f', c, mr') K' F' T'"
    by (rule courseI [OF p(2) grows_trans [OF c(2) p(3)] p(4) _ c(5,6)]) (use c(4,7) p(5) in auto)
  then show ?thesis using p(1) by (simp add: kv_push_def s)
qed

lemma holds_modified: "holds sn f H mr w kvs \<Longrightarrow> holds sn f H (mr\<lparr>mr_modified := True\<rparr>) w kvs"
  by (simp add: holds_def)

lemma course_modified:
  assumes "course sn rq H f0 c0 K F T s K' F' True"
  shows "course sn rq H f0 c0 K F T (kv_modified s) K' F' T'"
proof -
  obtain f c mr where s: "s = (f, c, mr)" by (metis surj_pair)
  show ?thesis using assms [unfolded s] unfolding s kv_modified_def prod.case
  proof (rule courseE)
    fix w kv1 fs
    assume "served f" "grows f0 f" "holds sn f H mr w kv1" "K = kv1 @ K'" "F = fs @ F'" "c = run_fetches rq c0 fs" "(mr_modified mr \<or> True) = T"
    then show "course sn rq H f0 c0 K F T (f, c, mr\<lparr>mr_modified := True\<rparr>) K' F' T'" by (intro courseI [OF _ _ holds_modified]) auto
  qed
qed

lemma course_fetched:
  assumes "course sn rq H f0 c0 K F T s K' ((a, v) # F') T'"
  shows "course sn rq H f0 c0 K F T (kv_fetched rq s a v) K' F' T'"
proof -
  obtain f c mr where s: "s = (f, c, mr)" by (metis surj_pair)
  show ?thesis using assms [unfolded s] unfolding s kv_fetched_def prod.case
  proof (rule courseE)
    fix w kv1 fs
    assume "served f" "grows f0 f" "holds sn f H mr w kv1" "K = kv1 @ K'" "F = fs @ (a, v) # F'" "c = run_fetches rq c0 fs" "(mr_modified mr \<or> T') = T"
    then show "course sn rq H f0 c0 K F T (f, case mq_fetch rq of None \<Rightarrow> c | Some callback \<Rightarrow> callback c (act_key a) v (act_arg a), mr) K' F' T'"
      by (intro courseI [where fs = "fs @ [(a, v)]"]) auto
  qed
qed

lemma kv_miss_ok:
  assumes "changing sn N rq" "fits N K" "act_type a = ACTION_INSERT \<longrightarrow> kv_ok (act_key a, act_data a)"
    and "course sn rq 0 f0 c0 K F T s (inserted a @ K') (missed a @ F') (act_type a \<noteq> ACTION_FETCH \<or> T')"
  shows "\<exists>s'. kv_miss sn rq s a = Some s' \<and> course sn rq 0 f0 c0 K F T s' K' F' T'"
proof (cases "act_type a")
  case ACTION_INSERT
  then have "course sn rq 0 f0 c0 K F T (kv_modified s) ((act_key a, act_data a) # K') F' T'"
    using assms(4) by (intro course_modified) (simp add: inserted_def missed_def)
  then show ?thesis using kv_push_ok [OF assms(1,2)] assms(3) ACTION_INSERT by (auto simp: kv_miss_def)
next
  case ACTION_REMOVE
  then have "course sn rq 0 f0 c0 K F T s K' F' True" using assms(4) by (simp add: inserted_def missed_def)
  from course_modified [OF this] show ?thesis using ACTION_REMOVE by (simp add: kv_miss_def)
next
  case ACTION_FETCH
  then have "course sn rq 0 f0 c0 K F T s K' ((a, None) # F') T'" using assms(4) by (simp add: inserted_def missed_def)
  from course_fetched [OF this] show ?thesis using ACTION_FETCH by (simp add: kv_miss_def)
qed

lemma ex_pushed:
  assumes "\<exists>s'. kv_push sn rq s k v = Some s' \<and> P s'" "g = do { s \<leftarrow> kv_push sn rq s k v; Some (s, as, True) }" "Q as" "\<And>s. P s \<Longrightarrow> Z s as True"
  shows "\<exists>s' as' adv. g = Some (s', as', adv) \<and> Q as' \<and> Z s' as' adv"
proof -
  obtain s' where "kv_push sn rq s k v = Some s'" "P s'" using assms(1) by blast
  then show ?thesis using assms(2-4) by (intro exI [of _ s'] exI [of _ as] exI [of _ True]) simp
qed

lemma kv_key_ok:
  assumes "changing sn N rq" "fits N K" "kv_ok (k, v)"
  shows "course sn rq 0 f0 c0 K F T s (upd compare ((k, v) # kvs) acts) (fetches compare ((k, v) # kvs) acts) (touches acts) \<Longrightarrow> acts_fit acts \<Longrightarrow>
   \<exists>s' acts' adv. kv_key sn rq k v s acts = Some (s', acts', adv) \<and> acts_fit acts' \<and>
     course sn rq 0 f0 c0 K F T s' ((if acts' = [] \<and> \<not> adv then [(k, v)] else []) @ upd compare kvs acts') (fetches compare kvs acts') (touches acts')"
proof (induction acts arbitrary: s)
  case (Cons a as)
  have cmp: "mq_compare rq = compare" using assms(1) by (simp add: changing_def request_def)
  consider (less) "compare k (act_key a) < 0" | (greater) "0 < compare k (act_key a)" | (fetch) "compare k (act_key a) = 0" "act_type a = ACTION_FETCH"
    | (change) "compare k (act_key a) = 0" "act_type a \<noteq> ACTION_FETCH" by linarith
  then show ?case
  proof cases
    case less
    then have "course sn rq 0 f0 c0 K F T s ((k, v) # upd compare kvs (a # as)) (fetches compare kvs (a # as)) (touches (a # as))" using Cons.prems(1) by simp
    from kv_push_ok [OF assms this] show ?thesis using less Cons.prems(2) by (intro ex_pushed [where as = "a # as"]) (simp_all add: cmp)
  next
    case greater
    then have "course sn rq 0 f0 c0 K F T s (inserted a @ upd compare ((k, v) # kvs) as) (missed a @ fetches compare ((k, v) # kvs) as)
      (act_type a \<noteq> ACTION_FETCH \<or> touches as)" using Cons.prems(1) by simp
    moreover have "act_type a = ACTION_INSERT \<longrightarrow> kv_ok (act_key a, act_data a)" using Cons.prems(2) by simp
    ultimately obtain s1 where "kv_miss sn rq s a = Some s1"
      "course sn rq 0 f0 c0 K F T s1 (upd compare ((k, v) # kvs) as) (fetches compare ((k, v) # kvs) as) (touches as)"
      using kv_miss_ok [OF assms(1,2)] by blast
    then show ?thesis using Cons.IH [of s1] Cons.prems(2) greater by (simp add: cmp)
  next
    case fetch
    then have "course sn rq 0 f0 c0 K F T s (upd compare ((k, v) # kvs) as) ((a, Some v) # fetches compare ((k, v) # kvs) as) (touches as)" using Cons.prems(1) by simp
    from course_fetched [OF this] show ?thesis using Cons.IH [of "kv_fetched rq s a (Some v)"] Cons.prems(2) fetch by (simp add: cmp)
  next
    case change
    then have "course sn rq 0 f0 c0 K F T s (inserted a @ upd compare kvs as) (fetches compare kvs as) True" using Cons.prems(1) by simp
    then have c: "course sn rq 0 f0 c0 K F T (kv_modified s) (inserted a @ upd compare kvs as) (fetches compare kvs as) (touches as)" by (rule course_modified)
    show ?thesis
    proof (cases "act_type a = ACTION_INSERT")
      case True
      then have "course sn rq 0 f0 c0 K F T (kv_modified s) ((act_key a, act_data a) # upd compare kvs as) (fetches compare kvs as) (touches as)" using c by (simp add: inserted_def)
      from kv_push_ok [OF assms(1,2) _ this] show ?thesis using True change Cons.prems(2) by (intro ex_pushed [where as = as]) (simp_all add: cmp)
    next
      case False
      then have "act_type a = ACTION_REMOVE" using change(2) by (cases "act_type a") auto
      then show ?thesis using c change Cons.prems(2) by (intro exI [of _ "kv_modified s"] exI [of _ as] exI [of _ True]) (simp add: cmp inserted_def)
    qed
  qed
next
  case Nil
  then show ?case by (intro exI [of _ s] exI [of _ "[]"] exI [of _ False]) simp
qed

lemma kv_modify_ok:
  assumes "changing sn N rq" "fits N K"
  shows "list_all kv_ok kvs \<Longrightarrow> course sn rq 0 f0 c0 K F T s (upd compare kvs acts) (fetches compare kvs acts) (touches acts) \<Longrightarrow> acts_fit acts \<Longrightarrow>
   \<exists>s' acts'. kv_modify sn rq (pre @ kv_bytes kvs) (length pre) s acts = Some (s', acts') \<and> acts_fit acts' \<and>
     course sn rq 0 f0 c0 K F T s' (upd compare [] acts') (fetches compare [] acts') (touches acts')"
proof (induction kvs arbitrary: pre s acts)
  case Nil
  then show ?case by (subst kv_modify.simps) simp
next
  case (Cons kv kvs)
  obtain k v where kv: "kv = (k, v)" by fastforce
  then have ok: "kv_ok (k, v)" using Cons.prems(1) by simp
  have r: "read_kv (write_kv k v @ kv_bytes kvs) = Some (k, v, length (write_kv k v))"
    using ok by (intro read_write_kv) (simp_all add: kv_ok_def kv_fits_def)
  have w: "write_kv k v \<noteq> []" using kv_bytes_Nil [of "[(k, v)]"] by simp
  obtain s1 acts1 adv where 1: "kv_key sn rq k v s acts = Some (s1, acts1, adv)" "acts_fit acts1"
    "course sn rq 0 f0 c0 K F T s1 ((if acts1 = [] \<and> \<not> adv then [(k, v)] else []) @ upd compare kvs acts1) (fetches compare kvs acts1) (touches acts1)"
    using kv_key_ok [OF assms ok Cons.prems(2) [unfolded kv] Cons.prems(3)] by blast
  obtain s2 where 2: "(if acts1 = [] \<and> \<not> adv then kv_push sn rq s1 k v else Some s1) = Some s2"
    "course sn rq 0 f0 c0 K F T s2 (upd compare kvs acts1) (fetches compare kvs acts1) (touches acts1)"
  proof (cases "acts1 = [] \<and> \<not> adv")
    case True
    then have "course sn rq 0 f0 c0 K F T s1 ((k, v) # upd compare kvs acts1) (fetches compare kvs acts1) (touches acts1)" using 1(3) by simp
    from kv_push_ok [OF assms ok this] show ?thesis using that True by simp blast
  qed (use that 1(3) in \<open>simp add: if_not_P\<close>)
  have "list_all kv_ok kvs" using Cons.prems(1) by simp
  from Cons.IH [OF this 2(2) 1(2), of "pre @ write_kv k v"] show ?case
    by (subst kv_modify.simps) (use r w 1(1) 2(1) in \<open>simp add: kv\<close>)
qed

lemma kv_rest_ok:
  assumes "changing sn N rq" "fits N K"
  shows "course sn rq 0 f0 c0 K F T s (upd compare [] acts) (fetches compare [] acts) (touches acts) \<Longrightarrow> acts_fit acts \<Longrightarrow>
   \<exists>s'. kv_rest sn rq s acts = Some s' \<and> course sn rq 0 f0 c0 K F T s' [] [] False"
proof (induction acts arbitrary: s)
  case (Cons a as)
  then have "course sn rq 0 f0 c0 K F T s (inserted a @ upd compare [] as) (missed a @ fetches compare [] as) (act_type a \<noteq> ACTION_FETCH \<or> touches as)" by simp
  moreover have "act_type a = ACTION_INSERT \<longrightarrow> kv_ok (act_key a, act_data a)" using Cons.prems(2) by simp
  ultimately obtain s1 where
    "kv_miss sn rq s a = Some s1" "course sn rq 0 f0 c0 K F T s1 (upd compare [] as) (fetches compare [] as) (touches as)"
    using kv_miss_ok [OF assms] by blast
  then show ?case using Cons.IH [of s1] Cons.prems(2) by simp
qed simp

lemma kv_node_ok:
  assumes "changing sn N rq" "fits N (upd compare kvs acts)" "list_all kv_ok kvs" "acts_fit acts" "length pre = 1"
    and "course sn rq 0 f0 c0 (upd compare kvs acts) (fetches compare kvs acts) (touches acts) s (upd compare kvs acts) (fetches compare kvs acts) (touches acts)"
  shows "\<exists>s'. kv_node sn rq (pre @ kv_bytes kvs) s acts = Some (s', None) \<and>
     course sn rq 0 f0 c0 (upd compare kvs acts) (fetches compare kvs acts) (touches acts) s' [] [] False"
proof -
  let ?K = "upd compare kvs acts" and ?F = "fetches compare kvs acts"
  obtain s1 acts1 where 1: "kv_modify sn rq (pre @ kv_bytes kvs) 1 s acts = Some (s1, acts1)" "acts_fit acts1"
    "course sn rq 0 f0 c0 ?K ?F (touches acts) s1 (upd compare [] acts1) (fetches compare [] acts1) (touches acts1)"
    using kv_modify_ok [OF assms(1-3,6,4), of pre] unfolding assms(5) by blast
  obtain s2 where "kv_rest sn rq s1 acts1 = Some s2" "course sn rq 0 f0 c0 ?K ?F (touches acts) s2 [] [] False"
    using kv_rest_ok [OF assms(1,2) 1(3,2)] by blast
  then show ?thesis using 1(1) by (simp add: kv_node_def)
qed

section \<open>Inner nodes\<close>

lemma subtree_sub:
  assumes "subtree R (\<lambda>q t. node_at sn R (valid f) h (unat q) t) n t" "list_all kv_ok t"
  shows "sub sn f h (pointer_item n) t"
  using assms unfolding subtree_def sub_def ptr_ok_def by blast

lemma arena_pointer_ok:
  assumes "served f" "ptr_ok n"
  shows "\<exists>f'. arena_pointer f (np_key n) (encode_pointer n) = Some (f', Some n) \<and> quiet f f'"
proof -
  obtain f1 where "arena_alloc f = (f1, True)" "quiet f f1" using arena_served [OF assms(1)] by blast
  then show ?thesis using read_encode_pointer [OF assms(2), of "[]"] by (simp add: arena_pointer_def)
qed

lemma push_pointer_ok:
  assumes "served f" "packer sn N" "request rq" "short rq (kvs @ t)" "fits N (kvs @ t)" "holds sn f (Suc h) dst w kvs" "sub sn f h (pointer_item n) t"
  shows "\<exists>f' dst'. mr_push_pointerinfo sn rq f n dst = Some (f', dst', None) \<and> served f' \<and> grows f f' \<and> holds sn f' (Suc h) dst' (w + 1) (kvs @ t) \<and>
     mr_modified dst' = mr_modified dst"
proof -
  obtain f1 where a: "arena_alloc f = (f1, True)" "quiet f f1" using arena_served [OF assms(1)] by blast
  have g: "grows f f1" using a(2) by (rule quiet_grows)
  have "served f1" using a(2) by (simp add: quiet_def)
  moreover have "isub sn f1 (Suc h) (pointer_item n) t" using sub_grows [OF assms(7) g] by (simp add: isub_def)
  ultimately obtain f' dst' where p: "maybe_flush sn rq f1 (push_value (pointer_item n) dst) = Some (f', dst', None)" "served f'" "grows f1 f'"
    "holds sn f' (Suc h) dst' (w + 1) (kvs @ t)" "mr_modified dst' = mr_modified dst"
    using push_ok [OF _ assms(2,5) holds_grows [OF assms(6) g] assms(3,4)] by blast
  show ?thesis using a(1) p(1,2,4,5) grows_trans [OF g p(3)] by (simp add: mr_push_pointerinfo_def)
qed

lemma kp_keep_ok:
  assumes "changing sn N rq" "fits N K" "ptr_ok n" "sub sn f0 h (pointer_item n) t" "course sn rq (Suc h) f0 c0 K F T s (t @ K') F' T'"
  shows "\<exists>s'. kp_keep sn rq s (np_key n) (encode_pointer n) = Some (s', None) \<and> course sn rq (Suc h) f0 c0 K F T s' K' F' T'"
proof -
  obtain f c mr where s: "s = (f, c, mr)" by (metis surj_pair)
  obtain w kv1 fs where c: "served f" "grows f0 f" "holds sn f (Suc h) mr w kv1" "K = kv1 @ t @ K'" "F = fs @ F'" "c = run_fetches rq c0 fs" "(mr_modified mr \<or> T') = T"
    using assms(5) [unfolded s] by (rule courseE)
  obtain f1 where a: "arena_pointer f (np_key n) (encode_pointer n) = Some (f1, Some n)" "quiet f f1" using arena_pointer_ok [OF c(1) assms(3)] by blast
  have g: "grows f f1" "grows f0 f1" using quiet_grows [OF a(2)] grows_trans [OF c(2)] by blast+
  have "served f1" using a(2) by (simp add: quiet_def)
  moreover have "fits N (kv1 @ t)" using assms(2) c(4) fits_append [of N "kv1 @ t" K'] by simp
  ultimately obtain f' mr' where p: "mr_push_pointerinfo sn rq f1 n mr = Some (f', mr', None)" "served f'" "grows f1 f'" "holds sn f' (Suc h) mr' (w + 1) (kv1 @ t)"
    "mr_modified mr' = mr_modified mr"
    using push_pointer_ok [OF _ _ _ changing_short [OF assms(1)] _ holds_grows [OF c(3) g(1)] sub_grows [OF assms(4) g(2)]] assms(1) unfolding changing_def by blast
  have "course sn rq (Suc h) f0 c0 K F T (f', c, mr') K' F' T'"
    by (rule courseI [OF p(2) grows_trans [OF g(2) p(3)] p(4) _ c(5,6)]) (use c(4,7) p(5) in auto)
  then show ?thesis using a(1) p(1) by (simp add: kp_keep_def s)
qed

text \<open>What a change of the subtree under the pointer \<open>n\<close> has to do.\<close>

definition applies where
  "applies sn N rq inner f0 h n t \<longleftrightarrow> (\<forall>f c acts dst w kvs. served f \<longrightarrow> grows f0 f \<longrightarrow> acts \<noteq> [] \<longrightarrow> in_order compare acts \<longrightarrow> acts_fit acts \<longrightarrow>
     holds sn f (Suc h) dst w kvs \<longrightarrow> fits N (kvs @ upd compare t acts) \<longrightarrow>
     (\<exists>f' dst' w'. inner f c (Some n) acts dst = Some ((f', run_fetches rq c (fetches compare t acts), dst'), None) \<and> served f' \<and> grows f f' \<and>
        holds sn f' (Suc h) dst' w' (kvs @ upd compare t acts) \<and> mr_modified dst' = (mr_modified dst \<or> touches acts)))"

lemma appliesD:
  assumes "applies sn N rq inner f0 h n t" "served f" "grows f0 f" "acts \<noteq> []" "in_order compare acts" "acts_fit acts" "holds sn f (Suc h) dst w kvs"
    "fits N (kvs @ upd compare t acts)"
  obtains f' dst' w' where "inner f c (Some n) acts dst = Some ((f', run_fetches rq c (fetches compare t acts), dst'), None)" "served f'" "grows f f'"
    "holds sn f' (Suc h) dst' w' (kvs @ upd compare t acts)" "mr_modified dst' = (mr_modified dst \<or> touches acts)"
  using assms unfolding applies_def by blast

lemma kp_descend_ok:
  assumes "fits N K" "ptr_ok n" "applies sn N rq inner f0 h n t" "acts \<noteq> []" "in_order compare acts" "acts_fit acts"
    and "course sn rq (Suc h) f0 c0 K F T s (upd compare t acts @ K') (fetches compare t acts @ F') (touches acts \<or> T')"
  shows "\<exists>s'. kp_descend inner s (np_key n) (encode_pointer n) acts = Some (s', None) \<and> course sn rq (Suc h) f0 c0 K F T s' K' F' T'"
proof -
  obtain f c mr where s: "s = (f, c, mr)" by (metis surj_pair)
  obtain w kv1 fs where c: "served f" "grows f0 f" "holds sn f (Suc h) mr w kv1" "K = kv1 @ upd compare t acts @ K'" "F = fs @ fetches compare t acts @ F'"
    "c = run_fetches rq c0 fs" "(mr_modified mr \<or> touches acts \<or> T') = T"
    using assms(7) [unfolded s] by (rule courseE)
  obtain f1 where a: "arena_pointer f (np_key n) (encode_pointer n) = Some (f1, Some n)" "quiet f f1" using arena_pointer_ok [OF c(1) assms(2)] by blast
  have g: "grows f f1" "grows f0 f1" using quiet_grows [OF a(2)] grows_trans [OF c(2)] by blast+
  have s1: "served f1" using a(2) by (simp add: quiet_def)
  have "fits N (kv1 @ upd compare t acts)" using assms(1) c(4) fits_append [of N "kv1 @ upd compare t acts" K'] by simp
  then obtain f' mr' w' where p: "inner f1 c (Some n) acts mr = Some ((f', run_fetches rq c (fetches compare t acts), mr'), None)" "served f'" "grows f1 f'"
    "holds sn f' (Suc h) mr' w' (kv1 @ upd compare t acts)" "mr_modified mr' = (mr_modified mr \<or> touches acts)"
    by (rule appliesD [OF assms(3) s1 g(2) assms(4-6) holds_grows [OF c(3) g(1)]])
  have "course sn rq (Suc h) f0 c0 K F T (f', run_fetches rq c (fetches compare t acts), mr') K' F' T'"
    by (rule courseI [OF p(2) grows_trans [OF g(2) p(3)] p(4), where fs = "fs @ fetches compare t acts"]) (use c(4-7) p(5) in auto)
  then show ?thesis using a(1) p(1) by (simp add: kp_descend_def s)
qed

text \<open>A pointer of an inner node together with what lies under it.\<close>

definition child where
  "child sn f0 h n t \<longleftrightarrow> subtree R (\<lambda>q t. node_at sn R (valid f0) h (unat q) t) n t \<and> list_all kv_ok t"

lemma childD:
  assumes "child sn f0 h n t"
  shows "ptr_ok n" "kv_fits (ptr_kv n)" "sub sn f0 h (pointer_item n) t" "t \<noteq> []" "np_key n = fst (last t)" "node_at sn R (valid f0) h (unat (np_pointer n)) t" "list_all kv_ok t"
  using assms subtree_sub [of sn f0 h n t] by (auto simp: child_def subtree_def)

lemma read_child:
  assumes "child sn f0 h n t"
  shows "read_kv (write_kv (np_key n) (encode_pointer n) @ r) = Some (np_key n, encode_pointer n, length (write_kv (np_key n) (encode_pointer n)))"
  using childD(2) [OF assms] by (intro read_write_kv) (simp_all add: kv_fits_def ptr_kv_def)

lemma kv_bytes_ptr [simp]: "kv_bytes (ptr_kv n # kvs) = write_kv (np_key n) (encode_pointer n) @ kv_bytes kvs"
  by (simp add: ptr_kv_def)

lemma write_kv_neq: "write_kv k v \<noteq> []"
  using kv_bytes_Nil [of "[(k, v)]"] by simp

lemma kp_rest_ok:
  assumes "changing sn N rq" "fits N K"
  shows "list_all2 (child sn f0 h) ns ts \<Longrightarrow> course sn rq (Suc h) f0 c0 K F T s (concat ts) [] False \<Longrightarrow>
   \<exists>s'. kp_rest sn rq (pre @ kv_bytes (map ptr_kv ns)) (length pre) s = Some (s', None) \<and> course sn rq (Suc h) f0 c0 K F T s' [] [] False"
proof (induction ns arbitrary: ts pre s)
  case Nil
  then show ?case by (subst kp_rest.simps) simp
next
  case (Cons n ns)
  obtain t us where ts: "ts = t # us" "child sn f0 h n t" "list_all2 (child sn f0 h) ns us" using Cons.prems(1) by (cases ts) auto
  have "course sn rq (Suc h) f0 c0 K F T s (t @ concat us) [] False" using Cons.prems(2) by (simp add: ts)
  then obtain s1 where 1: "kp_keep sn rq s (np_key n) (encode_pointer n) = Some (s1, None)" "course sn rq (Suc h) f0 c0 K F T s1 (concat us) [] False"
    using kp_keep_ok [OF assms childD(1,3) [OF ts(2)]] by blast
  from Cons.IH [OF ts(3) 1(2), of "pre @ write_kv (np_key n) (encode_pointer n)"] show ?case
    by (subst kp_rest.simps) (use read_child [OF ts(2)] write_kv_neq 1(1) in simp)
qed

lemma keep_split:
  assumes "ordered (t @ rest)" "t \<noteq> []" "in_order compare (a # as)" "compare (fst (last t)) (act_key a) < 0"
  shows "upd compare (t @ rest) (a # as) = t @ upd compare rest (a # as)" "fetches compare (t @ rest) (a # as) = fetches compare rest (a # as)"
proof -
  have "\<not> compare (act_key a) (fst (last t)) \<le> 0" using assms(4) cmp_swap by fastforce
  then show "upd compare (t @ rest) (a # as) = t @ upd compare rest (a # as)" "fetches compare (t @ rest) (a # as) = fetches compare rest (a # as)"
    using upd_split [OF assms(1-3)] by simp_all
qed

text \<open>The two loops over an inner node, from any of its pointers on.\<close>

definition kp_loops where
  "kp_loops inner sn rq buf n s acts = do {
     (s, bufpos, e) \<leftarrow> kp_modify inner sn rq buf n s acts;
     if e \<noteq> None then Some (s, e) else kp_rest sn rq buf bufpos s
   }"

lemma kp_loops_last:
  assumes "read_kv w = Some (k, v, length w)" "w \<noteq> []" "acts \<noteq> []" "kp_descend inner s k v acts = Some (s1, None)"
  shows "kp_loops inner sn rq (pre @ w) (length pre) s acts = Some (s1, None)"
  using assms by (simp add: kp_loops_def kp_modify.simps [of inner sn rq "pre @ w" "length pre"] kp_rest.simps [of sn rq "pre @ w"])

lemma kp_loops_keep:
  assumes "read_kv (w @ r) = Some (k, v, length w)" "w \<noteq> []" "r \<noteq> []" "acts = a # as" "mq_compare rq k (act_key a) < 0" "kp_keep sn rq s k v = Some (s1, None)"
  shows "kp_loops inner sn rq (pre @ w @ r) (length pre) s acts = kp_loops inner sn rq ((pre @ w) @ r) (length (pre @ w)) s1 acts"
  using assms by (simp add: kp_loops_def kp_modify.simps [of inner sn rq "pre @ w @ r" "length pre"])

lemma kp_loops_down:
  assumes "read_kv (w @ r) = Some (k, v, length w)" "w \<noteq> []" "r \<noteq> []" "acts = a # as" "\<not> mq_compare rq k (act_key a) < 0"
    and "kp_descend inner s k v (takeWhile (\<lambda>a. mq_compare rq (act_key a) k \<le> 0) acts) = Some (s1, None)"
  shows "kp_loops inner sn rq (pre @ w @ r) (length pre) s acts =
    kp_loops inner sn rq ((pre @ w) @ r) (length (pre @ w)) s1 (dropWhile (\<lambda>a. mq_compare rq (act_key a) k \<le> 0) acts)"
proof -
  have "kp_modify inner sn rq (pre @ w @ r) (length pre) s acts =
      kp_modify inner sn rq (pre @ w @ r) (length pre + length w) s1 (dropWhile (\<lambda>a. mq_compare rq (act_key a) k \<le> 0) acts)"
    using assms(1-3,5,6) unfolding kp_modify.simps [of inner sn rq "pre @ w @ r" "length pre"] by (simp add: assms(4))
  then show ?thesis by (simp add: kp_loops_def)
qed

lemma kp_loops_ok:
  assumes "changing sn N rq" "fits N K"
  shows "list_all2 (child sn f0 h) ns ts \<Longrightarrow> list_all2 (applies sn N rq inner f0 h) ns ts \<Longrightarrow> ordered (concat ts) \<Longrightarrow> in_order compare acts \<Longrightarrow> acts_fit acts \<Longrightarrow>
     acts = [] \<or> ns \<noteq> [] \<Longrightarrow>
     course sn rq (Suc h) f0 c0 K F T s (upd compare (concat ts) acts) (fetches compare (concat ts) acts) (touches acts) \<Longrightarrow>
   \<exists>s'. kp_loops inner sn rq (pre @ kv_bytes (map ptr_kv ns)) (length pre) s acts = Some (s', None) \<and> course sn rq (Suc h) f0 c0 K F T s' [] [] False"
proof (induction ns arbitrary: ts pre s acts)
  case Nil
  then have "ts = []" "acts = []" by simp_all
  then show ?case using Nil(7)
    by (intro exI [of _ s]) (simp add: kp_loops_def kp_modify.simps [of inner sn rq pre "length pre"] kp_rest.simps [of sn rq pre "length pre"])
next
  case (Cons n ns)
  obtain t us where ts: "ts = t # us" "child sn f0 h n t" "list_all2 (child sn f0 h) ns us" "applies sn N rq inner f0 h n t" "list_all2 (applies sn N rq inner f0 h) ns us"
    using Cons.prems(1,2) by (cases ts) auto
  note n = childD [OF ts(2)] and rd = read_child [OF ts(2)]
  let ?w = "write_kv (np_key n) (encode_pointer n)" and ?r = "kv_bytes (map ptr_kv ns)"
  have ord: "ordered (t @ concat us)" "ordered (concat us)" using Cons.prems(3) by (simp_all add: ts ordered_append)
  have cmp: "mq_compare rq = compare" using assms(1) by (simp add: changing_def request_def)
  consider (none) "acts = []" | (final) "ns = []" "acts \<noteq> []" | (keep) a as where "ns \<noteq> []" "acts = a # as" "compare (np_key n) (act_key a) < 0"
    | (down) a as where "ns \<noteq> []" "acts = a # as" "\<not> compare (np_key n) (act_key a) < 0" by (cases acts) auto
  then show ?case
  proof cases
    case none
    then have "course sn rq (Suc h) f0 c0 K F T s (concat ts) [] False" using Cons.prems(7) by simp
    from kp_rest_ok [OF assms Cons.prems(1) this, of pre] show ?thesis using none by (simp add: kp_loops_def kp_modify.simps [of inner sn rq _ "length pre" s "[]"])
  next
    case final
    then have u: "us = []" using ts(3) by simp
    have "course sn rq (Suc h) f0 c0 K F T s (upd compare t acts @ []) (fetches compare t acts @ []) (touches acts \<or> False)" using Cons.prems(7) by (simp add: ts u)
    then obtain s1 where 1: "kp_descend inner s (np_key n) (encode_pointer n) acts = Some (s1, None)" "course sn rq (Suc h) f0 c0 K F T s1 [] [] False"
      using kp_descend_ok [OF assms(2) n(1) ts(4) final(2) Cons.prems(4,5)] by blast
    show ?thesis using kp_loops_last [OF _ write_kv_neq final(2) 1(1), where pre = pre and sn = sn and rq = rq] rd [of "[]"] 1(2) final(1) by simp
  next
    case keep
    have more: "?r \<noteq> []" using keep(1) by (simp add: kv_bytes_Nil)
    have "course sn rq (Suc h) f0 c0 K F T s (t @ upd compare (concat us) acts) (fetches compare (concat us) acts) (touches acts)"
      using Cons.prems(7) keep_split [OF ord(1) n(4) Cons.prems(4) [unfolded keep(2)] keep(3) [unfolded n(5)]] by (simp add: ts keep(2))
    then obtain s1 where 1: "kp_keep sn rq s (np_key n) (encode_pointer n) = Some (s1, None)"
      "course sn rq (Suc h) f0 c0 K F T s1 (upd compare (concat us) acts) (fetches compare (concat us) acts) (touches acts)"
      using kp_keep_ok [OF assms n(1,3)] by blast
    note step = kp_loops_keep [OF rd write_kv_neq more keep(2) _ 1(1), of inner pre]
    show ?thesis using Cons.IH [OF ts(3,5) ord(2) Cons.prems(4,5) _ 1(2), of "pre @ ?w"] keep(1,3) step unfolding cmp by simp
  next
    case down
    have more: "?r \<noteq> []" using down(1) by (simp add: kv_bytes_Nil)
    let ?now = "takeWhile (\<lambda>a. compare (act_key a) (np_key n) \<le> 0) acts" and ?later = "dropWhile (\<lambda>a. compare (act_key a) (np_key n) \<le> 0) acts"
    have nl: "?now @ ?later = acts" "?now \<noteq> []" using down(3) cmp_ge [of "np_key n" "act_key a"] by (simp_all add: down(2))
    have io: "in_order compare ?now" "in_order compare ?later" "acts_fit ?now" "acts_fit ?later" "touches acts = (touches ?now \<or> touches ?later)"
      using in_order_append [of ?now ?later] acts_fit_simps(3) [of ?now ?later] touches_append [of ?now ?later] Cons.prems(4,5) unfolding nl(1) by blast+
    have "course sn rq (Suc h) f0 c0 K F T s (upd compare t ?now @ upd compare (concat us) ?later) (fetches compare t ?now @ fetches compare (concat us) ?later) (touches ?now \<or> touches ?later)"
      using Cons.prems(7) upd_split [OF ord(1) n(4) Cons.prems(4)] io(5) by (simp add: ts n(5))
    then obtain s1 where 1: "kp_descend inner s (np_key n) (encode_pointer n) ?now = Some (s1, None)"
      "course sn rq (Suc h) f0 c0 K F T s1 (upd compare (concat us) ?later) (fetches compare (concat us) ?later) (touches ?later)"
      using kp_descend_ok [OF assms(2) n(1) ts(4) nl(2) io(1,3)] by blast
    note step = kp_loops_down [OF rd write_kv_neq more down(2), of rq inner s s1 sn pre, unfolded cmp, OF down(3) 1(1)]
    show ?thesis using Cons.IH [OF ts(3,5) ord(2) io(2,4) _ 1(2), of "pre @ ?w"] down(1) step by simp
  qed
qed

section \<open>Nodes\<close>

lemma make_modres_ok: "served f \<Longrightarrow> \<exists>f'. make_modres f =
    (f', Some \<lparr>mr_values = [], mr_node_len = 0, mr_count = 0, mr_pointers = [], mr_modified = False, mr_node_type = KP_NODE\<rparr>) \<and> quiet f f'"
proof -
  assume s: "served f"
  obtain f1 where 1: "arena_alloc f = (f1, True)" "quiet f f1" using arena_served [OF s] by blast
  then have "served f1" by (simp add: quiet_def)
  then obtain f2 where 2: "arena_alloc f1 = (f2, True)" "quiet f1 f2" using arena_served by blast
  then have "served f2" by (simp add: quiet_def)
  then obtain f3 where 3: "arena_alloc f2 = (f3, True)" "quiet f2 f3" using arena_served by blast
  show ?thesis using 1 2 3 quiet_trans [OF 1(2) quiet_trans [OF 2(2) 3(2)]] by (simp add: make_modres_def)
qed

text \<open>A node that is done goes to the node above it.\<close>

lemma written_pointers:
  assumes "holds sn f H mr w kvs" "mr_values mr = []"
  obtains us where "list_all2 (sub sn f H) (mr_pointers mr) us" "kvs = concat us" "0 < H \<longrightarrow> 2 * length us \<le> w"
  using assms(1)
proof (rule holdsE)
  fix us ts
  assume "list_all2 (sub sn f H) (mr_pointers mr) us" "list_all2 (isub sn f H) (mr_values mr) ts" "kvs = concat us @ concat ts" "0 < H \<longrightarrow> 2 * length us + length ts \<le> w"
  then show thesis using assms(2) by (intro that [of us]) auto
qed

lemma hand_up_changed:
  assumes "changing sn N rq" "fits N (kvs @ K)" "served f" "holds sn f h mr w K" "mr_modified mr" "holds sn f (Suc h) dst v kvs"
  shows "\<exists>f' dst' w'. hand_up sn rq (f, c, mr) nptr dst = Some ((f', c, dst'), None) \<and> served f' \<and> grows f f' \<and> holds sn f' (Suc h) dst' w' (kvs @ K) \<and> mr_modified dst'"
proof -
  have rq: "packer sn N" "request rq" using assms(1) by (simp_all add: changing_def)
  have K: "fits N K" using fits_append [OF assms(2)] by blast
  obtain f1 mr1 where 1: "flush_mr sn rq f mr = Some (f1, mr1, None)" "served f1" "grows f f1" "holds sn f1 h mr1 (w + 1) K" "mr_modified mr1" "mr_values mr1 = []"
    using flush_mr_ok [OF assms(3) rq(1) K assms(4) rq(2)] assms(5) by auto
  obtain us where us: "list_all2 (sub sn f1 h) (mr_pointers mr1) us" "K = concat us" using 1(4,6) by (rule written_pointers)
  have "holds sn f1 (Suc h) (dst\<lparr>mr_modified := True\<rparr>) v kvs" using holds_grows [OF assms(6) 1(3)] by (rule holds_modified)
  then obtain f2 dst2 where 2: "move_pointers_loop sn rq f1 (mr_pointers mr1) (dst\<lparr>mr_modified := True\<rparr>) = Some (f2, [], dst2, None)" "served f2" "grows f1 f2"
    "holds sn f2 (Suc h) dst2 (v + length (mr_pointers mr1)) (kvs @ concat us)" "mr_modified dst2"
    using move_ok [OF us(1) 1(2) rq(1) _ _ rq(2) changing_short [OF assms(1)]] assms(2) unfolding us(2) by fastforce
  show ?thesis using 1(1,5) 2(1,2,4,5) us(2) grows_trans [OF 1(3) 2(3)] by (auto simp: hand_up_def mr_move_pointers_def)
qed

lemma hand_up_kept:
  assumes "changing sn N rq" "fits N (kvs @ K)" "served f" "holds sn f h mr w K" "\<not> mr_modified mr" "holds sn f (Suc h) dst v kvs" "sub sn f h (pointer_item n) K"
  shows "\<exists>f' dst' w'. hand_up sn rq (f, c, mr) (Some n) dst = Some ((f', c, dst'), None) \<and> served f' \<and> grows f f' \<and> holds sn f' (Suc h) dst' w' (kvs @ K) \<and>
     mr_modified dst' = mr_modified dst"
proof -
  have rq: "packer sn N" "request rq" using assms(1) by (simp_all add: changing_def)
  have "flush_mr sn rq f mr = Some (f, mr, None)" using assms(5) by (simp add: flush_mr_def flush_mr_partial_def)
  then show ?thesis using push_pointer_ok [OF assms(3) rq changing_short [OF assms(1)] assms(2,6,7)] assms(5) by (auto simp: hand_up_def)
qed

text \<open>The changes of one node, up to handing it to the node above.\<close>

definition node_done where
  "node_done sn N rq d f0 h n kvs \<longleftrightarrow> (\<forall>f c acts dst. served f \<longrightarrow> grows f0 f \<longrightarrow> acts \<noteq> [] \<longrightarrow> in_order compare acts \<longrightarrow> acts_fit acts \<longrightarrow>
     fits N (upd compare kvs acts) \<longrightarrow>
     (\<exists>f' mr w. modify_node d sn rq f c (Some n) acts dst = hand_up sn rq (f', run_fetches rq c (fetches compare kvs acts), mr) (Some n) dst \<and>
        served f' \<and> grows f f' \<and> holds sn f' h mr w (upd compare kvs acts) \<and> mr_modified mr = touches acts))"

lemma node_doneD:
  assumes "node_done sn N rq d f0 h n kvs" "served f" "grows f0 f" "acts \<noteq> []" "in_order compare acts" "acts_fit acts" "fits N (upd compare kvs acts)"
  obtains f' mr w where "modify_node d sn rq f c (Some n) acts dst = hand_up sn rq (f', run_fetches rq c (fetches compare kvs acts), mr) (Some n) dst"
    "served f'" "grows f f'" "holds sn f' h mr w (upd compare kvs acts)" "mr_modified mr = touches acts"
  using assms unfolding node_done_def by blast

lemma done_applies:
  fixes rq :: "('a, 'c) modify_request"
  assumes "changing sn N rq" "node_done sn N rq d f0 h n t" "child sn f0 h n t"
  shows "applies sn N rq (modify_node d sn rq) f0 h n t"
  unfolding applies_def
proof (intro allI impI)
  fix f c dst w kvs and acts :: "'a modify_action list"
  assume a: "served f" "grows f0 f" "acts \<noteq> []" "in_order compare acts" "acts_fit acts" "holds sn f (Suc h) dst w kvs" "fits N (kvs @ upd compare t acts)"
  have "fits N (upd compare t acts)" using fits_append [OF a(7)] by blast
  then obtain f1 mr v where 1: "modify_node d sn rq f c (Some n) acts dst = hand_up sn rq (f1, run_fetches rq c (fetches compare t acts), mr) (Some n) dst"
    "served f1" "grows f f1" "holds sn f1 h mr v (upd compare t acts)" "mr_modified mr = touches acts" by (rule node_doneD [OF assms(2) a(1-5)])
  note dst = holds_grows [OF a(6) 1(3)]
  show "\<exists>f' dst' w'. modify_node d sn rq f c (Some n) acts dst = Some ((f', run_fetches rq c (fetches compare t acts), dst'), None) \<and> served f' \<and> grows f f' \<and>
      holds sn f' (Suc h) dst' w' (kvs @ upd compare t acts) \<and> mr_modified dst' = (mr_modified dst \<or> touches acts)"
  proof (cases "touches acts")
    case True
    then show ?thesis using hand_up_changed [OF assms(1) a(7) 1(2,4) _ dst] 1(1,5) grows_trans [OF 1(3)] by (metis (no_types, lifting))
  next
    case False
    have "sub sn f1 h (pointer_item n) (upd compare t acts)" unfolding upd_untouched [OF False]
      by (rule sub_grows [OF childD(3) [OF assms(3)] grows_trans [OF a(2) 1(3)]])
    then show ?thesis using hand_up_kept [OF assms(1) a(7) 1(2,4) _ dst] 1(1,5) False grows_trans [OF 1(3)] by (metis (no_types, lifting))
  qed
qed

lemma course_start:
  assumes "quiet f1 f" "grows f0 f1" "holds sn f H mr w []" "\<not> mr_modified mr"
  shows "course sn rq H f0 c K F T (f, c, mr) K F T"
  by (rule courseI [OF _ grows_trans [OF assms(2) quiet_grows [OF assms(1)]] assms(3), where fs = "[]"]) (use assms(1,4) in \<open>simp_all add: quiet_def\<close>)

lemma course_end:
  assumes "course sn rq H f0 c0 K F T s [] [] False"
  obtains f mr w where "s = (f, run_fetches rq c0 F, mr)" "served f" "grows f0 f" "holds sn f H mr w K" "mr_modified mr = T"
proof -
  obtain f c mr where s: "s = (f, c, mr)" by (metis surj_pair)
  show thesis using assms [unfolded s] by (rule courseE) (use that s in auto)
qed

lemma fresh_holds: "holds sn f H \<lparr>mr_values = [], mr_node_len = 0, mr_count = 0, mr_pointers = [], mr_modified = b, mr_node_type = node_kind H\<rparr> w []"
  by (rule holds_empty) simp_all

lemma leaf_done:
  fixes rq :: "('a, 'c) modify_request"
  assumes "changing sn N rq" "node_at sn R (valid f0) 0 (unat (np_pointer n)) kvs" "list_all kv_ok kvs"
  shows "node_done sn N rq (Suc d) f0 0 n kvs"
  unfolding node_done_def
proof (intro allI impI)
  fix f c dst and acts :: "'a modify_action list"
  assume a: "served f" "grows f0 f" "acts \<noteq> []" "in_order compare acts" "acts_fit acts" "fits N (upd compare kvs acts)"
  have "stored sn (valid f) (unat (np_pointer n)) (1 # kv_bytes kvs)"
    by (rule stored_prefix [OF _ valid_grows [OF a(2)]]) (use assms(2) in \<open>auto elim: leafE\<close>)
  then have "stored sn (contents f) (unat (np_pointer n)) (1 # kv_bytes kvs)" by (rule stored_prefix) (simp add: valid_def take_is_prefix)
  then obtain f1 where 1: "pread_compressed sn f (unat (np_pointer n)) = (f1, Inr (1 # kv_bytes kvs))" "quiet f f1" using pread_compressed_ok [OF a(1)] by blast
  then have "served f1" by (simp add: quiet_def)
  then obtain f2 where 2: "make_modres f1 = (f2, Some \<lparr>mr_values = [], mr_node_len = 0, mr_count = 0, mr_pointers = [], mr_modified = False, mr_node_type = KP_NODE\<rparr>)" "quiet f1 f2"
    using make_modres_ok by blast
  let ?mr = "\<lparr>mr_values = [], mr_node_len = 0, mr_count = 0, mr_pointers = [], mr_modified = False, mr_node_type = node_kind 0\<rparr>"
  have c: "course sn rq 0 f c (upd compare kvs acts) (fetches compare kvs acts) (touches acts) (f2, c, ?mr) (upd compare kvs acts) (fetches compare kvs acts) (touches acts)"
    by (rule course_start [OF quiet_trans [OF 1(2) 2(2)] grows_refl fresh_holds]) simp
  obtain s where s: "kv_node sn rq (1 # kv_bytes kvs) (f2, c, ?mr) acts = Some (s, None)"
    "course sn rq 0 f c (upd compare kvs acts) (fetches compare kvs acts) (touches acts) s [] [] False"
    using kv_node_ok [OF assms(1) a(6) assms(3) a(5) _ c, of "[1]", simplified] by blast
  obtain f3 mr w where e: "s = (f3, run_fetches rq c (fetches compare kvs acts), mr)" "served f3" "grows f f3" "holds sn f3 0 mr w (upd compare kvs acts)" "mr_modified mr = touches acts"
    using s(2) by (rule course_end)
  have "modify_node (Suc d) sn rq f c (Some n) acts dst = hand_up sn rq s (Some n) dst"
    using a(3) 1(1) 2(1) s(1) by (simp add: node_kind_def c_assert_true)
  then show "\<exists>f' mr w. modify_node (Suc d) sn rq f c (Some n) acts dst = hand_up sn rq (f', run_fetches rq c (fetches compare kvs acts), mr) (Some n) dst \<and>
      served f' \<and> grows f f' \<and> holds sn f' 0 mr w (upd compare kvs acts) \<and> mr_modified mr = touches acts" using e by blast
qed

lemma inner_done:
  fixes rq :: "('a, 'c) modify_request"
  assumes "changing sn N rq" "stored sn (valid f0) (unat (np_pointer n)) (0 # kv_bytes (map ptr_kv ns))" "list_all2 (child sn f0 h) ns ts" "ns \<noteq> []"
    and "ordered (concat ts)" "list_all2 (node_done sn N rq d f0 h) ns ts"
  shows "node_done sn N rq (Suc d) f0 (Suc h) n (concat ts)"
  unfolding node_done_def
proof (intro allI impI)
  fix f c dst and acts :: "'a modify_action list"
  assume a: "served f" "grows f0 f" "acts \<noteq> []" "in_order compare acts" "acts_fit acts" "fits N (upd compare (concat ts) acts)"
  let ?K = "upd compare (concat ts) acts" and ?F = "fetches compare (concat ts) acts"
  have "stored sn (contents f) (unat (np_pointer n)) (0 # kv_bytes (map ptr_kv ns))"
    by (rule stored_prefix [OF stored_prefix [OF assms(2) valid_grows [OF a(2)]]]) (simp add: valid_def take_is_prefix)
  then obtain f1 where 1: "pread_compressed sn f (unat (np_pointer n)) = (f1, Inr (0 # kv_bytes (map ptr_kv ns)))" "quiet f f1" using pread_compressed_ok [OF a(1)] by blast
  then have "served f1" by (simp add: quiet_def)
  then obtain f2 where 2: "make_modres f1 = (f2, Some \<lparr>mr_values = [], mr_node_len = 0, mr_count = 0, mr_pointers = [], mr_modified = False, mr_node_type = KP_NODE\<rparr>)" "quiet f1 f2"
    using make_modres_ok by blast
  let ?mr = "\<lparr>mr_values = [], mr_node_len = 0, mr_count = 0, mr_pointers = [], mr_modified = False, mr_node_type = node_kind (Suc h)\<rparr>"
  have "grows f0 f1" by (rule grows_trans [OF a(2) quiet_grows [OF 1(2)]])
  then have c: "course sn rq (Suc h) f0 c ?K ?F (touches acts) (f2, c, ?mr) ?K ?F (touches acts)"
    by (rule course_start [OF 2(2) _ fresh_holds]) simp
  have "list_all2 (applies sn N rq (modify_node d sn rq) f0 h) ns ts"
    using assms(3,6) by (auto simp: list_all2_conv_all_nth intro: done_applies [OF assms(1)])
  then obtain s where s: "kp_loops (modify_node d sn rq) sn rq (0 # kv_bytes (map ptr_kv ns)) 1 (f2, c, ?mr) acts = Some (s, None)"
    "course sn rq (Suc h) f0 c ?K ?F (touches acts) s [] [] False"
    using kp_loops_ok [OF assms(1) a(6) assms(3) _ assms(5) a(4,5) _ c, of "modify_node d sn rq" "[0]"] assms(4) by auto
  obtain f3 mr w where e: "s = (f3, run_fetches rq c ?F, mr)" "served f3" "grows f0 f3" "holds sn f3 (Suc h) mr w ?K" "mr_modified mr = touches acts"
    using s(2) by (rule course_end)
  have k: "kp_node (modify_node d sn rq) sn rq (0 # kv_bytes (map ptr_kv ns)) (f2, c, ?mr) acts = Some (s, None)"
    using s(1) by (simp add: kp_node_def kp_loops_def)
  have "grows f2 f3" using kp_node_appends [OF modify_node_appends k] by (simp add: e(1) appends_def)
  then have g: "grows f f3" by (rule grows_trans [OF quiet_grows [OF quiet_trans [OF 1(2) 2(2)]]])
  have "modify_node (Suc d) sn rq f c (Some n) acts dst = hand_up sn rq s (Some n) dst"
    using a(3) 1(1) 2(1) k by (simp add: node_kind_def c_assert_true)
  then show "\<exists>f' mr w. modify_node (Suc d) sn rq f c (Some n) acts dst = hand_up sn rq (f', run_fetches rq c ?F, mr) (Some n) dst \<and>
      served f' \<and> grows f f' \<and> holds sn f' (Suc h) mr w ?K \<and> mr_modified mr = touches acts" using e g by blast
qed

lemma nodes_done:
  assumes "changing sn N rq"
  shows "node_at sn R (valid f0) h (unat (np_pointer n)) kvs \<Longrightarrow> h < d \<Longrightarrow> ordered kvs \<Longrightarrow> list_all kv_ok kvs \<Longrightarrow> kvs \<noteq> [] \<Longrightarrow> node_done sn N rq d f0 h n kvs"
proof (induction h arbitrary: n kvs d)
  case 0
  then show ?case using leaf_done [OF assms] by (cases d) auto
next
  case (Suc h)
  obtain e where d: "d = Suc e" "h < e" using Suc.prems(2) by (cases d) auto
  obtain ns ts where n: "stored sn (valid f0) (unat (np_pointer n)) (0 # kv_bytes (map ptr_kv ns))"
    "list_all2 (subtree R (\<lambda>q t. node_at sn R (valid f0) h (unat q) t)) ns ts" "kvs = concat ts"
    using Suc.prems(1) by (rule innerE) blast
  have sub: "ordered t" "list_all kv_ok t" if "t \<in> set ts" for t
  proof -
    obtain as bs where "ts = as @ t # bs" using split_list [OF \<open>t \<in> set ts\<close>] by blast
    then show "ordered t" "list_all kv_ok t" using Suc.prems(3,4) n(3) by (auto simp: ordered_append)
  qed
  then have ch: "list_all2 (child sn f0 h) ns ts" using n(2) by (auto simp: list_all2_conv_all_nth child_def)
  have "list_all2 (node_done sn N rq e f0 h) ns ts"
    using ch by (rule list.rel_mono_strong) (auto intro!: Suc.IH [OF _ d(2)] dest: childD sub)
  moreover have "ns \<noteq> []" using Suc.prems(5) n(2,3) by auto
  ultimately show ?case using inner_done [OF assms n(1) ch _ _] Suc.prems(3) n(3) d(1) by blast
qed

section \<open>The root\<close>

definition blank :: "modify_result \<Rightarrow> bool" where
  "blank mr \<longleftrightarrow> mr_values mr = [] \<and> mr_pointers mr = [] \<and> mr_node_len mr = 0 \<and> mr_count mr = 0 \<and> mr_node_type mr = KP_NODE \<and> mr_modified mr"

lemma blank_holds: "blank mr \<Longrightarrow> holds sn f (Suc h) mr w []"
  by (rule holds_empty) (simp_all add: blank_def node_kind_def)

lemma holds_blank: "holds sn f (Suc h) mr w kvs \<Longrightarrow> mr_values mr = [] \<Longrightarrow> mr_modified mr \<Longrightarrow> blank (mr\<lparr>mr_pointers := []\<rparr>)"
  by (simp add: holds_def blank_def node_kind_def)

lemma level_ok:
  assumes "packer sn N" "request rq" "short rq kvs" "fits N kvs" "served f" "list_all2 (sub sn f h) (mr_pointers rr) us" "kvs = concat us" "blank coll"
  shows "\<exists>f1 coll1 f2 coll2 vs. mr_move_pointers sn rq f rr coll = Some (f1, rr\<lparr>mr_pointers := []\<rparr>, coll1, None) \<and> flush_mr sn rq f1 coll1 = Some (f2, coll2, None) \<and>
     served f2 \<and> grows f f2 \<and> list_all2 (sub sn f2 (Suc h)) (mr_pointers coll2) vs \<and> kvs = concat vs \<and> 2 * length vs \<le> length us + 1 \<and> blank (coll2\<lparr>mr_pointers := []\<rparr>)"
proof -
  obtain f1 coll1 where 1: "move_pointers_loop sn rq f (mr_pointers rr) coll = Some (f1, [], coll1, None)" "served f1" "grows f f1"
    "holds sn f1 (Suc h) coll1 (0 + length (mr_pointers rr)) ([] @ concat us)" "mr_modified coll1 = mr_modified coll"
    using move_ok [OF assms(6,5,1) _ blank_holds [OF assms(8)] assms(2)] assms(3,4,7) by (metis append_Nil)
  have m: "mr_modified coll1" using 1(5) assms(8) by (simp add: blank_def)
  obtain f2 coll2 where 2: "flush_mr sn rq f1 coll1 = Some (f2, coll2, None)" "served f2" "grows f1 f2" "holds sn f2 (Suc h) coll2 (length (mr_pointers rr) + 1) kvs"
    "mr_modified coll2" "mr_values coll2 = []"
    using flush_mr_ok [OF 1(2) assms(1) _ 1(4) assms(2)] assms(4,7) m by auto
  obtain vs where "list_all2 (sub sn f2 (Suc h)) (mr_pointers coll2) vs" "kvs = concat vs" "0 < Suc h \<longrightarrow> 2 * length vs \<le> length (mr_pointers rr) + 1"
    using 2(4,6) by (rule written_pointers)
  then show ?thesis using 1(1) 2(1,2) grows_trans [OF 1(3) 2(3)] holds_blank [OF 2(4,6,5)] list_all2_lengthD [OF assms(6)]
    by (intro exI [of _ f1] exI [of _ coll1] exI [of _ f2] exI [of _ coll2] exI [of _ vs]) (simp add: mr_move_pointers_def)
qed

lemma finish_loop_ok:
  assumes "packer sn N" "request rq" "short rq kvs" "fits N kvs" "kvs \<noteq> []"
  shows "served f \<Longrightarrow> list_all2 (sub sn f h) (mr_pointers rr) us \<Longrightarrow> kvs = concat us \<Longrightarrow> blank (rr\<lparr>mr_pointers := []\<rparr>) \<Longrightarrow> blank coll \<Longrightarrow>
   \<exists>f' p h'. finish_loop sn rq f rr coll = Some (f', Some p, None) \<and> served f' \<and> grows f f' \<and> sub sn f' h' (pointer_item p) kvs"
proof (induction "length us" arbitrary: f h rr us coll rule: less_induct)
  case less
  have l: "length (mr_pointers rr) = length us" using list_all2_lengthD [OF less.prems(2)] .
  show ?case
  proof (cases "length us = 1")
    case True
    then obtain t where t: "us = [t]" by (cases us) auto
    then obtain i where i: "mr_pointers rr = [i]" "sub sn f h i t" using less.prems(2) by (auto simp: list_all2_Cons2)
    then obtain p where "i = pointer_item p" by (auto simp: sub_def)
    then show ?thesis using i t less.prems(1,3) by (subst finish_loop.simps) (auto simp: pointer_item_def)
  next
    case False
    then have two: "2 \<le> length us" using less.prems(3) assms(5) by (cases us; cases "tl us") auto
    obtain f1 coll1 f2 coll2 vs where s: "mr_move_pointers sn rq f rr coll = Some (f1, rr\<lparr>mr_pointers := []\<rparr>, coll1, None)" "flush_mr sn rq f1 coll1 = Some (f2, coll2, None)"
      "served f2" "grows f f2" "list_all2 (sub sn f2 (Suc h)) (mr_pointers coll2) vs" "kvs = concat vs" "2 * length vs \<le> length us + 1" "blank (coll2\<lparr>mr_pointers := []\<rparr>)"
      using level_ok [OF assms(1-4) less.prems(1-3,5)] by blast
    have "length vs < length us" using s(7) two by linarith
    from less.hyps [OF this s(3,5,6,8) less.prems(4)] obtain f' p h' where "finish_loop sn rq f2 coll2 (rr\<lparr>mr_pointers := []\<rparr>) = Some (f', Some p, None)" "served f'" "grows f2 f'"
      "sub sn f' h' (pointer_item p) kvs" by blast
    then show ?thesis using grows_trans [OF s(4)] False l s(1,2) by (subst finish_loop.simps) auto
  qed
qed

lemma finish_root_ok:
  assumes "packer sn N" "request rq" "short rq kvs" "fits N kvs" "kvs \<noteq> []" "served f" "holds sn f (Suc h) rr w kvs" "mr_modified rr"
  shows "\<exists>f' p h'. finish_root sn rq f rr = Some (f', Some p, None) \<and> served f' \<and> grows f f' \<and> sub sn f' h' (pointer_item p) kvs"
proof -
  obtain f1 where 1: "make_modres f = (f1, Some \<lparr>mr_values = [], mr_node_len = 0, mr_count = 0, mr_pointers = [], mr_modified = False, mr_node_type = KP_NODE\<rparr>)" "quiet f f1"
    using make_modres_ok [OF assms(6)] by blast
  have g: "grows f f1" "served f1" using 1(2) quiet_grows by (auto simp: quiet_def)
  obtain f2 rr2 where 2: "flush_mr sn rq f1 rr = Some (f2, rr2, None)" "served f2" "grows f1 f2" "holds sn f2 (Suc h) rr2 (w + 1) kvs" "mr_modified rr2" "mr_values rr2 = []"
    using flush_mr_ok [OF g(2) assms(1,4) holds_grows [OF assms(7) g(1)] assms(2)] assms(8) by auto
  obtain us where us: "list_all2 (sub sn f2 (Suc h)) (mr_pointers rr2) us" "kvs = concat us" using 2(4,6) by (rule written_pointers)
  let ?coll = "\<lparr>mr_values = [], mr_node_len = 0, mr_count = 0, mr_pointers = [], mr_modified = True, mr_node_type = KP_NODE\<rparr>"
  have "blank ?coll" by (simp add: blank_def)
  then obtain f' p h' where "finish_loop sn rq f2 rr2 ?coll = Some (f', Some p, None)" "served f'" "grows f2 f'" "sub sn f' h' (pointer_item p) kvs"
    using finish_loop_ok [OF assms(1-5) 2(2) us holds_blank [OF 2(4,6,5)]] by blast
  then show ?thesis using 1(1) 2(1) grows_trans [OF grows_trans [OF g(1) 2(3)]] by (auto simp: finish_root_def)
qed

lemma sub_root: "sub sn f h (pointer_item p) kvs \<Longrightarrow> tf_pos f < 2 ^ 48 \<Longrightarrow> root_at sn R f h (Some p) kvs"
  by (auto simp: sub_def root_at_def pointer_item_def)

text \<open>Whatever came up to the root of a changed tree, a root is made of it.\<close>

definition raise_root where
  "raise_root sn rq f rr = (if 1 < mr_count rr \<or> mr_pointers rr \<noteq> [] then finish_root sn rq f rr else Some (f, values_end_pointer rr, None))"

lemma raise_root_ok:
  assumes "packer sn N" "request rq" "short rq kvs" "fits N kvs" "served f" "holds sn f (Suc h) rr w kvs" "mr_modified rr"
  shows "\<exists>f' p. raise_root sn rq f rr = Some (f', p, None) \<and> served f' \<and> grows f f' \<and> (tf_pos f' < 2 ^ 48 \<longrightarrow> (\<exists>h'. root_at sn R f' h' p kvs))"
  using assms(6)
proof (rule holdsE)
  fix us ts
  assume u: "list_all2 (sub sn f (Suc h)) (mr_pointers rr) us" "list_all2 (isub sn f (Suc h)) (mr_values rr) ts" "kvs = concat us @ concat ts"
    "mr_count rr = int (length (mr_values rr))"
  show ?thesis
  proof (cases "1 < mr_count rr \<or> mr_pointers rr \<noteq> []")
    case True
    have "kvs \<noteq> []" using True
    proof
      assume "1 < mr_count rr"
      then have "mr_values rr \<noteq> []" using u(4) by auto
      then show ?thesis using last_concat [OF u(2)] u(3) by simp
    next
      assume "mr_pointers rr \<noteq> []"
      then obtain i "is" t vs where "mr_pointers rr = i # is" "us = t # vs" "sub sn f (Suc h) i t" using u(1) by (cases "mr_pointers rr"; cases us) auto
      then show ?thesis using u(3) by (auto simp: sub_def)
    qed
    then obtain f' p h' where p: "finish_root sn rq f rr = Some (f', Some p, None)" "served f'" "grows f f'" "sub sn f' h' (pointer_item p) kvs"
      using finish_root_ok [OF assms(1-4) _ assms(5-7)] by blast
    then show ?thesis using True sub_root [OF p(4)] by (auto simp: raise_root_def)
  next
    case False
    then have "us = []" "length ts \<le> 1" using u(1,4) list_all2_lengthD [OF u(2)] by auto
    then consider "ts = []" | t where "ts = [t]" by (cases ts; cases "tl ts") auto
    then show ?thesis
    proof cases
      case 1
      then have "mr_values rr = []" "kvs = []" using u(2,3) \<open>us = []\<close> by auto
      then show ?thesis using False assms(5) by (simp add: raise_root_def values_end_pointer_def root_at_def)
    next
      case 2
      then obtain i where i: "mr_values rr = [i]" "sub sn f h i t" "kvs = t" using u(2,3) \<open>us = []\<close> by (auto simp: list_all2_Cons2 isub_def)
      then obtain p where "i = pointer_item p" by (auto simp: sub_def)
      then show ?thesis using False assms(5) i sub_root [of sn f h p t] by (auto simp: raise_root_def values_end_pointer_def pointer_item_def)
    qed
  qed
qed

lemma pick_root_ok:
  assumes "changing sn N rq" "fits N kvs" "served f" "holds sn f (Suc h) rr w kvs" "mr_modified rr"
  shows "\<exists>f' p. pick_root sn rq f root rr = Some (f', p, None) \<and> served f' \<and> grows f f' \<and> (tf_pos f' < 2 ^ 48 \<longrightarrow> (\<exists>h'. root_at sn R f' h' p kvs))"
proof -
  have "packer sn N" "request rq" using assms(1) by (simp_all add: changing_def)
  then obtain f' p where "raise_root sn rq f rr = Some (f', p, None)" "served f'" "grows f f'" "tf_pos f' < 2 ^ 48 \<longrightarrow> (\<exists>h'. root_at sn R f' h' p kvs)"
    using raise_root_ok [OF _ _ changing_short [OF assms(1)] assms(2-5)] by blast
  then show ?thesis using assms(5) by (auto simp: pick_root_def raise_root_def split: if_splits)
qed

section \<open>The tree\<close>

abbreviation "fresh_mr \<equiv> \<lparr>mr_values = [], mr_node_len = 0, mr_count = 0, mr_pointers = [], mr_modified = False, mr_node_type = KP_NODE\<rparr>"

text \<open>The call for the root node: a changed tree comes up in the result, an unchanged one leaves it unmodified.\<close>

lemma root_changed:
  assumes "changing sn N rq" "fits N K" "served f" "grows f0 f" "holds sn f h mr w K" "mr_modified mr"
  shows "\<exists>f' dst' w. hand_up sn rq (f, c, mr) nptr fresh_mr = Some ((f', c, dst'), None) \<and> served f' \<and> grows f0 f' \<and> mr_modified dst' \<and> holds sn f' (Suc h) dst' w K"
proof -
  have "holds sn f (Suc h) fresh_mr 0 []" by (rule holds_empty) (simp_all add: node_kind_def)
  from hand_up_changed [OF assms(1) _ assms(3,5,6) this] show ?thesis using assms(2) grows_trans [OF assms(4)] by (metis append_Nil)
qed

lemma root_kept:
  assumes "served f" "\<not> mr_modified mr"
  shows "\<exists>f' dst'. hand_up sn rq (f, c, mr) (Some n) fresh_mr = Some ((f', c, dst'), None) \<and> served f' \<and> grows f f' \<and> \<not> mr_modified dst'"
proof -
  obtain f1 where a: "arena_alloc f = (f1, True)" "quiet f f1" using arena_served [OF assms(1)] by blast
  have "flush_mr sn rq f mr = Some (f, mr, None)" using assms(2) by (simp add: flush_mr_def flush_mr_partial_def)
  moreover have "maybe_flush sn rq f1 (push_value (pointer_item n) fresh_mr) = Some (f1, push_value (pointer_item n) fresh_mr, None)"
    by (simp add: maybe_flush_def push_value_def)
  ultimately show ?thesis using a quiet_grows [OF a(2)] assms(2) by (simp add: hand_up_def mr_push_pointerinfo_def quiet_def push_value_def)
qed

lemma empty_done:
  assumes "changing sn N rq" "served f" "acts \<noteq> []" "acts_fit acts" "fits N (upd compare [] acts)"
  shows "\<exists>f' mr w. modify_node (Suc d) sn rq f c None acts dst = hand_up sn rq (f', run_fetches rq c (fetches compare [] acts), mr) None dst \<and>
     served f' \<and> grows f f' \<and> holds sn f' 0 mr w (upd compare [] acts) \<and> mr_modified mr = touches acts"
proof -
  let ?K = "upd compare [] acts" and ?F = "fetches compare [] acts"
  obtain f1 where 1: "make_modres f = (f1, Some fresh_mr)" "quiet f f1" using make_modres_ok [OF assms(2)] by blast
  let ?mr = "\<lparr>mr_values = [], mr_node_len = 0, mr_count = 0, mr_pointers = [], mr_modified = False, mr_node_type = node_kind 0\<rparr>"
  have "course sn rq 0 f c ?K ?F (touches acts) (f1, c, ?mr) ?K ?F (touches acts)" by (rule course_start [OF 1(2) grows_refl fresh_holds]) simp
  then obtain s where s: "kv_rest sn rq (f1, c, ?mr) acts = Some s" "course sn rq 0 f c ?K ?F (touches acts) s [] [] False"
    using kv_rest_ok [OF assms(1,5) _ assms(4)] by blast
  have "kv_node sn rq [] (f1, c, ?mr) acts = Some (s, None)" using s(1) by (simp add: kv_node_def kv_modify.simps [of sn rq "[]"])
  then have "modify_node (Suc d) sn rq f c None acts dst = hand_up sn rq s None dst" using assms(3) 1(1) by (simp add: node_kind_def c_assert_true)
  then show ?thesis using course_end [OF s(2)] by metis
qed

text \<open>The call of \<open>modify_node\<close> for the root.\<close>

lemma modify_root:
  assumes "changing sn N rq" "served f" "root_at sn R f h root kvs" "h < d" "ordered kvs" "list_all kv_ok kvs" "in_order compare acts" "acts_fit acts"
    "fits N (upd compare kvs acts)" "acts \<noteq> []"
  shows "\<exists>f' dst'. modify_node d sn rq f c root acts fresh_mr = Some ((f', run_fetches rq c (fetches compare kvs acts), dst'), None) \<and> served f' \<and> grows f f' \<and>
     (mr_modified dst' \<longrightarrow> (\<exists>h w. holds sn f' (Suc h) dst' w (upd compare kvs acts))) \<and> (\<not> mr_modified dst' \<longrightarrow> upd compare kvs acts = kvs)"
proof (cases root)
  case None
  then have kvs: "kvs = []" using assms(3) by (simp add: root_at_def)
  obtain e where d: "d = Suc e" using assms(4) by (cases d) auto
  obtain f1 mr w where 1: "modify_node d sn rq f c None acts fresh_mr = hand_up sn rq (f1, run_fetches rq c (fetches compare kvs acts), mr) None fresh_mr"
    "served f1" "grows f f1" "holds sn f1 0 mr w (upd compare kvs acts)" "mr_modified mr = touches acts"
    using empty_done [OF assms(1,2,10,8)] assms(9) unfolding kvs d by blast
  have "\<exists>f' dst' v. hand_up sn rq (f1, run_fetches rq c (fetches compare kvs acts), mr) None fresh_mr = Some ((f', run_fetches rq c (fetches compare kvs acts), dst'), None) \<and>
      served f' \<and> grows f f' \<and> mr_modified dst' \<and> holds sn f' (Suc 0) dst' v (upd compare kvs acts)"
  proof (cases "touches acts")
    case True
    then show ?thesis using root_changed [OF assms(1,9) 1(2-4)] 1(5) by blast
  next
    case False
    then have u: "upd compare kvs acts = []" using upd_untouched kvs by metis
    have "\<not> mr_modified mr" "mr_pointers mr = []" using 1(4,5) False by (simp_all add: holds_def)
    then have "hand_up sn rq (f1, c', mr) None fresh_mr = Some ((f1, c', fresh_mr\<lparr>mr_modified := True\<rparr>), None)" for c'
      by (simp add: hand_up_def flush_mr_def flush_mr_partial_def mr_move_pointers_def)
    moreover have "holds sn f1 (Suc 0) (fresh_mr\<lparr>mr_modified := True\<rparr>) 0 (upd compare kvs acts)" unfolding u by (rule holds_empty) (simp_all add: node_kind_def)
    ultimately show ?thesis using 1(2,3) by fastforce
  qed
  then show ?thesis using 1(1) None by auto
next
  case (Some n)
  then have n: "node_at sn R (valid f) h (unat (np_pointer n)) kvs" "kvs \<noteq> []" using assms(3) by (simp_all add: root_at_def)
  have "node_done sn N rq d f h n kvs" by (rule nodes_done [OF assms(1) n(1) assms(4-6) n(2)])
  then obtain f1 mr w where 1: "modify_node d sn rq f c (Some n) acts fresh_mr = hand_up sn rq (f1, run_fetches rq c (fetches compare kvs acts), mr) (Some n) fresh_mr"
    "served f1" "grows f f1" "holds sn f1 h mr w (upd compare kvs acts)" "mr_modified mr = touches acts"
    by (rule node_doneD [OF _ assms(2) grows_refl assms(10,7-9)])
  show ?thesis
  proof (cases "touches acts")
    case True
    then show ?thesis using root_changed [OF assms(1,9) 1(2-4)] 1(1,5) Some by (metis (no_types, lifting))
  next
    case False
    then have "\<not> mr_modified mr" using 1(5) by simp
    from root_kept [OF 1(2) this] show ?thesis using 1(1) Some upd_untouched [OF False] grows_trans [OF 1(3)] by (metis (no_types, lifting))
  qed
qed

lemma copy_ok: "served f \<Longrightarrow> \<exists>f'. (if p \<noteq> root then copy_node_pointer f p else (f, p)) = (f', p) \<and> quiet f f'"
  using malloc_served [of f] by (auto simp: copy_node_pointer_def quiet_def split: option.splits)

lemma modify_btree_ok:
  assumes "changing sn N rq" "served f" "root_at sn R f h root kvs" "h < d" "ordered kvs" "list_all kv_ok kvs" "in_order compare (mq_actions rq)" "acts_fit (mq_actions rq)"
    "fits N (upd compare kvs (mq_actions rq))"
  shows "\<exists>f' root'. modify_btree d sn rq f c root = Some (f', run_fetches rq c (fetches compare kvs (mq_actions rq)), root', None) \<and> served f' \<and> grows f f' \<and>
     (tf_pos f' < 2 ^ 48 \<longrightarrow> (\<exists>h'. root_at sn R f' h' root' (upd compare kvs (mq_actions rq))))"
proof -
  let ?acts = "mq_actions rq"
  obtain f1 where 1: "file_malloc f = (f1, True)" "quiet f f1" using malloc_served [OF assms(2)] by blast
  then have "served f1" by (simp add: quiet_def)
  then obtain f2 where 2: "make_modres f1 = (f2, Some fresh_mr)" "quiet f1 f2" using make_modres_ok by blast
  have g: "served f2" "grows f f2" using 2(2) quiet_grows [OF quiet_trans [OF 1(2) 2(2)]] by (simp_all add: quiet_def)
  have r: "root_at sn R f2 h root kvs" by (rule root_at_grows [OF assms(3) g(2)])
  obtain f3 dst where 3: "modify_node d sn rq f2 c root ?acts fresh_mr = Some ((f3, run_fetches rq c (fetches compare kvs ?acts), dst), None)" "served f3" "grows f2 f3"
    "mr_modified dst \<Longrightarrow> \<exists>h w. holds sn f3 (Suc h) dst w (upd compare kvs ?acts)" "\<not> mr_modified dst \<Longrightarrow> upd compare kvs ?acts = kvs"
  proof (cases "?acts = []")
    case True
    show thesis by (rule that [of f2 fresh_mr]) (use True assms(4) g(1) in \<open>cases d, simp_all\<close>)
  next
    case False
    show thesis using modify_root [OF assms(1) g(1) r assms(4-9) False, of c] that by blast
  qed
  have g3: "grows f f3" by (rule grows_trans [OF g(2) 3(3)])
  have "\<exists>f' p. pick_root sn rq f3 root dst = Some (f', p, None) \<and> served f' \<and> grows f3 f' \<and> (tf_pos f' < 2 ^ 48 \<longrightarrow> (\<exists>h'. root_at sn R f' h' p (upd compare kvs ?acts)))"
  proof (cases "mr_modified dst")
    case True
    then show ?thesis using pick_root_ok [OF assms(1,9) 3(2)] 3(4) by blast
  next
    case False
    then show ?thesis using 3(2,5) root_at_grows [OF assms(3) g3] by (auto simp: pick_root_def)
  qed
  then obtain f4 p where 4: "pick_root sn rq f3 root dst = Some (f4, p, None)" "served f4" "grows f3 f4" "tf_pos f4 < 2 ^ 48 \<Longrightarrow> \<exists>h'. root_at sn R f4 h' p (upd compare kvs ?acts)" by blast
  obtain f5 where 5: "(if p \<noteq> root then copy_node_pointer f4 p else (f4, p)) = (f5, p)" "quiet f4 f5" using copy_ok [OF 4(2)] by blast
  have "modify_btree d sn rq f c root = Some (f5, run_fetches rq c (fetches compare kvs ?acts), p, None)"
    using 1(1) 2(1) 3(1) 4(1) by (simp add: modify_btree_def c_assert_true 5(1))
  moreover have "tf_pos f5 < 2 ^ 48 \<longrightarrow> (\<exists>h'. root_at sn R f5 h' p (upd compare kvs ?acts))"
    using 4(4) 5(2) root_at_grows [OF _ quiet_grows [OF 5(2)]] unfolding quiet_def by metis
  ultimately show ?thesis using 5(2) grows_trans [OF g3 grows_trans [OF 4(3) quiet_grows [OF 5(2)]]] by (auto simp: quiet_def)
qed

section \<open>Building a tree from scratch\<close>

lemma new_btree_ok: "served f \<Longrightarrow> \<exists>f' mr. new_btree_modres f = Some (f', Some mr) \<and> quiet f f' \<and> holds sn f' 0 mr w [] \<and> mr_modified mr"
proof -
  assume s: "served f"
  obtain f1 where 1: "arena_alloc f = (f1, True)" "quiet f f1" using arena_served [OF s] by blast
  then have "served f1" by (simp add: quiet_def)
  then obtain f2 where 2: "make_modres f1 = (f2, Some fresh_mr)" "quiet f1 f2" using make_modres_ok by blast
  have "holds sn f2 0 (fresh_mr\<lparr>mr_modified := True, mr_node_type := KV_NODE\<rparr>) w []" by (rule holds_empty) (simp_all add: node_kind_def)
  then show ?thesis using 1(1) 2(1) quiet_trans [OF 1(2) 2(2)] by (simp add: new_btree_modres_def c_assert_true)
qed

lemma push_all_ok:
  "packer sn N \<Longrightarrow> request rq \<Longrightarrow> served f \<Longrightarrow> short rq (kv0 @ kvs) \<Longrightarrow> fits N (kv0 @ kvs) \<Longrightarrow> list_all kv_ok kvs \<Longrightarrow> holds sn f 0 mr w kv0 \<Longrightarrow>
   \<exists>f' mr'. push_all sn rq f mr kvs = Some (f', mr', None) \<and> served f' \<and> grows f f' \<and> holds sn f' 0 mr' w (kv0 @ kvs) \<and> mr_modified mr' = mr_modified mr"
proof (induction kvs arbitrary: f mr kv0)
  case (Cons kv kvs)
  obtain k v where kv: "kv = (k, v)" by fastforce
  have "short rq (kv0 @ [(k, v)])" "fits N (kv0 @ [(k, v)])" "kv_ok (k, v)"
    using Cons.prems(4-6) fits_append [of N "kv0 @ [(k, v)]" kvs] by (simp_all add: kv short_def)
  then obtain f1 mr1 where 1: "mr_push_item sn rq f k v mr = Some (f1, mr1, None)" "served f1" "grows f f1" "holds sn f1 0 mr1 w (kv0 @ [(k, v)])" "mr_modified mr1 = mr_modified mr"
    using push_item_ok [OF Cons.prems(3,1,2) _ _ Cons.prems(7)] by blast
  obtain f2 mr2 where "push_all sn rq f1 mr1 kvs = Some (f2, mr2, None)" "served f2" "grows f1 f2" "holds sn f2 0 mr2 w ((kv0 @ [(k, v)]) @ kvs)" "mr_modified mr2 = mr_modified mr1"
    using Cons.IH [OF Cons.prems(1,2) 1(2) _ _ _ 1(4)] Cons.prems(4-6) by (auto simp: kv)
  then show ?case using 1 grows_trans [OF 1(3)] by (simp add: kv)
qed auto

lemma complete_new_btree_ok:
  assumes "packer sn N" "request rq" "short rq kvs" "fits N kvs" "served f" "holds sn f 0 mr w kvs" "mr_modified mr"
  shows "\<exists>f' p. complete_new_btree sn rq f mr = Some (f', p, None) \<and> served f' \<and> grows f f' \<and> (tf_pos f' < 2 ^ 48 \<longrightarrow> (\<exists>h. root_at sn R f' h p kvs))"
proof -
  obtain f1 mr1 where 1: "flush_mr sn rq f mr = Some (f1, mr1, None)" "served f1" "grows f f1" "holds sn f1 0 mr1 (w + 1) kvs" "mr_values mr1 = []"
    using flush_mr_ok [OF assms(5,1,4,6,2)] assms(7) by blast
  obtain us where us: "list_all2 (sub sn f1 0) (mr_pointers mr1) us" "kvs = concat us" using 1(4,5) by (rule written_pointers)
  obtain f2 where 2: "make_modres f1 = (f2, Some fresh_mr)" "quiet f1 f2" using make_modres_ok [OF 1(2)] by blast
  have g: "grows f1 f2" "served f2" using quiet_grows [OF 2(2)] 2(2) by (simp_all add: quiet_def)
  let ?t = "fresh_mr\<lparr>mr_modified := True, mr_node_type := KP_NODE\<rparr>"
  have t: "holds sn f2 (Suc 0) ?t 0 []" by (rule holds_empty) (simp_all add: node_kind_def)
  have "list_all2 (sub sn f2 0) (mr_pointers mr1) us" by (rule list_all2_mono [OF us(1)]) (rule sub_grows [OF _ g(1)])
  then obtain f3 targ where 3: "move_pointers_loop sn rq f2 (mr_pointers mr1) ?t = Some (f3, [], targ, None)" "served f3" "grows f2 f3"
    "holds sn f3 (Suc 0) targ (0 + length (mr_pointers mr1)) ([] @ concat us)" "mr_modified targ = mr_modified ?t"
    using move_ok [OF _ g(2) assms(1) _ t assms(2)] assms(3,4) us(2) by (metis append_Nil)
  have "mr_modified targ" "holds sn f3 (Suc 0) targ (length (mr_pointers mr1)) kvs" using 3(4,5) us(2) by simp_all
  then obtain f4 p where 4: "raise_root sn rq f3 targ = Some (f4, p, None)" "served f4" "grows f3 f4" "tf_pos f4 < 2 ^ 48 \<Longrightarrow> \<exists>h'. root_at sn R f4 h' p kvs"
    using raise_root_ok [OF assms(1-4) 3(2)] by blast
  obtain f5 where 5: "copy_node_pointer f4 p = (f5, p)" "quiet f4 f5" using copy_ok [OF 4(2), of p None] by (cases p) (auto simp: copy_node_pointer_def quiet_def 4(2))
  have "complete_new_btree sn rq f mr = Some (f5, p, None)"
    using 1(1) 2(1) 3(1) 4(1) 5(1) unfolding raise_root_def by (simp add: complete_new_btree_def mr_move_pointers_def)
  moreover have "tf_pos f5 < 2 ^ 48 \<longrightarrow> (\<exists>h'. root_at sn R f5 h' p kvs)"
    using 4(4) 5(2) root_at_grows [OF _ quiet_grows [OF 5(2)]] unfolding quiet_def by metis
  ultimately show ?thesis using 5(2) grows_trans [OF 1(3) grows_trans [OF g(1) grows_trans [OF 3(3) grows_trans [OF 4(3) quiet_grows [OF 5(2)]]]]] by (auto simp: quiet_def)
qed

end

end
