(* ===== verification/CouchReduce.thy ===== *)
theory CouchReduce
  imports CouchApply
begin

unbundle bit_operations_syntax

text \<open>
  The reduce functions of the indexes of a database, \<open>couchstore/src/reduces.c\<close>: the by-sequence tree counts its entries, the by-id tree counts
  living and deleted documents and adds up their sizes.  The three kinds of trees a database has are interpretations of \<open>tree_kind\<close>.
\<close>

section \<open>The functions\<close>

definition BP_DELETED_FLAG :: u64 where "BP_DELETED_FLAG = 0x800000000000"

definition by_seq_reduce :: "nodelist list \<Rightarrow> nat \<Rightarrow> bytes option" where
  "by_seq_reduce leaflist count = Some (encode_raw40 (of_nat count))"

fun by_seq_total :: "nodelist list \<Rightarrow> nat \<Rightarrow> u64 \<Rightarrow> u64 option" where
  "by_seq_total [] count tot = Some tot"
| "by_seq_total (i # is) 0 tot = Some tot"
| "by_seq_total (i # is) (Suc count) tot = do {
     p \<leftarrow> nl_pointer i;
     c_assert (5 \<le> length (np_reduce_value p));
     by_seq_total is count (tot + decode_raw40 (np_reduce_value p))
   }"

definition by_seq_rereduce :: "nodelist list \<Rightarrow> nat \<Rightarrow> bytes option" where
  "by_seq_rereduce ptrlist count = map_option encode_raw40 (by_seq_total ptrlist count 0)"

definition encode_by_id_reduce :: "u64 \<Rightarrow> u64 \<Rightarrow> u64 \<Rightarrow> bytes" where
  "encode_by_id_reduce notdeleted deleted sz = encode_raw40 notdeleted @ encode_raw40 deleted @ encode_raw48 sz"

fun by_id_totals :: "nodelist list \<Rightarrow> nat \<Rightarrow> u64 \<times> u64 \<times> u64 \<Rightarrow> (u64 \<times> u64 \<times> u64) option" where
  "by_id_totals [] count acc = Some acc"
| "by_id_totals (i # is) 0 acc = Some acc"
| "by_id_totals (i # is) (Suc count) (notdeleted, deleted, sz) = do {
     c_assert (16 \<le> length (nl_data i));
     let sz = sz + ucast (decode_raw32 (drop 6 (nl_data i)));
     if decode_raw48 (drop 10 (nl_data i)) AND BP_DELETED_FLAG \<noteq> 0 then by_id_totals is count (notdeleted, deleted + 1, sz)
     else by_id_totals is count (notdeleted + 1, deleted, sz)
   }"

definition by_id_reduce :: "nodelist list \<Rightarrow> nat \<Rightarrow> bytes option" where
  "by_id_reduce leaflist count = map_option (\<lambda>(n, d, s). encode_by_id_reduce n d s) (by_id_totals leaflist count (0, 0, 0))"

fun by_id_retotals :: "nodelist list \<Rightarrow> nat \<Rightarrow> u64 \<times> u64 \<times> u64 \<Rightarrow> (u64 \<times> u64 \<times> u64) option" where
  "by_id_retotals [] count acc = Some acc"
| "by_id_retotals (i # is) 0 acc = Some acc"
| "by_id_retotals (i # is) (Suc count) (notdeleted, deleted, sz) = do {
     p \<leftarrow> nl_pointer i;
     let r = np_reduce_value p;
     c_assert (16 \<le> length r);
     by_id_retotals is count (notdeleted + decode_raw40 r, deleted + decode_raw40 (drop 5 r), sz + decode_raw48 (drop 10 r))
   }"

definition by_id_rereduce :: "nodelist list \<Rightarrow> nat \<Rightarrow> bytes option" where
  "by_id_rereduce ptrlist count = map_option (\<lambda>(n, d, s). encode_by_id_reduce n d s) (by_id_retotals ptrlist count (0, 0, 0))"

section \<open>What they compute\<close>

lemma encode_raw_cut:
  "take_bit 40 x = take_bit 40 y \<Longrightarrow> encode_raw40 x = encode_raw40 y" "take_bit 48 x = take_bit 48 y \<Longrightarrow> encode_raw48 x = encode_raw48 y"
proof -
  have m: "mem_le n x = mem_le n y" if "take_bit (8 * n) x = take_bit (8 * n) y" for n and x y :: u64
  proof (rule nth_equalityI)
    fix i assume i: "i < length (mem_le n x)"
    show "mem_le n x ! i = mem_le n y ! i"
    proof (rule bit_word_eqI)
      fix j assume j: "j < LENGTH(8)"
      have "bit (take_bit (8 * n) x) (8 * i + j) = bit (take_bit (8 * n) y) (8 * i + j)" using that by simp
      then show "bit (mem_le n x ! i) j = bit (mem_le n y ! i) j" using i j by (simp add: bit_take_bit_iff bit_unsigned_iff bit_drop_bit_eq)
    qed
  qed simp
  show "take_bit 40 x = take_bit 40 y \<Longrightarrow> encode_raw40 x = encode_raw40 y" using m [of 5 x y] by (simp add: encode_raw_rev)
  show "take_bit 48 x = take_bit 48 y \<Longrightarrow> encode_raw48 x = encode_raw48 y" using m [of 6 x y] by (simp add: encode_raw_rev)
qed

lemma take_bit_sum: "take_bit n (a + take_bit n b) = take_bit n (a + b)" for a b :: u64
proof -
  have "take_bit m (x + take_bit m y) = take_bit m (x + y)" for m and x y :: int
    using take_bit_add [of m x "take_bit m y"] take_bit_add [of m x y] by simp
  then show ?thesis by transfer simp
qed

lemma pointer_item_pointer: "nl_pointer (pointer_item p) = Some p"
  by (simp add: pointer_item_def)

text \<open>The number of entries, modulo the width of its field.\<close>

definition seq_reduced :: "bytes \<Rightarrow> (bytes \<times> bytes) list \<Rightarrow> bool" where
  "seq_reduced r t \<longleftrightarrow> r = encode_raw40 (of_nat (length t))"

definition id_deleted :: "bytes \<times> bytes \<Rightarrow> bool" where
  "id_deleted kv \<longleftrightarrow> decode_raw48 (drop 10 (snd kv)) AND BP_DELETED_FLAG \<noteq> 0"

definition id_size :: "bytes \<times> bytes \<Rightarrow> u64" where
  "id_size kv = ucast (decode_raw32 (drop 6 (snd kv)))"

definition id_reduced :: "bytes \<Rightarrow> (bytes \<times> bytes) list \<Rightarrow> bool" where
  "id_reduced r t \<longleftrightarrow> r = encode_by_id_reduce (of_nat (length (filter (\<lambda>kv. \<not> id_deleted kv) t))) (of_nat (length (filter id_deleted t))) (sum_list (map id_size t))"

definition id_value :: "bytes \<times> bytes \<Rightarrow> bool" where
  "id_value kv \<longleftrightarrow> 16 \<le> length (snd kv)"

lemma by_seq_total_ok:
  "list_all2 (\<lambda>p t. seq_reduced (np_reduce_value p) t) ps ts \<Longrightarrow>
   \<exists>s. by_seq_total (map pointer_item ps @ is) (length ps) tot = Some s \<and> take_bit 40 s = take_bit 40 (tot + of_nat (length (concat ts)))"
proof (induction ps arbitrary: ts tot)
  case Nil
  then show ?case by (cases "is") auto
next
  case (Cons p ps)
  obtain t us where ts: "ts = t # us" "np_reduce_value p = encode_raw40 (of_nat (length t))" "list_all2 (\<lambda>p t. seq_reduced (np_reduce_value p) t) ps us"
    using Cons.prems by (cases ts) (auto simp: seq_reduced_def)
  obtain s where s: "by_seq_total (map pointer_item ps @ is) (length ps) (tot + take_bit 40 (of_nat (length t))) = Some s"
    "take_bit 40 s = take_bit 40 (tot + take_bit 40 (of_nat (length t)) + of_nat (length (concat us)))"
    using Cons.IH [OF ts(3)] by blast
  have "take_bit 40 s = take_bit 40 (tot + of_nat (length (concat ts)))"
    using s(2) take_bit_sum [of 40 "tot + of_nat (length (concat us))" "of_nat (length t)"] by (simp add: ts(1) ac_simps)
  then show ?case using s(1) by (simp add: ts(2) pointer_item_pointer c_assert_true decode_encode_raw)
qed

lemma by_id_totals_ok:
  "list_all id_value kvs \<Longrightarrow> by_id_totals (map leaf_item kvs @ is) (length kvs) (n, d, s) =
     Some (n + of_nat (length (filter (\<lambda>kv. \<not> id_deleted kv) kvs)), d + of_nat (length (filter id_deleted kvs)), s + sum_list (map id_size kvs))"
proof (induction kvs arbitrary: n d s)
  case Nil
  then show ?case by (cases "is") auto
next
  case (Cons kv kvs)
  then show ?case by (simp add: leaf_item_def id_value_def id_deleted_def id_size_def c_assert_true Let_def ac_simps)
qed

lemma by_id_retotals_ok:
  "list_all2 (\<lambda>p t. id_reduced (np_reduce_value p) t) ps ts \<Longrightarrow>
   \<exists>n' d' s'. by_id_retotals (map pointer_item ps @ is) (length ps) (n, d, s) = Some (n', d', s') \<and>
     take_bit 40 n' = take_bit 40 (n + of_nat (length (filter (\<lambda>kv. \<not> id_deleted kv) (concat ts)))) \<and>
     take_bit 40 d' = take_bit 40 (d + of_nat (length (filter id_deleted (concat ts)))) \<and>
     take_bit 48 s' = take_bit 48 (s + sum_list (map id_size (concat ts)))"
proof (induction ps arbitrary: ts n d s)
  case Nil
  then show ?case by (cases "is") auto
next
  case (Cons p ps)
  obtain t us where ts: "ts = t # us" "id_reduced (np_reduce_value p) t" "list_all2 (\<lambda>p t. id_reduced (np_reduce_value p) t) ps us"
    using Cons.prems by (cases ts) auto
  define a b c where "a = (of_nat (length (filter (\<lambda>kv. \<not> id_deleted kv) t)) :: u64)" and "b = (of_nat (length (filter id_deleted t)) :: u64)" and "c = sum_list (map id_size t)"
  have r: "np_reduce_value p = encode_raw40 a @ encode_raw40 b @ encode_raw48 c"
    using ts(2) by (simp add: id_reduced_def encode_by_id_reduce_def a_def b_def c_def)
  have dec: "decode_raw40 (np_reduce_value p) = take_bit 40 a" "decode_raw40 (drop 5 (np_reduce_value p)) = take_bit 40 b" "decode_raw48 (drop 10 (np_reduce_value p)) = take_bit 48 c"
    "16 \<le> length (np_reduce_value p)" by (simp_all add: r decode_raw_prefix decode_encode_raw)
  obtain n' d' s' where 1: "by_id_retotals (map pointer_item ps @ is) (length ps) (n + take_bit 40 a, d + take_bit 40 b, s + take_bit 48 c) = Some (n', d', s')"
    "take_bit 40 n' = take_bit 40 (n + take_bit 40 a + of_nat (length (filter (\<lambda>kv. \<not> id_deleted kv) (concat us))))"
    "take_bit 40 d' = take_bit 40 (d + take_bit 40 b + of_nat (length (filter id_deleted (concat us))))"
    "take_bit 48 s' = take_bit 48 (s + take_bit 48 c + sum_list (map id_size (concat us)))"
    using Cons.IH [OF ts(3)] by blast
  have "take_bit k (x + take_bit k y + z) = take_bit k (x + (y + z))" for k and x y z :: u64
    using take_bit_sum [of k "x + z" y] by (simp add: ac_simps)
  then show ?case using 1 dec by (simp add: pointer_item_pointer c_assert_true ts(1) a_def b_def c_def Let_def)
qed

section \<open>The trees of a database\<close>

interpretation by_seq: tree_kind seq_cmp "Some by_seq_reduce" "Some by_seq_rereduce" seq_reduced "\<lambda>_. True"
proof unfold_locales
  fix kvs :: "(bytes \<times> bytes) list" and "is"
  show "\<exists>r. reduced (Some by_seq_reduce) (map leaf_item kvs @ is) (length kvs) = Some r \<and> length r \<le> 500 \<and> seq_reduced r kvs"
    by (simp add: reduced_def by_seq_reduce_def seq_reduced_def)
next
  fix ps :: "node_pointer list" and ts :: "(bytes \<times> bytes) list list" and "is"
  assume "list_all2 (\<lambda>p. seq_reduced (np_reduce_value p)) ps ts"
  from by_seq_total_ok [OF this, of "is" 0]
  show "\<exists>r. reduced (Some by_seq_rereduce) (map pointer_item ps @ is) (length ps) = Some r \<and> length r \<le> 500 \<and> seq_reduced r (concat ts)"
    by (auto simp: reduced_def by_seq_rereduce_def seq_reduced_def intro: encode_raw_cut)
qed

interpretation by_id: tree_kind ebin_cmp "Some by_id_reduce" "Some by_id_rereduce" id_reduced id_value
proof unfold_locales
  fix kvs :: "(bytes \<times> bytes) list" and "is"
  assume "list_all id_value kvs"
  from by_id_totals_ok [OF this, of "is" 0 0 0]
  show "\<exists>r. reduced (Some by_id_reduce) (map leaf_item kvs @ is) (length kvs) = Some r \<and> length r \<le> 500 \<and> id_reduced r kvs"
    by (simp add: reduced_def by_id_reduce_def id_reduced_def encode_by_id_reduce_def)
next
  fix ps :: "node_pointer list" and ts :: "(bytes \<times> bytes) list list" and "is"
  assume "list_all2 (\<lambda>p. id_reduced (np_reduce_value p)) ps ts"
  from by_id_retotals_ok [OF this, of "is" 0 0 0]
  show "\<exists>r. reduced (Some by_id_rereduce) (map pointer_item ps @ is) (length ps) = Some r \<and> length r \<le> 500 \<and> id_reduced r (concat ts)"
    by (auto simp: reduced_def by_id_rereduce_def id_reduced_def encode_by_id_reduce_def intro!: encode_raw_cut arg_cong2 [of _ _ _ _ append])
qed

definition no_reduce :: "bytes \<Rightarrow> (bytes \<times> bytes) list \<Rightarrow> bool" where
  "no_reduce r t \<longleftrightarrow> r = []"

interpretation local_docs: tree_kind ebin_cmp None None no_reduce "\<lambda>_. True"
  by unfold_locales (simp_all add: reduced_def no_reduce_def)

end
