(* ===== verification/CouchTrees.thy ===== *)
theory CouchTrees
  imports CouchReduce
begin

text \<open>
  The trees of a database as finite maps: what a request of inserts, removals and fetches does to the map, and that a
  lookup in the changed tree answers from the changed map.
\<close>

section \<open>Requests on maps\<close>

definition apply_act :: "(bytes \<rightharpoonup> bytes) \<Rightarrow> 'a modify_action \<Rightarrow> (bytes \<rightharpoonup> bytes)" where
  "apply_act m a = (case act_type a of ACTION_FETCH \<Rightarrow> m | ACTION_REMOVE \<Rightarrow> m(act_key a := None) | ACTION_INSERT \<Rightarrow> m(act_key a \<mapsto> act_data a))"

lemma apply_act_other: "k \<noteq> act_key a \<Longrightarrow> apply_act m a k = m k"
  by (simp add: apply_act_def split: action_type.split)

lemma apply_act_cong: "m k = m' k \<Longrightarrow> apply_act m a k = apply_act m' a k"
  by (simp add: apply_act_def split: action_type.split)

lemma apply_acts_cong: "m k = m' k \<Longrightarrow> foldl apply_act m acts k = foldl apply_act m' acts k"
proof (induction acts arbitrary: m m')
  case (Cons a acts)
  show ?case using Cons.IH [of "apply_act m a" "apply_act m' a"] apply_act_cong [of m k m' a] Cons.prems by simp
qed simp

lemma apply_acts_other: "k \<notin> act_key ` set acts \<Longrightarrow> foldl apply_act m acts k = m k"
  by (induction acts arbitrary: m) (auto simp: apply_act_other)

lemma ebin_less_neq: "ebin_cmp a b < 0 \<Longrightarrow> a \<noteq> b" "0 < ebin_cmp a b \<Longrightarrow> a \<noteq> b"
  using ebin_cmp_eq [of a b] by auto

lemma inserted_map:
  assumes "in_order ebin_cmp (a # as)" "map_of us q = foldl apply_act m as q"
    and "q = act_key a \<Longrightarrow> act_type a = ACTION_REMOVE \<Longrightarrow> m q = None" "q \<noteq> act_key a \<or> act_type a = ACTION_FETCH \<Longrightarrow> m q = m' q"
  shows "map_of (inserted a @ us) q = foldl apply_act m' (a # as) q"
proof (cases "act_type a = ACTION_INSERT \<and> q = act_key a")
  case True
  then have "q \<notin> act_key ` set as" using assms(1) ebin_less_neq(1) unfolding ebin.in_order_Cons by fastforce
  then show ?thesis using True apply_acts_other [of q as "apply_act m' a"] by (simp add: inserted_def apply_act_def)
next
  case False
  then have "apply_act m' a q = m q" using assms(3,4) by (cases "act_type a") (auto simp: apply_act_def)
  then show ?thesis using False assms(2) apply_acts_cong [of "apply_act m' a" q m as] by (auto simp: inserted_def)
qed

lemma ordered_fresh: "ebin.ordered kvs \<Longrightarrow> \<forall>kv \<in> set kvs. ebin_cmp k (fst kv) < 0 \<Longrightarrow> map_of kvs k = None"
  using ebin_less_neq(1) by (fastforce simp: map_of_eq_None_iff)

lemma upd_map: "ebin.ordered kvs \<Longrightarrow> in_order ebin_cmp acts \<Longrightarrow> map_of (upd ebin_cmp kvs acts) q = foldl apply_act (map_of kvs) acts q"
proof (induction kvs acts rule: merge_induct)
  case (rest a as)
  have "in_order ebin_cmp as" using rest.prems(2) by (simp add: ebin.in_order_Cons)
  from inserted_map [OF rest.prems(2) rest.IH [OF rest.prems(1) this]] show ?case by simp
next
  case (step k v kvs a as)
  have as: "in_order ebin_cmp as" "\<forall>kv \<in> set kvs. ebin_cmp k (fst kv) < 0" "ebin.ordered kvs"
    using step.prems by (simp_all add: ebin.in_order_Cons ebin.ordered_Cons)
  consider "ebin_cmp k (act_key a) < 0" | "0 < ebin_cmp k (act_key a)" | "ebin_cmp k (act_key a) = 0" by linarith
  then show ?case
  proof cases
    case 1
    then have "\<forall>b \<in> set (a # as). ebin_cmp k (act_key b) < 0" using ebin.in_order_le [OF step.prems(2)] ebin.cmp_less_le by blast
    then have "k \<notin> act_key ` set (a # as)" using ebin_less_neq(1) by blast
    then have "foldl apply_act (map_of ((k, v) # kvs)) (a # as) k = Some v" using apply_acts_other [of k "a # as" "map_of ((k, v) # kvs)"] by simp
    moreover have "foldl apply_act (map_of ((k, v) # kvs)) (a # as) q = foldl apply_act (map_of kvs) (a # as) q" if "q \<noteq> k"
      by (rule apply_acts_cong) (simp add: that)
    ultimately show ?thesis using 1 step.IH(1) [OF as(3) step.prems(2)] by (cases "q = k") (simp_all del: foldl_Cons map_of.simps add: map_of.simps(2) [of "(k, v)" "upd ebin_cmp kvs (a # as)"])
  next
    case 2
    then have "\<forall>kv \<in> set ((k, v) # kvs). ebin_cmp (act_key a) (fst kv) < 0" using as(2) ebin.cmp_less_trans by (auto simp: ebin.cmp_swap)
    then have "map_of ((k, v) # kvs) (act_key a) = None" by (rule ordered_fresh [OF step.prems(1)])
    then show ?thesis using inserted_map [OF step.prems(2) step.IH(2) [OF step.prems(1) as(1)]] 2 by auto
  next
    case 3
    then have k: "act_key a = k" by (simp add: ebin_cmp_eq)
    have n: "map_of kvs k = None" by (rule ordered_fresh [OF as(3,2)])
    show ?thesis
    proof (cases "act_type a = ACTION_FETCH")
      case True
      then show ?thesis using step.IH(2) [OF step.prems(1) as(1)] 3 by (simp del: map_of.simps add: apply_act_def)
    next
      case False
      then show ?thesis using inserted_map [OF step.prems(2) step.IH(3) [OF as(3,1)], of "map_of ((k, v) # kvs)"] 3 n k by (simp del: map_of.simps) (simp add: map_of.simps(2))
    qed
  qed
qed simp

lemma fetches_map: "ebin.ordered kvs \<Longrightarrow> in_order ebin_cmp acts \<Longrightarrow>
    fetches ebin_cmp kvs acts = map (\<lambda>a. (a, map_of kvs (act_key a))) (filter (\<lambda>a. act_type a = ACTION_FETCH) acts)"
proof (induction kvs acts rule: merge_induct)
  case (rest a as)
  then show ?case by (simp add: missed_def ebin.in_order_Cons)
next
  case (step k v kvs a as)
  have as: "in_order ebin_cmp as" "\<forall>kv \<in> set kvs. ebin_cmp k (fst kv) < 0" "ebin.ordered kvs"
    using step.prems by (simp_all add: ebin.in_order_Cons ebin.ordered_Cons)
  have above: "map (\<lambda>b. (b, map_of ((k, v) # kvs) (act_key b))) (filter (\<lambda>b. act_type b = ACTION_FETCH) bs) =
      map (\<lambda>b. (b, map_of kvs (act_key b))) (filter (\<lambda>b. act_type b = ACTION_FETCH) bs)"
    if "\<forall>b \<in> set bs. ebin_cmp k (act_key b) < 0" for bs :: "'a modify_action list"
    using that ebin_less_neq(1) by fastforce
  consider "ebin_cmp k (act_key a) < 0" | "0 < ebin_cmp k (act_key a)" | "ebin_cmp k (act_key a) = 0" by linarith
  then show ?case
  proof cases
    case 1
    then have "\<forall>b \<in> set (a # as). ebin_cmp k (act_key b) < 0" using ebin.in_order_le [OF step.prems(2)] ebin.cmp_less_le by blast
    note a = above [OF this]
    show ?thesis using 1 a step.IH(1) [OF as(3) step.prems(2)] by (simp del: map_of.simps)
  next
    case 2
    then have "\<forall>kv \<in> set ((k, v) # kvs). ebin_cmp (act_key a) (fst kv) < 0" using as(2) ebin.cmp_less_trans by (auto simp: ebin.cmp_swap)
    then have "map_of ((k, v) # kvs) (act_key a) = None" by (rule ordered_fresh [OF step.prems(1)])
    then show ?thesis using step.IH(2) [OF step.prems(1) as(1)] 2 by (simp add: missed_def del: map_of.simps)
  next
    case 3
    then have k: "act_key a = k" by (simp add: ebin_cmp_eq)
    show ?thesis
    proof (cases "act_type a = ACTION_FETCH")
      case True
      then show ?thesis using step.IH(2) [OF step.prems(1) as(1)] 3 k by simp
    next
      case False
      then have "\<forall>b \<in> set as. ebin_cmp k (act_key b) < 0" using step.prems(2) k unfolding ebin.in_order_Cons by auto
      note a = above [OF this]
      show ?thesis using a step.IH(3) [OF as(3,1)] 3 False by (simp del: map_of.simps)
    qed
  qed
qed simp

section \<open>The by-id tree\<close>

definition by_id_request :: "('a, 'c) modify_request \<Rightarrow> bool" where
  "by_id_request rq \<longleftrightarrow> mq_compare rq = ebin_cmp \<and> mq_reduce rq = Some by_id_reduce \<and> mq_rereduce rq = Some by_id_rereduce \<and> \<not> compacting rq"

definition id_pairs :: "(bytes \<times> bytes) list \<Rightarrow> bool" where
  "id_pairs kvs \<longleftrightarrow> sorted_wrt (\<lambda>a b. ebin_cmp (fst a) (fst b) < 0) kvs \<and> list_all (\<lambda>kv. kv_fits kv \<and> id_value kv) kvs"

definition id_actions :: "'a modify_action list \<Rightarrow> bool" where
  "id_actions acts \<longleftrightarrow> in_order ebin_cmp acts \<and> list_all (\<lambda>kv. kv_fits kv \<and> id_value kv) (concat (map inserted acts))"

definition fetch_all :: "('a, 'c) modify_request \<Rightarrow> (bytes \<rightharpoonup> bytes) \<Rightarrow> 'c \<Rightarrow> 'c" where
  "fetch_all rq m c = foldl (\<lambda>c a. case mq_fetch rq of None \<Rightarrow> c | Some callback \<Rightarrow> callback c (act_key a) (m (act_key a)) (act_arg a)) c
     (filter (\<lambda>a. act_type a = ACTION_FETCH) (mq_actions rq))"

lemma id_pairs_upd:
  assumes "id_pairs kvs" "id_actions acts"
  shows "id_pairs (upd ebin_cmp kvs acts)" "map_of (upd ebin_cmp kvs acts) = foldl apply_act (map_of kvs) acts"
proof -
  have o: "ebin.ordered kvs" "in_order ebin_cmp acts" using assms by (simp_all add: id_pairs_def id_actions_def ebin.ordered_def)
  have "list_all (\<lambda>kv. kv_fits kv \<and> id_value kv) (upd ebin_cmp kvs acts)"
    using assms set_upd [of ebin_cmp kvs acts] unfolding id_pairs_def id_actions_def list_all_iff by blast
  then show "id_pairs (upd ebin_cmp kvs acts)" using ebin.upd_ordered [OF o] by (simp add: id_pairs_def ebin.ordered_def)
  show "map_of (upd ebin_cmp kvs acts) = foldl apply_act (map_of kvs) acts" using upd_map [OF o] by (rule ext)
qed

lemma run_fetches_map: "run_fetches rq c (map (\<lambda>a. (a, m (act_key a))) as) =
    foldl (\<lambda>c a. case mq_fetch rq of None \<Rightarrow> c | Some callback \<Rightarrow> callback c (act_key a) (m (act_key a)) (act_arg a)) c as"
  by (induction as arbitrary: c) simp_all

lemma modify_by_id_pairs:
  assumes "packer sn N" "by_id_request rq" "served f" "root_at sn id_reduced f h root kvs" "h < d" "id_pairs kvs" "id_actions (mq_actions rq)"
    "fits N (upd ebin_cmp kvs (mq_actions rq))"
  shows "\<exists>f' root'. modify_btree d sn rq f c root = Some (f', fetch_all rq (map_of kvs) c, root', None) \<and> served f' \<and>
     (tf_pos f' < 2 ^ 48 \<longrightarrow> (\<exists>h'. root_at sn id_reduced f' h' root' (upd ebin_cmp kvs (mq_actions rq))))"
proof -
  have o: "ebin.ordered kvs" "in_order ebin_cmp (mq_actions rq)" using assms(6,7) by (simp_all add: id_pairs_def id_actions_def ebin.ordered_def)
  have "by_id.changing sn N rq" using assms(1,2) by (simp add: by_id.changing_def by_id.request_def by_id_request_def)
  moreover have "list_all by_id.kv_ok kvs" using assms(6) by (simp add: id_pairs_def by_id.kv_ok_def list_all_iff)
  moreover have "by_id.acts_fit (mq_actions rq)"
    using assms(7) by (auto simp: by_id.acts_fit_def id_actions_def by_id.kv_ok_def list_all_iff inserted_def split: if_splits)
  ultimately obtain f' root' where "modify_btree d sn rq f c root = Some (f', run_fetches rq c (fetches ebin_cmp kvs (mq_actions rq)), root', None)" "served f'"
    "tf_pos f' < 2 ^ 48 \<longrightarrow> (\<exists>h'. root_at sn id_reduced f' h' root' (upd ebin_cmp kvs (mq_actions rq)))"
    using by_id.modify_btree_ok [OF _ assms(3-5) o(1) _ o(2) _ assms(8)] by blast
  then show ?thesis using fetches_map [OF o] by (simp add: fetch_all_def run_fetches_map)
qed

text \<open>
  C7. Changing the by-id index.  A request of inserts, removals and fetches in the order of their keys, on a tree of any height, succeeds when
  the file and the allocator do.  The new root has the pairs of the map that the actions, applied one after the other to the map of the old tree, give, in order and
  with the right numbers of living and deleted documents and the right size in its reduce value; every fetch got what the old tree had
  for its key.  The only other case is a file that has outgrown the 48 bits of a position.
\<close>

theorem modify_by_id:
  assumes "packer sn N" "by_id_request rq" "served f" "root_at sn id_reduced f h root kvs" "h < d" "id_pairs kvs" "id_actions (mq_actions rq)"
    "fits N (upd ebin_cmp kvs (mq_actions rq))"
  shows "\<exists>f' root'. modify_btree d sn rq f c root = Some (f', fetch_all rq (map_of kvs) c, root', None) \<and> served f' \<and>
     (2 ^ 48 \<le> tf_pos f' \<or> (\<exists>h' kvs'. root_at sn id_reduced f' h' root' kvs' \<and> id_pairs kvs' \<and>
        map_of kvs' = foldl apply_act (map_of kvs) (mq_actions rq)))"
proof -
  obtain f' root' where 1: "modify_btree d sn rq f c root = Some (f', fetch_all rq (map_of kvs) c, root', None)" "served f'"
    "tf_pos f' < 2 ^ 48 \<longrightarrow> (\<exists>h'. root_at sn id_reduced f' h' root' (upd ebin_cmp kvs (mq_actions rq)))"
    using modify_by_id_pairs [OF assms] by blast
  have "2 ^ 48 \<le> tf_pos f' \<or> (\<exists>h' kvs'. root_at sn id_reduced f' h' root' kvs' \<and> id_pairs kvs' \<and> map_of kvs' = foldl apply_act (map_of kvs) (mq_actions rq))"
    using 1(3) id_pairs_upd [OF assms(6,7)] by (meson not_le)
  then show ?thesis using 1(1,2) by blast
qed

text \<open>
  C9. A change and a lookup.  After a change of the by-id index, a lookup of any key in the tree of the new root gives its callback what
  the actions made of that key: the inserted value, no value after a removal, and what was there before for all other keys.
\<close>

theorem modify_then_lookup:
  assumes "packer sn N" "by_id_request rq" "served f" "root_at sn id_reduced f h root kvs" "h < d" "id_pairs kvs" "id_actions (mq_actions rq)"
    "fits N (upd ebin_cmp kvs (mq_actions rq))"
    and "modify_btree d sn rq f c root = Some (f', c', Some p, e)" "tf_pos f' < 2 ^ 48"
    and "plain ebin_cmp lrq" "\<not> rq_fold lrq" "rq_keys lrq = [w]"
  shows "\<exists>h'. \<forall>d' > h'. \<exists>f'' lrq'. btree_lookup d' sn f' lrq (np_pointer p) = Some (f'', lrq', None) \<and>
     callback_ctx lrq' = fst (fetch_callback lrq (callback_ctx lrq) w (foldl apply_act (map_of kvs) (mq_actions rq) w))"
proof -
  let ?kvs = "upd ebin_cmp kvs (mq_actions rq)"
  obtain h' where h': "served f'" "root_at sn id_reduced f' h' (Some p) ?kvs"
    using modify_by_id_pairs [OF assms(1-8), of c] assms(9,10) by auto
  have "prefix (valid f') (contents f')" by (simp add: valid_def take_is_prefix)
  then have n: "node_at sn id_reduced (contents f') h' (unat (np_pointer p)) ?kvs" using h'(2) node_at_prefix by (auto simp: root_at_def)
  note ps = id_pairs_upd [OF assms(6,7)]
  have "\<exists>f'' lrq'. btree_lookup d' sn f' lrq (np_pointer p) = Some (f'', lrq', None) \<and> contents f'' = contents f' \<and>
     callback_ctx lrq' = foldl (\<lambda>c w. fst (fetch_callback lrq c w (map_of ?kvs w))) (callback_ctx lrq) (rq_keys lrq)" if "h' < d'" for d'
    by (rule lookup_answers [OF n _ that h'(1) assms(11,12)]) (use ps(1) assms(13) in \<open>simp_all add: id_pairs_def\<close>)
  then show ?thesis using assms(13) ps(2) by (intro exI [of _ h']) fastforce
qed

definition id_request :: "(bytes \<times> bytes) list \<Rightarrow> (unit, unit) modify_request" where
  "id_request kvs = \<lparr>mq_compare = ebin_cmp, mq_actions = map (\<lambda>(k, v). \<lparr>act_type = ACTION_INSERT, act_key = k, act_data = v, act_arg = ()\<rparr>) kvs,
     mq_fetch = None, mq_reduce = Some by_id_reduce, mq_rereduce = Some by_id_rereduce, compacting = False\<rparr>"

definition demo_value :: "u8 \<Rightarrow> bytes" where
  "demo_value b = encode_raw48 1 @ encode_raw32 5 @ encode_raw48 4000 @ encode_raw48 1 @ [b]"

lemma malloc_free: "mem_q f = [] \<Longrightarrow> file_malloc f = (f, True)"
  by (simp add: file_malloc_def)

lemmas run_defs = modify_btree_def make_modres_def arena_alloc_def kv_node_def kv_modify.simps kv_miss_def kv_push_def kv_modified_def mr_push_item_def push_value_def maybe_flush_def
  hand_up_def flush_mr_def flush_mr_partial_def add_pointer_def mr_move_pointers_def pick_root_def values_end_pointer_def copy_node_pointer_def
  CHUNK_THRESHOLD_def CHUNK_SIZE_def item_size_def KV_NODE_def KP_NODE_def node_reduce_def pointer_item_def

lemma end_of_le: "end_of p n \<le> p + 2 * n"
proof (induction n arbitrary: p)
  case (Suc n)
  have "skip_prefix p \<le> p + 1" by (simp add: skip_prefix_def)
  then show ?case using Suc.IH [of "skip_prefix p + 1"] by simp
qed simp

lemma demo_write:
  assumes "length buf < 2 ^ 30"
  obtains f1 n where "db_write_buf_compressed plain_snappy demo_file buf = (f1, Inr (4090, n))" "mem_q f1 = []" "tf_pos f1 \<le> 4106 + 2 * length buf"
    "stored plain_snappy (valid f1) 4090 buf" "io_q f1 = []"
proof -
  have sv: "served demo_file" "packs plain_snappy buf" using assms by (simp_all add: served_def demo_file_def packs_def plain_snappy_def)
  obtain f1 n where w: "db_write_buf_compressed plain_snappy demo_file buf = (f1, Inr (4090, n))" and st: "stored plain_snappy (valid f1) 4090 buf"
    using node_written [OF sv] by (auto simp: demo_file_def)
  have b: "db_write_buf demo_file buf = (f1, Inr (4090, n))" using w by (simp add: db_write_buf_compressed_def file_malloc_def plain_snappy_def demo_file_def)
  have q: "mem_q f1 = []" "io_q f1 = []" using db_write_buf_served [of demo_file buf] b by (auto simp: demo_file_def)
  show ?thesis using that [OF w q(1) _ st q(2)] db_write_buf_ok(3) [OF b] end_of_le [of 4090 "8 + length buf"] by simp
qed

lemma demo_request:
  "mq_reduce (id_request kvs) = Some by_id_reduce" "\<not> compacting (id_request kvs)" "mem_q demo_file = []" "demo_file\<lparr>mem_q := []\<rparr> = demo_file"
  "mq_actions (id_request kvs) = map (\<lambda>(k, v). \<lparr>act_type = ACTION_INSERT, act_key = k, act_data = v, act_arg = ()\<rparr>) kvs"
  by (simp_all add: id_request_def demo_file_def)

lemma demo_value_length: "length (demo_value b) = 23"
  by (simp add: demo_value_def)

lemma demo_reduce:
  obtains r where "by_id_reduce [\<lparr>nl_data = demo_value 7, nl_key = [1], nl_pointer = None\<rparr>] (Suc 0) = Some r" "length r \<le> 500"
  using by_id.reduce_leaf [of "[([1], demo_value 7)]" "[]"] by (auto simp: reduced_def leaf_item_def id_value_def demo_value_length)

text \<open>One pair written to a new tree.\<close>

lemma demo_modify:
  obtains f' p where "modify_btree 1 plain_snappy (id_request [([1], demo_value 7)]) demo_file () None = Some (f', (), Some p, None)" "tf_pos f' < 10000"
    "mem_q f' = []" "io_q f' = []"
proof -
  have "length (1 # write_kv [1] (demo_value 7)) < 2 ^ 30" by (simp add: write_kv_def demo_value_length)
  then obtain f1 n where w: "db_write_buf_compressed plain_snappy demo_file (1 # write_kv [1] (demo_value 7)) = (f1, Inr (4090, n))" "mem_q f1 = []"
    "tf_pos f1 \<le> 4106 + 2 * length (1 # write_kv [1] (demo_value 7))" "io_q f1 = []" by (rule demo_write)
  have "tf_pos f1 < 10000" using w(3) by (simp add: write_kv_def demo_value_length)
  moreover obtain r where "by_id_reduce [\<lparr>nl_data = demo_value 7, nl_key = [1], nl_pointer = None\<rparr>] (Suc 0) = Some r" "length r \<le> 500" by (rule demo_reduce)
  ultimately have "\<exists>f' p. modify_btree 1 plain_snappy (id_request [([1], demo_value 7)]) demo_file () None = Some (f', (), Some p, None) \<and> tf_pos f' < 10000 \<and>
      mem_q f' = [] \<and> io_q f' = []"
    using w(1,2,4) by (simp add: run_defs malloc_free c_assert_def demo_request demo_value_length)
  then show ?thesis using that by blast
qed

lemma demo_packer: "packer plain_snappy 10000"
  by (simp add: packer_def packs_def plain_snappy_def)

lemma demo_hyps:
  "by_id_request (id_request kvs)" "served demo_file" "root_at plain_snappy id_reduced demo_file 0 None []" "id_pairs []"
  "id_actions (mq_actions (id_request [([1], demo_value 7)]))" "fits 10000 (upd ebin_cmp [] (mq_actions (id_request [([1], demo_value 7)])))"
  by (simp_all add: by_id_request_def id_request_def served_def demo_file_def root_at_def id_pairs_def id_actions_def in_order_def inserted_def
      kv_fits_def id_value_def demo_value_def fits_def kv_bytes_def write_kv_def)

theorem modify_by_id_witness:
  "\<exists>f' p h' kvs'. modify_btree 1 plain_snappy (id_request [([1], demo_value 7)]) demo_file () None = Some (f', (), Some p, None) \<and>
     root_at plain_snappy id_reduced f' h' (Some p) kvs' \<and> id_pairs kvs' \<and> map_of kvs' = [[1] \<mapsto> demo_value 7]"
proof -
  obtain f' p where m: "modify_btree 1 plain_snappy (id_request [([1], demo_value 7)]) demo_file () None = Some (f', (), Some p, None)" "tf_pos f' < 10000"
    by (rule demo_modify)
  have "foldl apply_act (map_of []) (mq_actions (id_request [([1], demo_value 7)])) = [[1] \<mapsto> demo_value 7]" by (simp add: id_request_def apply_act_def)
  then have "\<exists>h' kvs'. root_at plain_snappy id_reduced f' h' (Some p) kvs' \<and> id_pairs kvs' \<and> map_of kvs' = [[1] \<mapsto> demo_value 7]"
    using modify_by_id [OF demo_packer demo_hyps(1-3) zero_less_one demo_hyps(4-6), of "()"] m by auto
  then show ?thesis using m(1) by blast
qed

theorem modify_then_lookup_witness:
  "\<exists>f' p d' f'' lrq'. modify_btree 1 plain_snappy (id_request [([1], demo_value 7)]) demo_file () None = Some (f', (), Some p, None) \<and>
     btree_lookup d' plain_snappy f' (log_request [[1]] False) (np_pointer p) = Some (f'', lrq', None) \<and> callback_ctx lrq' = [([1], Some (demo_value 7))]"
proof -
  obtain f' p where m: "modify_btree 1 plain_snappy (id_request [([1], demo_value 7)]) demo_file () None = Some (f', (), Some p, None)" "tf_pos f' < 10000"
    by (rule demo_modify)
  have "\<exists>h'. \<forall>d' > h'. \<exists>f'' lrq'. btree_lookup d' plain_snappy f' (log_request [[1]] False) (np_pointer p) = Some (f'', lrq', None) \<and>
     callback_ctx lrq' = fst (fetch_callback (log_request [[1]] False) (callback_ctx (log_request [[1]] False)) [1]
       (foldl apply_act (map_of []) (mq_actions (id_request [([1], demo_value 7)])) [1]))"
    by (rule modify_then_lookup [OF demo_packer demo_hyps(1-3) zero_less_one demo_hyps(4-6) m(1) _ log_request_plain]) (use m(2) in \<open>simp_all add: log_request_def\<close>)
  then obtain d' f'' lrq' where "btree_lookup d' plain_snappy f' (log_request [[1]] False) (np_pointer p) = Some (f'', lrq', None)"
    "callback_ctx lrq' = [([1], Some (demo_value 7))]"
    by (fastforce simp: log_request_def id_request_def apply_act_def)
  then show ?thesis using m(1) by blast
qed

section \<open>Old trees\<close>

text \<open>
  C13. Copy on write.  A change of a tree, for whatever actions and however it ends, with an error, a failed allocation or a new root, leaves
  every tree that was in the written part of the file in place with all its pairs.
\<close>

theorem modify_btree_keeps:
  assumes "modify_btree d sn rq f c root = Some (f', c', root', e)" "node_at sn R (valid f) h p kvs"
  shows "node_at sn R (valid f') h p kvs"
  using node_at_prefix [OF assms(2) valid_grows [OF conjunct1 [OF modify_btree_appends [OF assms(1), unfolded appends_def]]]] .

theorem modify_btree_keeps_witness:
  "\<exists>f1 n f' root'. db_write_buf_compressed plain_snappy demo_file (1 # kv_bytes [([9], [90])]) = (f1, Inr (4090, n)) \<and>
     modify_btree 1 plain_snappy (id_request [([1], demo_value 7)]) f1 () None = Some (f', (), root', None) \<and>
     node_at plain_snappy no_reduce (valid f') 0 4090 [([9], [90])]"
proof -
  have "packs plain_snappy (1 # kv_bytes [([9], [90])])" by (simp add: packs_def plain_snappy_def write_kv_def)
  from node_written [OF demo_hyps(2) this]
  obtain f1 n where f1: "db_write_buf_compressed plain_snappy demo_file (1 # kv_bytes [([9], [90])]) = (f1, Inr (4090, n))" "served f1"
    "stored plain_snappy (valid f1) 4090 (1 # kv_bytes [([9], [90])])" by (auto simp: demo_file_def)
  have n: "node_at plain_snappy no_reduce (valid f1) 0 4090 [([9], [90])]" by (rule node_at.leaf [OF f1(3)]) (simp add: kv_fits_def)
  have "root_at plain_snappy id_reduced f1 0 None []" by (simp add: root_at_def)
  then obtain f' root' where m: "modify_btree 1 plain_snappy (id_request [([1], demo_value 7)]) f1 () None = Some (f', (), root', None)"
    using modify_by_id_pairs [OF demo_packer demo_hyps(1) f1(2) _ zero_less_one demo_hyps(4-6)] by (metis (full_types) old.unit.exhaust)
  show ?thesis using f1(1) m modify_btree_keeps [OF m n] by blast
qed

section \<open>Trees built from their pairs\<close>

text \<open>
  C16. The by-sequence index of a new file.  Pushing any number of pairs into a new result and completing it gives a tree with exactly these pairs and with their
  number in its reduce value, when keys are not longer than 333 bytes; the loop that stacks levels up to a single root ends.
\<close>

theorem new_btree_by_seq:
  assumes "packer sn N" "mq_compare rq = seq_cmp" "mq_reduce rq = Some by_seq_reduce" "mq_rereduce rq = Some by_seq_rereduce" "served f"
    and "list_all (\<lambda>kv. kv_fits kv \<and> length (fst kv) \<le> 333) kvs" "fits N kvs"
  shows "\<exists>f1 mr f2 mr' f3 root. new_btree_modres f = Some (f1, Some mr) \<and> push_all sn rq f1 mr kvs = Some (f2, mr', None) \<and>
     complete_new_btree sn rq f2 mr' = Some (f3, root, None) \<and> (2 ^ 48 \<le> tf_pos f3 \<or> (\<exists>h. root_at sn seq_reduced f3 h root kvs))"
proof -
  have rq: "by_seq.request rq" using assms(2-4) by (simp add: by_seq.request_def)
  have kvs: "by_seq.short rq kvs" "list_all by_seq.kv_ok kvs" using assms(6) by (auto simp: by_seq.short_def by_seq.kv_ok_def list_all_iff)
  obtain f1 mr where 1: "new_btree_modres f = Some (f1, Some mr)" "quiet f f1" "by_seq.holds sn f1 0 mr 0 []" "mr_modified mr"
    using by_seq.new_btree_ok [OF assms(5)] by blast
  have s: "served f1" using 1(2) by (simp add: quiet_def)
  obtain f2 mr' where 2: "push_all sn rq f1 mr kvs = Some (f2, mr', None)" "served f2" "by_seq.holds sn f2 0 mr' 0 kvs" "mr_modified mr' = mr_modified mr"
    using by_seq.push_all_ok [OF assms(1) rq s _ _ kvs(2) 1(3)] kvs(1) assms(7) by auto
  obtain f3 root where 3: "complete_new_btree sn rq f2 mr' = Some (f3, root, None)" "tf_pos f3 < 2 ^ 48 \<longrightarrow> (\<exists>h. root_at sn seq_reduced f3 h root kvs)"
    using by_seq.complete_new_btree_ok [OF assms(1) rq kvs(1) assms(7) 2(2,3)] 2(4) 1(4) by blast
  have "2 ^ 48 \<le> tf_pos f3 \<or> (\<exists>h. root_at sn seq_reduced f3 h root kvs)" using 3(2) by (meson not_le)
  then show ?thesis using 1(1) 2(1) 3(1) by blast
qed

theorem new_btree_by_seq_witness:
  "\<exists>f1 mr f2 mr' f3 root. new_btree_modres demo_file = Some (f1, Some mr) \<and>
     push_all plain_snappy ((id_request [])\<lparr>mq_compare := seq_cmp, mq_reduce := Some by_seq_reduce, mq_rereduce := Some by_seq_rereduce, compacting := True\<rparr>) f1 mr
       [(encode_raw48 1, [10]), (encode_raw48 2, [20])] = Some (f2, mr', None) \<and>
     complete_new_btree plain_snappy ((id_request [])\<lparr>mq_compare := seq_cmp, mq_reduce := Some by_seq_reduce, mq_rereduce := Some by_seq_rereduce, compacting := True\<rparr>) f2 mr' =
       Some (f3, root, None) \<and>
     (2 ^ 48 \<le> tf_pos f3 \<or> (\<exists>h. root_at plain_snappy seq_reduced f3 h root [(encode_raw48 1, [10]), (encode_raw48 2, [20])]))"
  by (rule new_btree_by_seq [OF demo_packer _ _ _ demo_hyps(2)]) (simp_all add: kv_fits_def fits_def kv_bytes_def write_kv_def)

section \<open>A failed allocation\<close>


end
