(* ===== verification/CouchStuck.thy ===== *)
theory CouchStuck
  imports CouchTrees
begin

text \<open>
  Building a tree from long keys.  A request that compacts writes a node as soon as it has more than \<open>CHUNK_SIZE\<close> bytes.  With a key of 834
  bytes a single pointer is enough for that, every level gets as many nodes as the one below, and the loop of \<open>finish_root\<close> does not end.
\<close>

definition idle :: "nat \<Rightarrow> modify_result \<Rightarrow> bool" where
  "idle H mr \<longleftrightarrow> mr_values mr = [] \<and> mr_node_len mr = 0 \<and> mr_count mr = 0 \<and> mr_node_type mr = node_kind H \<and> mr_modified mr"

definition long :: "(bytes \<times> bytes) list \<Rightarrow> bool" where
  "long t \<longleftrightarrow> t \<noteq> [] \<and> 834 \<le> length (fst (last t))"

context tree_kind
begin

lemma stuck_push:
  assumes "packer sn N" "request rq" "compacting rq" "served f" "fits N t" "idle H dst" "isub sn f H i t" "CHUNK_SIZE < int (item_size i)"
  shows "\<exists>f' p. maybe_flush sn rq f (push_value i dst) = Some (f', dst\<lparr>mr_pointers := mr_pointers dst @ [pointer_item p]\<rparr>, None) \<and>
     served f' \<and> grows f f' \<and> sub sn f' H (pointer_item p) t"
proof -
  let ?mr = "push_value i dst"
  have mr: "mr_values ?mr = [i]" "mr_node_len ?mr = int (item_size i)" "mr_count ?mr = 1" "mr_node_type ?mr = node_kind H" "mr_modified ?mr" "mr_pointers ?mr = mr_pointers dst"
    using assms(6) by (simp_all add: push_value_def idle_def)
  have "list_all2 (isub sn f H) [i] [t]" using assms(7) by simp
  then have "items_size [i] < 2 ^ 64" using items_fit [of sn f H "[i]" "[t]" N] assms(1,5) by (simp add: packer_def)
  then have k: "1 = taken (node_kind H) (of_int (mr_node_len ?mr)) 0 (mr_values ?mr)" using taken_total [of "[i]" "node_kind H" 0] mr by simp
  have l: "list_all2 (isub sn f H) (take 1 (mr_values ?mr)) [t]" using assms(7) mr(1) by simp
  obtain f' p where "flush_mr_partial sn rq f ?mr (of_int (mr_node_len ?mr)) = Some (f', ?mr\<lparr>mr_count := mr_count ?mr - int 1, mr_pointers := mr_pointers ?mr @ [pointer_item p],
       mr_node_len := mr_node_len ?mr - int (items_size (take 1 (mr_values ?mr))), mr_values := drop 1 (mr_values ?mr)\<rparr>, None)"
     "served f'" "grows f f'" "sub sn f' H (pointer_item p) (concat [t])"
    using node_flushed [OF assms(4,1,2) mr(5,4) k zero_less_one l] assms(5) by auto
  moreover have "?mr\<lparr>mr_count := 0, mr_pointers := ps, mr_node_len := 0, mr_values := []\<rparr> = dst\<lparr>mr_pointers := ps\<rparr>" for ps
    using assms(6) by (cases dst) (simp add: idle_def push_value_def)
  ultimately have "maybe_flush sn rq f ?mr = Some (f', dst\<lparr>mr_pointers := mr_pointers dst @ [pointer_item p]\<rparr>, None)" "served f'" "grows f f'" "sub sn f' H (pointer_item p) t"
    using assms(3,8) mr by (simp_all add: maybe_flush_def flush_mr_def)
  then show ?thesis by blast
qed

lemma long_pointer: "sub sn f h i t \<Longrightarrow> long t \<Longrightarrow> CHUNK_SIZE < int (item_size i)"
  by (auto simp: sub_def long_def item_size_def pointer_item_def encode_pointer_def CHUNK_SIZE_def CHUNK_THRESHOLD_def)

lemma stuck_move:
  "packer sn N \<Longrightarrow> request rq \<Longrightarrow> compacting rq \<Longrightarrow> served f \<Longrightarrow> list_all (\<lambda>t. fits N t \<and> long t) us \<Longrightarrow> list_all2 (sub sn f h) is us \<Longrightarrow> idle (Suc h) dst \<Longrightarrow>
   \<exists>f' js. move_pointers_loop sn rq f is dst = Some (f', [], dst\<lparr>mr_pointers := mr_pointers dst @ js\<rparr>, None) \<and> served f' \<and> grows f f' \<and> list_all2 (sub sn f' (Suc h)) js us"
proof (induction "is" arbitrary: f us dst)
  case (Cons i "is")
  obtain t vs where us: "us = t # vs" "sub sn f h i t" "list_all2 (sub sn f h) is vs" using Cons.prems(6) by (cases us) auto
  have t: "fits N t" "long t" "list_all (\<lambda>t. fits N t \<and> long t) vs" using Cons.prems(5) us(1) by simp_all
  have "isub sn f (Suc h) i t" using us(2) by (simp add: isub_def)
  then obtain f1 p where 1: "maybe_flush sn rq f (push_value i dst) = Some (f1, dst\<lparr>mr_pointers := mr_pointers dst @ [pointer_item p]\<rparr>, None)" "served f1" "grows f f1"
    "sub sn f1 (Suc h) (pointer_item p) t"
    using stuck_push [OF Cons.prems(1-4) t(1) Cons.prems(7)] long_pointer [OF us(2) t(2)] by blast
  have "list_all2 (sub sn f1 h) is vs" by (rule list_all2_mono [OF us(3)]) (rule sub_grows [OF _ 1(3)])
  moreover have "idle (Suc h) (dst\<lparr>mr_pointers := mr_pointers dst @ [pointer_item p]\<rparr>)" using Cons.prems(7) by (simp add: idle_def)
  ultimately obtain f2 js where 2: "move_pointers_loop sn rq f1 is (dst\<lparr>mr_pointers := mr_pointers dst @ [pointer_item p]\<rparr>) =
      Some (f2, [], dst\<lparr>mr_pointers := (mr_pointers dst @ [pointer_item p]) @ js\<rparr>, None)" "served f2" "grows f1 f2" "list_all2 (sub sn f2 (Suc h)) js vs"
    using Cons.IH [OF Cons.prems(1-3) 1(2) t(3)] by fastforce
  then show ?case using 1(1) sub_grows [OF 1(4) 2(3)] grows_trans [OF 1(3) 2(3)] us(1)
    by (intro exI [of _ f2] exI [of _ "pointer_item p # js"]) simp
qed (auto intro: exI [of _ "[]"])

lemma idle_flush: "idle H mr \<Longrightarrow> flush_mr sn rq f mr = Some (f, mr, None)"
  by (simp add: idle_def flush_mr_def flush_mr_partial_def)

lemma stuck_level:
  assumes "packer sn N" "request rq" "compacting rq" "served f" "list_all (\<lambda>t. fits N t \<and> long t) us" "list_all2 (sub sn f h) (mr_pointers rr) us"
    "idle (Suc h') coll" "mr_pointers coll = []"
  shows "\<exists>f' coll'. mr_move_pointers sn rq f rr coll = Some (f', rr\<lparr>mr_pointers := []\<rparr>, coll', None) \<and> flush_mr sn rq f' coll' = Some (f', coll', None) \<and>
     served f' \<and> list_all2 (sub sn f' (Suc h)) (mr_pointers coll') us \<and> idle (Suc h') coll'"
proof -
  have "idle (Suc h) coll" using assms(7) by (simp add: idle_def node_kind_def)
  then obtain f' js where "move_pointers_loop sn rq f (mr_pointers rr) coll = Some (f', [], coll\<lparr>mr_pointers := [] @ js\<rparr>, None)" "served f'" "list_all2 (sub sn f' (Suc h)) js us"
    using stuck_move [OF assms(1-6)] assms(8) by (metis append_Nil)
  moreover have "idle (Suc h') (coll\<lparr>mr_pointers := js\<rparr>)" using assms(7) by (simp add: idle_def)
  ultimately show ?thesis using idle_flush by (intro exI [of _ f'] exI [of _ "coll\<lparr>mr_pointers := js\<rparr>"]) (simp add: mr_move_pointers_def)
qed

definition stuck :: "snappy \<Rightarrow> ('a, 'c) modify_request \<Rightarrow> nat \<Rightarrow> (bytes \<times> bytes) list list \<Rightarrow> tree_file \<Rightarrow> modify_result \<Rightarrow> modify_result \<Rightarrow> bool" where
  "stuck sn rq N us f rr coll \<longleftrightarrow> packer sn N \<and> request rq \<and> compacting rq \<and> list_all (\<lambda>t. fits N t \<and> long t) us \<and> 2 \<le> length us \<and>
     served f \<and> (\<exists>h. list_all2 (sub sn f h) (mr_pointers rr) us) \<and> idle 1 rr \<and> idle 1 coll \<and> mr_pointers coll = []"

lemma stuck_step:
  assumes "stuck sn rq N us f rr coll"
  shows "length (mr_pointers rr) \<noteq> 1" "\<exists>f' coll'. mr_move_pointers sn rq f rr coll = Some (f', rr\<lparr>mr_pointers := []\<rparr>, coll', None) \<and>
     flush_mr sn rq f' coll' = Some (f', coll', None) \<and> stuck sn rq N us f' coll' (rr\<lparr>mr_pointers := []\<rparr>)"
proof -
  obtain h where h: "list_all2 (sub sn f h) (mr_pointers rr) us" using assms by (auto simp: stuck_def)
  show "length (mr_pointers rr) \<noteq> 1" using list_all2_lengthD [OF h] assms by (simp add: stuck_def)
  have "\<exists>f' coll'. mr_move_pointers sn rq f rr coll = Some (f', rr\<lparr>mr_pointers := []\<rparr>, coll', None) \<and> flush_mr sn rq f' coll' = Some (f', coll', None) \<and>
     served f' \<and> list_all2 (sub sn f' (Suc h)) (mr_pointers coll') us \<and> idle (Suc 0) coll'"
    by (rule stuck_level [where N = N, OF _ _ _ _ _ h]) (use assms in \<open>simp_all add: stuck_def\<close>)
  then show "\<exists>f' coll'. mr_move_pointers sn rq f rr coll = Some (f', rr\<lparr>mr_pointers := []\<rparr>, coll', None) \<and>
     flush_mr sn rq f' coll' = Some (f', coll', None) \<and> stuck sn rq N us f' coll' (rr\<lparr>mr_pointers := []\<rparr>)"
    using assms by (auto simp: stuck_def idle_def)
qed

lemma finish_loop_stuck:
  assumes "stuck sn rq N us f rr coll"
  shows "finish_loop sn rq f rr coll = None"
proof -
  have "\<not> stuck sn rq N us f rr coll" if "finish_loop sn rq f rr coll = Some y" for y
  proof (rule finish_loop.raw_induct [OF _ that, where P = "\<lambda>sn rq f rr coll y. \<not> stuck sn rq N us f rr coll"])
    fix loop sn and rq :: "('a, 'b) modify_request" and f rr coll y
    assume IH: "\<And>sn rq f rr coll y. loop sn rq f rr coll = Some y \<Longrightarrow> \<not> stuck sn rq N us f rr coll"
      and r: "(if length (mr_pointers rr) = 1 then Some (f, nl_pointer (hd (mr_pointers rr)), None)
        else mr_move_pointers sn rq f rr coll \<bind> (\<lambda>(f, rr, coll, e). if e \<noteq> None then Some (f, None, e)
          else flush_mr sn rq f coll \<bind> (\<lambda>(f, coll, e). if e \<noteq> None then Some (f, None, e) else loop sn rq f coll rr))) = Some y"
    show "\<not> stuck sn rq N us f rr coll"
    proof
      assume s: "stuck sn rq N us f rr coll"
      from stuck_step(2) [OF s] obtain f' coll' where "mr_move_pointers sn rq f rr coll = Some (f', rr\<lparr>mr_pointers := []\<rparr>, coll', None)"
        "flush_mr sn rq f' coll' = Some (f', coll', None)" "stuck sn rq N us f' coll' (rr\<lparr>mr_pointers := []\<rparr>)" by blast
      then show False using IH r stuck_step(1) [OF s] by auto
    qed
  qed
  then show ?thesis using assms by (meson not_None_eq)
qed

lemma stuck_fill:
  "packer sn N \<Longrightarrow> request rq \<Longrightarrow> compacting rq \<Longrightarrow> served f \<Longrightarrow> list_all (\<lambda>kv. kv_ok kv \<and> fits N [kv] \<and> 834 \<le> length (fst kv) \<and> 16 \<le> length (snd kv)) kvs \<Longrightarrow> idle 0 mr \<Longrightarrow>
   \<exists>f' js. push_all sn rq f mr kvs = Some (f', mr\<lparr>mr_pointers := mr_pointers mr @ js\<rparr>, None) \<and> served f' \<and> grows f f' \<and> list_all2 (sub sn f' 0) js (map (\<lambda>kv. [kv]) kvs)"
proof (induction kvs arbitrary: f mr)
  case (Cons kv kvs)
  obtain k v where kv: "kv = (k, v)" by fastforce
  obtain f0 where 0: "arena_alloc f = (f0, True)" "quiet f f0" using arena_served [OF Cons.prems(4)] by blast
  have "isub sn f0 0 (leaf_item kv) [kv]" "CHUNK_SIZE < int (item_size (leaf_item kv))" "served f0" "fits N [kv]"
    using Cons.prems(5) 0(2) by (auto simp: isub_def item_size_def leaf_item_def CHUNK_SIZE_def CHUNK_THRESHOLD_def quiet_def)
  then obtain f1 p where 1: "maybe_flush sn rq f0 (push_value (leaf_item kv) mr) = Some (f1, mr\<lparr>mr_pointers := mr_pointers mr @ [pointer_item p]\<rparr>, None)" "served f1" "grows f0 f1"
    "sub sn f1 0 (pointer_item p) [kv]"
    using stuck_push [OF Cons.prems(1-3) _ _ Cons.prems(6)] by blast
  have push: "mr_push_item sn rq f k v mr = Some (f1, mr\<lparr>mr_pointers := mr_pointers mr @ [pointer_item p]\<rparr>, None)"
    using 0(1) 1(1) by (simp add: mr_push_item_def leaf_item_def kv)
  have g: "grows f f1" by (rule grows_trans [OF quiet_grows [OF 0(2)] 1(3)])
  have "idle 0 (mr\<lparr>mr_pointers := mr_pointers mr @ [pointer_item p]\<rparr>)" using Cons.prems(6) by (simp add: idle_def)
  then obtain f2 js where 2: "push_all sn rq f1 (mr\<lparr>mr_pointers := mr_pointers mr @ [pointer_item p]\<rparr>) kvs =
      Some (f2, mr\<lparr>mr_pointers := (mr_pointers mr @ [pointer_item p]) @ js\<rparr>, None)" "served f2" "grows f1 f2" "list_all2 (sub sn f2 0) js (map (\<lambda>kv. [kv]) kvs)"
    using Cons.IH [OF Cons.prems(1-3) 1(2)] Cons.prems(5) by fastforce
  then show ?case using push sub_grows [OF 1(4) 2(3)] grows_trans [OF g 2(3)]
    by (intro exI [of _ f2] exI [of _ "pointer_item p # js"]) (simp add: kv)
qed (auto intro: exI [of _ "[]"])

lemma complete_stuck:
  assumes "packer sn N" "request rq" "compacting rq" "served f" "list_all (\<lambda>t. fits N t \<and> long t) us" "2 \<le> length us"
    "list_all2 (sub sn f 0) (mr_pointers mr) us" "idle 0 mr"
  shows "complete_new_btree sn rq f mr = None"
proof -
  let ?t = "fresh_mr\<lparr>mr_modified := True, mr_node_type := KP_NODE\<rparr>"
  obtain f1 where 1: "make_modres f = (f1, Some fresh_mr)" "quiet f f1" using make_modres_ok [OF assms(4)] by blast
  have g: "grows f f1" "served f1" using quiet_grows [OF 1(2)] 1(2) by (simp_all add: quiet_def)
  have t: "idle (Suc 0) ?t" "mr_pointers ?t = []" by (simp_all add: idle_def node_kind_def)
  have "list_all2 (sub sn f1 0) (mr_pointers mr) us" by (rule list_all2_mono [OF assms(7)]) (rule sub_grows [OF _ g(1)])
  from stuck_level [OF assms(1-3) g(2) assms(5) this t]
  obtain f2 targ where 2: "mr_move_pointers sn rq f1 mr ?t = Some (f2, mr\<lparr>mr_pointers := []\<rparr>, targ, None)" "flush_mr sn rq f2 targ = Some (f2, targ, None)"
    "served f2" "list_all2 (sub sn f2 (Suc 0)) (mr_pointers targ) us" "idle (Suc 0) targ" by blast
  have n: "mr_pointers targ \<noteq> []" using list_all2_lengthD [OF 2(4)] assms(6) by auto
  obtain f3 where 3: "make_modres f2 = (f3, Some fresh_mr)" "quiet f2 f3" using make_modres_ok [OF 2(3)] by blast
  have g3: "grows f2 f3" "served f3" using quiet_grows [OF 3(2)] 3(2) by (simp_all add: quiet_def)
  have "list_all2 (sub sn f3 (Suc 0)) (mr_pointers targ) us" by (rule list_all2_mono [OF 2(4)]) (rule sub_grows [OF _ g3(1)])
  then have "stuck sn rq N us f3 targ ?t" using assms(1-3,5,6) g3(2) 2(5) t by (auto simp: stuck_def)
  then have "finish_root sn rq f2 targ = None" using finish_loop_stuck 3(1) idle_flush [OF 2(5), of sn rq f3] by (simp add: finish_root_def)
  then show ?thesis using idle_flush [OF assms(8), of sn rq f] 1(1) 2(1) n by (simp add: complete_new_btree_def)
qed

end

lemma new_btree_fresh: "served f \<Longrightarrow> \<exists>f'. new_btree_modres f = Some (f', Some (by_id.fresh_mr\<lparr>mr_modified := True, mr_node_type := KV_NODE\<rparr>)) \<and> quiet f f'"
proof -
  assume s: "served f"
  obtain f1 where 1: "arena_alloc f = (f1, True)" "quiet f f1" using by_id.arena_served [OF s] by blast
  then have "served f1" by (simp add: quiet_def)
  then obtain f2 where 2: "make_modres f1 = (f2, Some by_id.fresh_mr)" "quiet f1 f2" using by_id.make_modres_ok by blast
  show ?thesis using 1(1) 2(1) quiet_trans [OF 1(2) 2(2)] by (simp add: new_btree_modres_def c_assert_true)
qed

text \<open>
  C38. Long document ids.  Building the by-id index of a new file from two or more documents whose ids have at least 834 bytes,
  with a file and an allocator that never fail, pushes all pairs without an error, and then completing the tree does not return.
\<close>

theorem long_ids_never_end:
  assumes "packer sn N" "mq_compare rq = ebin_cmp" "mq_reduce rq = Some by_id_reduce" "mq_rereduce rq = Some by_id_rereduce" "compacting rq" "served f"
    and "list_all (\<lambda>kv. kv_fits kv \<and> id_value kv \<and> fits N [kv] \<and> 834 \<le> length (fst kv)) kvs" "2 \<le> length kvs"
  shows "\<exists>f1 mr f2 mr'. new_btree_modres f = Some (f1, Some mr) \<and> push_all sn rq f1 mr kvs = Some (f2, mr', None) \<and> complete_new_btree sn rq f2 mr' = None"
proof -
  have rq: "by_id.request rq" using assms(2-4) by (simp add: by_id.request_def)
  have kvs: "list_all (\<lambda>kv. by_id.kv_ok kv \<and> fits N [kv] \<and> 834 \<le> length (fst kv) \<and> 16 \<le> length (snd kv)) kvs"
    using assms(7) by (simp add: list_all_iff by_id.kv_ok_def id_value_def)
  let ?mr = "by_id.fresh_mr\<lparr>mr_modified := True, mr_node_type := KV_NODE\<rparr>"
  obtain f1 where 1: "new_btree_modres f = Some (f1, Some ?mr)" "quiet f f1" using new_btree_fresh [OF assms(6)] by blast
  have i: "idle 0 ?mr" "served f1" using 1(2) by (simp_all add: idle_def node_kind_def quiet_def)
  obtain f2 js where 2: "push_all sn rq f1 ?mr kvs = Some (f2, ?mr\<lparr>mr_pointers := [] @ js\<rparr>, None)" "served f2" "list_all2 (by_id.sub sn f2 0) js (map (\<lambda>kv. [kv]) kvs)"
    using by_id.stuck_fill [OF assms(1) rq assms(5) i(2) kvs i(1)] by auto
  have "complete_new_btree sn rq f2 (?mr\<lparr>mr_pointers := js\<rparr>) = None"
    by (rule by_id.complete_stuck [OF assms(1) rq assms(5) 2(2) _ _ _ ])
       (use 2(3) assms(7,8) i(1) in \<open>auto simp: idle_def long_def list_all_iff\<close>)
  then show ?thesis using 1(1) 2(1) by auto
qed

theorem long_ids_never_end_witness:
  "\<exists>f1 mr f2 mr'. new_btree_modres demo_file = Some (f1, Some mr) \<and>
     push_all plain_snappy ((id_request [])\<lparr>compacting := True\<rparr>) f1 mr [(replicate 834 1, demo_value 7), (replicate 834 2, demo_value 7)] = Some (f2, mr', None) \<and>
     complete_new_btree plain_snappy ((id_request [])\<lparr>compacting := True\<rparr>) f2 mr' = None"
  by (rule long_ids_never_end [OF demo_packer])
     (simp_all add: id_request_def demo_hyps(2) kv_fits_def id_value_def demo_value_length fits_def kv_bytes_def write_kv_def)

end
