(* ===== verification/CouchDb.thy ===== *)
theory CouchDb
  imports CouchTrees
begin

text \<open>
  The header of a database and its recovery, \<open>couchstore/src/couch_db.c\<close>: a commit writes a header with the roots of the trees at the start of a block, and
  opening a file looks for the last valid one, block by block from its end.
\<close>

section \<open>Databases\<close>

record db_header =
  disk_version :: u64
  update_seq :: u64
  by_id_root :: "node_pointer option"
  by_seq_root :: "node_pointer option"
  local_docs_root :: "node_pointer option"
  purge_seq :: u64
  purge_ptr :: u64
  position :: u64

record couch_db =
  db_file :: tree_file
  hdr :: db_header

definition COUCH_DISK_VERSION :: u8 where "COUCH_DISK_VERSION = 11"

definition ROOT_BASE_SIZE :: nat where "ROOT_BASE_SIZE = 12"

definition HEADER_BASE_SIZE :: nat where "HEADER_BASE_SIZE = 25"

type_synonym db_result = "(couch_db \<times> couchstore_error_t option) option"

section \<open>Reading a header\<close>

text \<open>
  A root of the header: what it was before, when its size is refused, and what was read, also when its position is refused.  \<open>read_root\<close> copies into the
  result of its \<open>malloc\<close> without a test.
\<close>

definition read_db_root :: "couch_db \<Rightarrow> node_pointer option \<Rightarrow> bytes \<Rightarrow> (couch_db \<times> node_pointer option \<times> couchstore_error_t option) option" where
  "read_db_root db old root_data =
     (if 0 < length root_data then
        if length root_data < ROOT_BASE_SIZE then Some (db, old, Some COUCHSTORE_ERROR_CORRUPT)
        else (case file_malloc (db_file db) of (f, ok) \<Rightarrow> do {
          c_assert ok;
          let root = read_root root_data;
          Some (db\<lparr>db_file := f\<rparr>, Some root, if np_pointer root < position (hdr db) then None else Some COUCHSTORE_ERROR_CORRUPT)
        })
      else Some (db, None, None))"

text \<open>The three roots behind the fixed part, one after the other.\<close>

definition read_roots :: "couch_db \<Rightarrow> bytes \<Rightarrow> nat \<Rightarrow> nat \<Rightarrow> db_result" where
  "read_roots db root_data seqrootsize idrootsize = do {
     (db, root, e) \<leftarrow> read_db_root db (by_seq_root (hdr db)) (take seqrootsize root_data);
     let db = db\<lparr>hdr := (hdr db)\<lparr>by_seq_root := root\<rparr>\<rparr>;
     if e \<noteq> None then Some (db, e)
     else do {
       (db, root, e) \<leftarrow> read_db_root db (by_id_root (hdr db)) (take idrootsize (drop seqrootsize root_data));
       let db = db\<lparr>hdr := (hdr db)\<lparr>by_id_root := root\<rparr>\<rparr>;
       if e \<noteq> None then Some (db, e)
       else do {
         (db, root, e) \<leftarrow> read_db_root db (local_docs_root (hdr db)) (drop (seqrootsize + idrootsize) root_data);
         Some (db\<lparr>hdr := (hdr db)\<lparr>local_docs_root := root\<rparr>\<rparr>, e)
       }
     }
   }"

text \<open>The fields of a header; its length is compared only after they were read.\<close>

definition read_header_fields :: "couch_db \<Rightarrow> nat \<Rightarrow> bytes \<Rightarrow> db_result" where
  "read_header_fields db pos buf = do {
     c_assert (1 \<le> length buf);
     let h = (hdr db)\<lparr>position := of_nat pos, disk_version := ucast (decode_raw08 buf)\<rparr>;
     if disk_version h \<noteq> ucast COUCH_DISK_VERSION then Some (db\<lparr>hdr := h\<rparr>, Some COUCHSTORE_ERROR_HEADER_VERSION)
     else do {
       c_assert (HEADER_BASE_SIZE \<le> length buf);
       let h = h\<lparr>update_seq := decode_raw48 (drop 1 buf), purge_seq := decode_raw48 (drop 7 buf), purge_ptr := decode_raw48 (drop 13 buf)\<rparr>;
       let db = db\<lparr>hdr := h\<rparr>;
       let seqrootsize = unat (decode_raw16 (drop 19 buf));
       let idrootsize = unat (decode_raw16 (drop 21 buf));
       let localrootsize = unat (decode_raw16 (drop 23 buf));
       if position h < purge_ptr h then Some (db, Some COUCHSTORE_ERROR_CORRUPT)
       else if length buf \<noteq> HEADER_BASE_SIZE + seqrootsize + idrootsize + localrootsize then Some (db, Some COUCHSTORE_ERROR_CORRUPT)
       else read_roots db (drop HEADER_BASE_SIZE buf) seqrootsize idrootsize
     }
   }"

definition find_header_at_pos :: "couch_db \<Rightarrow> nat \<Rightarrow> db_result" where
  "find_header_at_pos db pos =
     (case pread (db_file db) 2 pos of
        (f, Inl _) \<Rightarrow> Some (db\<lparr>db_file := f\<rparr>, Some COUCHSTORE_ERROR_READ)
      | (f, Inr buf) \<Rightarrow>
          let db = db\<lparr>db_file := f\<rparr>
          in if length buf \<noteq> 2 then Some (db, Some COUCHSTORE_ERROR_READ)
             else if buf ! 0 = 0 then Some (db, Some COUCHSTORE_ERROR_NO_HEADER)
             else if buf ! 0 \<noteq> 1 then Some (db, Some COUCHSTORE_ERROR_CORRUPT)
             else (case pread_header f pos of
                     (f, Inl e) \<Rightarrow> Some (db\<lparr>db_file := f\<rparr>, Some e)
                   | (f, Inr header_buf) \<Rightarrow> read_header_fields (db\<lparr>db_file := f\<rparr>) pos header_buf))"

text \<open>The scan, from block \<open>k\<close> down to block 0.\<close>

fun find_header_loop :: "nat \<Rightarrow> couch_db \<Rightarrow> couchstore_error_t \<Rightarrow> db_result" where
  "find_header_loop k db last_header_errcode = do {
     (db, e) \<leftarrow> find_header_at_pos db (k * COUCH_BLOCK_SIZE);
     let next = (\<lambda>err. case k of 0 \<Rightarrow> Some (db, Some err) | Suc j \<Rightarrow> find_header_loop j db err);
     (case e of
        None \<Rightarrow> Some (db, None)
      | Some COUCHSTORE_ERROR_NO_HEADER \<Rightarrow> next last_header_errcode
      | Some COUCHSTORE_ERROR_ALLOC_FAIL \<Rightarrow> Some (db, Some COUCHSTORE_ERROR_ALLOC_FAIL)
      | Some err \<Rightarrow> next err)
   }"

declare find_header_loop.simps [simp del]

text \<open>For a file of one byte the remainder is negative and the scan starts at 0.\<close>

definition find_header :: "couch_db \<Rightarrow> db_result" where
  "find_header db = find_header_loop ((tf_pos (db_file db) - 2) div COUCH_BLOCK_SIZE) db COUCHSTORE_ERROR_NO_HEADER"

section \<open>Writing a header\<close>

definition root_size :: "node_pointer option \<Rightarrow> nat" where
  "root_size root = (case root of None \<Rightarrow> 0 | Some n \<Rightarrow> ROOT_BASE_SIZE + length (np_reduce_value n))"

definition encode_header :: "db_header \<Rightarrow> bytes" where
  "encode_header h =
     encode_raw08 COUCH_DISK_VERSION @ encode_raw48 (update_seq h) @ encode_raw48 (purge_seq h) @ encode_raw48 (purge_ptr h) @
     encode_raw16 (of_nat (root_size (by_seq_root h))) @ encode_raw16 (of_nat (root_size (by_id_root h))) @
     encode_raw16 (of_nat (root_size (local_docs_root h))) @
     encode_root (by_seq_root h) @ encode_root (by_id_root h) @ encode_root (local_docs_root h)"

text \<open>The result of \<open>calloc\<close> is used without a test.\<close>

definition write_header :: "couch_db \<Rightarrow> db_result" where
  "write_header db =
     (case file_malloc (db_file db) of (f, ok) \<Rightarrow> do {
        c_assert ok;
        (case db_write_header f (encode_header (hdr db)) of
           (f, Inl e) \<Rightarrow> Some (db\<lparr>db_file := f\<rparr>, Some e)
         | (f, Inr pos) \<Rightarrow> Some (db\<lparr>db_file := f, hdr := (hdr db)\<lparr>position := of_nat pos\<rparr>\<rparr>, None))
      })"

definition create_header :: "couch_db \<Rightarrow> db_result" where
  "create_header db = write_header (db\<lparr>hdr := \<lparr>disk_version = ucast COUCH_DISK_VERSION, update_seq = 0, by_id_root = None, by_seq_root = None,
     local_docs_root = None, purge_seq = 0, purge_ptr = 0, position = 0\<rparr>\<rparr>)"

text \<open>\<open>sync\<close> of the file operations.\<close>

definition file_sync :: "tree_file \<Rightarrow> tree_file \<times> couchstore_error_t option" where
  "file_sync f = (case io_q f of [] \<Rightarrow> (f, None) | Io_ok n # q \<Rightarrow> (f\<lparr>io_q := q\<rparr>, None) | Io_err e # q \<Rightarrow> (f\<lparr>io_q := q\<rparr>, Some e))"

definition couchstore_commit :: "couch_db \<Rightarrow> db_result" where
  "couchstore_commit db =
     (let curpos = tf_pos (db_file db);
          sizes = 25 + root_size (by_seq_root (hdr db)) + root_size (by_id_root (hdr db)) + root_size (local_docs_root (hdr db))
      in case db_write_buf ((db_file db)\<lparr>tf_pos := curpos + sizes\<rparr>) [0] of (f, _) \<Rightarrow>
         (case file_sync f of (f, e) \<Rightarrow>
            let db = db\<lparr>db_file := f\<lparr>tf_pos := curpos\<rparr>\<rparr>
            in if e \<noteq> None then Some (db, e)
               else do {
                 (db, e) \<leftarrow> write_header db;
                 if e \<noteq> None then Some (db, e)
                 else (case file_sync (db_file db) of (f, e) \<Rightarrow> Some (db\<lparr>db_file := f\<rparr>, e))
               }))"

text \<open>Opening, behind \<open>tree_file_open\<close>: the flag tells a file opened only for reading.\<close>

definition couchstore_open_db :: "bool \<Rightarrow> couch_db \<Rightarrow> db_result" where
  "couchstore_open_db rdonly db =
     (let db = db\<lparr>db_file := (db_file db)\<lparr>tf_pos := length (contents (db_file db))\<rparr>\<rparr>
      in if tf_pos (db_file db) = 0 then if rdonly then Some (db, Some COUCHSTORE_ERROR_NO_HEADER) else create_header db
         else find_header db)"

section \<open>A header is read back\<close>

text \<open>What a file keeps of a root: the key of its last item is not stored, and the size of the tree is cut to 48 bits.\<close>

definition stored_root :: "node_pointer \<Rightarrow> node_pointer" where
  "stored_root n = n\<lparr>np_key := [], np_subtreesize := take_bit 48 (np_subtreesize n)\<rparr>"

definition stored_header :: "db_header \<Rightarrow> nat \<Rightarrow> db_header" where
  "stored_header h p = h\<lparr>disk_version := ucast COUCH_DISK_VERSION, by_id_root := map_option stored_root (by_id_root h),
     by_seq_root := map_option stored_root (by_seq_root h), local_docs_root := map_option stored_root (local_docs_root h), position := of_nat p\<rparr>"

definition root_ok :: "nat \<Rightarrow> node_pointer option \<Rightarrow> bool" where
  "root_ok p root \<longleftrightarrow> (case root of None \<Rightarrow> True | Some n \<Rightarrow> unat (np_pointer n) < p \<and> length (np_reduce_value n) \<le> 300)"

definition header_ok :: "db_header \<Rightarrow> nat \<Rightarrow> bool" where
  "header_ok h p \<longleftrightarrow> p < 2 ^ 48 \<and> unat (update_seq h) < 2 ^ 48 \<and> unat (purge_seq h) < 2 ^ 48 \<and> unat (purge_ptr h) \<le> p \<and>
     root_ok p (by_seq_root h) \<and> root_ok p (by_id_root h) \<and> root_ok p (local_docs_root h)"

lemma root_ok_le: "root_ok p root \<Longrightarrow> p \<le> q \<Longrightarrow> root_ok q root"
  by (auto simp: root_ok_def split: option.splits)

lemma length_encode_root: "length (encode_root root) = root_size root"
  by (simp add: encode_root_def root_size_def ROOT_BASE_SIZE_def split: option.split)

lemma root_size_le: "root_ok p root \<Longrightarrow> root_size root \<le> 312"
  by (simp add: root_ok_def root_size_def ROOT_BASE_SIZE_def split: option.splits)

lemma length_encode_header: "length (encode_header h) = 25 + root_size (by_seq_root h) + root_size (by_id_root h) + root_size (local_docs_root h)"
  by (simp add: encode_header_def length_encode_root)

lemma read_stored_root:
  assumes "unat (np_pointer n) < 2 ^ 48"
  shows "read_root (encode_root (Some n)) = stored_root n"
  using assms by (simp add: read_root_def encode_root_def decode_raw_prefix decode_encode_raw take_bit_small stored_root_def)

lemma read_db_root_ok:
  assumes "root_ok p root" "p < 2 ^ 48" "position (hdr db) = of_nat p" "mem_q (db_file db) = []"
  shows "read_db_root db old (encode_root root) = Some (db, map_option stored_root root, None)"
proof (cases root)
  case (Some n)
  have p: "unat (of_nat p :: u64) = p" using assms(2) by (simp add: unsigned_of_nat take_bit_nat_eq_self)
  have "length (encode_root (Some n)) = ROOT_BASE_SIZE + length (np_reduce_value n)" by (simp add: length_encode_root root_size_def)
  moreover have "read_root (encode_root (Some n)) = stored_root n" by (rule read_stored_root) (use assms(1,2) Some in \<open>simp add: root_ok_def\<close>)
  moreover have "np_pointer n < of_nat p" using assms(1) Some p by (simp add: root_ok_def word_less_nat_alt)
  ultimately show ?thesis using assms(3,4) Some by (simp add: read_db_root_def ROOT_BASE_SIZE_def malloc_free c_assert_def stored_root_def)
qed (simp add: read_db_root_def encode_root_def)

lemma read_roots_ok:
  assumes "root_ok p a" "root_ok p b" "root_ok p c" "p < 2 ^ 48" "position (hdr db) = of_nat p" "mem_q (db_file db) = []"
  shows "read_roots db (encode_root a @ encode_root b @ encode_root c) (root_size a) (root_size b) =
     Some (db\<lparr>hdr := (hdr db)\<lparr>by_seq_root := map_option stored_root a, by_id_root := map_option stored_root b, local_docs_root := map_option stored_root c\<rparr>\<rparr>, None)"
  using assms by (simp add: read_roots_def read_db_root_ok length_encode_root Let_def)

lemma header_fields:
  "decode_raw08 (encode_header h) = COUCH_DISK_VERSION" "decode_raw48 (drop 1 (encode_header h)) = take_bit 48 (update_seq h)"
  "decode_raw48 (drop 7 (encode_header h)) = take_bit 48 (purge_seq h)" "decode_raw48 (drop 13 (encode_header h)) = take_bit 48 (purge_ptr h)"
  "decode_raw16 (drop 19 (encode_header h)) = of_nat (root_size (by_seq_root h))" "decode_raw16 (drop 21 (encode_header h)) = of_nat (root_size (by_id_root h))"
  "decode_raw16 (drop 23 (encode_header h)) = of_nat (root_size (local_docs_root h))"
  "drop 25 (encode_header h) = encode_root (by_seq_root h) @ encode_root (by_id_root h) @ encode_root (local_docs_root h)"
proof -
  have "encode_raw08 COUCH_DISK_VERSION @ r = COUCH_DISK_VERSION # r" for r by (simp add: encode_raw08_def mem_le_def)
  then show "decode_raw08 (encode_header h) = COUCH_DISK_VERSION" by (simp add: encode_header_def decode_raw08_def)
qed (simp_all add: encode_header_def decode_raw_prefix decode_encode_raw)

lemma read_header_fields_ok:
  assumes "header_ok h p" "mem_q (db_file db) = []"
  shows "read_header_fields db p (encode_header h) = Some (db\<lparr>hdr := stored_header h p\<rparr>, None)"
proof -
  let ?s = "root_size (by_seq_root h)" and ?i = "root_size (by_id_root h)" and ?l = "root_size (local_docs_root h)"
  have ok: "root_ok p (by_seq_root h)" "root_ok p (by_id_root h)" "root_ok p (local_docs_root h)" "p < 2 ^ 48" using assms(1) by (simp_all add: header_ok_def)
  have "?s \<le> 312" "?i \<le> 312" "?l \<le> 312" using ok root_size_le by blast+
  then have u: "unat (of_nat ?s :: u16) = ?s" "unat (of_nat ?i :: u16) = ?i" "unat (of_nat ?l :: u16) = ?l"
    by (simp_all add: unsigned_of_nat take_bit_nat_eq_self)
  have t: "take_bit 48 (update_seq h) = update_seq h" "take_bit 48 (purge_seq h) = purge_seq h" "take_bit 48 (purge_ptr h) = purge_ptr h"
    using assms(1) by (auto simp: header_ok_def intro!: take_bit_small)
  have "unat (of_nat p :: u64) = p" using ok(4) by (simp add: unsigned_of_nat take_bit_nat_eq_self)
  then have "\<not> of_nat p < purge_ptr h" using assms(1) by (simp add: header_ok_def word_less_nat_alt)
  moreover have "(hdr db)\<lparr>position := of_nat p, disk_version := ucast COUCH_DISK_VERSION, update_seq := update_seq h, purge_seq := purge_seq h, purge_ptr := purge_ptr h,
      by_seq_root := map_option stored_root (by_seq_root h), by_id_root := map_option stored_root (by_id_root h),
      local_docs_root := map_option stored_root (local_docs_root h)\<rparr> = stored_header h p"
    by (cases "hdr db"; cases h) (simp add: stored_header_def)
  ultimately show ?thesis using length_encode_header [of h] assms(2)
    by (simp add: read_header_fields_def c_assert_def Let_def header_fields header_fields(2) [simplified] HEADER_BASE_SIZE_def u t read_roots_ok [OF ok])
qed

text \<open>A file and an allocator that serve everything: reading leaves the state as it is.\<close>

lemma read_loop_idle: "io_q f = [] \<Longrightarrow> read_skipping_loop f pos len dst = (f', r) \<Longrightarrow> f' = f"
proof (induction f pos len dst rule: read_skipping_loop.induct)
  case (1 f pos len dst)
  define rs where "rs = (if len < COUCH_BLOCK_SIZE - pos mod COUCH_BLOCK_SIZE then len else COUCH_BLOCK_SIZE - pos mod COUCH_BLOCK_SIZE)"
  have p: "pread f rs pos = (f, Inr (take rs (drop pos (contents f))))" using "1.prems"(1) by (simp add: pread_def)
  note eq = "1.prems"(2) [unfolded read_skipping_loop.simps [of f pos len dst] Let_def, folded rs_def, unfolded p]
  show ?case
  proof (cases "0 < len \<and> take rs (drop pos (contents f)) \<noteq> []")
    case True
    then show ?thesis using eq "1.IH" [OF _ refl refl p [unfolded rs_def, symmetric] refl _ "1.prems"(1)] by (simp add: rs_def)
  qed (use eq in \<open>auto split: if_splits\<close>)
qed

lemma pread_idle:
  assumes "io_q f = []" "mem_q f = []" "pread_bin_internal f pos header = (f', r)"
  shows "f' = f"
proof -
  have l: "fst (read_skipping_prefixes f q n) = f" for q n using read_loop_idle [OF assms(1)] by (metis read_skipping_prefixes_def prod.collapse)
  have b: "fst (read_chunk_body f q n c) = f" for q n c using l [of q "unat n"]
    by (auto simp: read_chunk_body_def malloc_free [OF assms(2)] split: sum.splits prod.splits)
  obtain r1 where r1: "read_skipping_prefixes f pos 8 = (f, r1)" using l by (metis prod.collapse)
  show ?thesis using assms(3) b by (auto simp: pread_bin_internal_def r1 Let_def split: sum.splits prod.splits if_splits) (metis fst_conv)+
qed

lemma header_two: "header_at c p bs \<Longrightarrow> p + 1 < length c"
proof -
  assume h: "header_at c p bs"
  define info where "info = chunk_info (of_nat (length bs + 4)) bs"
  have "length info = 8" by (simp add: info_def)
  then obtain x xs where "info = x # xs" by (cases info) auto
  then have "skip_prefix (p + 1) < length c" using h by (simp add: header_at_def info_def [symmetric] del: of_nat_add)
  then show ?thesis using skip_prefix_ge [of "p + 1"] by linarith
qed

lemma find_header_at_pos_ok:
  assumes "header_at (contents (db_file db)) p (encode_header h)" "header_ok h p" "io_q (db_file db) = []" "mem_q (db_file db) = []"
  shows "find_header_at_pos db p = Some (db\<lparr>hdr := stored_header h p\<rparr>, None)"
proof -
  let ?f = "db_file db" and ?c = "contents (db_file db)"
  have c: "p < length ?c" "?c ! p = 1" using assms(1) by (simp_all add: header_at_def)
  have "p + 1 < length ?c" by (rule header_two [OF assms(1)])
  then have "length (take 2 (drop p ?c)) = 2" "take 2 (drop p ?c) ! 0 = 1" using c(1,2) by simp_all
  moreover have "length (encode_header h) + 4 \<le> 1024"
    using assms(2) root_size_le [of p "by_seq_root h"] root_size_le [of p "by_id_root h"] root_size_le [of p "local_docs_root h"]
    by (simp add: length_encode_header header_ok_def)
  then obtain f' where "pread_header ?f p = (f', Inr (encode_header h))"
    using pread_header_ok [OF _ assms(1)] assms(3,4) by (auto simp: served_def)
  moreover from this have "f' = ?f" using pread_idle assms(3,4) by (simp add: pread_header_def)
  ultimately show ?thesis using assms(2-4) by (simp add: find_header_at_pos_def pread_def read_header_fields_ok)
qed

lemma no_header_here:
  assumes "io_q (db_file db) = []" "p + 2 \<le> length (contents (db_file db))" "contents (db_file db) ! p = 0"
  shows "find_header_at_pos db p = Some (db, Some COUCHSTORE_ERROR_NO_HEADER)"
  using assms by (simp add: find_header_at_pos_def pread_def)

text \<open>The scan goes back over blocks without a mark to the last header.\<close>

lemma find_header_loop_ok:
  assumes "header_at (contents (db_file db)) (b * COUCH_BLOCK_SIZE) (encode_header h)" "header_ok h (b * COUCH_BLOCK_SIZE)"
    "unmarked (contents (db_file db)) (b * COUCH_BLOCK_SIZE + 1)" "io_q (db_file db) = []" "mem_q (db_file db) = []"
  shows "b \<le> k \<Longrightarrow> k * COUCH_BLOCK_SIZE + 2 \<le> length (contents (db_file db)) \<Longrightarrow>
     find_header_loop k db err = Some (db\<lparr>hdr := stored_header h (b * COUCH_BLOCK_SIZE)\<rparr>, None)"
proof (induction k arbitrary: err)
  case 0
  then show ?case using find_header_at_pos_ok [OF assms(1,2,4,5)] by (subst find_header_loop.simps) simp
next
  case (Suc k)
  show ?case
  proof (cases "b = Suc k")
    case True
    then show ?thesis using find_header_at_pos_ok [OF assms(1,2,4,5)] by (subst find_header_loop.simps) simp
  next
    case False
    let ?p = "Suc k * COUCH_BLOCK_SIZE"
    have "b * COUCH_BLOCK_SIZE \<le> k * COUCH_BLOCK_SIZE" using Suc.prems(1) False by (intro mult_right_mono) simp_all
    then have "b * COUCH_BLOCK_SIZE + 1 \<le> ?p" by (simp add: COUCH_BLOCK_SIZE_def)
    then have "contents (db_file db) ! ?p = 0" using assms(3) Suc.prems(2) unfolding unmarked_def by simp
    then have "find_header_at_pos db ?p = Some (db, Some COUCHSTORE_ERROR_NO_HEADER)" using no_header_here [OF assms(4) Suc.prems(2)] by blast
    moreover have "find_header_loop k db err = Some (db\<lparr>hdr := stored_header h (b * COUCH_BLOCK_SIZE)\<rparr>, None)"
      using Suc.IH Suc.prems False by (simp add: COUCH_BLOCK_SIZE_def)
    ultimately show ?thesis by (subst find_header_loop.simps) simp
  qed
qed

definition committed :: "tree_file \<Rightarrow> db_header \<Rightarrow> nat \<Rightarrow> bool" where
  "committed f h p \<longleftrightarrow> header_at (contents f) p (encode_header h) \<and> header_ok h p \<and> unmarked (contents f) (p + 1) \<and>
     end_of (p + 1) (8 + length (encode_header h)) \<le> tf_pos f"

lemma open_committed:
  assumes "committed f h p"
  shows "\<exists>db. couchstore_open_db rdonly \<lparr>db_file = f\<lparr>io_q := [], mem_q := []\<rparr>, hdr = h0\<rparr> = Some (db, None) \<and> hdr db = stored_header h p \<and> contents (db_file db) = contents f \<and>
     served (db_file db)"
proof -
  let ?f = "f\<lparr>io_q := [], mem_q := [], tf_pos := length (contents f)\<rparr>" and ?c = "contents f"
  let ?db = "\<lparr>db_file = ?f, hdr = h0\<rparr>" and ?b = "p div COUCH_BLOCK_SIZE" and ?k = "(length ?c - 2) div COUCH_BLOCK_SIZE"
  have h: "header_at ?c p (encode_header h)" "header_ok h p" "unmarked ?c (p + 1)" using assms by (simp_all add: committed_def)
  have p: "?b * COUCH_BLOCK_SIZE = p" using h(1) by (auto simp: header_at_def)
  have two: "p + 1 < length ?c" by (rule header_two [OF h(1)])
  have k: "?b \<le> ?k" by (rule div_le_mono) (use two in simp)
  have "?k * COUCH_BLOCK_SIZE \<le> length ?c - 2" by (rule div_times_less_eq_dividend)
  then have l: "?k * COUCH_BLOCK_SIZE + 2 \<le> length ?c" using two by linarith
  have "find_header_loop ?k ?db COUCHSTORE_ERROR_NO_HEADER = Some (?db\<lparr>hdr := stored_header h (?b * COUCH_BLOCK_SIZE)\<rparr>, None)"
    by (rule find_header_loop_ok) (use h k l p in simp_all)
  then show ?thesis using two p by (auto simp add: couchstore_open_db_def find_header_def served_def Let_def)
qed

lemma committed_appends:
  assumes "committed f h p" "appends f f'"
  shows "committed f' h p"
proof -
  let ?bs = "chunk_info (of_nat (length (encode_header h) + 4)) (encode_header h) @ encode_header h"
  have k: "keeps (tf_pos f) (contents f) (contents f')" "tf_pos f \<le> tf_pos f'" "unmarked (contents f') (p + 1)"
    using assms by (simp_all add: appends_def grows_def committed_def)
  have h: "p mod COUCH_BLOCK_SIZE = 0" "p < length (contents f)" "contents f ! p = 1" "data_at (contents f) (p + 1) ?bs" "header_ok h p"
    and e: "end_of (p + 1) (length ?bs) \<le> tf_pos f"
    using assms(1) by (simp_all add: committed_def header_at_def)
  have "data_at (contents f') (p + 1) ?bs" by (rule data_at_keeps [OF h(4) k(1) e])
  moreover have "p < tf_pos f" using e end_of_ge [of "p + 1" "length ?bs"] by linarith
  then have "p < length (contents f')" "contents f' ! p = 1" using k(1) h(2,3) by (auto simp: keeps_def)
  ultimately show ?thesis using h k e by (simp add: committed_def header_at_def)
qed

section \<open>Commits\<close>

lemma header_write_unmarked:
  assumes "db_write_header f buf = (f', r)" "unmarked (contents f) (header_start (tf_pos f) + 1)"
  shows "unmarked (contents f') (header_start (tf_pos f) + 1)"
proof -
  let ?info = "1 # chunk_info (of_nat (length buf + 4)) buf" and ?p = "header_start (tf_pos f)"
  have "(?p + i) mod COUCH_BLOCK_SIZE = i" if "i < 9" for i
  proof -
    obtain n where "?p = COUCH_BLOCK_SIZE * n" using header_start(1) [of "tf_pos f"] by (metis dvdE mod_0_imp_dvd)
    then show ?thesis using that by (simp add: COUCH_BLOCK_SIZE_def)
  qed
  then have w: "?info ! i = 0" if "i < length ?info" "?p + 1 \<le> ?p + i" "(?p + i) mod COUCH_BLOCK_SIZE = 0" for i using that by fastforce
  from assms(1) show ?thesis
  proof (cases rule: db_write_header_cases)
    case (fail e)
    show ?thesis by (rule pwrite_unmarked [OF fail(1) assms(2) w])
  next
    case (body f1 w1 f2 r2)
    have "unmarked (contents f1) (?p + 1)" by (rule pwrite_unmarked [OF body(1) assms(2) w])
    then have "unmarked (contents f2) (?p + 1)" using raw_write_unmarked body(2) unfolding raw_write_def by blast
    then show ?thesis using body(3,4) by (cases r2) auto
  qed
qed

lemma db_write_header_served:
  assumes "io_q f = []"
  shows "\<exists>f' p. db_write_header f buf = (f', Inr p) \<and> io_q f' = [] \<and> mem_q f' = mem_q f"
proof -
  let ?bs = "1 # chunk_info (of_nat (length buf + 4)) buf"
  define f1 where "f1 = f\<lparr>contents := file_put (contents f) (header_start (tf_pos f)) ?bs\<rparr>"
  have p: "pwrite f ?bs (header_start (tf_pos f)) = (f1, Inr (length ?bs))" using assms by (simp add: pwrite_def f1_def)
  have "io_q f1 = []" using assms by (simp add: f1_def)
  then obtain f2 e where w: "raw_write f1 buf (header_start (tf_pos f) + length ?bs) = (f2, Inr e)" "io_q f2 = []" using raw_write_served by blast
  obtain f' r where h: "db_write_header f buf = (f', r)" by fastforce
  then have "f' = f2\<lparr>tf_pos := e\<rparr> \<and> r = Inr (header_start (tf_pos f))" by (cases rule: db_write_header_cases) (use p w(1) in auto)
  then show ?thesis using h w raw_write_ok(3) [OF w(1)] by (simp add: f1_def)
qed

lemma write_header_commits:
  assumes "io_q (db_file db) = []" "mem_q (db_file db) = []" "unmarked (contents (db_file db)) (tf_pos (db_file db))"
    and "header_ok (hdr db) (header_start (tf_pos (db_file db)))"
  shows "\<exists>f'. write_header db = Some (\<lparr>db_file = f', hdr = (hdr db)\<lparr>position := of_nat (header_start (tf_pos (db_file db)))\<rparr>\<rparr>, None) \<and>
     committed f' (hdr db) (header_start (tf_pos (db_file db))) \<and> io_q f' = [] \<and> mem_q f' = [] \<and> grows (db_file db) f'"
proof -
  let ?f = "db_file db" and ?bs = "encode_header (hdr db)" and ?p = "header_start (tf_pos (db_file db))"
  obtain f' p where w: "db_write_header ?f ?bs = (f', Inr p)" "io_q f' = []" "mem_q f' = []" using db_write_header_served [OF assms(1)] assms(2) by metis
  have "first_full ?f" using assms(1) by (simp add: first_full_def)
  then have ok: "p = ?p" "header_at (contents f') ?p ?bs" "tf_pos f' = end_of (Suc ?p) (8 + length ?bs)" using db_write_header_ok [OF w(1)] by auto
  have "unmarked (contents ?f) (?p + 1)" by (rule unmarked_le [OF assms(3)]) (simp add: header_start(2) le_SucI)
  then have "unmarked (contents f') (?p + 1)" by (rule header_write_unmarked [OF w(1)])
  then have "committed f' (hdr db) ?p" using ok assms(4) by (simp add: committed_def)
  then show ?thesis using w ok(1) db_write_header_grows [OF w(1)] malloc_free [OF assms(2)]
    by (intro exI [of _ f']) (cases db, simp add: write_header_def c_assert_def)
qed

text \<open>A commit that is served writes the header of the database.\<close>

lemma commit_ok:
  assumes "io_q (db_file db) = []" "mem_q (db_file db) = []" "unmarked (contents (db_file db)) (tf_pos (db_file db))"
    and "header_ok (hdr db) (header_start (tf_pos (db_file db)))"
  shows "\<exists>f'. couchstore_commit db = Some (\<lparr>db_file = f', hdr = (hdr db)\<lparr>position := of_nat (header_start (tf_pos (db_file db)))\<rparr>\<rparr>, None) \<and>
     committed f' (hdr db) (header_start (tf_pos (db_file db))) \<and> grows (db_file db) f'"
proof -
  let ?f = "db_file db" and ?n = "25 + root_size (by_seq_root (hdr db)) + root_size (by_id_root (hdr db)) + root_size (local_docs_root (hdr db))"
  let ?g = "?f\<lparr>tf_pos := tf_pos ?f + ?n\<rparr>"
  obtain f1 p n where z: "db_write_buf ?g [0] = (f1, Inr (p, n))" "io_q f1 = []" "mem_q f1 = []" using db_write_buf_served [of ?g "[0]"] assms(1,2) by auto
  let ?f1 = "f1\<lparr>tf_pos := tf_pos ?f\<rparr>"
  have u: "unmarked (contents ?f1) (tf_pos ?f)" using write_buf_unmarked [OF z(1), of "tf_pos ?f"] assms(3) by simp
  have "keeps (tf_pos ?f + ?n) (contents ?f) (contents f1)" using db_write_buf_grows [OF z(1)] by (simp add: grows_def)
  then have g1: "grows ?f ?f1" using keeps_le [of "tf_pos ?f + ?n" "contents ?f" "contents f1" "tf_pos ?f"] by (simp add: grows_def)
  let ?db = "db\<lparr>db_file := ?f1\<rparr>"
  obtain f2 where w: "write_header ?db = Some (\<lparr>db_file = f2, hdr = (hdr db)\<lparr>position := of_nat (header_start (tf_pos ?f))\<rparr>\<rparr>, None)"
    "committed f2 (hdr db) (header_start (tf_pos ?f))" "io_q f2 = []" "grows ?f1 f2"
    using write_header_commits [of ?db] z(2,3) u assms(4) by auto
  have "couchstore_commit db = Some (\<lparr>db_file = f2, hdr = (hdr db)\<lparr>position := of_nat (header_start (tf_pos ?f))\<rparr>\<rparr>, None)"
    using z(1,2) w(1,3) by (simp add: couchstore_commit_def Let_def file_sync_def)
  then show ?thesis using w(2) grows_trans [OF g1 w(4)] by blast
qed

section \<open>Recovery\<close>

text \<open>
  What goes on with a file between two commits: documents and nodes are written, trees changed and chunks read, in any order, with
  any of it failing half way, and the environment may at any time begin to serve in another way.  The argument of a fetch and what its callback collects
  are byte strings and lists of them, as in \<open>couch_save.c\<close>.
\<close>

inductive data_step :: "tree_file \<Rightarrow> tree_file \<Rightarrow> bool" where
  document: "db_write_buf f buf = (f', r) \<Longrightarrow> data_step f f'"
| compressed: "db_write_buf_compressed sn f buf = (f', r) \<Longrightarrow> data_step f f'"
| change: "modify_btree d sn (rq :: (bytes, bytes list) modify_request) f c root = Some (f', c', root', e) \<Longrightarrow> data_step f f'"
| look: "pread_bin_internal f p header = (f', r'') \<Longrightarrow> data_step f f'"
| environment: "data_step f (f\<lparr>io_q := q, mem_q := m\<rparr>)"

lemma data_step_appends: "data_step f f' \<Longrightarrow> appends f f'"
proof (induction rule: data_step.induct)
  case (environment f q m)
  show ?case by (simp add: appends_def grows_def)
qed (fact db_write_buf_appends db_write_compressed_appends modify_btree_appends pread_bin_appends)+

lemma data_steps_appends: "data_step\<^sup>*\<^sup>* f f' \<Longrightarrow> appends f f'"
  by (induction rule: rtranclp_induct) (auto intro: appends_trans data_step_appends)

text \<open>
  C5. A commit survives.  A commit of a database whose roots lie in the written part of its file, served by the file and the allocator, succeeds.  Whatever is then
  written to the file without another commit, and wherever that stops, opening the file again finds the header of the commit: its
  sequence numbers and its three roots, without the key and with 48 bits of the size.
\<close>

theorem commit_survives:
  assumes "io_q (db_file db) = []" "mem_q (db_file db) = []" "unmarked (contents (db_file db)) (tf_pos (db_file db))"
    and "header_ok (hdr db) (header_start (tf_pos (db_file db)))"
  shows "\<exists>db1. couchstore_commit db = Some (db1, None) \<and> hdr db1 = (hdr db)\<lparr>position := of_nat (header_start (tf_pos (db_file db)))\<rparr> \<and>
     (\<forall>f2 h0 rdonly. data_step\<^sup>*\<^sup>* (db_file db1) f2 \<longrightarrow>
        (\<exists>db2. couchstore_open_db rdonly \<lparr>db_file = f2\<lparr>io_q := [], mem_q := []\<rparr>, hdr = h0\<rparr> = Some (db2, None) \<and>
           hdr db2 = stored_header (hdr db) (header_start (tf_pos (db_file db)))))"
proof -
  let ?p = "header_start (tf_pos (db_file db))"
  obtain f1 where 1: "couchstore_commit db = Some (\<lparr>db_file = f1, hdr = (hdr db)\<lparr>position := of_nat ?p\<rparr>\<rparr>, None)" "committed f1 (hdr db) ?p"
    using commit_ok [OF assms] by blast
  have "\<exists>db2. couchstore_open_db rdonly \<lparr>db_file = f2\<lparr>io_q := [], mem_q := []\<rparr>, hdr = h0\<rparr> = Some (db2, None) \<and> hdr db2 = stored_header (hdr db) ?p"
    if "data_step\<^sup>*\<^sup>* f1 f2" for f2 h0 rdonly
    using open_committed [OF committed_appends [OF 1(2) data_steps_appends [OF that]]] by blast
  then show ?thesis using 1(1) by (intro exI [of _ "\<lparr>db_file = f1, hdr = (hdr db)\<lparr>position := of_nat ?p\<rparr>\<rparr>"]) simp
qed

definition new_header :: "node_pointer option \<Rightarrow> db_header" where
  "new_header root = \<lparr>disk_version = 11, update_seq = 1, by_id_root = root, by_seq_root = None, local_docs_root = None, purge_seq = 0, purge_ptr = 0, position = 0\<rparr>"

theorem commit_survives_witness:
  "\<exists>db1 f2 r db2. couchstore_commit \<lparr>db_file = demo_file, hdr = new_header None\<rparr> = Some (db1, None) \<and>
     db_write_buf ((db_file db1)\<lparr>io_q := [Io_ok 2, Io_err COUCHSTORE_ERROR_WRITE], mem_q := []\<rparr>) [1, 2, 3] = (f2, r) \<and>
     couchstore_open_db False \<lparr>db_file = f2\<lparr>io_q := [], mem_q := []\<rparr>, hdr = new_header None\<rparr> = Some (db2, None) \<and> update_seq (hdr db2) = 1"
proof -
  let ?db = "\<lparr>db_file = demo_file, hdr = new_header None\<rparr>"
  have h: "io_q (db_file ?db) = []" "mem_q (db_file ?db) = []" "unmarked (contents (db_file ?db)) (tf_pos (db_file ?db))"
    "header_ok (hdr ?db) (header_start (tf_pos (db_file ?db)))"
    by (simp_all add: demo_file_def unmarked_def header_ok_def new_header_def header_start_def COUCH_BLOCK_SIZE_def root_ok_def)
  obtain db1 where 1: "couchstore_commit ?db = Some (db1, None)" "\<forall>f2 h0 rdonly. data_step\<^sup>*\<^sup>* (db_file db1) f2 \<longrightarrow>
        (\<exists>db2. couchstore_open_db rdonly \<lparr>db_file = f2\<lparr>io_q := [], mem_q := []\<rparr>, hdr = h0\<rparr> = Some (db2, None) \<and>
           hdr db2 = stored_header (hdr ?db) (header_start (tf_pos (db_file ?db))))"
    using commit_survives [OF h] by blast
  obtain f2 r where 2: "db_write_buf ((db_file db1)\<lparr>io_q := [Io_ok 2, Io_err COUCHSTORE_ERROR_WRITE], mem_q := []\<rparr>) [1, 2, 3] = (f2, r)" by fastforce
  have "data_step\<^sup>*\<^sup>* (db_file db1) f2"
    by (rule converse_rtranclp_into_rtranclp [OF data_step.environment r_into_rtranclp [of data_step, OF data_step.document [OF 2]]])
  then obtain db2 where "couchstore_open_db False \<lparr>db_file = f2\<lparr>io_q := [], mem_q := []\<rparr>, hdr = new_header None\<rparr> = Some (db2, None)" "update_seq (hdr db2) = 1"
    using 1(2) by (fastforce simp: stored_header_def new_header_def)
  then show ?thesis using 1(1) 2 by blast
qed

text \<open>
  C4. Committed documents are found again.  When the by-id root of a database has the pairs \<open>kvs\<close> at its commit, then after any
  writes, changes and failures that follow, and after opening the file again, a lookup of any key from the by-id root of the header that was found answers from these pairs.
\<close>

theorem committed_lookup:
  assumes "io_q (db_file db) = []" "mem_q (db_file db) = []" "unmarked (contents (db_file db)) (tf_pos (db_file db))"
    and "header_ok (hdr db) (header_start (tf_pos (db_file db)))"
    and "by_id_root (hdr db) = Some n" "root_at sn id_reduced (db_file db) h (Some n) kvs" "id_pairs kvs" "h < d"
    and "couchstore_commit db = Some (db1, None)" "data_step\<^sup>*\<^sup>* (db_file db1) f2"
    and "plain ebin_cmp rq" "\<not> rq_fold rq" "rq_keys rq = [w]"
  shows "\<exists>db2 n2 f3 rq'. couchstore_open_db rdonly \<lparr>db_file = f2\<lparr>io_q := [], mem_q := []\<rparr>, hdr = h0\<rparr> = Some (db2, None) \<and> by_id_root (hdr db2) = Some n2 \<and>
     btree_lookup d sn (db_file db2) rq (np_pointer n2) = Some (f3, rq', None) \<and> callback_ctx rq' = fst (fetch_callback rq (callback_ctx rq) w (map_of kvs w))"
proof -
  let ?p = "header_start (tf_pos (db_file db))"
  obtain f1 where 1: "couchstore_commit db = Some (\<lparr>db_file = f1, hdr = (hdr db)\<lparr>position := of_nat ?p\<rparr>\<rparr>, None)" "committed f1 (hdr db) ?p" "grows (db_file db) f1"
    using commit_ok [OF assms(1-4)] by blast
  have a: "appends f1 f2" using assms(9,10) 1(1) data_steps_appends by auto
  obtain db2 where 2: "couchstore_open_db rdonly \<lparr>db_file = f2\<lparr>io_q := [], mem_q := []\<rparr>, hdr = h0\<rparr> = Some (db2, None)" "hdr db2 = stored_header (hdr db) ?p"
    "contents (db_file db2) = contents f2" "served (db_file db2)"
    using open_committed [OF committed_appends [OF 1(2) a]] by blast
  have "grows (db_file db) f2" using grows_trans [OF 1(3)] a by (simp add: appends_def)
  then have "root_at sn id_reduced f2 h (Some n) kvs" by (rule root_at_grows [OF assms(6)])
  moreover have "prefix (valid f2) (contents f2)" by (simp add: valid_def take_is_prefix)
  ultimately have n: "node_at sn id_reduced (contents (db_file db2)) h (unat (np_pointer n)) kvs" using node_at_prefix 2(3) by (auto simp: root_at_def)
  have "\<exists>f3 rq'. btree_lookup d sn (db_file db2) rq (np_pointer n) = Some (f3, rq', None) \<and> contents f3 = contents (db_file db2) \<and>
     callback_ctx rq' = foldl (\<lambda>c w. fst (fetch_callback rq c w (map_of kvs w))) (callback_ctx rq) (rq_keys rq)"
    by (rule lookup_answers [OF n _ assms(8) 2(4) assms(11,12)]) (use assms(7,13) in \<open>simp_all add: id_pairs_def\<close>)
  then obtain f3 rq' where 3: "btree_lookup d sn (db_file db2) rq (np_pointer n) = Some (f3, rq', None)"
    "callback_ctx rq' = fst (fetch_callback rq (callback_ctx rq) w (map_of kvs w))" using assms(13) by auto
  have "by_id_root (hdr db2) = Some (stored_root n)" "np_pointer (stored_root n) = np_pointer n" using 2(2) assms(5) by (simp_all add: stored_header_def stored_root_def)
  then show ?thesis using 2(1) 3 by metis
qed

lemma header_start_le: "header_start q \<le> q + COUCH_BLOCK_SIZE"
  by (simp add: header_start_def)

theorem committed_lookup_witness:
  "\<exists>f' n db1 db2 n2 f3 rq'. modify_btree 1 plain_snappy (id_request [([1], demo_value 7)]) demo_file () None = Some (f', (), Some n, None) \<and>
     couchstore_commit \<lparr>db_file = f', hdr = new_header (Some n)\<rparr> = Some (db1, None) \<and>
     couchstore_open_db False \<lparr>db_file = (db_file db1)\<lparr>io_q := [], mem_q := []\<rparr>, hdr = new_header None\<rparr> = Some (db2, None) \<and> by_id_root (hdr db2) = Some n2 \<and>
     (\<exists>d. btree_lookup d plain_snappy (db_file db2) (log_request [[1]] False) (np_pointer n2) = Some (f3, rq', None)) \<and> callback_ctx rq' = [([1], Some (demo_value 7))]"
proof -
  obtain f' n where m: "modify_btree 1 plain_snappy (id_request [([1], demo_value 7)]) demo_file () None = Some (f', (), Some n, None)" "tf_pos f' < 10000"
    "mem_q f' = []" "io_q f' = []" by (rule demo_modify)
  let ?db = "\<lparr>db_file = f', hdr = new_header (Some n)\<rparr>"
  define kvs where "kvs = upd ebin_cmp [] (mq_actions (id_request [([1], demo_value 7)]))"
  obtain h where r: "root_at plain_snappy id_reduced f' h (Some n) kvs"
    using modify_by_id_pairs [OF demo_packer demo_hyps(1-3) zero_less_one demo_hyps(4-6), of "()"] m(1,2) by (auto simp: kvs_def)
  have a: "appends demo_file f'" by (rule modify_btree_appends [OF m(1)])
  have "unmarked (contents demo_file) 4090" by (simp add: unmarked_def demo_file_def)
  then have u: "unmarked (contents f') (tf_pos f')" using a unmarked_le [of "contents f'" 4090 "tf_pos f'"] by (simp add: appends_def grows_def demo_file_def)
  have "unat (np_pointer n) < tf_pos f'" using r node_at_pos by (fastforce simp: root_at_def valid_def)
  moreover have "length (np_reduce_value n) = 16" using r by (simp add: root_at_def id_reduced_def encode_by_id_reduce_def)
  ultimately have ok: "header_ok (new_header (Some n)) (header_start (tf_pos f'))"
    using header_start(2) [of "tf_pos f'"] header_start_le [of "tf_pos f'"] m(2) by (simp add: header_ok_def new_header_def root_ok_def COUCH_BLOCK_SIZE_def)
  obtain db1 where c: "couchstore_commit ?db = Some (db1, None)" using commit_ok [of ?db] m(3,4) u ok by auto
  have kv: "id_pairs kvs" "map_of kvs = [[1] \<mapsto> demo_value 7]"
    using id_pairs_upd [OF demo_hyps(4,5)] by (simp_all add: kvs_def id_request_def apply_act_def)
  have "\<exists>db2 n2 f3 rq'. couchstore_open_db False \<lparr>db_file = (db_file db1)\<lparr>io_q := [], mem_q := []\<rparr>, hdr = new_header None\<rparr> = Some (db2, None) \<and> by_id_root (hdr db2) = Some n2 \<and>
     btree_lookup (Suc h) plain_snappy (db_file db2) (log_request [[1]] False) (np_pointer n2) = Some (f3, rq', None) \<and>
     callback_ctx rq' = fst (fetch_callback (log_request [[1]] False) (callback_ctx (log_request [[1]] False)) [1] (map_of kvs [1]))"
    by (rule committed_lookup [of ?db n plain_snappy h kvs, OF _ _ _ _ _ _ kv(1) _ c rtranclp.rtrancl_refl log_request_plain])
       (use m u ok r in \<open>simp_all add: log_request_def new_header_def\<close>)
  then show ?thesis using m(1) c kv(2) by (fastforce simp: log_request_def)
qed

end
