(* ===== verification/Spec2Isabelle.thy ===== *)
theory Spec2Isabelle
  imports Crc32 Md5 VbucketRoute JenkinsHash DefaultEngine Session CouchStuck CouchDb
begin

text \<open>
  Verification of the C core of the couchbase stack this repository packages (\<open>src/cbase\<close>).

  \<^bold>\<open>Parts.\<close>  A client finds the server of a key with libvbucket: it parses the cluster
  configuration, hashes the key and reads the vbucket map, or bisects the ketama ring.  The server
  is memcached with the default engine, which keeps items in a hash table and in per-class queues
  and takes their memory from a slab allocator; the server hashes the keys for it and parses its
  configuration string.  couchstore keeps documents in append-only files: chunks with a checksum, trees of nodes that
  are such chunks, and headers with the roots of the trees.

  \<^bold>\<open>Theories.\<close>
    \<^item> \<open>Prelude\<close>: machine types, lists, maybe-failing calls, the lemmas the components share.
    \<^item> \<open>Crc32\<close>: the table-driven CRC of \<open>libvbucket/src/crc32.c\<close> and \<open>couchstore/src/crc32.c\<close>;
      equal to the bitwise CRC-32, and injective in every single byte.
    \<^item> \<open>Md5\<close>: \<open>libvbucket/src/rfc1321\<close> and \<open>ketama.c\<close>; block by block updates compute the digest of
      the padded message, independently of how the input is cut.
    \<^item> \<open>Cjson\<close>: the document tree of \<open>libvbucket/src/cJSON.c\<close> and its accessors.
    \<^item> \<open>Vbucket\<close>, \<open>VbucketParse\<close>, \<open>VbucketRoute\<close>: \<open>libvbucket/src/vbucket.c\<close>.  Parsing gives a
      well-formed configuration or an error and never reads out of bounds; routing, the ketama
      bisection, the reaction to a wrong master, and the comparison of two configurations.
    \<^item> \<open>Slabs\<close>: \<open>default_engine/slabs.c\<close>; chunks are never handed out twice.
    \<^item> \<open>Engine\<close>: the state of \<open>default_engine.h\<close> as a record and linked lists in a store.
    \<^item> \<open>Assoc\<close>: \<open>default_engine/assoc.c\<close>; the hash table refines a finite map across expansions that
      a maintenance thread performs bucket by bucket.
    \<^item> \<open>Util\<close>: number parsing and byte order of \<open>memcached/utilities/util.c\<close>; decimal text is parsed back.
    \<^item> \<open>ConfigParser\<close>: \<open>memcached/utilities/config_parser.c\<close>; typed settings stay typed, a rendered
      configuration is read back, and what happens to empty values, unknown keys and large units.
    \<^item> \<open>JenkinsHash\<close>: \<open>memcached/daemon/hash.c\<close>; the three ways of reading a key agree.
    \<^item> \<open>Lru\<close>: the per-class queues of \<open>default_engine/items.c\<close> as doubly linked lists.
    \<^item> \<open>Items\<close>: the item layer of \<open>default_engine/items.c\<close>: allocation, linking, references, lookup, storage
      commands, arithmetic, flush and statistics.
    \<^item> \<open>ItemsInv\<close>: the invariant \<open>cache_inv\<close> that ties hash table, queues, slabs and items together, and the
      effect of lookup, storage commands and release on the map from keys to items.
    \<^item> \<open>ItemAlloc\<close>: allocation.  What may be evicted, that the chunk is not in use, and the way of a set from the
      allocation to the lookup.  Coming pages of \<open>malloc\<close> are assumed to be new memory (\<open>pages_fresh\<close>).
    \<^item> \<open>ItemKept\<close>, \<open>ItemAppend\<close>, \<open>ItemArith\<close>: the commands that allocate on behalf of a key: append, prepend,
      increment and decrement.  The item they work on is in use and recent, so it is not evicted.
    \<^item> \<open>ItemRefs\<close>, \<open>Session\<close>: clients of the item layer.  \<open>ItemRefs\<close> shows for each operation that reference counts
      are exact; \<open>Session\<close> makes the operations the steps of a state machine (\<open>client_op\<close>, \<open>session_step\<close>) with the rules
      clients keep (\<open>allowed\<close>) and shows what holds in every reachable state.  The root theory starts it from
      \<open>create_instance\<close> and \<open>default_initialize\<close>.
    \<^item> \<open>ItemWalk\<close>: the scrubber and the tap walker, which move a cursor through the queues.
    \<^item> \<open>DefaultEngine\<close>: \<open>default_engine/default_engine.c\<close>: creation and initialisation, which establish
      \<open>cache_inv\<close>; the operations of the engine interface; vbucket states and their commands over the binary
      protocol; tap connections.
    \<^item> \<open>CouchFormat\<close>: the byte formats of couchstore (\<open>bitfield.h\<close>, \<open>node_types.c\<close>, parts of \<open>util.c\<close> and
      \<open>btree_modify.c\<close>): what is encoded is decoded again, within the widths of the fields.
    \<^item> \<open>CouchFile\<close>: \<open>couch_file_write.c\<close> and \<open>couch_file_read.c\<close>: chunks in blocks that start with a mark byte.  A
      chunk survives all later writes, and a changed byte is noticed.
    \<^item> \<open>CouchBtree\<close>: \<open>btree_read.c\<close>: lookup of keys and iteration over a tree of any height.
    \<^item> \<open>CouchModify\<close>: \<open>btree_modify.c\<close>: requests of inserts, removals and fetches, and building a tree from its pairs.
    \<^item> \<open>CouchGrow\<close>: no operation on a tree changes what was written before, and none leaves the mark of a header.
    \<^item> \<open>CouchUpdate\<close>, \<open>CouchApply\<close>: a request on a tree in the file gives a tree with the pairs that the specification \<open>upd\<close> merges;
      \<open>CouchUpdate\<close> has the specification and the collecting of nodes, \<open>CouchApply\<close> the recursion over the nodes and the new root.
    \<^item> \<open>CouchReduce\<close>: \<open>reduces.c\<close>: the counts of documents in the nodes of the two indexes.
    \<^item> \<open>CouchTrees\<close>: the by-id index as a finite map, a lookup after a change, old trees, new trees, and a failed allocation.
    \<^item> \<open>CouchStuck\<close>: building a tree from very long keys does not end.
    \<^item> \<open>CouchDb\<close>: the headers of \<open>couch_db.c\<close>: a commit survives whatever is written behind it, and its documents are found again.

  \<^bold>\<open>Interfaces.\<close>  The locale \<open>item_table\<close> is what the item layer uses of the hash table, interpreted as \<open>ht\<close> on the
  operations of \<open>Assoc\<close>; the locale \<open>config_reader\<close> is what the parser uses of the reader of included files,
  interpreted as \<open>rcf\<close> on \<open>read_config_file\<close>; the locale \<open>key_order\<close> is what a tree needs of the comparison of its
  keys, interpreted as \<open>ebin\<close> on \<open>ebin_cmp\<close> and as \<open>seqo\<close> on \<open>seq_cmp\<close>, the orders of the two indexes.  The locale \<open>reducer\<close> is
  what changing a tree uses of its reduce functions, and \<open>tree_kind\<close> puts it together with the order; the interpretations
  \<open>by_id\<close>, \<open>by_seq\<close> and \<open>local_docs\<close> on the functions of \<open>CouchReduce\<close> are the three trees of a database.

  \<^bold>\<open>Conventions.\<close>  A C structure is a record, \<open>uintN_t\<close> is a word of N bits, a pointer is a natural
  number with \<open>NULL\<close> 0, an array a list.  Operations pass the state explicitly.  \<open>None\<close> is a failed
  \<open>assert\<close> or an invalid dereference; libvbucket has its own error type.  What the environment
  decides (whether an allocation succeeds and where it is, how \<open>qsort\<close> orders equal elements, the
  hash function and the clock of the server, how many bytes a read or write transfers, the snappy library) is a
  parameter or a queue in the state.  Every operation
  of the engine runs under the cache lock, so interleavings are sequences of operations.

  \<^bold>\<open>Loops.\<close>  Structural recursion where the data is a list; \<open>function\<close> with a measure for the
  bisection, the parser and the block loops of the hash function; \<open>partial_function\<close> for walks along
  pointers, where the invariants show that the walk returns.  Configuration files may include each other; the
  recursion is bounded by the number of files the process may still open, behind which \<open>fopen\<close> fails.
  The search in a couchstore tree and its change are bounded by a depth; any bound above the height of the tree gives the result.
  The loop that stacks levels on a tree is a \<open>partial_function\<close>: it returns for changes, and for new trees with keys of at most 333 bytes.

  \<^bold>\<open>Hypotheses on trees.\<close>  \<open>packer sn N\<close> asks of the compression library that buffers of up to \<open>N\<close> bytes come back as they were and do
  not grow beyond \<open>2^31\<close>; \<open>fits N kvs\<close> that all pairs together, and the pointers to as many nodes, stay below \<open>N\<close>, which bounds each
  node; \<open>served f\<close> that the file operations and allocations to come succeed, reads and writes being possibly short.  Positions have
  48 bits on disk, so results speak of files below \<open>2^48\<close> bytes.  An arena is modelled by whether its allocations succeed.

  \<^bold>\<open>Not modelled.\<close>  Socket and thread code of the daemon, moxi and vbucketmigrator, the Erlang
  cluster manager, the Python tools, and the third-party packages (MySQL and others) that are only
  packaged here.  Of the daemon only the hash function is modelled, in its little-endian build.  Of couchstore the
  documents and their information records, the copying of documents in a compaction, views and the buffered file operations are not modelled.  Locks, logging
  and trace probes have no counterpart; floating-point operations (the growth factor of the slab classes) are
  parameters.  The operations on items are proved for a cache without cursors in its queues; flush and the item
  statistics are modelled without theorems about their effect on the whole cache.  Append and increment are
  proved for clocks that do not wrap within three hours and for values that the client has written in full.
\<close>

section \<open>From the start of the engine to its clients\<close>

lemma start_accounted:
  assumes "cache_inv e Map.empty (\<lambda>_. []) {}" "POWER_SMALLEST \<le> power_largest (slabs e)" "power_largest (slabs e) < POWER_LARGEST"
    "current_time e < - TAIL_REPAIR_TIME"
  shows "accounted (e, \<lambda>_. 0)"
proof -
  have "counted e Map.empty (\<lambda>_. []) {} (\<lambda>_. 0)" by (rule countedI [OF assms(1)]) simp_all
  then show ?thesis using assms(2-4) by (auto simp: accounted_def)
qed


text \<open>A growth factor that leaves a single slab class.\<close>

definition one_class :: "nat float_ops" where
  "one_class = \<lparr>f_strtof = demo_strtof, f_scale = \<lambda>_. demo_scale, f_fits = \<lambda>_ _ _. False\<rparr>"


end
